(* ===== verification/Guardian_Prelude.thy ===== *)
theory Guardian_Prelude
  imports Main "HOL-Library.Word" "HOL-Library.Multiset"
begin

text \<open>
  Shared material of the development: the machine types, the faults a C++ statement of the
  simulator or of a kernel can end in, sequencing of fallible steps, array access with the
  bounds written out, and the generic lemmas on lists and words the components share.
\<close>

unbundle bit_operations_syntax

section \<open>Machine types\<close>

type_synonym u8 = "8 word"
type_synonym u16 = "16 word"
type_synonym u32 = "32 word"
type_synonym u64 = "64 word"

text \<open>Conversion of a \<open>uint64_t\<close> argument to an \<open>int\<close> parameter: the low 32 bits, signed.\<close>

definition int_of_u64 :: "u64 \<Rightarrow> int" where
  "int_of_u64 w = sint (ucast w :: u32)"

lemma int_of_u64_small: "unat w < 2 ^ 31 \<Longrightarrow> int_of_u64 w = int (unat w)"
proof -
  assume small: "unat w < 2 ^ 31"
  have "unat (ucast w :: u32) = unat w mod 2 ^ 32"
    by (simp add: unsigned_ucast_eq take_bit_eq_mod)
  with small have u: "unat (ucast w :: u32) = unat w" by simp
  have "sint (ucast w :: u32) = signed_take_bit 31 (uint (ucast w :: u32))"
    by (simp add: sint_uint)
  also have "\<dots> = uint (ucast w :: u32)"
  proof (rule signed_take_bit_int_eq_self)
    show "- (2 ^ 31) \<le> uint (ucast w :: u32)"
      by (rule order_trans [OF _ unsigned_greater_eq]) simp
    show "uint (ucast w :: u32) < 2 ^ 31"
      using small u by (metis of_nat_less_iff of_nat_numeral of_nat_power uint_nat)
  qed
  finally show ?thesis
    unfolding int_of_u64_def by (simp only: uint_nat u)
qed

section \<open>Faults and sequencing\<close>

text \<open>
  \<open>AssertFail\<close> is a failed \<open>assert\<close> (the simulator is built as \<open>gem5.opt\<close>, which keeps
  assertions); \<open>OutOfBounds\<close> is an access outside an array, \<open>Uninitialised\<close> the read of an
  indeterminate value and \<open>BadShift\<close> a shift by at least the width of its operand (all three
  undefined behaviour); \<open>DivByZero\<close> is an integer division by zero; \<open>Panic\<close> is \<open>panic\<close> or \<open>fatal\<close>; \<open>Diverges\<close> marks a loop that never
  ends.
\<close>

datatype fault =
  AssertFail | OutOfBounds | Uninitialised | BadShift | DivByZero | Panic | Diverges

type_synonym 'a res = "fault + 'a"

definition bindE :: "'a res \<Rightarrow> ('a \<Rightarrow> 'b res) \<Rightarrow> 'b res" where
  "bindE m k = (case m of Inl e \<Rightarrow> Inl e | Inr x \<Rightarrow> k x)"

lemma bindE_simps [simp]:
  "bindE (Inl e) k = Inl e"
  "bindE (Inr x) k = k x"
  by (simp_all add: bindE_def)

lemma bindE_Inr_iff: "bindE m k = Inr y \<longleftrightarrow> (\<exists>x. m = Inr x \<and> k x = Inr y)"
  by (cases m) simp_all

lemma bindE_Inl_iff: "bindE m k = Inl e \<longleftrightarrow> m = Inl e \<or> (\<exists>x. m = Inr x \<and> k x = Inl e)"
  by (cases m) auto

lemma bindE_cong [fundef_cong]:
  "m = m' \<Longrightarrow> (\<And>x. m' = Inr x \<Longrightarrow> k x = k' x) \<Longrightarrow> bindE m k = bindE m' k'"
  by (cases m') simp_all

definition assertE :: "bool \<Rightarrow> unit res" where
  "assertE b = (if b then Inr () else Inl AssertFail)"

lemma assertE_simps [simp]:
  "assertE b = Inr u \<longleftrightarrow> b"
  "assertE b = Inl e \<longleftrightarrow> \<not> b \<and> e = AssertFail"
  "assertE True = Inr ()"
  by (auto simp: assertE_def)

section \<open>Arrays\<close>

text \<open>A C array is a list of its length; an access outside the list is a fault.\<close>

definition in_arr :: "int \<Rightarrow> 'a list \<Rightarrow> bool" where
  "in_arr i xs \<longleftrightarrow> 0 \<le> i \<and> i < int (length xs)"

definition rd :: "'a list \<Rightarrow> int \<Rightarrow> 'a res" where
  "rd xs i = (if in_arr i xs then Inr (xs ! nat i) else Inl OutOfBounds)"

definition wr :: "'a list \<Rightarrow> int \<Rightarrow> 'a \<Rightarrow> 'a list res" where
  "wr xs i v = (if in_arr i xs then Inr (xs[nat i := v]) else Inl OutOfBounds)"

lemma in_arr_of_nat [simp]: "in_arr (int n) xs \<longleftrightarrow> n < length xs"
  by (simp add: in_arr_def)

lemma rd_of_nat: "n < length xs \<Longrightarrow> rd xs (int n) = Inr (xs ! n)"
  by (simp add: rd_def)

lemma wr_of_nat: "n < length xs \<Longrightarrow> wr xs (int n) v = Inr (xs[n := v])"
  by (simp add: wr_def)

lemma rd_Inr_iff: "rd xs i = Inr v \<longleftrightarrow> 0 \<le> i \<and> nat i < length xs \<and> v = xs ! nat i"
  by (auto simp: rd_def in_arr_def)

lemma wr_Inr_iff: "wr xs i v = Inr ys \<longleftrightarrow> 0 \<le> i \<and> nat i < length xs \<and> ys = xs[nat i := v]"
  by (auto simp: wr_def in_arr_def)

section \<open>Lists\<close>

lemma sum_list_update_nat:
  "i < length xs \<Longrightarrow> sum_list (xs[i := v]) + xs ! i = sum_list xs + (v :: nat)"
  by (induction xs arbitrary: i) (auto split: nat.splits)

lemma sum_list_mset_eq: "mset xs = mset ys \<Longrightarrow> sum_list xs = sum_list (ys :: 'a :: comm_monoid_add list)"
  by (metis sum_mset_sum_list)

lemma mset_filter_split:
  assumes "\<And>x. R x \<longleftrightarrow> P x \<or> Q x" and "\<And>x. \<not> (P x \<and> Q x)"
  shows "mset (filter R xs) = mset (filter P xs @ filter Q xs)"
  by (induction xs) (use assms in auto)

section \<open>Words\<close>

lemma unat_div_u64: "unat (a div b :: u64) = unat a div unat b"
  by (rule unat_div)

lemma unat_mult_small: "unat a * unat b < 2 ^ 64 \<Longrightarrow> unat (a * b :: u64) = unat a * unat b"
  by (simp add: unat_word_ariths)

lemma and_le_nat: "a AND b \<le> (b :: nat)"
proof -
  have "int (a AND b) \<le> int b" unfolding of_nat_and_eq by (rule AND_upper2) simp
  then show ?thesis by simp
qed

lemma unat_drop_bit: "unat (drop_bit n (w :: 'a::len word)) = unat w div 2 ^ n"
  by (subst unat_drop_bit_eq) (rule drop_bit_eq_div)

lemma and_exp_word: "w AND 2 ^ n = (if bit w n then 2 ^ n else (0 :: 'a::len word))"
  by (rule bit_word_eqI) (auto simp: bit_simps)

lemma sint_small: "unat (w :: u32) < 2 ^ 31 \<Longrightarrow> sint w = int (unat w)"
proof -
  assume "unat w < 2 ^ 31"
  then have "uint w < 2 ^ 31" by (metis of_nat_less_iff of_nat_numeral of_nat_power uint_nat)
  moreover have "- (2 ^ 31) \<le> uint w" by (rule order_trans [OF _ unsigned_greater_eq]) simp
  ultimately have s: "signed_take_bit 31 (uint w) = uint w" by (intro signed_take_bit_int_eq_self)
  have "sint w = signed_take_bit 31 (uint w)" by (simp add: sint_uint)
  also note s
  also have "uint w = int (unat w)" by (rule uint_nat)
  finally show ?thesis .
qed

end
