(* ===== verification/Delay_Histogram.thy ===== *)
theory Delay_Histogram
  imports Guardian_Prelude
begin

text \<open>
  The delay histogram of the Guardian Council's log (struct \<open>histoEntry\<close>, \<open>addToHisto\<close> and
  \<open>printHisto\<close> of \<open>src/mem/cache/securelogentry.hh\<close>): 500 buckets over a range that doubles
  until it covers the delay being recorded, with the buckets merged in pairs at each doubling,
  and one overflow bucket. The reference is the histogram computed from the list of all recorded
  delays in one go; the lemmas show that the incremental code computes it.
\<close>

section \<open>Buckets\<close>

definition NUMBEROFHISTOENTRIES :: nat where
  "NUMBEROFHISTOENTRIES = 500"

definition BIGBUCKETLIMIT :: u64 where
  "BIGBUCKETLIMIT = 20480000"

record histoEntry =
  number :: u64
  mean :: u64
  minimum :: u64
  maximum :: u64

definition histoEntry_new :: histoEntry where
  "histoEntry_new = \<lparr>number = 0, mean = 0, minimum = - 1, maximum = 0\<rparr>"

definition add_entry :: "histoEntry \<Rightarrow> u64 \<Rightarrow> histoEntry" where
  "add_entry h time =
     h\<lparr>mean := mean h + time,
       number := number h + 1,
       minimum := (if time < minimum h then time else minimum h),
       maximum := (if time > maximum h then time else maximum h)\<rparr>"

definition merge :: "histoEntry \<Rightarrow> histoEntry \<Rightarrow> histoEntry" where
  "merge entry1 entry2 =
     \<lparr>number = number entry1 + number entry2,
      mean = mean entry1 + mean entry2,
      minimum = (if minimum entry2 > minimum entry1 then minimum entry1 else minimum entry2),
      maximum = (if maximum entry2 > maximum entry1 then maximum entry2 else maximum entry1)\<rparr>"

section \<open>The histogram\<close>

record histo =
  histoEntries :: "histoEntry list"
  bigBucket :: histoEntry
  maxHistoSize :: u64
  minTime :: u64
  maxTime :: u64
  meanTime :: u64
  times :: u64

definition histo_init :: histo where
  "histo_init =
     \<lparr>histoEntries = replicate NUMBEROFHISTOENTRIES histoEntry_new, bigBucket = histoEntry_new,
      maxHistoSize = 100000, minTime = - 1, maxTime = 0, meanTime = 0, times = 0\<rparr>"

text \<open>
  The two inner loops of a doubling, in place: pair \<open>x, x + 1\<close> (with \<open>x = 2 * i\<close>) is merged into
  slot \<open>x / 2\<close>, then the upper half is cleared.
\<close>

definition merge_step :: "nat \<Rightarrow> histoEntry list \<Rightarrow> histoEntry list" where
  "merge_step i hs = hs[i := merge (hs ! (2 * i)) (hs ! (2 * i + 1))]"

definition merge_loop :: "histoEntry list \<Rightarrow> histoEntry list" where
  "merge_loop hs = fold merge_step [0..<NUMBEROFHISTOENTRIES div 2] hs"

definition clear_loop :: "histoEntry list \<Rightarrow> histoEntry list" where
  "clear_loop hs =
     fold (\<lambda>x hs. hs[x := histoEntry_new]) [NUMBEROFHISTOENTRIES div 2..<NUMBEROFHISTOENTRIES] hs"

definition double_range :: "histo \<Rightarrow> histo" where
  "double_range h =
     h\<lparr>maxHistoSize := maxHistoSize h * 2,
       histoEntries := clear_loop (merge_loop (histoEntries h))\<rparr>"

partial_function (option) grow_histo :: "u64 \<Rightarrow> histo \<Rightarrow> histo option" where
  "grow_histo time h =
     (if maxHistoSize h < time then grow_histo time (double_range h) else Some h)"

definition addToHisto :: "u64 \<Rightarrow> histo \<Rightarrow> histo res" where
  "addToHisto time h =
     (let h1 = h\<lparr>times := times h + 1,
                 meanTime := meanTime h + time,
                 maxTime := (if maxTime h < time then time else maxTime h),
                 minTime := (if minTime h > time then time else minTime h)\<rparr>
      in if time > BIGBUCKETLIMIT
         then Inr (h1\<lparr>bigBucket := add_entry (bigBucket h1) time\<rparr>)
         else case grow_histo time h1 of
                None \<Rightarrow> Inl Diverges
              | Some h2 \<Rightarrow>
                  if maxHistoSize h2 = 0 then Inl DivByZero
                  else let index = uint ((of_nat NUMBEROFHISTOENTRIES * time) div maxHistoSize h2)
                       in bindE (rd (histoEntries h2) index) (\<lambda>e.
                          bindE (wr (histoEntries h2) index (add_entry e time)) (\<lambda>es.
                          Inr (h2\<lparr>histoEntries := es\<rparr>))))"

fun record_delays :: "u64 list \<Rightarrow> histo \<Rightarrow> histo res" where
  "record_delays [] h = Inr h"
| "record_delays (t # ts) h = bindE (addToHisto t h) (record_delays ts)"

text \<open>
  \<open>printHisto\<close> prints nothing while no delay was recorded. Otherwise it prints a summary (mean,
  maximum, minimum), one row per bucket (lower bound, count, minimum, maximum, mean), one row for
  the overflow bucket, and writes one line per bucket (mean delay, or the lower bound of an empty
  bucket, and count) to \<open>m5out/delays.txt\<close>. The values are modelled, not their layout.
\<close>

record histo_report =
  rep_summary :: "u64 \<times> u64 \<times> u64"
  rep_rows :: "(u64 \<times> u64 \<times> u64 \<times> u64 \<times> u64) list"
  rep_big :: "u64 \<times> u64 \<times> u64 \<times> u64"
  rep_file :: "(u64 \<times> u64) list"

definition row_values :: "histoEntry \<Rightarrow> u64 \<times> u64 \<times> u64 \<times> u64" where
  "row_values h =
     (number h, (if minimum h = - 1 then 0 else minimum h), maximum h,
      (if number h = 0 then 0 else mean h div number h))"

definition row_low :: "histo \<Rightarrow> nat \<Rightarrow> u64" where
  "row_low h x = (of_nat x * maxHistoSize h) div of_nat NUMBEROFHISTOENTRIES"

definition printHisto :: "histo \<Rightarrow> histo_report option" where
  "printHisto h =
     (if times h = 0 then None
      else Some
        \<lparr>rep_summary = (meanTime h div times h, maxTime h, minTime h),
         rep_rows = map (\<lambda>x. (row_low h x, row_values (histoEntries h ! x)))
                      [0..<NUMBEROFHISTOENTRIES],
         rep_big = row_values (bigBucket h),
         rep_file = map (\<lambda>x. let e = histoEntries h ! x in
                      (if number e = 0 then row_low h x else mean e div number e, number e))
                      [0..<NUMBEROFHISTOENTRIES]\<rparr>)"

section \<open>The reference histogram\<close>

definition least_of :: "u64 list \<Rightarrow> u64" where
  "least_of ts = Min (insert (- 1) (set ts))"

definition greatest_of :: "u64 list \<Rightarrow> u64" where
  "greatest_of ts = Max (insert 0 (set ts))"

definition summary :: "u64 list \<Rightarrow> histoEntry" where
  "summary ts =
     \<lparr>number = of_nat (length ts), mean = sum_list ts,
      minimum = least_of ts, maximum = greatest_of ts\<rparr>"

definition bucket :: "nat \<Rightarrow> u64 \<Rightarrow> nat" where
  "bucket M t = (NUMBEROFHISTOENTRIES * unat t) div M"

definition ref_entries :: "nat \<Rightarrow> u64 list \<Rightarrow> histoEntry list" where
  "ref_entries M ts =
     map (\<lambda>x. summary (filter (\<lambda>t. t \<le> BIGBUCKETLIMIT \<and> bucket M t = x) ts))
       [0..<NUMBEROFHISTOENTRIES]"

definition reference_histo :: "nat \<Rightarrow> u64 list \<Rightarrow> histo" where
  "reference_histo M ts =
     \<lparr>histoEntries = ref_entries M ts,
      bigBucket = summary (filter (\<lambda>t. t > BIGBUCKETLIMIT) ts),
      maxHistoSize = of_nat M,
      minTime = least_of ts, maxTime = greatest_of ts,
      meanTime = sum_list ts, times = of_nat (length ts)\<rparr>"

text \<open>The range after recording a delay: doubled until it reaches the delay.\<close>

function grown :: "nat \<Rightarrow> nat \<Rightarrow> nat" where
  "grown M t = (if 0 < M \<and> M < t then grown (2 * M) t else M)"
  by pat_completeness auto
termination
  by (relation "measure (\<lambda>(M, t). t - M)") auto

declare grown.simps [simp del]

definition next_range :: "u64 \<Rightarrow> nat \<Rightarrow> nat" where
  "next_range t M = (if t \<le> BIGBUCKETLIMIT then grown M (unat t) else M)"

definition range_after :: "u64 list \<Rightarrow> nat" where
  "range_after ts = fold next_range ts 100000"

text \<open>
  The sequences of delays that stay inside the bucket array: each delay is above the overflow limit
  or below the range that recording it leads to.
\<close>

definition inside :: "u64 \<Rightarrow> nat \<Rightarrow> bool" where
  "inside t M \<longleftrightarrow> BIGBUCKETLIMIT < t \<or> unat t < next_range t M"

fun fits :: "nat \<Rightarrow> u64 list \<Rightarrow> bool" where
  "fits M [] \<longleftrightarrow> True"
| "fits M (t # ts) \<longleftrightarrow> inside t M \<and> fits (next_range t M) ts"

text \<open>Every delay that went into a bucket lies below the current range.\<close>

definition covers :: "nat \<Rightarrow> u64 list \<Rightarrow> bool" where
  "covers M ts \<longleftrightarrow> (\<forall>t \<in> set ts. t \<le> BIGBUCKETLIMIT \<longrightarrow> unat t < M)"

section \<open>Bucket summaries\<close>

lemma least_of_simps [simp]:
  "least_of [] = - 1"
  "least_of (xs @ ys) = min (least_of xs) (least_of ys)"
  "least_of [t] = t"
proof -
  have "insert (- 1) (set (xs @ ys)) = insert (- 1) (set xs) \<union> insert (- 1) (set ys)" by auto
  then show "least_of (xs @ ys) = min (least_of xs) (least_of ys)"
    unfolding least_of_def by (metis List.finite_set Min_Un finite_insert insert_not_empty)
qed (use word_n1_ge [of t] in \<open>auto simp: least_of_def min_def intro: order.antisym\<close>)

lemma greatest_of_simps [simp]:
  "greatest_of [] = 0"
  "greatest_of (xs @ ys) = max (greatest_of xs) (greatest_of ys)"
  "greatest_of [t] = t"
proof -
  have "insert 0 (set (xs @ ys)) = insert 0 (set xs) \<union> insert 0 (set ys)" by auto
  then show "greatest_of (xs @ ys) = max (greatest_of xs) (greatest_of ys)"
    unfolding greatest_of_def by (metis List.finite_set Max_Un finite_insert insert_not_empty)
qed (simp_all add: greatest_of_def max_def)

lemma summary_Nil [simp]: "summary [] = histoEntry_new"
  by (simp add: summary_def histoEntry_new_def)

lemma summary_mset: "mset xs = mset ys \<Longrightarrow> summary xs = summary ys"
  by (metis summary_def least_of_def greatest_of_def mset_eq_length mset_eq_setD sum_list_mset_eq)

lemma if_less_min: "(if a < b then a else b) = min b (a :: 'a :: linorder)"
  by (auto simp: min_def)

lemma if_less_max: "(if b < a then a else b) = max b (a :: 'a :: linorder)"
  by (auto simp: max_def)

lemma add_entry_summary: "add_entry (summary ts) t = summary (ts @ [t])"
  by (simp add: add_entry_def summary_def if_less_min if_less_max)

lemma merge_summary: "merge (summary xs) (summary ys) = summary (xs @ ys)"
  by (simp add: merge_def summary_def if_less_min if_less_max min.commute)

section \<open>A doubling step\<close>

lemma length_merge_loop_upto [simp]: "length (fold merge_step is hs) = length hs"
  by (induction "is" arbitrary: hs) (auto simp: merge_step_def)

lemma nth_merge_loop_upto:
  "2 * n \<le> length hs \<Longrightarrow> i < length hs \<Longrightarrow>
   fold merge_step [0..<n] hs ! i =
     (if i < n then merge (hs ! (2 * i)) (hs ! (2 * i + 1)) else hs ! i)"
proof (induction n arbitrary: i)
  case 0
  then show ?case by simp
next
  case (Suc n)
  have "fold merge_step [0..<n] hs ! (2 * n) = hs ! (2 * n)"
    and "fold merge_step [0..<n] hs ! (2 * n + 1) = hs ! (2 * n + 1)" if "0 < n"
    using Suc.IH [of "2 * n"] Suc.IH [of "2 * n + 1"] Suc.prems that by auto
  then have "merge_step n (fold merge_step [0..<n] hs)
      = (fold merge_step [0..<n] hs)[n := merge (hs ! (2 * n)) (hs ! (2 * n + 1))]"
    by (cases "n = 0") (auto simp: merge_step_def)
  then show ?case
    using Suc.IH [of i] Suc.prems by (auto simp: nth_list_update)
qed

lemma length_clear_upto [simp]: "length (fold (\<lambda>x hs. hs[x := e]) is hs) = length hs"
  by (induction "is" arbitrary: hs) auto

lemma nth_clear_upto:
  "n \<le> length hs \<Longrightarrow> i < length hs \<Longrightarrow>
   fold (\<lambda>x hs. hs[x := e]) [m..<n] hs ! i = (if m \<le> i \<and> i < n then e else hs ! i)"
proof (induction n)
  case (Suc n)
  then show ?case
    by (cases "i = n") (auto simp: less_Suc_eq)
qed simp

lemma length_ref_entries [simp]: "length (ref_entries M ts) = NUMBEROFHISTOENTRIES"
  by (simp add: ref_entries_def)

lemma nth_ref_entries:
  "x < NUMBEROFHISTOENTRIES \<Longrightarrow>
   ref_entries M ts ! x = summary (filter (\<lambda>t. t \<le> BIGBUCKETLIMIT \<and> bucket M t = x) ts)"
  by (simp add: ref_entries_def)

lemma bucket_double: "bucket (2 * M) t = bucket M t div 2"
  unfolding bucket_def by (metis div_mult2_eq mult.commute)

lemma bucket_upper_half_empty:
  assumes "unat t < M" shows "bucket (2 * M) t < NUMBEROFHISTOENTRIES div 2"
proof -
  have "NUMBEROFHISTOENTRIES * unat t < NUMBEROFHISTOENTRIES div 2 * (2 * M)"
    using assms by (simp add: NUMBEROFHISTOENTRIES_def)
  then show ?thesis
    using less_mult_imp_div_less unfolding bucket_def by blast
qed

lemma merge_buckets:
  "merge (summary (filter (\<lambda>t. P t \<and> bucket M t = 2 * i) ts))
         (summary (filter (\<lambda>t. P t \<and> bucket M t = 2 * i + 1) ts))
   = summary (filter (\<lambda>t. P t \<and> bucket (2 * M) t = i) ts)"
proof -
  have "mset (filter (\<lambda>t. P t \<and> bucket (2 * M) t = i) ts)
      = mset (filter (\<lambda>t. P t \<and> bucket M t = 2 * i) ts
              @ filter (\<lambda>t. P t \<and> bucket M t = 2 * i + 1) ts)"
    by (rule mset_filter_split) (auto simp: bucket_double)
  then show ?thesis
    unfolding merge_summary by (intro summary_mset) simp
qed

lemma double_entries:
  assumes "covers M ts"
  shows "clear_loop (merge_loop (ref_entries M ts)) = ref_entries (2 * M) ts"
proof (rule nth_equalityI)
  show "length (clear_loop (merge_loop (ref_entries M ts))) = length (ref_entries (2 * M) ts)"
    by (simp add: clear_loop_def merge_loop_def)
next
  fix i assume "i < length (clear_loop (merge_loop (ref_entries M ts)))"
  then have i: "i < NUMBEROFHISTOENTRIES"
    by (simp add: clear_loop_def merge_loop_def)
  show "clear_loop (merge_loop (ref_entries M ts)) ! i = ref_entries (2 * M) ts ! i"
  proof (cases "i < NUMBEROFHISTOENTRIES div 2")
    case True
    then have "2 * i < NUMBEROFHISTOENTRIES" "2 * i + 1 < NUMBEROFHISTOENTRIES"
      by (simp_all add: NUMBEROFHISTOENTRIES_def)
    with True i show ?thesis
      by (simp add: clear_loop_def merge_loop_def nth_clear_upto nth_merge_loop_upto
          nth_ref_entries merge_buckets [simplified])
  next
    case False
    have none: "filter (\<lambda>t. t \<le> BIGBUCKETLIMIT \<and> bucket (2 * M) t = i) ts = []"
      using assms bucket_upper_half_empty False by (fastforce simp: covers_def filter_empty_conv)
    from False i show ?thesis
      by (simp add: clear_loop_def merge_loop_def nth_clear_upto nth_ref_entries none)
  qed
qed

section \<open>Growing the range\<close>

lemma grown_power: "\<exists>k. grown M t = M * 2 ^ k"
proof (induction M t rule: grown.induct)
  case (1 M t)
  show ?case
  proof (cases "0 < M \<and> M < t")
    case True
    with 1 obtain k where "grown (2 * M) t = 2 * M * 2 ^ k" by blast
    with True have "grown M t = M * 2 ^ Suc k" by (simp add: grown.simps [of M t])
    then show ?thesis ..
  next
    case False
    then have "grown M t = M * 2 ^ 0" by (auto simp: grown.simps [of M t])
    then show ?thesis ..
  qed
qed

lemma grown_ge: "0 < M \<Longrightarrow> t \<le> grown M t"
proof (induction M t rule: grown.induct)
  case (1 M t)
  then show ?case
    by (cases "M < t") (auto simp: grown.simps [of M t])
qed

lemma grown_ge_range: "M \<le> grown M t"
  using grown_power [of M t] by auto

lemma grown_le: "grown M t \<le> max M (2 * t)"
proof (induction M t rule: grown.induct)
  case (1 M t)
  show ?case
  proof (cases "0 < M \<and> M < t")
    case True
    with 1 have "grown (2 * M) t \<le> max (2 * M) (2 * t)" by simp
    with True show ?thesis by (simp add: grown.simps [of M t])
  qed (auto simp: grown.simps [of M t])
qed

lemma grown_pow_self: "grown M (M * 2 ^ k) = M * 2 ^ k"
proof (induction k arbitrary: M)
  case 0
  show ?case by (simp add: grown.simps [of M M])
next
  case (Suc k)
  show ?case
  proof (cases "M = 0")
    case True
    then show ?thesis by (simp add: grown.simps [of 0])
  next
    case False
    moreover have "1 < (2 :: nat) ^ Suc k" by (rule one_less_power) simp_all
    ultimately have "M < M * 2 ^ Suc k"
      using mult_less_mono2 [of 1 "2 ^ Suc k" M] by simp
    with False have "grown M (M * 2 ^ Suc k) = grown (2 * M) (M * 2 ^ Suc k)"
      by (subst grown.simps) simp
    also have "M * 2 ^ Suc k = 2 * M * 2 ^ k" by simp
    finally show ?thesis using Suc.IH [of "2 * M"] by (simp add: mult_ac)
  qed
qed

lemma grown_eq_iff: "grown M t = t \<longleftrightarrow> (\<exists>k. t = M * 2 ^ k)"
  using grown_power [of M t] grown_pow_self by metis

lemma unat_of_nat_small: "n < 2 ^ 64 \<Longrightarrow> unat (of_nat n :: u64) = n"
  by (simp add: unat_of_nat)

lemma BIGBUCKETLIMIT_unat: "time \<le> BIGBUCKETLIMIT \<longleftrightarrow> unat time \<le> 20480000"
  by (simp add: BIGBUCKETLIMIT_def word_le_nat_alt)

lemma covers_Nil [simp]: "covers M []"
  by (simp add: covers_def)

lemma covers_mono: "covers M ts \<Longrightarrow> M \<le> M' \<Longrightarrow> covers M' ts"
  by (auto simp: covers_def intro: less_le_trans)

lemma grow_histo_reference:
  assumes "0 < M" "M \<le> 40960000" "time \<le> BIGBUCKETLIMIT" "covers M ts"
    and "maxHistoSize h = of_nat M" "histoEntries h = ref_entries M ts"
  shows "grow_histo time h =
    Some (h\<lparr>maxHistoSize := of_nat (grown M (unat time)),
            histoEntries := ref_entries (grown M (unat time)) ts\<rparr>)"
  using assms
proof (induction M "unat time" arbitrary: h rule: grown.induct)
  case (1 M)
  have cmp: "maxHistoSize h < time \<longleftrightarrow> M < unat time"
    using 1 by (simp add: word_less_nat_alt unat_of_nat_small)
  show ?case
  proof (cases "M < unat time")
    case True
    have small: "2 * M \<le> 40960000"
      using True "1.prems"(3) by (simp add: BIGBUCKETLIMIT_unat)
    have "grow_histo time (double_range h) =
        Some (double_range h\<lparr>maxHistoSize := of_nat (grown (2 * M) (unat time)),
           histoEntries := ref_entries (grown (2 * M) (unat time)) ts\<rparr>)"
      using 1 True small covers_mono [OF "1.prems"(4), of "2 * M"] double_entries [OF "1.prems"(4)]
      by (intro "1.hyps") (auto simp: double_range_def)
    then show ?thesis
      using True cmp "1.prems"(1)
      by (simp add: grow_histo.simps [of time h] grown.simps [of M "unat time"] double_range_def)
  next
    case False
    then show ?thesis
      using cmp 1 by (simp add: grow_histo.simps [of time h] grown.simps [of M "unat time"])
  qed
qed

section \<open>Recording a delay\<close>

lemma ref_entries_snoc_big:
  "\<not> t \<le> BIGBUCKETLIMIT \<Longrightarrow> ref_entries M (ts @ [t]) = ref_entries M ts"
  by (simp add: ref_entries_def)

lemma ref_entries_snoc:
  assumes "t \<le> BIGBUCKETLIMIT" "bucket M t < NUMBEROFHISTOENTRIES"
  shows "(ref_entries M ts)[bucket M t := add_entry (ref_entries M ts ! bucket M t) t]
         = ref_entries M (ts @ [t])"
  by (rule nth_equalityI)
     (use assms in \<open>auto simp: nth_list_update nth_ref_entries add_entry_summary\<close>)

lemma index_of_bucket:
  assumes "0 < M" "M < 2 ^ 64" "time \<le> BIGBUCKETLIMIT"
  shows "uint ((of_nat NUMBEROFHISTOENTRIES * time) div (of_nat M :: u64)) = int (bucket M time)"
proof -
  have "unat (of_nat NUMBEROFHISTOENTRIES * time :: u64) = 500 * unat time"
    using assms(3) by (subst unat_mult_small) (auto simp: NUMBEROFHISTOENTRIES_def BIGBUCKETLIMIT_unat)
  then have "unat ((of_nat NUMBEROFHISTOENTRIES * time) div (of_nat M :: u64)) = bucket M time"
    using assms by (simp add: unat_div unat_of_nat_small bucket_def NUMBEROFHISTOENTRIES_def)
  then show ?thesis by (simp only: uint_nat)
qed

lemma bucket_in_range:
  "0 < M \<Longrightarrow> unat t \<le> M \<Longrightarrow> bucket M t < NUMBEROFHISTOENTRIES \<longleftrightarrow> unat t \<noteq> M"
  by (auto simp: bucket_def div_less_iff_less_mult NUMBEROFHISTOENTRIES_def)

text \<open>
  One step against the reference, on every branch: an overflow delay, a delay the doubled range
  equals (the index is 500, one past the last bucket), and the rest.
\<close>

lemma addToHisto_reference:
  assumes M: "0 < M" "M \<le> 40960000" and c: "covers M ts"
  shows "addToHisto t (reference_histo M ts) =
    (if inside t M then Inr (reference_histo (next_range t M) (ts @ [t]))
     else Inl OutOfBounds)"
proof (cases "t \<le> BIGBUCKETLIMIT")
  case False
  then have "BIGBUCKETLIMIT < t" by simp
  with False show ?thesis
    by (simp add: inside_def addToHisto_def reference_histo_def next_range_def
        ref_entries_snoc_big add_entry_summary if_less_min if_less_max)
next
  case True
  let ?G = "grown M (unat t)"
  let ?h1 = "(reference_histo M ts)\<lparr>times := of_nat (length ts) + 1, meanTime := sum_list ts + t,
      maxTime := max (greatest_of ts) t, minTime := min (least_of ts) t\<rparr>"
  have grow: "grow_histo t ?h1
      = Some (?h1\<lparr>maxHistoSize := of_nat ?G, histoEntries := ref_entries ?G ts\<rparr>)"
    using M c True by (intro grow_histo_reference) (auto simp: reference_histo_def)
  have G: "0 < ?G" "?G < 2 ^ 64" "unat t \<le> ?G"
    using M grown_ge_range [of M "unat t"] grown_le [of M "unat t"] grown_ge [of M "unat t"] True
    by (auto simp: BIGBUCKETLIMIT_unat)
  have nz: "(of_nat ?G :: u64) \<noteq> 0"
    using G by (metis less_numeral_extra(3) unat_0 unat_of_nat_small)
  have idx: "uint ((of_nat NUMBEROFHISTOENTRIES * t) div (of_nat ?G :: u64)) = int (bucket ?G t)"
    using G True by (intro index_of_bucket) auto
  have ok: "bucket ?G t < NUMBEROFHISTOENTRIES \<longleftrightarrow> inside t M"
    using bucket_in_range [of ?G t] G True by (auto simp: inside_def next_range_def)
  have "addToHisto t (reference_histo M ts) =
     (if bucket ?G t < NUMBEROFHISTOENTRIES
      then Inr (?h1\<lparr>maxHistoSize := of_nat ?G,
          histoEntries := (ref_entries ?G ts)[bucket ?G t := add_entry (ref_entries ?G ts ! bucket ?G t) t]\<rparr>)
      else Inl OutOfBounds)"
    unfolding addToHisto_def Let_def if_less_min if_less_max
    using leD [OF True] grow nz
    by (simp add: reference_histo_def idx rd_def wr_def)
  with True ok show ?thesis
    by (auto simp: ref_entries_snoc reference_histo_def next_range_def)
qed

section \<open>Recording a sequence of delays\<close>

lemma histo_init_reference: "histo_init = reference_histo 100000 []"
proof -
  have "ref_entries M [] = replicate NUMBEROFHISTOENTRIES histoEntry_new" for M
    by (rule nth_equalityI) (simp_all add: nth_ref_entries)
  then show ?thesis
    by (simp add: histo_init_def reference_histo_def)
qed

text \<open>The ranges that occur: positive, never above twice the limit, and above every delay recorded.\<close>

lemma not_inside_iff:
  assumes "0 < M"
  shows "\<not> inside t M \<longleftrightarrow> t \<le> BIGBUCKETLIMIT \<and> (\<exists>k. unat t = M * 2 ^ k)"
  using grown_ge [OF assms, of "unat t"] grown_eq_iff [of M "unat t"]
  by (auto simp: inside_def next_range_def)

lemma next_range_ok:
  assumes "0 < M" "M \<le> 40960000" "covers M ts" "inside t M"
  shows "0 < next_range t M" "next_range t M \<le> 40960000" "covers (next_range t M) (ts @ [t])"
proof -
  have ge: "M \<le> next_range t M"
    by (simp add: next_range_def grown_ge_range)
  with assms(1) show "0 < next_range t M" by simp
  show "next_range t M \<le> 40960000"
    using assms(2) grown_le [of M "unat t"] by (auto simp: next_range_def BIGBUCKETLIMIT_unat)
  show "covers (next_range t M) (ts @ [t])"
    using covers_mono [OF assms(3) ge] assms(4) by (auto simp: covers_def inside_def)
qed

lemma record_delays_from:
  assumes "0 < M" "M \<le> 40960000" "covers M us"
  shows "record_delays ts (reference_histo M us)
    = (if fits M ts then Inr (reference_histo (fold next_range ts M) (us @ ts)) else Inl OutOfBounds)"
    and "fits M ts \<Longrightarrow> 0 < fold next_range ts M \<and> fold next_range ts M \<le> 40960000
      \<and> covers (fold next_range ts M) (us @ ts)"
  using assms
proof (induction ts arbitrary: M us)
  case Nil
  { case 1 then show ?case by simp }
  { case 2 then show ?case by simp }
next
  case (Cons t ts)
  { case 1
    then show ?case
      using Cons.IH(1) [OF next_range_ok] addToHisto_reference [of M us t] by simp }
  { case 2
    then show ?case
      using Cons.IH(2) [OF _ next_range_ok, of t M us] by simp }
qed

lemmas record_delays_init =
  record_delays_from [where us = "[]" and M = 100000, simplified, folded range_after_def
    histo_init_reference]

lemma record_delays_state:
  assumes "record_delays ts histo_init = Inr h"
  shows "h = reference_histo (range_after ts) ts" "0 < range_after ts" "range_after ts \<le> 40960000"
    "covers (range_after ts) ts"
  using assms record_delays_init [of ts] by (auto split: if_splits)

text \<open>
  C9: the delay histogram is correct. Recording a sequence of delays from the initial state always
  ends. It succeeds exactly for the sequences in which no delay equals the range it is recorded at,
  and the state it then leaves is the reference histogram of that sequence: every bucket holds the
  count, sum, minimum and maximum (64-bit values) of exactly the delays that fall into it at the
  final range, the overflow bucket those above the limit, and the totals those of all delays. Every
  other sequence leaves the bucket array.
\<close>

theorem record_delays_reference:
  "record_delays ts histo_init =
     (if fits 100000 ts then Inr (reference_histo (range_after ts) ts) else Inl OutOfBounds)"
  using record_delays_from(1) [of 100000 "[]" ts] by (simp add: range_after_def histo_init_reference)

theorem record_delays_reference_witness:
  "record_delays [150000, 100000, 25600000] histo_init
     = Inr (reference_histo 200000 [150000, 100000, 25600000]) \<and>
   record_delays [7, 100000] histo_init = Inl OutOfBounds"
  unfolding record_delays_reference
  by (simp add: range_after_def inside_def next_range_def BIGBUCKETLIMIT_def grown.simps)



lemma sum_filter_classes:
  fixes f :: "'b \<Rightarrow> nat"
  assumes "\<forall>t \<in> set ts. P t \<longrightarrow> f t < n"
  shows "(\<Sum>x<n. of_nat (length (filter (\<lambda>t. P t \<and> f t = x) ts)) :: 'a :: comm_semiring_1)
         = of_nat (length (filter P ts))"
  using assms
proof (induction ts)
  case (Cons t ts)
  have "(\<Sum>x<n. of_nat (length (filter (\<lambda>t. P t \<and> f t = x) (t # ts))) :: 'a)
      = (\<Sum>x<n. (if P t \<and> f t = x then 1 else 0)
           + of_nat (length (filter (\<lambda>t. P t \<and> f t = x) ts)))"
    by (rule sum.cong) auto
  also have "\<dots> = (if P t then 1 else 0) + of_nat (length (filter P ts))"
    using Cons by (cases "P t") (auto simp: sum.distrib)
  finally show ?case by simp
qed simp

lemma bucket_covered: "covers M ts \<Longrightarrow> t \<in> set ts \<Longrightarrow> t \<le> BIGBUCKETLIMIT \<Longrightarrow> 0 < M
    \<Longrightarrow> bucket M t < NUMBEROFHISTOENTRIES"
  using bucket_in_range [of M t] by (auto simp: covers_def)

text \<open>
  The printed report accounts for every delay: the counts of the 500 bucket rows and of the
  overflow row add up to the number of recorded delays (as 64-bit values), for every sequence of
  delays the histogram accepts.
\<close>

theorem printHisto_counts:
  assumes "record_delays ts histo_init = Inr h" and "printHisto h = Some r"
  shows "sum_list (map (fst \<circ> snd) (rep_rows r)) + fst (rep_big r) = of_nat (length ts)"
proof -
  have h: "h = reference_histo (range_after ts) ts"
    and c: "covers (range_after ts) ts" "0 < range_after ts"
    using record_delays_state [OF assms(1)] by auto
  let ?small = "\<lambda>t. t \<le> BIGBUCKETLIMIT"
  have "sum_list (map (fst \<circ> snd) (rep_rows r))
      = (\<Sum>x<NUMBEROFHISTOENTRIES. number (histoEntries h ! x))"
    using assms(2)
    by (auto simp: printHisto_def row_values_def o_def interv_sum_list_conv_sum_set_nat
        atLeast0LessThan split: if_splits)
  also have "\<dots> = (\<Sum>x<NUMBEROFHISTOENTRIES.
      of_nat (length (filter (\<lambda>t. ?small t \<and> bucket (range_after ts) t = x) ts)))"
    by (rule sum.cong) (auto simp: h reference_histo_def nth_ref_entries summary_def)
  also have "\<dots> = of_nat (length (filter ?small ts))"
    using bucket_covered [OF c(1)] c(2) by (intro sum_filter_classes) blast
  finally have rows: "sum_list (map (fst \<circ> snd) (rep_rows r)) = of_nat (length (filter ?small ts))" .
  have "fst (rep_big r) = of_nat (length (filter (\<lambda>t. \<not> ?small t) ts))"
    using assms(2)
    by (auto simp: printHisto_def row_values_def h reference_histo_def summary_def not_le
        split: if_splits)
  with rows show ?thesis
    by (metis of_nat_add sum_length_filter_compl)
qed

theorem printHisto_counts_witness:
  "\<exists>h r. record_delays [7] histo_init = Inr h \<and> printHisto h = Some r
     \<and> sum_list (map (fst \<circ> snd) (rep_rows r)) + fst (rep_big r) = of_nat (length [7 :: u64])"
proof -
  have "fits 100000 [7]"
    by (simp add: inside_def next_range_def grown.simps)
  then obtain h where h: "record_delays [7] histo_init = Inr h" "h = reference_histo (range_after [7]) [7]"
    using record_delays_init(1) [of "[7]"] by auto
  then obtain r where "printHisto h = Some r"
    by (simp add: printHisto_def reference_histo_def)
  with h printHisto_counts show ?thesis by blast
qed

end
