(* ===== verification/Queue_Interface.thy ===== *)
theory Queue_Interface
  imports Guardian_Prelude
begin

text \<open>
  The contract of a bank of bounded FIFO queues, as the clients of the log see it: pushing appends
  to the queue addressed and leaves the others alone, popping removes the oldest entry, as long as
  no queue is filled beyond its capacity. What the clients rely on is proved once here: over any
  interleaving of pushes and pops on all the queues, what came out of a queue followed by what is
  still in it is what was in it followed by what was pushed to it, in order.
\<close>

datatype 'e qop = QPush nat 'e | QPop nat

fun pushes_to :: "nat \<Rightarrow> 'e qop list \<Rightarrow> 'e list" where
  "pushes_to q [] = []"
| "pushes_to q (QPush q' e # ops) = (if q' = q then e # pushes_to q ops else pushes_to q ops)"
| "pushes_to q (QPop q' # ops) = pushes_to q ops"

text \<open>The operations stay within the capacity and never pop an empty queue.\<close>

fun ops_ok :: "nat \<Rightarrow> nat \<Rightarrow> 'e qop list \<Rightarrow> (nat \<Rightarrow> nat) \<Rightarrow> bool" where
  "ops_ok n cap [] len = True"
| "ops_ok n cap (QPush q e # ops) len =
     (q < n \<and> len q < cap \<and> ops_ok n cap ops (len(q := len q + 1)))"
| "ops_ok n cap (QPop q # ops) len = (q < n \<and> 0 < len q \<and> ops_ok n cap ops (len(q := len q - 1)))"

locale fifo_bank =
  fixes push :: "'s \<Rightarrow> 'e \<Rightarrow> nat \<Rightarrow> 's"
    and pop :: "'s \<Rightarrow> nat \<Rightarrow> 's"
    and top :: "'s \<Rightarrow> nat \<Rightarrow> 'e"
    and contents :: "'s \<Rightarrow> nat \<Rightarrow> 'e list"
    and valid :: "'s \<Rightarrow> bool"
    and banks :: nat
    and capacity :: nat
  assumes push_valid: "valid s \<Longrightarrow> q < banks \<Longrightarrow> length (contents s q) < capacity \<Longrightarrow>
      valid (push s e q)"
    and push_contents: "valid s \<Longrightarrow> q < banks \<Longrightarrow> length (contents s q) < capacity \<Longrightarrow>
      contents (push s e q) = (contents s)(q := contents s q @ [e])"
    and pop_valid: "valid s \<Longrightarrow> q < banks \<Longrightarrow> contents s q \<noteq> [] \<Longrightarrow> valid (pop s q)"
    and pop_contents: "valid s \<Longrightarrow> q < banks \<Longrightarrow> contents s q \<noteq> [] \<Longrightarrow>
      contents (pop s q) = (contents s)(q := tl (contents s q))"
    and top_contents: "valid s \<Longrightarrow> q < banks \<Longrightarrow> contents s q \<noteq> [] \<Longrightarrow>
      top s q = hd (contents s q)"
begin

primrec run :: "'e qop list \<Rightarrow> 's \<Rightarrow> (nat \<Rightarrow> 'e list) \<times> 's" where
  "run [] s = (\<lambda>_. [], s)"
| "run (op # ops) s =
     (case op of
        QPush q e \<Rightarrow> run ops (push s e q)
      | QPop q \<Rightarrow> (case run ops (pop s q) of (out, t) \<Rightarrow> (out(q := top s q # out q), t)))"

lemma run_conserves:
  assumes "valid s" "ops_ok banks capacity ops (\<lambda>q. length (contents s q))"
    and "run ops s = (out, t)"
  shows "valid t \<and> (\<forall>q. out q @ contents t q = contents s q @ pushes_to q ops)"
  using assms
proof (induction ops arbitrary: s out t)
  case Nil
  then show ?case by auto
next
  case (Cons op ops)
  show ?case
  proof (cases op)
    case (QPush p e)
    have p: "p < banks" "length (contents s p) < capacity" using Cons.prems QPush by auto
    have "(\<lambda>q. length (contents (push s e p) q))
        = (\<lambda>q. length (contents s q))(p := length (contents s p) + 1)"
      using push_contents [OF Cons.prems(1) p] by auto
    then have "valid t \<and> (\<forall>q. out q @ contents t q = contents (push s e p) q @ pushes_to q ops)"
      using Cons.prems QPush push_valid [OF Cons.prems(1) p] by (intro Cons.IH) simp_all
    then show ?thesis
      using push_contents [OF Cons.prems(1) p] QPush by auto
  next
    case (QPop p)
    have p: "p < banks" "contents s p \<noteq> []" using Cons.prems QPop by auto
    obtain out' where r: "run ops (pop s p) = (out', t)" "out = out'(p := top s p # out' p)"
      using Cons.prems(3) QPop by (auto split: prod.splits)
    have "(\<lambda>q. length (contents (pop s p) q))
        = (\<lambda>q. length (contents s q))(p := length (contents s p) - 1)"
      using pop_contents [OF Cons.prems(1) p] by auto
    then have "valid t \<and> (\<forall>q. out' q @ contents t q = contents (pop s p) q @ pushes_to q ops)"
      using Cons.prems QPop pop_valid [OF Cons.prems(1) p] r(1) by (intro Cons.IH) simp_all
    moreover from this have "(top s p # out' p) @ contents t p = contents s p @ pushes_to p ops"
      using pop_contents [OF Cons.prems(1) p] top_contents [OF Cons.prems(1) p] p(2)
      by (cases "contents s p") auto
    ultimately show ?thesis
      using pop_contents [OF Cons.prems(1) p] r(2) QPop by auto
  qed
qed

end

end
