(* ===== verification/Secure_Log.thy ===== *)
theory Secure_Log
  imports Delay_Histogram Queue_Interface
begin

text \<open>
  The Guardian Council's log (class \<open>securelogentry\<close> of \<open>src/mem/cache/securelogentry.hh\<close> with
  its static members from \<open>securelogentry.cc\<close>): the per-core FIFO rings, the pausing of writers
  and of idle cores, the mapper and the filter. The static members of the class are the fields of
  one record; the methods are functions from that record to a fault or the new record.
\<close>

section \<open>Entries, programs and the static state\<close>

definition NUMBEROFCHECKERCORES :: nat where
  "NUMBEROFCHECKERCORES = 12"

definition QUEUESIZE :: nat where
  "QUEUESIZE = 64"

definition ENUMSIZE :: nat where
  "ENUMSIZE = 9"

definition NUMBEROFCOUNTERS :: nat where
  "NUMBEROFCOUNTERS = 8"

datatype instType =
  Load | Store | IndirectBranch | Call | Return | Memflush | Barrier | Comms | Block

fun instType_code :: "instType \<Rightarrow> nat" where
  "instType_code Load = 0"
| "instType_code Store = 1"
| "instType_code IndirectBranch = 2"
| "instType_code Call = 3"
| "instType_code Return = 4"
| "instType_code Memflush = 5"
| "instType_code Barrier = 6"
| "instType_code Comms = 7"
| "instType_code Block = 8"

record securelogentry =
  insttype :: instType
  data :: u64
  data2 :: u64
  time :: u64
  from_core :: int
  curtick :: u64

text \<open>The constructor stamps the current tick \<open>now\<close>.\<close>

definition securelogentry_new :: "u64 \<Rightarrow> instType \<Rightarrow> u64 \<Rightarrow> u64 \<Rightarrow> u64 \<Rightarrow> securelogentry" where
  "securelogentry_new now it d d2 t =
     \<lparr>insttype = it, data = d, data2 = d2, time = t, from_core = 0, curtick = now\<rparr>"

text \<open>
  \<open>prog_map\<close> is the initialised prefix of the array \<open>map\<close>: reading past it is the read of an
  indeterminate value.
\<close>

record sprogram =
  prog_map :: "int list"
  counter :: int
  corestart :: int
  coreend :: int

record slog =
  queues :: "securelogentry list list"
  queue_end :: "nat list"
  queue_start :: "nat list"
  queue_size :: "nat list"
  pausedOn :: "int list list"
  histogram :: histo
  filterb :: "bool list"
  programs :: "sprogram list"
  mapped :: u64
  mapped_to_core :: "u64 list"
  fifo_occupancy :: "u64 list list"
  minaddr :: u64
  maxaddr :: u64
  counters :: "u64 list"
  pause :: "bool list"
  flush :: bool
  ready :: int
  started :: u64

text \<open>The static initialisers of \<open>securelogentry.cc\<close>; entries are zero-initialised.\<close>

definition RINGSLOTS :: nat where
  "RINGSLOTS = QUEUESIZE + NUMBEROFCHECKERCORES + 1"

definition slog_static :: slog where
  "slog_static =
     \<lparr>queues = replicate NUMBEROFCHECKERCORES
                 (replicate RINGSLOTS (securelogentry_new 0 Load 0 0 0)),
      queue_end = replicate NUMBEROFCHECKERCORES 0,
      queue_start = replicate NUMBEROFCHECKERCORES 0,
      queue_size = replicate NUMBEROFCHECKERCORES 0,
      pausedOn = replicate NUMBEROFCHECKERCORES [],
      histogram = histo_init,
      filterb = replicate ENUMSIZE False,
      programs = [],
      mapped = 0,
      mapped_to_core = replicate NUMBEROFCHECKERCORES 0,
      fifo_occupancy = replicate NUMBEROFCHECKERCORES (replicate RINGSLOTS 0),
      minaddr = - 1,
      maxaddr = 0,
      counters = replicate NUMBEROFCOUNTERS 0,
      pause = replicate (NUMBEROFCHECKERCORES + 1) False,
      flush = False,
      ready = 0,
      started = 0\<rparr>"

section \<open>The FIFO rings\<close>

text \<open>
  \<open>add_to_queue\<close> statement by statement: the slot write and the index arithmetic (modulo
  \<open>QUEUESIZE\<close>, although the ring has \<open>RINGSLOTS\<close> slots), then the two pause updates.
\<close>

definition ring_push :: "slog \<Rightarrow> securelogentry \<Rightarrow> nat \<Rightarrow> slog" where
  "ring_push g s q =
     g\<lparr>queues := (queues g)[q := (queues g ! q)[queue_end g ! q := s]],
       queue_end := (queue_end g)[q := (queue_end g ! q + 1) mod QUEUESIZE],
       queue_size := (queue_size g)[q := queue_size g ! q + 1]\<rparr>"

definition pause_writer :: "slog \<Rightarrow> nat \<Rightarrow> int \<Rightarrow> slog res" where
  "pause_writer g q writer =
     (if queue_size g ! q \<ge> QUEUESIZE
      then bindE (rd (pause g) writer) (\<lambda>p.
           if \<not> p
           then Inr (g\<lparr>pause := (pause g)[nat writer := True],
                       pausedOn := (pausedOn g)[q := pausedOn g ! q @ [writer]]\<rparr>)
           else Inr g)
      else Inr g)"

definition wake_reader :: "slog \<Rightarrow> nat \<Rightarrow> slog" where
  "wake_reader g q =
     (if queue_size g ! q = 1 \<and> pause g ! (q + 1)
      then g\<lparr>pause := (pause g)[q + 1 := False]\<rparr> else g)"

definition add_to_queue :: "slog \<Rightarrow> securelogentry \<Rightarrow> int \<Rightarrow> int \<Rightarrow> slog res" where
  "add_to_queue g s queue writer =
     bindE (rd (mapped_to_core g) queue) (\<lambda>n.
     (let q = nat queue;
          g1 = g\<lparr>mapped_to_core := (mapped_to_core g)[q := n + 1]\<rparr>;
          s1 = s\<lparr>from_core := writer\<rparr>
      in bindE (assertE (queue_size g1 ! q \<noteq> RINGSLOTS)) (\<lambda>_.
         bindE (pause_writer (ring_push g1 s1 q) q writer) (\<lambda>g2.
         Inr (wake_reader g2 q)))))"

definition entry_item :: "securelogentry \<Rightarrow> int \<Rightarrow> u64" where
  "entry_item s item =
     (if item = 0 then of_nat (instType_code (insttype s))
      else if item = 1 then data s
      else if item = 2 then data2 s
      else if item = 4 then of_int (from_core s)
      else time s)"

fun release :: "int list \<Rightarrow> bool list \<Rightarrow> bool list res" where
  "release [] p = Inr p"
| "release (w # ws) p = bindE (wr p w False) (release ws)"

definition ring_pop :: "slog \<Rightarrow> nat \<Rightarrow> slog" where
  "ring_pop g q =
     g\<lparr>queue_start := (queue_start g)[q := (queue_start g ! q + 1) mod QUEUESIZE],
       queue_size := (queue_size g)[q := queue_size g ! q - 1]\<rparr>"

definition wake_writers :: "slog \<Rightarrow> nat \<Rightarrow> slog res" where
  "wake_writers g q =
     (if queue_size g ! q \<le> QUEUESIZE
      then bindE (release (pausedOn g ! q) (pause g)) (\<lambda>p.
           Inr (g\<lparr>pause := p, pausedOn := (pausedOn g)[q := []]\<rparr>))
      else Inr g)"

definition pause_reader :: "slog \<Rightarrow> nat \<Rightarrow> slog" where
  "pause_reader g q =
     (if queue_size g ! q = 0 then g\<lparr>pause := (pause g)[q + 1 := True]\<rparr> else g)"

definition record_delay :: "u64 \<Rightarrow> securelogentry \<Rightarrow> slog \<Rightarrow> slog res" where
  "record_delay now s g =
     (if curtick s > started g
      then bindE (addToHisto (now - curtick s) (histogram g)) (\<lambda>h. Inr (g\<lparr>histogram := h\<rparr>))
      else Inr g)"

definition pop_from_queue :: "u64 \<Rightarrow> slog \<Rightarrow> int \<Rightarrow> int \<Rightarrow> (u64 \<times> slog) res" where
  "pop_from_queue now g core item =
     bindE (rd (pause g) core) (\<lambda>paused.
     bindE (assertE (\<not> paused)) (\<lambda>_.
     (let queue = core - 1;
          g1 = (if started g = 0 then g\<lparr>started := now\<rparr> else g)
      in bindE (rd (queue_size g1) queue) (\<lambda>size.
         bindE (assertE (size \<noteq> 0)) (\<lambda>_.
         (let q = nat queue;
              s = queues g1 ! q ! (queue_start g1 ! q)
          in bindE (record_delay now s g1) (\<lambda>g2.
             bindE (wake_writers (ring_pop g2 q) q) (\<lambda>g3.
             Inr (entry_item s item, pause_reader g3 q)))))))))"

definition top_from_queue :: "slog \<Rightarrow> int \<Rightarrow> int \<Rightarrow> u64 res" where
  "top_from_queue g core item =
     (let queue = core - 1
      in bindE (rd (queue_size g) queue) (\<lambda>size.
         bindE (assertE (size \<noteq> 0)) (\<lambda>_.
         (let q = nat queue
          in Inr (entry_item (queues g ! q ! (queue_start g ! q)) item)))))"

section \<open>The mapper\<close>

text \<open>The scan of \<open>getNextCore\<close> over \<open>x = corestart .. coreend\<close>.\<close>

fun next_core_scan :: "slog \<Rightarrow> int list \<Rightarrow> nat \<Rightarrow> int \<Rightarrow> int res" where
  "next_core_scan g [] limit nextCore = Inr nextCore"
| "next_core_scan g (x # xs) limit nextCore =
     bindE (rd (queue_size g) x) (\<lambda>size.
     if size < limit then next_core_scan g xs size x else next_core_scan g xs limit nextCore)"

definition getNextCore :: "slog \<Rightarrow> nat \<Rightarrow> sprogram \<Rightarrow> int res" where
  "getNextCore g limit p = next_core_scan g [corestart p..coreend p] limit (- 1)"

text \<open>
  The blocker branch of \<open>map\<close> and \<open>map_before\<close>: log to the current core and hand over to the
  least loaded core with fewer than 32 entries once the current queue holds 62.
\<close>

definition map_blocker ::
  "u64 \<Rightarrow> securelogentry \<Rightarrow> sprogram \<Rightarrow> slog \<Rightarrow> (sprogram \<times> slog) res" where
  "map_blocker now s p g =
     bindE (add_to_queue g s (counter p) 0) (\<lambda>g1.
     if queue_size g1 ! nat (counter p) \<ge> QUEUESIZE - 2
     then bindE (getNextCore g1 (QUEUESIZE div 2) p) (\<lambda>newcore.
          if newcore \<noteq> - 1
          then bindE (add_to_queue g1 (securelogentry_new now Block (of_int newcore) 0 0)
                        (counter p) 0) (\<lambda>g2.
               Inr (p\<lparr>counter := newcore\<rparr>, g2))
          else Inr (p, g1))
     else Inr (p, g1))"

definition map_program ::
  "u64 \<Rightarrow> bool \<Rightarrow> securelogentry \<Rightarrow> sprogram \<Rightarrow> slog \<Rightarrow> (sprogram \<times> slog) res" where
  "map_program now advance s p g =
     (if instType_code (insttype s) \<ge> length (prog_map p) then Inl Uninitialised
      else let val = prog_map p ! instType_code (insttype s)
      in if val = 0 then Inr (p, g)
         else if val > 0 then bindE (add_to_queue g s (val - 1) 0) (\<lambda>g1. Inr (p, g1))
         else if val = - 1
         then bindE (add_to_queue g s (counter p) 0) (\<lambda>g1.
              Inr (if advance
                   then (if counter p + 1 > coreend p then p\<lparr>counter := corestart p\<rparr>
                         else p\<lparr>counter := counter p + 1\<rparr>)
                   else p, g1))
         else map_blocker now s p g)"

fun map_programs ::
  "u64 \<Rightarrow> bool \<Rightarrow> securelogentry \<Rightarrow> sprogram list \<Rightarrow> slog \<Rightarrow> (sprogram list \<times> slog) res" where
  "map_programs now advance s [] g = Inr ([], g)"
| "map_programs now advance s (p # ps) g =
     bindE (map_program now advance s p g) (\<lambda>(p', g1).
     bindE (map_programs now advance s ps g1) (\<lambda>(ps', g2).
     Inr (p' # ps', g2)))"

definition map_log :: "u64 \<Rightarrow> securelogentry \<Rightarrow> slog \<Rightarrow> slog res" where
  "map_log now s g =
     bindE (map_programs now True s (programs g) (g\<lparr>mapped := mapped g + 1\<rparr>)) (\<lambda>(ps, g1).
     Inr (g1\<lparr>programs := ps\<rparr>))"

definition map_before :: "u64 \<Rightarrow> securelogentry \<Rightarrow> slog \<Rightarrow> slog res" where
  "map_before now s g =
     bindE (map_programs now False s (programs g) (g\<lparr>mapped := mapped g + 1\<rparr>)) (\<lambda>(ps, g1).
     Inr (g1\<lparr>programs := ps\<rparr>))"

definition filter_log :: "u64 \<Rightarrow> securelogentry \<Rightarrow> slog \<Rightarrow> slog res" where
  "filter_log now s g =
     (if \<not> filterb g ! instType_code (insttype s) then Inr g
      else if ready g > 0 then Inr g
      else bindE (assertE (\<not> pause g ! 0)) (\<lambda>_. map_log now s g))"

definition core_queuewrite :: "u64 \<Rightarrow> u64 \<Rightarrow> u64 \<Rightarrow> int \<Rightarrow> slog \<Rightarrow> slog res" where
  "core_queuewrite now d target writer g =
     add_to_queue g (securelogentry_new now Comms d 0 0) (int_of_u64 target) writer"

definition send_messages :: "u64 \<Rightarrow> u64 \<Rightarrow> u64 \<Rightarrow> u64 \<Rightarrow> slog \<Rightarrow> slog res" where
  "send_messages now d1 d2 d3 g =
     (let q1 = securelogentry_new now Comms d1 0 0;
          q2 = securelogentry_new now Comms d2 0 0;
          q3 = securelogentry_new now Comms d3 0 0
      in bindE (map_before now q1 g) (\<lambda>g1.
         bindE (map_before now q2 g1) (\<lambda>g2.
         map_log now q3 g2)))"

section \<open>The abstract queue, well-formedness and the pausing discipline\<close>

text \<open>The entries of queue \<open>q\<close>, oldest first, as the ring stores them.\<close>

definition fifo :: "slog \<Rightarrow> nat \<Rightarrow> securelogentry list" where
  "fifo g q = map (\<lambda>i. queues g ! q ! ((queue_start g ! q + i) mod QUEUESIZE))
                [0..<queue_size g ! q]"

definition wf_slog :: "slog \<Rightarrow> bool" where
  "wf_slog g \<longleftrightarrow>
     length (queues g) = NUMBEROFCHECKERCORES \<and>
     (\<forall>q < NUMBEROFCHECKERCORES. length (queues g ! q) = RINGSLOTS) \<and>
     length (queue_end g) = NUMBEROFCHECKERCORES \<and>
     length (queue_start g) = NUMBEROFCHECKERCORES \<and>
     length (queue_size g) = NUMBEROFCHECKERCORES \<and>
     length (pausedOn g) = NUMBEROFCHECKERCORES \<and>
     length (mapped_to_core g) = NUMBEROFCHECKERCORES \<and>
     length (pause g) = NUMBEROFCHECKERCORES + 1 \<and>
     length (filterb g) = ENUMSIZE \<and>
     (\<forall>q < NUMBEROFCHECKERCORES.
        queue_start g ! q < QUEUESIZE \<and>
        queue_end g ! q = (queue_start g ! q + queue_size g ! q) mod QUEUESIZE) \<and>
     (\<forall>q < NUMBEROFCHECKERCORES. \<forall>w \<in> set (pausedOn g ! q). 0 \<le> w \<and> w \<le> int NUMBEROFCHECKERCORES)"

text \<open>
  The pausing discipline, on the sizes, the pause flags and the recorded writers. A core whose
  queue is empty is paused. A writer recorded on a queue is paused, that queue holds at least
  \<open>QUEUESIZE\<close> entries, a recorded checker core has work of its own, and no writer is recorded on
  two queues. Whoever is paused is so for one of these reasons.
\<close>

definition pause_ok :: "nat list \<Rightarrow> bool list \<Rightarrow> int list list \<Rightarrow> bool" where
  "pause_ok sz pa po \<longleftrightarrow>
     (\<forall>q < NUMBEROFCHECKERCORES. sz ! q = 0 \<longrightarrow> pa ! (q + 1)) \<and>
     (\<forall>q < NUMBEROFCHECKERCORES. \<forall>w \<in> set (po ! q).
        pa ! nat w \<and> QUEUESIZE \<le> sz ! q \<and> (0 < w \<longrightarrow> sz ! (nat w - 1) \<noteq> 0)) \<and>
     (\<forall>q < NUMBEROFCHECKERCORES. \<forall>q' < NUMBEROFCHECKERCORES. \<forall>w.
        w \<in> set (po ! q) \<longrightarrow> w \<in> set (po ! q') \<longrightarrow> q = q') \<and>
     (\<forall>w \<le> NUMBEROFCHECKERCORES. pa ! w \<longrightarrow>
        (0 < w \<and> sz ! (w - 1) = 0) \<or>
        (\<exists>q < NUMBEROFCHECKERCORES. int w \<in> set (po ! q)))"

definition pause_inv :: "slog \<Rightarrow> bool" where
  "pause_inv g \<longleftrightarrow> pause_ok (queue_size g) (pause g) (pausedOn g)"

section \<open>The rings implement bounded FIFO queues\<close>

lemmas slog_consts = NUMBEROFCHECKERCORES_def QUEUESIZE_def RINGSLOTS_def ENUMSIZE_def

lemma length_fifo [simp]: "length (fifo g q) = queue_size g ! q"
  by (simp add: fifo_def)

lemma fifo_empty_iff [simp]: "fifo g q = [] \<longleftrightarrow> queue_size g ! q = 0"
  by (simp add: fifo_def)

lemma hd_fifo: "queue_size g ! q \<noteq> 0 \<Longrightarrow> queue_start g ! q < QUEUESIZE \<Longrightarrow>
    hd (fifo g q) = queues g ! q ! (queue_start g ! q)"
  by (simp add: fifo_def hd_map upt_rec)

lemma QUEUESIZE_pos [simp]: "0 < QUEUESIZE"
  by (simp add: QUEUESIZE_def)

lemma upt_first_last: "0 < n \<Longrightarrow> [0..<Suc n] = 0 # map Suc [0..<n - 1] @ [n]"
  by (cases n) (simp_all add: map_Suc_upt upt_conv_Cons)

lemma mod_shift_neq:
  assumes "i < n" "n < (k :: nat)" shows "(a + i) mod k \<noteq> (a + n) mod k"
proof
  assume "(a + i) mod k = (a + n) mod k"
  then have "k dvd (a + n) - (a + i)" using assms by (metis mod_eq_dvd_iff_nat add_left_mono less_imp_le)
  then have "k dvd n - i" by simp
  with assms show False by (auto dest: dvd_imp_le)
qed

lemma wf_slogD:
  assumes "wf_slog g" "q < NUMBEROFCHECKERCORES"
  shows "q < length (queues g)" "q < length (queue_end g)" "q < length (queue_start g)"
    "q < length (queue_size g)" "q < length (pausedOn g)" "q < length (mapped_to_core g)"
    "q + 1 < length (pause g)" "length (queues g ! q) = RINGSLOTS"
    "queue_start g ! q < QUEUESIZE"
    "queue_end g ! q = (queue_start g ! q + queue_size g ! q) mod QUEUESIZE"
  using assms by (auto simp: wf_slog_def)

lemma fifo_cong:
  "queues g ! q = queues g' ! q \<Longrightarrow> queue_start g ! q = queue_start g' ! q \<Longrightarrow>
   queue_size g ! q = queue_size g' ! q \<Longrightarrow> fifo g q = fifo g' q"
  by (simp add: fifo_def)

lemma wf_ring_push:
  assumes "wf_slog g" "q < NUMBEROFCHECKERCORES"
  shows "wf_slog (ring_push g s q)"
  using assms wf_slogD [OF assms]
  by (auto simp: wf_slog_def ring_push_def nth_list_update mod_Suc_eq)

lemma wf_ring_pop:
  assumes "wf_slog g" "q < NUMBEROFCHECKERCORES" "queue_size g ! q \<noteq> 0"
  shows "wf_slog (ring_pop g q)"
proof -
  have "((queue_start g ! q + 1) mod QUEUESIZE + (queue_size g ! q - 1)) mod QUEUESIZE
      = (queue_start g ! q + queue_size g ! q) mod QUEUESIZE"
  proof -
    have "queue_start g ! q + 1 + (queue_size g ! q - 1) = queue_start g ! q + queue_size g ! q"
      using assms(3) by simp
    then show ?thesis by (metis mod_add_left_eq)
  qed
  then show ?thesis
    using assms wf_slogD [OF assms(1,2)]
    by (auto simp: wf_slog_def ring_pop_def nth_list_update QUEUESIZE_def)
qed

lemma fifo_ring_push:
  assumes "wf_slog g" "q < NUMBEROFCHECKERCORES" "queue_size g ! q < QUEUESIZE"
  shows "fifo (ring_push g s q) = (fifo g)(q := fifo g q @ [s])"
proof
  fix q'
  note wf = wf_slogD [OF assms(1,2)]
  have slot: "queue_end g ! q < length (queues g ! q)"
    using wf by (simp add: slog_consts)
  have "queue_end g ! q \<noteq> (queue_start g ! q + i) mod QUEUESIZE" if "i < queue_size g ! q" for i
    using mod_shift_neq [OF that assms(3)] wf by metis
  then show "fifo (ring_push g s q) q' = ((fifo g)(q := fifo g q @ [s])) q'"
    using wf(1-4) slot wf(10)
    by (cases "q' = q") (auto simp: fifo_def ring_push_def nth_list_update)
qed

lemma tl_map_upt: "0 < n \<Longrightarrow> tl (map f [0..<n]) = map (\<lambda>i. f (Suc i)) [0..<n - 1]"
  by (cases n) (auto simp: upt_conv_Cons map_Suc_upt [symmetric] simp del: upt_Suc)

lemma fifo_ring_pop:
  assumes "wf_slog g" "q < NUMBEROFCHECKERCORES" "queue_size g ! q \<noteq> 0"
  shows "fifo (ring_pop g q) = (fifo g)(q := tl (fifo g q))"
proof
  fix q'
  show "fifo (ring_pop g q) q' = ((fifo g)(q := tl (fifo g q))) q'"
    using wf_slogD [OF assms(1,2)] assms(3)
    by (cases "q' = q") (auto simp: fifo_def ring_pop_def tl_map_upt mod_simps)
qed

interpretation ring: fifo_bank ring_push ring_pop "\<lambda>g q. queues g ! q ! (queue_start g ! q)"
  fifo wf_slog NUMBEROFCHECKERCORES QUEUESIZE
proof
  fix g q s
  assume g: "wf_slog g" "q < NUMBEROFCHECKERCORES"
  show "wf_slog (ring_push g s q)" by (rule wf_ring_push [OF g])
  show "fifo (ring_push g s q) = (fifo g)(q := fifo g q @ [s])" if "length (fifo g q) < QUEUESIZE"
    using fifo_ring_push [OF g] that by simp
  show "wf_slog (ring_pop g q)" if "fifo g q \<noteq> []" using wf_ring_pop [OF g] that by simp
  show "fifo (ring_pop g q) = (fifo g)(q := tl (fifo g q))" if "fifo g q \<noteq> []"
    using fifo_ring_pop [OF g] that by simp
  show "queues g ! q ! (queue_start g ! q) = hd (fifo g q)" if "fifo g q \<noteq> []"
    using hd_fifo wf_slogD [OF g] that by simp
qed

text \<open>What the ring holds after a push onto a full queue: the oldest entry is gone.\<close>

lemma fifo_ring_push_full:
  assumes "wf_slog g" "q < NUMBEROFCHECKERCORES" "queue_size g ! q = QUEUESIZE"
  shows "fifo (ring_push g s q) q = s # tl (fifo g q) @ [s]"
proof -
  note wf = wf_slogD [OF assms(1,2)]
  have e: "queue_end g ! q = queue_start g ! q" using wf assms(3) by simp
  have "queue_start g ! q \<noteq> (queue_start g ! q + Suc i) mod QUEUESIZE" if "Suc i < QUEUESIZE" for i
    using mod_shift_neq [of 0 "Suc i" QUEUESIZE "queue_start g ! q"] that wf by auto
  then have "map (\<lambda>i. (queues (ring_push g s q)) ! q ! ((queue_start g ! q + Suc i) mod QUEUESIZE))
      [0..<QUEUESIZE - 1] = tl (fifo g q)"
    using wf(1,3,4,9) e assms(3)
    by (auto simp: fifo_def ring_push_def tl_map_upt nth_list_update QUEUESIZE_pos)
  moreover have "fifo (ring_push g s q) q =
      map (\<lambda>i. (queues (ring_push g s q)) ! q ! ((queue_start g ! q + i) mod QUEUESIZE))
        (0 # map Suc [0..<QUEUESIZE - 1] @ [QUEUESIZE])"
    using wf(1,3,4) assms(3) upt_first_last [OF QUEUESIZE_pos] by (simp add: fifo_def ring_push_def)
  ultimately show ?thesis
    using wf(1,8,9) e by (simp add: ring_push_def RINGSLOTS_def comp_def)
qed

end
