(* ===== verification/Log_Pausing.thy ===== *)
theory Log_Pausing
  imports Secure_Log
begin

text \<open>
  Functional behaviour of the two queue operations of the log on every branch, and the pausing
  discipline: each operation keeps the well-formedness of the log and the reason for every pause,
  so no wake-up is lost.
\<close>

section \<open>Closed forms of the two queue operations\<close>

text \<open>What the log keeps between operations, apart from the rings and the pausing.\<close>

definition same_config :: "slog \<Rightarrow> slog \<Rightarrow> bool" where
  "same_config g g' \<longleftrightarrow>
     programs g' = programs g \<and> filterb g' = filterb g \<and> ready g' = ready g \<and>
     counters g' = counters g \<and> minaddr g' = minaddr g \<and> maxaddr g' = maxaddr g \<and>
     flush g' = flush g \<and> fifo_occupancy g' = fifo_occupancy g"

text \<open>
  The result of \<open>add_to_queue\<close> on a well-formed log: the pushed ring, with the writer paused when
  the queue is full and the reader woken when it was empty.
\<close>

definition pushed :: "slog \<Rightarrow> securelogentry \<Rightarrow> nat \<Rightarrow> nat \<Rightarrow> slog" where
  "pushed g s q w =
     ring_push (g\<lparr>mapped_to_core := (mapped_to_core g)[q := mapped_to_core g ! q + 1]\<rparr>)
       (s\<lparr>from_core := int w\<rparr>) q"

definition added :: "slog \<Rightarrow> securelogentry \<Rightarrow> nat \<Rightarrow> nat \<Rightarrow> slog" where
  "added g s q w =
     (if QUEUESIZE \<le> queue_size g ! q + 1 \<and> \<not> pause g ! w
      then (pushed g s q w)\<lparr>pause := (pause g)[w := True],
             pausedOn := (pausedOn g)[q := pausedOn g ! q @ [int w]]\<rparr>
      else if queue_size g ! q = 0 \<and> pause g ! (q + 1)
      then (pushed g s q w)\<lparr>pause := (pause g)[q + 1 := False]\<rparr>
      else pushed g s q w)"

text \<open>The result of \<open>pop_from_queue\<close>: recorded writers released, an emptied reader paused.\<close>

definition released :: "int list \<Rightarrow> bool list \<Rightarrow> bool list" where
  "released ws p = map (\<lambda>i. p ! i \<and> int i \<notin> set ws) [0..<length p]"

definition popped :: "slog \<Rightarrow> nat \<Rightarrow> slog" where
  "popped g q =
     (let p = released (pausedOn g ! q) (pause g)
      in if queue_size g ! q - 1 \<le> QUEUESIZE
         then (ring_pop g q)\<lparr>pause := (if queue_size g ! q = 1 then p[q + 1 := True] else p),
                              pausedOn := (pausedOn g)[q := []]\<rparr>
         else ring_pop g q)"

definition start_clock :: "u64 \<Rightarrow> slog \<Rightarrow> slog" where
  "start_clock now g = (if started g = 0 then g\<lparr>started := now\<rparr> else g)"

section \<open>The discipline on sizes, flags and recorded writers\<close>

abbreviation pause_dims :: "nat list \<Rightarrow> bool list \<Rightarrow> int list list \<Rightarrow> bool" where
  "pause_dims sz pa po \<equiv> length sz = NUMBEROFCHECKERCORES \<and>
     length pa = NUMBEROFCHECKERCORES + 1 \<and> length po = NUMBEROFCHECKERCORES \<and>
     (\<forall>q < NUMBEROFCHECKERCORES. \<forall>w \<in> set (po ! q). 0 \<le> w \<and> w \<le> int NUMBEROFCHECKERCORES)"

lemma pause_okI:
  assumes "\<And>q. q < NUMBEROFCHECKERCORES \<Longrightarrow> sz ! q = 0 \<Longrightarrow> pa ! (q + 1)"
    and "\<And>q w. q < NUMBEROFCHECKERCORES \<Longrightarrow> w \<in> set (po ! q) \<Longrightarrow>
      pa ! nat w \<and> QUEUESIZE \<le> sz ! q \<and> (0 < w \<longrightarrow> sz ! (nat w - 1) \<noteq> 0)"
    and "\<And>q q' w. q < NUMBEROFCHECKERCORES \<Longrightarrow> q' < NUMBEROFCHECKERCORES \<Longrightarrow>
      w \<in> set (po ! q) \<Longrightarrow> w \<in> set (po ! q') \<Longrightarrow> q = q'"
    and "\<And>w. w \<le> NUMBEROFCHECKERCORES \<Longrightarrow> pa ! w \<Longrightarrow>
      (0 < w \<and> sz ! (w - 1) = 0) \<or> (\<exists>q < NUMBEROFCHECKERCORES. int w \<in> set (po ! q))"
  shows "pause_ok sz pa po"
  using assms unfolding pause_ok_def by blast

lemma pause_okD:
  assumes "pause_ok sz pa po"
  shows "q < NUMBEROFCHECKERCORES \<Longrightarrow> sz ! q = 0 \<Longrightarrow> pa ! (q + 1)"
    and "q < NUMBEROFCHECKERCORES \<Longrightarrow> w \<in> set (po ! q) \<Longrightarrow> pa ! nat w"
    and "q < NUMBEROFCHECKERCORES \<Longrightarrow> w \<in> set (po ! q) \<Longrightarrow> QUEUESIZE \<le> sz ! q"
    and "q < NUMBEROFCHECKERCORES \<Longrightarrow> w \<in> set (po ! q) \<Longrightarrow> 0 < w \<Longrightarrow> sz ! (nat w - 1) \<noteq> 0"
    and "q < NUMBEROFCHECKERCORES \<Longrightarrow> q' < NUMBEROFCHECKERCORES \<Longrightarrow>
      w \<in> set (po ! q) \<Longrightarrow> w \<in> set (po ! q') \<Longrightarrow> q = q'"
    and "v \<le> NUMBEROFCHECKERCORES \<Longrightarrow> pa ! v \<Longrightarrow>
      (0 < v \<and> sz ! (v - 1) = 0) \<or> (\<exists>q < NUMBEROFCHECKERCORES. int v \<in> set (po ! q))"
  using assms unfolding pause_ok_def by blast+

text \<open>A core that runs is recorded nowhere and, if it is a checker core, has work.\<close>

lemma running_not_recorded:
  assumes "pause_ok sz pa po" "\<not> pa ! w" "q < NUMBEROFCHECKERCORES"
  shows "int w \<notin> set (po ! q)"
  using pause_okD(2) [OF assms(1,3), of "int w"] assms(2) by auto

lemma running_has_work:
  assumes "pause_ok sz pa po" "\<not> pa ! w" "w \<le> NUMBEROFCHECKERCORES" "0 < w"
  shows "sz ! (w - 1) \<noteq> 0"
proof
  assume "sz ! (w - 1) = 0"
  then have "pa ! (w - 1 + 1)" using assms(3,4) by (intro pause_okD(1) [OF assms(1)]) auto
  with assms(2,4) show False by simp
qed

lemma idle_not_recorded:
  assumes "pause_ok sz pa po" "sz ! q = 0" "q' < NUMBEROFCHECKERCORES"
  shows "int (q + 1) \<notin> set (po ! q')"
proof
  assume "int (q + 1) \<in> set (po ! q')"
  from pause_okD(4) [OF assms(1,3) this] have "sz ! (nat (int (q + 1)) - 1) \<noteq> 0" by simp
  moreover have "nat (int (q + 1)) - 1 = q" by simp
  ultimately show False using assms(2) by metis
qed

lemma pause_ok_push_full:
  assumes ok: "pause_ok sz pa po" and d: "pause_dims sz pa po" and q: "q < NUMBEROFCHECKERCORES"
    and full: "QUEUESIZE \<le> sz ! q + 1" and w: "\<not> pa ! w" "w \<le> NUMBEROFCHECKERCORES"
  shows "pause_ok (sz[q := sz ! q + 1]) (pa[w := True]) (po[q := po ! q @ [int w]])"
proof -
  have w': "w < length pa" using w d by simp
  note upd = nth_list_update [of q sz] nth_list_update [of q po] nth_list_update [OF w']
  show ?thesis
  proof (rule pause_okI)
    fix q' assume "q' < NUMBEROFCHECKERCORES" "sz[q := sz ! q + 1] ! q' = 0"
    then show "pa[w := True] ! (q' + 1)"
      using pause_okD(1) [OF ok] d q by (auto simp: upd split: if_splits)
  next
    fix q' v assume q': "q' < NUMBEROFCHECKERCORES" "v \<in> set (po[q := po ! q @ [int w]] ! q')"
    then have "v = int w \<and> q' = q \<or> v \<in> set (po ! q')"
      using d q by (auto simp: upd split: if_splits)
    then show "pa[w := True] ! nat v \<and> QUEUESIZE \<le> sz[q := sz ! q + 1] ! q'
        \<and> (0 < v \<longrightarrow> sz[q := sz ! q + 1] ! (nat v - 1) \<noteq> 0)"
    proof
      assume "v = int w \<and> q' = q"
      then show ?thesis
        using d q full running_has_work [OF ok w] by (auto simp: upd)
    next
      assume v: "v \<in> set (po ! q')"
      show ?thesis
        using pause_okD(2-4) [OF ok q'(1) v] d q by (auto simp: upd)
    qed
  next
    fix q1 q2 v assume "q1 < NUMBEROFCHECKERCORES" "q2 < NUMBEROFCHECKERCORES"
      "v \<in> set (po[q := po ! q @ [int w]] ! q1)" "v \<in> set (po[q := po ! q @ [int w]] ! q2)"
    then show "q1 = q2"
      using pause_okD(5) [OF ok] running_not_recorded [OF ok w(1)] d q
      by (auto simp: upd split: if_splits)
  next
    fix v assume v: "v \<le> NUMBEROFCHECKERCORES" "pa[w := True] ! v"
    show "(0 < v \<and> sz[q := sz ! q + 1] ! (v - 1) = 0)
        \<or> (\<exists>q' < NUMBEROFCHECKERCORES. int v \<in> set (po[q := po ! q @ [int w]] ! q'))"
    proof (cases "v = w")
      case True
      then show ?thesis using d q by (auto simp: upd)
    next
      case False
      then have "pa ! v" using v by (simp add: upd)
      from pause_okD(6) [OF ok v(1) this] show ?thesis
      proof (elim disjE exE conjE)
        assume "0 < v" "sz ! (v - 1) = 0"
        then show ?thesis using full d q by (auto simp: upd QUEUESIZE_def)
      next
        fix q' assume "q' < NUMBEROFCHECKERCORES" "int v \<in> set (po ! q')"
        then have "int v \<in> set (po[q := po ! q @ [int w]] ! q')" using d q by (auto simp: upd)
        then show ?thesis using \<open>q' < _\<close> by blast
      qed
    qed
  qed
qed

lemma pause_ok_push_first:
  assumes ok: "pause_ok sz pa po" and d: "pause_dims sz pa po" and q: "q < NUMBEROFCHECKERCORES"
    and z: "sz ! q = 0"
  shows "pause_ok (sz[q := 1]) (pa[q + 1 := False]) po"
proof (rule pause_okI)
  have q1: "q + 1 < length pa" using d q by simp
  note upd = nth_list_update [of q sz] nth_list_update [OF q1]
  fix q' assume q': "q' < NUMBEROFCHECKERCORES"
  { assume "sz[q := 1] ! q' = 0"
    then show "pa[q + 1 := False] ! (q' + 1)"
      using pause_okD(1) [OF ok q'] d q by (auto simp: upd split: if_splits) }
  { fix v assume v: "v \<in> set (po ! q')"
    then have "v \<noteq> int (q + 1)" using idle_not_recorded [OF ok z q'] by metis
    then have "nat v \<noteq> q + 1" using d q' v by auto
    then show "pa[q + 1 := False] ! nat v \<and> QUEUESIZE \<le> sz[q := 1] ! q'
        \<and> (0 < v \<longrightarrow> sz[q := 1] ! (nat v - 1) \<noteq> 0)"
      using pause_okD(2-4) [OF ok q' v] d q z by (auto simp: upd QUEUESIZE_def) }
next
  fix q1 q2 v assume "q1 < NUMBEROFCHECKERCORES" "q2 < NUMBEROFCHECKERCORES"
    "v \<in> set (po ! q1)" "v \<in> set (po ! q2)"
  then show "q1 = q2" by (rule pause_okD(5) [OF ok])
next
  have q1: "Suc q < length pa" using d q by simp
  note upd = nth_list_update [of q sz] nth_list_update [OF q1]
  fix v assume v: "v \<le> NUMBEROFCHECKERCORES" "pa[q + 1 := False] ! v"
  then have "v \<noteq> q + 1" "pa ! v" by (auto simp: upd split: if_splits)
  with pause_okD(6) [OF ok v(1)] show "(0 < v \<and> sz[q := 1] ! (v - 1) = 0)
      \<or> (\<exists>q' < NUMBEROFCHECKERCORES. int v \<in> set (po ! q'))"
    using d q by (auto simp: upd)
qed

lemma pause_ok_push:
  assumes ok: "pause_ok sz pa po" and d: "pause_dims sz pa po" and q: "q < NUMBEROFCHECKERCORES"
    and z: "sz ! q \<noteq> 0"
  shows "pause_ok (sz[q := sz ! q + 1]) pa po"
proof (rule pause_okI)
  note upd = nth_list_update [of q sz]
  fix q' assume q': "q' < NUMBEROFCHECKERCORES"
  { assume "sz[q := sz ! q + 1] ! q' = 0"
    then show "pa ! (q' + 1)"
      using pause_okD(1) [OF ok q'] d q by (auto simp: upd split: if_splits) }
  { fix v assume v: "v \<in> set (po ! q')"
    show "pa ! nat v \<and> QUEUESIZE \<le> sz[q := sz ! q + 1] ! q'
        \<and> (0 < v \<longrightarrow> sz[q := sz ! q + 1] ! (nat v - 1) \<noteq> 0)"
      using pause_okD(2-4) [OF ok q' v] d q by (auto simp: upd) }
next
  fix q1 q2 v assume "q1 < NUMBEROFCHECKERCORES" "q2 < NUMBEROFCHECKERCORES"
    "v \<in> set (po ! q1)" "v \<in> set (po ! q2)"
  then show "q1 = q2" by (rule pause_okD(5) [OF ok])
next
  fix v assume "v \<le> NUMBEROFCHECKERCORES" "pa ! v"
  from pause_okD(6) [OF ok this] show "(0 < v \<and> sz[q := sz ! q + 1] ! (v - 1) = 0)
      \<or> (\<exists>q' < NUMBEROFCHECKERCORES. int v \<in> set (po ! q'))"
    using d q z by (auto simp: nth_list_update [of q sz])
qed

text \<open>Popping: \<open>pa'\<close> are the flags with the writers recorded on the queue released.\<close>

lemma pause_ok_pop:
  assumes ok: "pause_ok sz pa po" and d: "pause_dims sz pa po" and q: "q < NUMBEROFCHECKERCORES"
    and z: "sz ! q \<noteq> 0" and run: "\<not> pa ! (q + 1)" and len: "length pa' = length pa"
    and rel: "\<And>i. i < length pa \<Longrightarrow> pa' ! i \<longleftrightarrow> pa ! i \<and> int i \<notin> set (po ! q)"
  shows "pause_ok (sz[q := sz ! q - 1]) (if sz ! q = 1 then pa'[q + 1 := True] else pa') (po[q := []])"
proof -
  let ?pa = "if sz ! q = 1 then pa'[q + 1 := True] else pa'"
  let ?sz = "sz[q := sz ! q - 1]"
  have pa: "?pa ! i \<longleftrightarrow> (sz ! q = 1 \<and> i = q + 1) \<or> (pa ! i \<and> int i \<notin> set (po ! q))"
    if "i \<le> NUMBEROFCHECKERCORES" for i
    using that d q len rel [of i] by (auto simp: nth_list_update)
  have sz: "?sz ! i = (if i = q then sz ! q - 1 else sz ! i)" for i
    using d q by (simp add: nth_list_update)
  have po: "v \<in> set (po[q := []] ! i) \<longleftrightarrow> i \<noteq> q \<and> v \<in> set (po ! i)" for i v
    using d q by (auto simp: nth_list_update)
  have notq: "int (q + 1) \<notin> set (po ! i)" if "i < NUMBEROFCHECKERCORES" for i
    by (rule running_not_recorded [OF ok run that])
  show ?thesis
  proof (rule pause_okI)
    fix i assume i: "i < NUMBEROFCHECKERCORES" "?sz ! i = 0"
    show "?pa ! (i + 1)"
    proof (cases "i = q")
      case True
      with i have "sz ! q - 1 = 0" by (simp only: sz if_True refl)
      with z True q show ?thesis by (subst pa) auto
    next
      case False
      then have "sz ! i = 0" using i by (simp add: sz)
      then show ?thesis
        using pause_okD(1) [OF ok i(1)] idle_not_recorded [OF ok _ q] i by (subst pa) auto
    qed
  next
    fix i v assume i: "i < NUMBEROFCHECKERCORES" "v \<in> set (po[q := []] ! i)"
    then have v: "i \<noteq> q" "v \<in> set (po ! i)" by (auto simp: po)
    then have "0 \<le> v" "v \<le> int NUMBEROFCHECKERCORES" using d i(1) by blast+
    then have r: "0 \<le> v" "nat v \<le> NUMBEROFCHECKERCORES" "int (nat v) = v" "v \<notin> set (po ! q)"
      using v pause_okD(5) [OF ok i(1) q] by auto
    have "nat v \<noteq> q + 1" using notq [OF i(1)] v r by metis
    then show "?pa ! nat v \<and> QUEUESIZE \<le> ?sz ! i \<and> (0 < v \<longrightarrow> ?sz ! (nat v - 1) \<noteq> 0)"
      using pause_okD(2-4) [OF ok i(1) v(2)] r v(1) pa [OF r(2)] by (auto simp: sz)
  next
    fix q1 q2 v assume "q1 < NUMBEROFCHECKERCORES" "q2 < NUMBEROFCHECKERCORES"
      "v \<in> set (po[q := []] ! q1)" "v \<in> set (po[q := []] ! q2)"
    then show "q1 = q2" using pause_okD(5) [OF ok] by (auto simp: po)
  next
    fix v assume v: "v \<le> NUMBEROFCHECKERCORES" "?pa ! v"
    show "(0 < v \<and> ?sz ! (v - 1) = 0)
        \<or> (\<exists>i < NUMBEROFCHECKERCORES. int v \<in> set (po[q := []] ! i))"
    proof (cases "sz ! q = 1 \<and> v = q + 1")
      case True
      then show ?thesis using d q by simp
    next
      case False
      with v pa have "pa ! v" "int v \<notin> set (po ! q)" by auto
      from pause_okD(6) [OF ok v(1) \<open>pa ! v\<close>] show ?thesis
      proof (elim disjE exE conjE)
        assume "0 < v" "sz ! (v - 1) = 0"
        with z show ?thesis by (subst sz) auto
      next
        fix i assume "i < NUMBEROFCHECKERCORES" "int v \<in> set (po ! i)"
        with \<open>int v \<notin> set (po ! q)\<close> have "int v \<in> set (po[q := []] ! i)" by (auto simp: po)
        with \<open>i < _\<close> show ?thesis by blast
      qed
    qed
  qed
qed

lemma pause_ok_pop_over:
  assumes ok: "pause_ok sz pa po" and d: "pause_dims sz pa po" and q: "q < NUMBEROFCHECKERCORES"
    and z: "QUEUESIZE < sz ! q - 1"
  shows "pause_ok (sz[q := sz ! q - 1]) pa po"
proof (rule pause_okI)
  have z': "Suc 0 < sz ! q" using z by linarith
  note upd = nth_list_update [of q sz]
  fix q' assume q': "q' < NUMBEROFCHECKERCORES"
  { assume "sz[q := sz ! q - 1] ! q' = 0"
    then show "pa ! (q' + 1)"
      using pause_okD(1) [OF ok q'] d q z by (auto simp: upd split: if_splits) }
  { fix v assume v: "v \<in> set (po ! q')"
    show "pa ! nat v \<and> QUEUESIZE \<le> sz[q := sz ! q - 1] ! q'
        \<and> (0 < v \<longrightarrow> sz[q := sz ! q - 1] ! (nat v - 1) \<noteq> 0)"
      using pause_okD(2-4) [OF ok q' v] d q z z' by (auto simp: upd) }
next
  fix q1 q2 v assume "q1 < NUMBEROFCHECKERCORES" "q2 < NUMBEROFCHECKERCORES"
    "v \<in> set (po ! q1)" "v \<in> set (po ! q2)"
  then show "q1 = q2" by (rule pause_okD(5) [OF ok])
next
  fix v assume "v \<le> NUMBEROFCHECKERCORES" "pa ! v"
  from pause_okD(6) [OF ok this] show "(0 < v \<and> sz[q := sz ! q - 1] ! (v - 1) = 0)
      \<or> (\<exists>q' < NUMBEROFCHECKERCORES. int v \<in> set (po ! q'))"
    using d q z by (auto simp: nth_list_update [of q sz])
qed

section \<open>Adding to a queue\<close>

lemma same_config_refl [simp]: "same_config g g"
  by (simp add: same_config_def)

lemma same_config_trans: "same_config g g' \<Longrightarrow> same_config g' g'' \<Longrightarrow> same_config g g''"
  by (simp add: same_config_def)

lemma wf_dims:
  assumes "wf_slog g" shows "pause_dims (queue_size g) (pause g) (pausedOn g)"
  using assms by (simp add: wf_slog_def)

lemma ring_push_sel [simp]:
  "queue_size (ring_push g s q) = (queue_size g)[q := queue_size g ! q + 1]"
  "pause (ring_push g s q) = pause g"
  "pausedOn (ring_push g s q) = pausedOn g"
  "programs (ring_push g s q) = programs g"
  "histogram (ring_push g s q) = histogram g"
  "started (ring_push g s q) = started g"
  "same_config g' (ring_push g s q) = same_config g' g"
  by (simp_all add: ring_push_def same_config_def)

lemma ring_pop_sel [simp]:
  "queue_size (ring_pop g q) = (queue_size g)[q := queue_size g ! q - 1]"
  "pause (ring_pop g q) = pause g"
  "pausedOn (ring_pop g q) = pausedOn g"
  "programs (ring_pop g q) = programs g"
  "histogram (ring_pop g q) = histogram g"
  "started (ring_pop g q) = started g"
  "same_config g' (ring_pop g q) = same_config g' g"
  by (simp_all add: ring_pop_def same_config_def)

lemma pause_writer_cases:
  assumes "w \<le> NUMBEROFCHECKERCORES" "length (pause g) = NUMBEROFCHECKERCORES + 1"
  shows "pause_writer g q (int w) =
    Inr (if QUEUESIZE \<le> queue_size g ! q \<and> \<not> pause g ! w
         then g\<lparr>pause := (pause g)[w := True],
                pausedOn := (pausedOn g)[q := pausedOn g ! q @ [int w]]\<rparr>
         else g)"
  using assms by (simp add: pause_writer_def rd_def)

lemma pushed_sel [simp]:
  "queue_size (pushed g s q w) = (queue_size g)[q := queue_size g ! q + 1]"
  "pause (pushed g s q w) = pause g"
  "pausedOn (pushed g s q w) = pausedOn g"
  "programs (pushed g s q w) = programs g"
  "histogram (pushed g s q w) = histogram g"
  "started (pushed g s q w) = started g"
  "same_config g (pushed g s q w)"
  by (simp_all add: pushed_def) (simp add: same_config_def)

lemma wf_pushed:
  assumes "wf_slog g" "q < NUMBEROFCHECKERCORES" shows "wf_slog (pushed g s q w)"
proof -
  have "wf_slog (g\<lparr>mapped_to_core := (mapped_to_core g)[q := mapped_to_core g ! q + 1]\<rparr>)"
    using assms(1) by (simp add: wf_slog_def)
  then show ?thesis unfolding pushed_def by (rule wf_ring_push [OF _ assms(2)])
qed

lemma fifo_pushed:
  assumes "wf_slog g" "q < NUMBEROFCHECKERCORES" "queue_size g ! q < QUEUESIZE"
  shows "fifo (pushed g s q w) = (fifo g)(q := fifo g q @ [s\<lparr>from_core := int w\<rparr>])"
proof -
  let ?g = "g\<lparr>mapped_to_core := (mapped_to_core g)[q := mapped_to_core g ! q + 1]\<rparr>"
  have "wf_slog ?g" using assms(1) by (simp add: wf_slog_def)
  moreover have "fifo ?g = fifo g" by (rule ext) (simp add: fifo_def)
  ultimately show ?thesis
    using fifo_ring_push [of ?g q] assms(2,3) by (simp add: pushed_def)
qed

lemma add_to_queue_eq:
  assumes wf: "wf_slog g" and q: "q < NUMBEROFCHECKERCORES"
    and w: "w \<le> NUMBEROFCHECKERCORES" and size: "queue_size g ! q \<noteq> RINGSLOTS"
  shows "add_to_queue g s (int q) (int w) = Inr (added g s q w)"
proof -
  note d = wf_slogD [OF wf q]
  have len: "length (pause g) = NUMBEROFCHECKERCORES + 1" using wf by (simp add: wf_slog_def)
  have "add_to_queue g s (int q) (int w) =
      bindE (pause_writer (pushed g s q w) q (int w)) (\<lambda>g2. Inr (wake_reader g2 q))"
    using d(6) size by (simp add: add_to_queue_def rd_of_nat Let_def pushed_def)
  also have "pause_writer (pushed g s q w) q (int w) =
      Inr (if QUEUESIZE \<le> queue_size g ! q + 1 \<and> \<not> pause g ! w
         then (pushed g s q w)\<lparr>pause := (pause g)[w := True],
                pausedOn := (pausedOn g)[q := pausedOn g ! q @ [int w]]\<rparr>
         else pushed g s q w)"
    using w len d(4) by (simp add: pause_writer_cases)
  finally show ?thesis
    using d(4) by (simp add: wake_reader_def QUEUESIZE_def added_def)
qed

lemma wf_update_pause:
  assumes "wf_slog g" "length p = length (pause g)" "length po = length (pausedOn g)"
    and "\<forall>q < NUMBEROFCHECKERCORES. \<forall>w \<in> set (po ! q). 0 \<le> w \<and> w \<le> int NUMBEROFCHECKERCORES"
  shows "wf_slog (g\<lparr>pause := p, pausedOn := po\<rparr>)"
  using assms by (simp add: wf_slog_def)

lemma fifo_update_pause [simp]: "fifo (g\<lparr>pause := p, pausedOn := po\<rparr>) = fifo g"
    "fifo (g\<lparr>pause := p\<rparr>) = fifo g"
  by (rule ext, simp add: fifo_def)+

lemma wf_added:
  assumes wf: "wf_slog g" and q: "q < NUMBEROFCHECKERCORES" and w: "w \<le> NUMBEROFCHECKERCORES"
  shows "wf_slog (added g s q w)"
proof -
  note d = wf_dims [OF wf]
  note p = wf_pushed [OF wf q, of s w]
  have "wf_slog ((pushed g s q w)\<lparr>pause := (pause g)[w := True],
      pausedOn := (pausedOn g)[q := pausedOn g ! q @ [int w]]\<rparr>)"
    using d q w by (intro wf_update_pause [OF p]) (auto simp: nth_list_update)
  moreover have "wf_slog ((pushed g s q w)\<lparr>pause := (pause g)[q + 1 := False]\<rparr>)"
    using p by (simp add: wf_slog_def)
  ultimately show ?thesis using p by (simp add: added_def)
qed

lemma fifo_added:
  assumes "wf_slog g" "q < NUMBEROFCHECKERCORES" "queue_size g ! q < QUEUESIZE"
  shows "fifo (added g s q w) = (fifo g)(q := fifo g q @ [s\<lparr>from_core := int w\<rparr>])"
  using fifo_pushed [OF assms] by (simp add: added_def)

lemma added_sel [simp]:
  "queue_size (added g s q w) = (queue_size g)[q := queue_size g ! q + 1]"
  "programs (added g s q w) = programs g"
  "histogram (added g s q w) = histogram g"
  "started (added g s q w) = started g"
  by (simp_all add: added_def)

lemma same_config_added: "same_config g (added g s q w)"
  using pushed_sel(7) [of g s q w] by (simp add: added_def same_config_def)

lemma pause_inv_added:
  assumes inv: "pause_inv g" and wf: "wf_slog g" and q: "q < NUMBEROFCHECKERCORES"
    and w: "w \<le> NUMBEROFCHECKERCORES"
  shows "pause_inv (added g s q w)"
proof -
  note ok = inv [unfolded pause_inv_def] and d = wf_dims [OF wf]
  consider (full) "QUEUESIZE \<le> queue_size g ! q + 1" "\<not> pause g ! w"
    | (first) "queue_size g ! q = 0" "pause g ! (q + 1)" "\<not> (QUEUESIZE \<le> queue_size g ! q + 1 \<and> \<not> pause g ! w)"
    | (other) "queue_size g ! q \<noteq> 0" "\<not> (QUEUESIZE \<le> queue_size g ! q + 1 \<and> \<not> pause g ! w)"
    using pause_okD(1) [OF ok q] by blast
  then show ?thesis
  proof cases
    case full
    then show ?thesis
      using pause_ok_push_full [OF ok d q full w] by (simp add: added_def pause_inv_def)
  next
    case first
    then show ?thesis
      using pause_ok_push_first [OF ok d q first(1)]
      by (simp add: added_def pause_inv_def QUEUESIZE_def)
  next
    case other
    then show ?thesis
      using pause_ok_push [OF ok d q other(1)] by (auto simp: added_def pause_inv_def)
  qed
qed

section \<open>Popping a queue\<close>

lemma length_released [simp]: "length (released ws p) = length p"
  by (simp add: released_def)

lemma nth_released [simp]: "i < length p \<Longrightarrow> released ws p ! i \<longleftrightarrow> p ! i \<and> int i \<notin> set ws"
  by (simp add: released_def)

lemma release_eq:
  "\<forall>w \<in> set ws. 0 \<le> w \<and> w < int (length p) \<Longrightarrow> release ws p = Inr (released ws p)"
proof (induction ws arbitrary: p)
  case Nil
  show ?case by (simp add: released_def map_nth)
next
  case (Cons w ws)
  then have w: "0 \<le> w" "nat w < length p" by auto
  have "released ws (p[nat w := False]) = released (w # ws) p"
    using w by (intro nth_equalityI) (auto simp: nth_list_update)
  with Cons w show ?case by (simp add: wr_def in_arr_def)
qed

lemma wake_pause_eq:
  assumes wf: "wf_slog g" and q: "q < NUMBEROFCHECKERCORES" and z: "queue_size g ! q \<noteq> 0"
  shows "bindE (wake_writers (ring_pop g q) q) (\<lambda>g3. Inr (v, pause_reader g3 q)) = Inr (v, popped g q)"
proof -
  have "\<forall>w \<in> set (pausedOn g ! q). 0 \<le> w \<and> w < int (length (pause g))"
  proof
    fix w assume "w \<in> set (pausedOn g ! q)"
    then have "0 \<le> w \<and> w \<le> int NUMBEROFCHECKERCORES" using wf_dims [OF wf] q by blast
    moreover have "length (pause g) = NUMBEROFCHECKERCORES + 1" using wf_dims [OF wf] by blast
    ultimately show "0 \<le> w \<and> w < int (length (pause g))" by simp
  qed
  then have rel: "release (pausedOn g ! q) (pause g) = Inr (released (pausedOn g ! q) (pause g))"
    by (rule release_eq)
  show ?thesis
    using wf_slogD(4) [OF wf q] z rel
    by (auto simp: wake_writers_def pause_reader_def popped_def Let_def)
qed

lemma record_delay_sel:
  assumes "record_delay now s g = Inr g'"
  shows "queue_size g' = queue_size g" "pause g' = pause g" "pausedOn g' = pausedOn g"
    "fifo g' = fifo g" "same_config g g'" "programs g' = programs g" "wf_slog g' = wf_slog g"
    "queues g' = queues g" "queue_start g' = queue_start g" "started g' = started g"
proof -
  from assms obtain h where "g' = g \<or> g' = g\<lparr>histogram := h\<rparr>"
    by (auto simp: record_delay_def bindE_Inr_iff split: if_splits)
  then show "queue_size g' = queue_size g" "pause g' = pause g" "pausedOn g' = pausedOn g"
    "fifo g' = fifo g" "same_config g g'" "programs g' = programs g" "wf_slog g' = wf_slog g"
    "queues g' = queues g" "queue_start g' = queue_start g" "started g' = started g"
    by (auto simp: fifo_def fun_eq_iff same_config_def wf_slog_def)
qed

lemma start_clock_sel [simp]:
  "queue_size (start_clock now g) = queue_size g" "pause (start_clock now g) = pause g"
  "pausedOn (start_clock now g) = pausedOn g" "fifo (start_clock now g) = fifo g"
  "same_config g (start_clock now g)" "programs (start_clock now g) = programs g"
  "wf_slog (start_clock now g) = wf_slog g" "queues (start_clock now g) = queues g"
  "queue_start (start_clock now g) = queue_start g" "histogram (start_clock now g) = histogram g"
  by (auto simp: start_clock_def fifo_def fun_eq_iff same_config_def wf_slog_def)

text \<open>The only way a running core's pop from its non-empty queue faults is through the histogram.\<close>

lemma pop_from_queue_eq:
  assumes wf: "wf_slog g" and q: "q < NUMBEROFCHECKERCORES"
    and run: "\<not> pause g ! (q + 1)" and z: "queue_size g ! q \<noteq> 0"
  shows "pop_from_queue now g (int (q + 1)) item =
    bindE (record_delay now (hd (fifo g q)) (start_clock now g)) (\<lambda>g2.
    Inr (entry_item (hd (fifo g q)) item, popped g2 q))"
proof -
  note d = wf_slogD [OF wf q]
  have idx: "int (q + 1) - 1 = int q" by simp
  have pause: "rd (pause g) (int (q + 1)) = Inr False"
    using rd_of_nat [OF d(7)] run by simp
  have hd: "queues g ! q ! (queue_start g ! q) = hd (fifo g q)"
    using hd_fifo z d by simp
  have "pop_from_queue now g (int (q + 1)) item =
      bindE (record_delay now (hd (fifo g q)) (start_clock now g)) (\<lambda>g2.
      bindE (wake_writers (ring_pop g2 q) q) (\<lambda>g3.
      Inr (entry_item (hd (fifo g q)) item, pause_reader g3 q)))"
    unfolding pop_from_queue_def pause idx Let_def
    using z hd rd_of_nat [OF d(4)] by (simp flip: start_clock_def)
  also have "\<dots> = bindE (record_delay now (hd (fifo g q)) (start_clock now g)) (\<lambda>g2.
      Inr (entry_item (hd (fifo g q)) item, popped g2 q))"
  proof (rule bindE_cong [OF refl])
    fix g2 assume "record_delay now (hd (fifo g q)) (start_clock now g) = Inr g2"
    from record_delay_sel(1,7) [OF this]
    show "bindE (wake_writers (ring_pop g2 q) q)
        (\<lambda>g3. Inr (entry_item (hd (fifo g q)) item, pause_reader g3 q))
        = Inr (entry_item (hd (fifo g q)) item, popped g2 q)"
      using wf q z by (intro wake_pause_eq) simp_all
  qed
  finally show ?thesis .
qed

lemma wf_popped:
  assumes wf: "wf_slog g" and q: "q < NUMBEROFCHECKERCORES" and z: "queue_size g ! q \<noteq> 0"
  shows "wf_slog (popped g q)"
proof -
  note d = wf_dims [OF wf]
  note p = wf_ring_pop [OF wf q z]
  have "wf_slog ((ring_pop g q)\<lparr>pause := pa, pausedOn := (pausedOn g)[q := []]\<rparr>)"
    if "length pa = length (pause g)" for pa
    using d q that by (intro wf_update_pause [OF p]) (auto simp: nth_list_update)
  then show ?thesis using p by (simp add: popped_def Let_def)
qed

lemma fifo_popped:
  assumes "wf_slog g" "q < NUMBEROFCHECKERCORES" "queue_size g ! q \<noteq> 0"
  shows "fifo (popped g q) = (fifo g)(q := tl (fifo g q))"
  using fifo_ring_pop [OF assms] by (simp add: popped_def Let_def)

lemma popped_sel [simp]:
  "queue_size (popped g q) = (queue_size g)[q := queue_size g ! q - 1]"
  "programs (popped g q) = programs g"
  "histogram (popped g q) = histogram g"
  "started (popped g q) = started g"
  by (simp_all add: popped_def Let_def)

lemma same_config_popped: "same_config g (popped g q)"
  by (simp add: popped_def Let_def same_config_def ring_pop_def)

lemma pause_inv_popped:
  assumes inv: "pause_inv g" and wf: "wf_slog g" and q: "q < NUMBEROFCHECKERCORES"
    and run: "\<not> pause g ! (q + 1)" and z: "queue_size g ! q \<noteq> 0"
  shows "pause_inv (popped g q)"
proof -
  note ok = inv [unfolded pause_inv_def] and d = wf_dims [OF wf]
  show ?thesis
  proof (cases "queue_size g ! q - 1 \<le> QUEUESIZE")
    case True
    then show ?thesis
      using pause_ok_pop [OF ok d q z run, of "released (pausedOn g ! q) (pause g)"]
      by (simp add: popped_def Let_def pause_inv_def)
  next
    case False
    then show ?thesis
      using pause_ok_pop_over [OF ok d q] by (simp add: popped_def Let_def pause_inv_def)
  qed
qed

text \<open>
  What a successful pop tells about the state it started from: the core runs, its queue is not
  empty, and the result is the closed form.
\<close>

lemma pop_from_queueD:
  assumes wf: "wf_slog g" and pop: "pop_from_queue now g core item = Inr (v, g')"
  obtains q g2 where "core = int (q + 1)" "q < NUMBEROFCHECKERCORES" "\<not> pause g ! (q + 1)"
    "queue_size g ! q \<noteq> 0" "record_delay now (hd (fifo g q)) (start_clock now g) = Inr g2"
    "v = entry_item (hd (fifo g q)) item" "g' = popped g2 q"
proof -
  have len: "length (pause g) = NUMBEROFCHECKERCORES + 1"
    "length (queue_size g) = NUMBEROFCHECKERCORES"
    using wf by (simp_all add: wf_slog_def)
  from pop have c: "0 \<le> core - 1" "nat (core - 1) < NUMBEROFCHECKERCORES" "\<not> pause g ! nat core"
    "queue_size g ! nat (core - 1) \<noteq> 0"
    using len by (auto simp: pop_from_queue_def bindE_Inr_iff rd_Inr_iff Let_def split: if_splits)
  define q where "q = nat (core - 1)"
  have q: "core = int (q + 1)" "q < NUMBEROFCHECKERCORES" "\<not> pause g ! (q + 1)" "queue_size g ! q \<noteq> 0"
    using c by (simp_all add: q_def nat_diff_distrib)
  from pop [unfolded q(1) pop_from_queue_eq [OF wf q(2-4)] bindE_Inr_iff]
  obtain g2 where "record_delay now (hd (fifo g q)) (start_clock now g) = Inr g2"
    "v = entry_item (hd (fifo g q)) item" "g' = popped g2 q"
    by auto
  with q that show thesis by blast
qed

lemma pop_from_queue_keeps:
  assumes wf: "wf_slog g" and pop: "pop_from_queue now g core item = Inr (v, g')"
  shows "wf_slog g'" "same_config g g'" "pause_inv g \<Longrightarrow> pause_inv g'"
    "\<exists>q < NUMBEROFCHECKERCORES. core = int (q + 1) \<and> fifo g q \<noteq> [] \<and>
       v = entry_item (hd (fifo g q)) item \<and> fifo g' = (fifo g)(q := tl (fifo g q))"
proof -
  obtain q g2 where q: "core = int (q + 1)" "q < NUMBEROFCHECKERCORES" "\<not> pause g ! (q + 1)"
    "queue_size g ! q \<noteq> 0"
    and r: "record_delay now (hd (fifo g q)) (start_clock now g) = Inr g2"
    and v: "v = entry_item (hd (fifo g q)) item" and g': "g' = popped g2 q"
    by (rule pop_from_queueD [OF assms])
  note sel = record_delay_sel [OF r, simplified]
  have wf2: "wf_slog g2" using sel wf by simp
  show "wf_slog g'" using wf_popped [OF wf2 q(2)] sel q(4) g' by simp
  show "same_config g g'"
    using same_config_trans [OF start_clock_sel(5) same_config_trans [OF sel(5) same_config_popped]]
    unfolding g' .
  show "pause_inv g'" if "pause_inv g"
  proof -
    have "pause_inv g2" using that sel by (simp add: pause_inv_def)
    then show ?thesis using pause_inv_popped [OF _ wf2 q(2)] sel q g' by simp
  qed
  show "\<exists>q < NUMBEROFCHECKERCORES. core = int (q + 1) \<and> fifo g q \<noteq> [] \<and>
       v = entry_item (hd (fifo g q)) item \<and> fifo g' = (fifo g)(q := tl (fifo g q))"
    using q v fifo_popped [OF wf2 q(2)] sel g' by (intro exI [of _ q]) simp
qed

end
