(* ===== verification/Secmap_Config.thy ===== *)
theory Secmap_Config
  imports Secure_Log
begin

text \<open>
  Loading of the filter and mapper configuration \<open>secmap.ini\<close> (\<open>GetNextLine\<close> and \<open>init\<close> of
  \<open>src/mem/cache/securelogentry.hh\<close>). The input stream is its remaining characters and its
  end-of-file flag; \<open>std::getline\<close> follows the C++ standard: on a stream whose end-of-file flag is
  set it fails and leaves the target string unchanged. \<open>atoi\<close> skips white space, reads an optional
  sign and then digits; as in the C library of the host it is \<open>strtol\<close>, saturated at the 64-bit
  \<open>long\<close>, cut to \<open>int\<close>. Core numbers are the 32-bit \<open>int\<close> of the source, with two's complement
  wrap-around. The characters of the host are signed bytes.
\<close>

section \<open>The input stream\<close>

record istream =
  chars :: string
  eofbit :: bool

definition newline :: char where
  "newline = CHR 0x0A"

text \<open>\<open>std::getline (m_InFile, line)\<close>: success, the line, the stream afterwards.\<close>

definition getline :: "istream \<Rightarrow> string \<Rightarrow> bool \<times> string \<times> istream" where
  "getline st line =
     (if eofbit st then (False, line, st)
      else let l = takeWhile (\<lambda>c. c \<noteq> newline) (chars st);
               rest = dropWhile (\<lambda>c. c \<noteq> newline) (chars st)
           in if rest = [] then (l \<noteq> [], l, \<lparr>chars = [], eofbit = True\<rparr>)
              else (True, l, st\<lparr>chars := tl rest\<rparr>))"

definition stream_measure :: "istream \<Rightarrow> nat" where
  "stream_measure st = length (chars st) + (if eofbit st then 0 else 1)"

lemma getline_shorter:
  assumes "getline st line = (True, l, st')"
  shows "stream_measure st' < stream_measure st"
proof -
  have "length (dropWhile (\<lambda>c. c \<noteq> newline) (chars st)) \<le> length (chars st)"
    by (rule length_dropWhile_le)
  then show ?thesis
    using assms
    by (cases "dropWhile (\<lambda>c. c \<noteq> newline) (chars st)")
       (auto simp: getline_def stream_measure_def Let_def split: if_splits)
qed

function GetNextLine :: "istream \<Rightarrow> string \<Rightarrow> string \<times> istream" where
  "GetNextLine st line =
     (let (ok, line', st') = getline st line
      in if ok \<and> \<not> (length line' > 0 \<and> line' ! 0 \<noteq> CHR ''#'') then GetNextLine st' []
         else (line', st'))"
  by pat_completeness auto
termination
  by (relation "measure (\<lambda>(st, line). stream_measure st)") (auto dest: getline_shorter [OF sym])

declare GetNextLine.simps [simp del]

definition open_file :: "string \<Rightarrow> istream" where
  "open_file cs = \<lparr>chars = cs, eofbit = False\<rparr>"

section \<open>Parsing\<close>

definition is_space :: "char \<Rightarrow> bool" where
  "is_space c \<longleftrightarrow> c \<in> {CHR '' '', CHR 0x09, CHR 0x0A, CHR 0x0B, CHR 0x0C, CHR 0x0D}"

definition is_digit :: "char \<Rightarrow> bool" where
  "is_digit c \<longleftrightarrow> 48 \<le> (of_char c :: int) \<and> (of_char c :: int) \<le> 57"

fun digits_value :: "int \<Rightarrow> string \<Rightarrow> int" where
  "digits_value acc [] = acc"
| "digits_value acc (c # cs) =
     (if is_digit c then digits_value (10 * acc + (of_char c - 48)) cs else acc)"

definition strtol :: "string \<Rightarrow> int" where
  "strtol s =
     (case dropWhile is_space s of
        [] \<Rightarrow> 0
      | c # cs \<Rightarrow>
          if c = CHR ''-'' then - digits_value 0 cs
          else if c = CHR ''+'' then digits_value 0 cs
          else digits_value 0 (c # cs))"

text \<open>Conversion to the 32-bit \<open>int\<close>.\<close>

definition c_int :: "int \<Rightarrow> int" where
  "c_int x = signed_take_bit 31 x"

definition atoi :: "string \<Rightarrow> int" where
  "atoi s = c_int (max (- (2 ^ 63)) (min (2 ^ 63 - 1) (strtol s)))"

definition schar :: "char \<Rightarrow> int" where
  "schar c = (if (of_char c :: int) < 128 then of_char c else of_char c - 256)"

text \<open>
  The value of one map character. The conditional operator binds weaker than \<open>+\<close>, so the
  condition of the last one is \<open>p.corestart + (A > '9')\<close> as a whole.
\<close>

definition map_char :: "int \<Rightarrow> char \<Rightarrow> int" where
  "map_char start c =
     (let A = schar c
      in if A = 45 then - 1
         else if A = 124 then - 2
         else if A = 48 then 0
         else if start + (if A > 57 then 1 else 0) \<noteq> 0 then (A AND NOT 0x20) - 65 + 10
         else A - 48)"

text \<open>The character loop: entry \<open>i\<close> of the map and of \<open>filterb\<close>, both arrays of \<open>ENUMSIZE\<close>.\<close>

fun map_line :: "int \<Rightarrow> nat \<Rightarrow> string \<Rightarrow> bool list \<Rightarrow> (int list \<times> bool list) res" where
  "map_line start i [] fb = Inr ([], fb)"
| "map_line start i (c # cs) fb =
     (if i \<ge> ENUMSIZE then Inl OutOfBounds
      else bindE (map_line start (i + 1) cs (fb[i := fb ! i \<or> schar c \<noteq> 48])) (\<lambda>(vs, fb').
           Inr (map_char start c # vs, fb')))"

partial_function (option) init_loop ::
  "istream \<Rightarrow> string \<Rightarrow> int \<Rightarrow> sprogram list \<Rightarrow> bool list \<Rightarrow>
   (int \<times> sprogram list \<times> bool list) res option" where
  "init_loop st line cores ps fb =
     (if line = [] then Some (Inr (cores, ps, fb))
      else let start = cores; last = c_int (cores + atoi line - 1); (line1, st1) = GetNextLine st line
           in case map_line start 0 line1 fb of
                Inl e \<Rightarrow> Some (Inl e)
              | Inr (vs, fb1) \<Rightarrow>
                  let p = \<lparr>prog_map = vs, counter = start, corestart = start, coreend = last\<rparr>;
                      (line2, st2) = GetNextLine st1 line1
                  in init_loop st2 line2 (c_int (last + 1)) (ps @ [p]) fb1)"

text \<open>
  \<open>init\<close> on the contents of \<open>secmap.ini\<close>. \<open>None\<close> is a loop that never ends. The recorded
  writers and the programs of an earlier call stay.
\<close>

definition init_slog :: "string \<Rightarrow> slog \<Rightarrow> slog res option" where
  "init_slog file g =
     (let g1 = g\<lparr>pause := False # replicate NUMBEROFCHECKERCORES True,
                 queue_end := replicate NUMBEROFCHECKERCORES 0,
                 queue_start := replicate NUMBEROFCHECKERCORES 0,
                 queue_size := replicate NUMBEROFCHECKERCORES 0\<rparr>;
          (line, st) = GetNextLine (open_file file) []
      in case init_loop st line 0 (programs g) (replicate ENUMSIZE False) of
           None \<Rightarrow> None
         | Some (Inl e) \<Rightarrow> Some (Inl e)
         | Some (Inr (cores, ps, fb)) \<Rightarrow>
             Some (Inr (g1\<lparr>programs := ps, filterb := fb, ready := cores\<rparr>)))"

section \<open>A printer for configurations\<close>

text \<open>A configuration: per program the number of cores and the map line.\<close>

type_synonym secmap = "(nat \<times> string) list"

definition digit_char :: "nat \<Rightarrow> char" where
  "digit_char n = char_of (48 + int n)"

function show_nat :: "nat \<Rightarrow> string" where
  "show_nat n = (if n < 10 then [digit_char n] else show_nat (n div 10) @ [digit_char (n mod 10)])"
  by pat_completeness auto
termination
  by (relation "measure id") auto

declare show_nat.simps [simp del]

definition show_entry :: "nat \<times> string \<Rightarrow> string" where
  "show_entry e = show_nat (fst e) @ [newline] @ snd e @ [newline]"

definition show_secmap :: "secmap \<Rightarrow> string" where
  "show_secmap cfg = concat (map show_entry cfg)"

text \<open>The programs, filter flags and core count the loader makes of such lines.\<close>

fun read_programs :: "int \<Rightarrow> secmap \<Rightarrow> sprogram list" where
  "read_programs start [] = []"
| "read_programs start ((n, l) # cfg) =
     (let last = c_int (start + atoi (show_nat n) - 1)
      in \<lparr>prog_map = map (map_char start) l, counter = start, corestart = start, coreend = last\<rparr>
         # read_programs (c_int (last + 1)) cfg)"

fun read_cores :: "int \<Rightarrow> secmap \<Rightarrow> int" where
  "read_cores start [] = start"
| "read_cores start ((n, l) # cfg) = read_cores (c_int (c_int (start + atoi (show_nat n) - 1) + 1)) cfg"

definition read_filter :: "secmap \<Rightarrow> bool list" where
  "read_filter cfg =
     map (\<lambda>i. \<exists>(n, l) \<in> set cfg. i < length l \<and> schar (l ! i) \<noteq> 48) [0..<ENUMSIZE]"

text \<open>Map lines as the scripts write them: non-empty, at most nine characters, no line break, not
  starting like a comment.\<close>

definition secmap_ok :: "secmap \<Rightarrow> bool" where
  "secmap_ok cfg \<longleftrightarrow>
     (\<forall>(n, l) \<in> set cfg. l \<noteq> [] \<and> length l \<le> ENUMSIZE \<and> hd l \<noteq> CHR ''#'' \<and> newline \<notin> set l)"

section \<open>What a configuration means\<close>

text \<open>
  The routes of the configuration format, independent of their characters: an instruction kind is
  not forwarded (\<open>0\<close>), goes round-robin over the cores of the program (\<open>-\<close>, counter mode), to one
  core until its queue is nearly full and then to the least loaded one (\<open>|\<close>, blocker mode), or to a
  fixed core, numbered from 1 (a digit, or from 10 on a letter). A mapped kind is one with any route but \<open>Ignore\<close>.
\<close>

datatype route = Ignore | Counter | Blocker | Fixed nat

type_synonym config = "(nat \<times> route list) list"

fun route_char :: "route \<Rightarrow> char" where
  "route_char Ignore = CHR ''0''"
| "route_char Counter = CHR ''-''"
| "route_char Blocker = CHR ''|''"
| "route_char (Fixed k) = (if k < 10 then digit_char k else char_of (65 + int (k - 10)))"

definition print_config :: "config \<Rightarrow> string" where
  "print_config cfg = show_secmap (map (\<lambda>(n, rs). (n, map route_char rs)) cfg)"

text \<open>The mode codes of the mapper, and the programs on consecutive core ranges.\<close>

fun route_code :: "route \<Rightarrow> int" where
  "route_code Ignore = 0"
| "route_code Counter = - 1"
| "route_code Blocker = - 2"
| "route_code (Fixed k) = int k"

fun config_programs :: "nat \<Rightarrow> config \<Rightarrow> sprogram list" where
  "config_programs start [] = []"
| "config_programs start ((n, rs) # cfg) =
     \<lparr>prog_map = map route_code rs, counter = int start, corestart = int start,
      coreend = int start + int n - 1\<rparr> # config_programs (start + n) cfg"

definition config_filter :: "config \<Rightarrow> bool list" where
  "config_filter cfg =
     map (\<lambda>i. \<exists>(n, rs) \<in> set cfg. i < length rs \<and> rs ! i \<noteq> Ignore) [0..<ENUMSIZE]"

definition config_cores :: "config \<Rightarrow> nat" where
  "config_cores cfg = sum_list (map fst cfg)"

text \<open>
  The configurations the loader reads as meant: one to nine routes per program, fixed cores 1 to
  35, those below 10 only in a program that starts at core 0, and fewer than \<open>2 ^ 31\<close> cores.
\<close>

fun route_ok :: "nat \<Rightarrow> route \<Rightarrow> bool" where
  "route_ok start (Fixed k) \<longleftrightarrow> (if start = 0 then 1 else 10) \<le> k \<and> k \<le> 35"
| "route_ok start r \<longleftrightarrow> True"

fun config_ok :: "nat \<Rightarrow> config \<Rightarrow> bool" where
  "config_ok start [] \<longleftrightarrow> start < 2 ^ 31"
| "config_ok start ((n, rs) # cfg) \<longleftrightarrow>
     rs \<noteq> [] \<and> length rs \<le> ENUMSIZE \<and> (\<forall>r \<in> set rs. route_ok start r) \<and> config_ok (start + n) cfg"

section \<open>Printing then parsing\<close>

lemma of_char_digit: "d < 10 \<Longrightarrow> (of_char (digit_char d) :: int) = 48 + int d"
  by (simp add: digit_char_def of_char_of)

lemma is_digit_digit_char [simp]: "d < 10 \<Longrightarrow> is_digit (digit_char d)"
  by (simp add: is_digit_def of_char_digit)

lemma digits_value_append:
  "\<forall>c \<in> set xs. is_digit c \<Longrightarrow> digits_value acc (xs @ ys) = digits_value (digits_value acc xs) ys"
  by (induction xs arbitrary: acc) auto

lemma show_nat_digits: "\<forall>c \<in> set (show_nat n). is_digit c"
proof (induction n rule: show_nat.induct)
  case (1 n)
  then show ?case
    by (cases "n < 10") (auto simp: show_nat.simps [of n])
qed

lemma show_nat_nonempty [simp]: "show_nat n \<noteq> []"
  by (subst show_nat.simps) simp

lemma digits_value_show_nat: "digits_value 0 (show_nat n) = int n"
proof (induction n rule: show_nat.induct)
  case (1 n)
  show ?case
  proof (cases "n < 10")
    case True
    then show ?thesis by (simp add: show_nat.simps [of n] of_char_digit)
  next
    case False
    have "int n = 10 * int (n div 10) + int (n mod 10)"
      by (metis mult.commute div_mult_mod_eq of_nat_add of_nat_mult of_nat_numeral)
    with False 1 show ?thesis
      by (simp add: show_nat.simps [of n] digits_value_append show_nat_digits of_char_digit)
  qed
qed

lemma is_digit_not:
  assumes "is_digit c"
  shows "\<not> is_space c" "c \<noteq> CHR ''-''" "c \<noteq> CHR ''+''" "c \<noteq> CHR ''#''" "c \<noteq> newline"
  using assms by (auto simp: is_digit_def is_space_def newline_def)

lemma strtol_show_nat: "strtol (show_nat n) = int n"
proof (cases "show_nat n")
  case (Cons c cs)
  then have "is_digit c" using show_nat_digits [of n] by auto
  with is_digit_not [of c] Cons digits_value_show_nat [of n] show ?thesis
    by (simp add: strtol_def)
qed simp

lemma c_int_small: "- (2 ^ 31) \<le> x \<Longrightarrow> x < 2 ^ 31 \<Longrightarrow> c_int x = x"
  unfolding c_int_def by (rule signed_take_bit_int_eq_self) simp_all

lemma atoi_show_nat: "n < 2 ^ 31 \<Longrightarrow> atoi (show_nat n) = int n"
  by (simp add: atoi_def strtol_show_nat c_int_small)

lemma takeWhile_line: "newline \<notin> set l \<Longrightarrow> takeWhile (\<lambda>c. c \<noteq> newline) (l @ newline # r) = l"
  by (induction l) auto

lemma dropWhile_line:
  "newline \<notin> set l \<Longrightarrow> dropWhile (\<lambda>c. c \<noteq> newline) (l @ newline # r) = newline # r"
  by (induction l) auto

text \<open>A line that is neither empty nor a comment is returned and consumed.\<close>

lemma GetNextLine_line:
  assumes "newline \<notin> set l" "l \<noteq> []" "hd l \<noteq> CHR ''#''"
  shows "GetNextLine \<lparr>chars = l @ newline # r, eofbit = False\<rparr> x = (l, \<lparr>chars = r, eofbit = False\<rparr>)"
  using assms
  by (subst GetNextLine.simps) (simp add: getline_def takeWhile_line dropWhile_line hd_conv_nth)

lemma GetNextLine_end:
  "GetNextLine \<lparr>chars = [], eofbit = False\<rparr> x = ([], \<lparr>chars = [], eofbit = True\<rparr>)"
  by (subst GetNextLine.simps) (simp add: getline_def)

text \<open>Comment lines and empty lines are skipped.\<close>

lemma GetNextLine_skip:
  assumes "newline \<notin> set l" "l = [] \<or> hd l = CHR ''#''"
  shows "GetNextLine \<lparr>chars = l @ newline # r, eofbit = False\<rparr> x
         = GetNextLine \<lparr>chars = r, eofbit = False\<rparr> []"
  using assms
  by (subst GetNextLine.simps) (auto simp: getline_def takeWhile_line dropWhile_line hd_conv_nth)

lemma map_line_eq:
  "i + length l \<le> ENUMSIZE \<Longrightarrow> length fb = ENUMSIZE \<Longrightarrow>
   map_line start i l fb =
     Inr (map (map_char start) l,
          map (\<lambda>j. fb ! j \<or> (i \<le> j \<and> j < i + length l \<and> schar (l ! (j - i)) \<noteq> 48)) [0..<ENUMSIZE])"
proof (induction l arbitrary: i fb)
  case Nil
  then show ?case by (auto simp: list_eq_iff_nth_eq)
next
  case (Cons c cs)
  let ?fb = "fb[i := fb ! i \<or> schar c \<noteq> 48]"
  have "(\<lambda>j. ?fb ! j \<or> (i + 1 \<le> j \<and> j < i + 1 + length cs \<and> schar (cs ! (j - (i + 1))) \<noteq> 48)) j
      = (fb ! j \<or> (i \<le> j \<and> j < i + length (c # cs) \<and> schar ((c # cs) ! (j - i)) \<noteq> 48))"
    if "j < ENUMSIZE" for j
    using that Cons.prems by (auto simp: nth_list_update nth_Cons' Suc_diff_Suc)
  with Cons show ?case by auto
qed

lemma show_nat_line:
  "newline \<notin> set (show_nat n)" "show_nat n \<noteq> []" "hd (show_nat n) \<noteq> CHR ''#''"
proof -
  have "is_digit c" if "c \<in> set (show_nat n)" for c
    using show_nat_digits [of n] that by simp
  then show "newline \<notin> set (show_nat n)" "show_nat n \<noteq> []" "hd (show_nat n) \<noteq> CHR ''#''"
    using is_digit_not(4) [of "hd (show_nat n)"] is_digit_not(5) [of newline]
      hd_in_set [OF show_nat_nonempty [of n]] show_nat_nonempty [of n] by metis+
qed

text \<open>The filter flags after reading a configuration, from given flags.\<close>

definition filter_from :: "bool list \<Rightarrow> secmap \<Rightarrow> bool list" where
  "filter_from fb cfg =
     map (\<lambda>j. fb ! j \<or> (\<exists>(n, l) \<in> set cfg. j < length l \<and> schar (l ! j) \<noteq> 48)) [0..<ENUMSIZE]"

lemma filter_from_Cons:
  "filter_from (map (\<lambda>j. fb ! j \<or> (j < length l \<and> schar (l ! j) \<noteq> 48)) [0..<ENUMSIZE]) cfg
   = filter_from fb ((n, l) # cfg)"
  by (auto simp: filter_from_def)

lemma filter_from_initial: "filter_from (replicate ENUMSIZE False) cfg = read_filter cfg"
  by (simp add: filter_from_def read_filter_def)

text \<open>Reading the entries of a configuration, whatever follows them in the file.\<close>

lemma init_loop_prefix:
  assumes "secmap_ok cfg" "length fb = ENUMSIZE"
  shows "(let (line, st) = GetNextLine \<lparr>chars = show_secmap cfg @ r, eofbit = False\<rparr> x
          in init_loop st line cores ps fb)
    = (let (line, st) = GetNextLine \<lparr>chars = r, eofbit = False\<rparr> (last (x # map snd cfg))
       in init_loop st line (read_cores cores cfg) (ps @ read_programs cores cfg)
            (if cfg = [] then fb else filter_from fb cfg))"
  using assms
proof (induction cfg arbitrary: cores ps fb x)
  case Nil
  then show ?case
    by (simp add: show_secmap_def)
next
  case (Cons e cfg)
  obtain n l where e: "e = (n, l)" by (cases e)
  have l: "l \<noteq> []" "length l \<le> ENUMSIZE" "hd l \<noteq> CHR ''#''" "newline \<notin> set l"
    using Cons.prems(1) e by (auto simp: secmap_ok_def)
  let ?rest = "\<lparr>chars = show_secmap cfg @ r, eofbit = False\<rparr>"
  let ?fb = "map (\<lambda>j. fb ! j \<or> (j < length l \<and> schar (l ! j) \<noteq> 48)) [0..<ENUMSIZE]"
  let ?last = "c_int (cores + atoi (show_nat n) - 1)"
  let ?next = "c_int (?last + 1)"
  let ?p = "\<lparr>prog_map = map (map_char cores) l, counter = cores, corestart = cores,
             coreend = ?last\<rparr>"
  have "show_secmap (e # cfg) @ r = show_nat n @ newline # (l @ newline # (show_secmap cfg @ r))"
    by (simp add: show_secmap_def show_entry_def e)
  then have g1: "GetNextLine \<lparr>chars = show_secmap (e # cfg) @ r, eofbit = False\<rparr> x
      = (show_nat n, \<lparr>chars = l @ newline # (show_secmap cfg @ r), eofbit = False\<rparr>)"
    using show_nat_line GetNextLine_line by simp
  have g2: "GetNextLine \<lparr>chars = l @ newline # (show_secmap cfg @ r), eofbit = False\<rparr> y = (l, ?rest)" for y
    using l GetNextLine_line by simp
  have m: "map_line cores 0 l fb = Inr (map (map_char cores) l, ?fb)"
    using map_line_eq [of 0 l fb cores] l Cons.prems(2) by simp
  have "(let (line, st) = GetNextLine \<lparr>chars = show_secmap (e # cfg) @ r, eofbit = False\<rparr> x
          in init_loop st line cores ps fb)
      = (let (line, st) = GetNextLine ?rest l
         in init_loop st line ?next (ps @ [?p]) ?fb)"
    unfolding g1 by (simp add: init_loop.simps [of _ "show_nat n"] g2 m Let_def
        show_nat_line split: prod.splits)
  also have "\<dots> = (let (line, st) = GetNextLine \<lparr>chars = r, eofbit = False\<rparr> (last (l # map snd cfg))
      in init_loop st line (read_cores ?next cfg)
      ((ps @ [?p]) @ read_programs ?next cfg) (if cfg = [] then ?fb else filter_from ?fb cfg))"
    using Cons.prems(1) by (intro Cons.IH) (auto simp: secmap_ok_def)
  also have "(if cfg = [] then ?fb else filter_from ?fb cfg) = filter_from fb (e # cfg)"
    using filter_from_Cons [of fb l cfg n] by (auto simp: e filter_from_def)
  finally show ?case
    by (simp add: e Let_def)
qed

text \<open>Once the stream is at its end with a line left in the buffer, the loop never leaves.\<close>

lemma init_loop_stuck:
  assumes "eofbit st" "line \<noteq> []" "length line \<le> ENUMSIZE" "length fb = ENUMSIZE"
  shows "init_loop st line cores ps fb = None"
proof -
  have eof: "GetNextLine st line = (line, st)" if "eofbit st" for st line
    by (subst GetNextLine.simps) (simp add: getline_def that)
  have "\<not> (eofbit st \<and> line \<noteq> [] \<and> length line \<le> ENUMSIZE \<and> length fb = ENUMSIZE)"
    if "init_loop st line cores ps fb = Some r" for r
  proof (rule init_loop.raw_induct [OF _ that])
    fix self st line cores ps fb r
    assume IH: "\<And>st line cores ps fb y. self st line cores ps fb = Some y \<Longrightarrow>
        \<not> (eofbit st \<and> line \<noteq> [] \<and> length line \<le> ENUMSIZE \<and> length fb = ENUMSIZE)"
      and body: "(if line = [] then Some (Inr (cores, ps, fb))
      else let start = cores; last = c_int (cores + atoi line - 1); (line1, st1) = GetNextLine st line
           in case map_line start 0 line1 fb of
                Inl e \<Rightarrow> Some (Inl e)
              | Inr (vs, fb1) \<Rightarrow>
                  let p = \<lparr>prog_map = vs, counter = start, corestart = start, coreend = last\<rparr>;
                      (line2, st2) = GetNextLine st1 line1
                  in self st2 line2 (c_int (last + 1)) (ps @ [p]) fb1) = Some r"
    show "\<not> (eofbit st \<and> line \<noteq> [] \<and> length line \<le> ENUMSIZE \<and> length fb = ENUMSIZE)"
    proof
      assume a: "eofbit st \<and> line \<noteq> [] \<and> length line \<le> ENUMSIZE \<and> length fb = ENUMSIZE"
      with body map_line_eq [of 0 line fb cores] obtain cores' ps' fb'
        where "self st line cores' ps' fb' = Some r" "length fb' = ENUMSIZE"
        by (auto simp: eof Let_def)
      with IH [of st line cores' ps' fb' r] a show False by simp
    qed
  qed
  with assms show ?thesis by fastforce
qed

lemma init_loop_secmap:
  assumes "secmap_ok cfg" "length fb = ENUMSIZE" "cfg \<noteq> []"
  shows "(let (line, st) = GetNextLine \<lparr>chars = show_secmap cfg, eofbit = False\<rparr> x
          in init_loop st line cores ps fb)
    = Some (Inr (read_cores cores cfg, ps @ read_programs cores cfg, filter_from fb cfg))"
  using init_loop_prefix [OF assms(1,2), of "[]" x cores ps] assms(3)
  by (simp add: GetNextLine_end init_loop.simps)

lemma init_loop_unterminated:
  assumes "secmap_ok (cfg @ [(n, l)])" "length fb = ENUMSIZE"
  shows "(let (line, st) = GetNextLine
              \<lparr>chars = show_secmap cfg @ show_nat n @ newline # l, eofbit = False\<rparr> x
          in init_loop st line cores ps fb) = None"
proof -
  have l: "l \<noteq> []" "length l \<le> ENUMSIZE" "hd l \<noteq> CHR ''#''" "newline \<notin> set l"
    and cfg: "secmap_ok cfg"
    using assms(1) by (auto simp: secmap_ok_def)
  let ?eof = "\<lparr>chars = [], eofbit = True\<rparr>"
  have line: "takeWhile (\<lambda>c. c \<noteq> newline) l = l" "dropWhile (\<lambda>c. c \<noteq> newline) l = []"
    using l(4) by (auto simp: takeWhile_eq_all_conv)
  have g2: "GetNextLine \<lparr>chars = l, eofbit = False\<rparr> y = (l, ?eof)" for y
    using l by (subst GetNextLine.simps) (simp add: getline_def hd_conv_nth line Let_def)
  have g3: "GetNextLine ?eof l = (l, ?eof)"
    by (subst GetNextLine.simps) (simp add: getline_def)
  have none: "init_loop \<lparr>chars = l, eofbit = False\<rparr> (show_nat n) cores' ps' fb' = None"
    if fb: "length fb' = ENUMSIZE" for cores' ps' fb'
  proof -
    have "map_line cores' 0 l fb' = Inr (map (map_char cores') l,
        map (\<lambda>j. fb' ! j \<or> (j < length l \<and> schar (l ! j) \<noteq> 48)) [0..<ENUMSIZE])"
      using map_line_eq [of 0 l fb' cores'] l fb by simp
    then show ?thesis
      using l show_nat_line(2) [of n]
      by (simp add: init_loop.simps [of _ "show_nat n"] g2 g3 init_loop_stuck)
  qed
  have g1: "GetNextLine \<lparr>chars = show_nat n @ newline # l, eofbit = False\<rparr> y
      = (show_nat n, \<lparr>chars = l, eofbit = False\<rparr>)" for y
    by (intro GetNextLine_line show_nat_line)
  show ?thesis
    unfolding init_loop_prefix [OF cfg assms(2)] g1
    using assms(2) by (simp add: none filter_from_def)
qed

lemma upper_mask_letter:
  "k < 26 \<Longrightarrow> (65 + int k) AND NOT 0x20 = 65 + int k"
  "k < 26 \<Longrightarrow> (97 + int k) AND NOT 0x20 = 65 + int k"
proof -
  have "list_all (\<lambda>k. (65 + int k) AND NOT 0x20 = 65 + int k \<and> (97 + int k) AND NOT 0x20 = 65 + int k)
      [0..<26]"
    by code_simp
  then show "k < 26 \<Longrightarrow> (65 + int k) AND NOT 0x20 = 65 + int k"
    "k < 26 \<Longrightarrow> (97 + int k) AND NOT 0x20 = 65 + int k"
    by (auto simp: list_all_iff)
qed

lemma upper_mask_digit: "d \<in> {1..9} \<Longrightarrow> (48 + int d) AND NOT 0x20 < 54"
proof -
  have "list_all (\<lambda>d. (48 + int d) AND NOT 0x20 < 54) [1..<10]"
    by code_simp
  then show "d \<in> {1..9} \<Longrightarrow> (48 + int d) AND NOT 0x20 < 54"
    by (auto simp: list_all_iff)
qed

text \<open>The characters of the routes, as the loader reads them.\<close>

lemma schar_digit: "d < 10 \<Longrightarrow> schar (digit_char d) = 48 + int d"
  using of_char_digit [of d] by (simp add: schar_def)

lemma schar_letter: "k < 26 \<Longrightarrow> schar (char_of (65 + int k)) = 65 + int k"
  by (simp add: schar_def of_char_of)

lemma schar_route:
  assumes "route_ok start r"
  shows "schar (route_char r) = (case r of Ignore \<Rightarrow> 48 | Counter \<Rightarrow> 45 | Blocker \<Rightarrow> 124
    | Fixed k \<Rightarrow> if k < 10 then 48 + int k else 65 + int (k - 10))"
proof (cases r)
  case (Fixed k)
  moreover from this assms have "k < 10 \<or> k - 10 < 26" by (auto split: if_splits)
  ultimately show ?thesis
    using schar_digit [of k] schar_letter [of "k - 10"] by (cases "k < 10") auto
qed (simp_all add: schar_def)

lemma map_char_fixed:
  assumes "route_ok start (Fixed k)"
  shows "map_char (int start) (route_char (Fixed k)) = int k"
proof (cases "k < 10")
  case True
  with assms schar_route [OF assms] show ?thesis
    by (auto simp: map_char_def split: if_splits)
next
  case False
  with assms have k: "k - 10 < 26" by (auto split: if_splits)
  from upper_mask_letter(1) [OF k] k False schar_route [OF assms] show ?thesis
    by (simp add: map_char_def Let_def)
qed

lemma map_char_route:
  assumes "route_ok start r"
  shows "map_char (int start) (route_char r) = route_code r"
    and "schar (route_char r) \<noteq> 48 \<longleftrightarrow> r \<noteq> Ignore"
    and "route_char r \<noteq> newline" "route_char r \<noteq> CHR ''#''"
proof -
  show "map_char (int start) (route_char r) = route_code r"
    using map_char_fixed assms by (cases r) (auto simp: map_char_def schar_def)
  show "schar (route_char r) \<noteq> 48 \<longleftrightarrow> r \<noteq> Ignore"
    unfolding schar_route [OF assms] using assms by (cases r) (auto split: if_splits)
  have "schar (route_char r) \<noteq> 10" "schar (route_char r) \<noteq> 35"
    unfolding schar_route [OF assms] using assms by (cases r; auto split: if_splits)+
  moreover have "schar newline = 10" "schar (CHR ''#'') = 35"
    by (simp_all add: schar_def newline_def)
  ultimately show "route_char r \<noteq> newline" "route_char r \<noteq> CHR ''#''" by metis+
qed

abbreviation lines_of :: "config \<Rightarrow> secmap" where
  "lines_of cfg \<equiv> map (\<lambda>(n, rs). (n, map route_char rs)) cfg"

lemma config_ok_lines: "config_ok start cfg \<Longrightarrow> secmap_ok (lines_of cfg)"
proof (induction start cfg rule: config_ok.induct)
  case (2 start n rs cfg)
  moreover have "newline \<notin> set (map route_char rs)" "hd (map route_char rs) \<noteq> CHR ''#''"
    using "2.prems" map_char_route(3,4) by (force simp: hd_map)+
  ultimately show ?case by (simp add: secmap_ok_def)
qed (simp add: secmap_ok_def)

lemma config_ok_bound: "config_ok start cfg \<Longrightarrow> start + config_cores cfg < 2 ^ 31"
  by (induction start cfg rule: config_ok.induct) (auto simp: config_cores_def)

lemma config_ok_read:
  "config_ok start cfg \<Longrightarrow>
   read_programs (int start) (lines_of cfg) = config_programs start cfg \<and>
   read_cores (int start) (lines_of cfg) = int (start + config_cores cfg)"
proof (induction start cfg rule: config_ok.induct)
  case (2 start n rs cfg)
  have "start + n < 2 ^ 31"
    using config_ok_bound [OF "2.prems"] by (simp add: config_cores_def)
  then have "atoi (show_nat n) = int n" "c_int (int start + int n - 1) = int start + int n - 1"
    "c_int (int (start + n)) = int (start + n)"
    by (simp_all add: atoi_show_nat c_int_small)
  with 2 show ?case
    by (simp add: Let_def map_char_route(1) config_cores_def)
qed (simp add: config_cores_def)

lemma config_ok_filter: "config_ok start cfg \<Longrightarrow> read_filter (lines_of cfg) = config_filter cfg"
proof -
  assume ok: "config_ok start cfg"
  then have "\<exists>st. \<forall>r \<in> set rs. route_ok st r" if "(n, rs) \<in> set cfg" for n rs
    using that by (induction start cfg rule: config_ok.induct) auto
  then have "schar (route_char (rs ! i)) \<noteq> 48 \<longleftrightarrow> rs ! i \<noteq> Ignore"
    if "(n, rs) \<in> set cfg" "i < length rs" for n rs i
    using that map_char_route(2) by (metis nth_mem)
  then have "(\<exists>(n, rs) \<in> set cfg. i < length rs \<and> schar (route_char (rs ! i)) \<noteq> 48)
      \<longleftrightarrow> (\<exists>(n, rs) \<in> set cfg. i < length rs \<and> rs ! i \<noteq> Ignore)" for i
    by (intro bex_cong refl) auto
  moreover have "(\<exists>(n, l) \<in> set (lines_of cfg). i < length l \<and> schar (l ! i) \<noteq> 48)
      \<longleftrightarrow> (\<exists>(n, rs) \<in> set cfg. i < length rs \<and> schar (route_char (rs ! i)) \<noteq> 48)" for i
    by (induction cfg) auto
  ultimately show ?thesis
    by (simp only: read_filter_def config_filter_def)
qed


text \<open>The configuration of the shadow-stack runs, as lines, and one with every kind of route.\<close>

definition shadow_config :: secmap where
  "shadow_config = [(1, ''000000000''), (11, ''000||0000'')]"

definition mixed_config :: config where
  "mixed_config = [(4, [Ignore, Fixed 3, Counter, Blocker, Fixed 12]), (8, [Blocker, Fixed 11])]"


text \<open>
  C33: a configuration file whose last map line lacks its line break is never loaded.
  \<open>std::getline\<close> on the exhausted stream leaves the string as it was, so \<open>init\<close> reads the last
  line over and over, appending programs, and does not return.
\<close>

theorem init_unterminated:
  assumes "secmap_ok (cfg @ [(n, l)])"
  shows "init_slog (show_secmap cfg @ show_nat n @ newline # l) g = None"
  using init_loop_unterminated [OF assms, of "replicate ENUMSIZE False" "[]" 0 "programs g"]
  by (simp add: init_slog_def open_file_def Let_def split: prod.splits)

theorem init_unterminated_witness:
  "init_slog (show_secmap [(1, ''000000000'')] @ show_nat 11 @ newline # ''000||0000'') slog_static
   = None"
  by (rule init_unterminated) (auto simp: secmap_ok_def ENUMSIZE_def newline_def)

text \<open>
  What a character of a map line means. The digits 1 to 9 name that core in a program that
  starts at core 0 and, because of the precedence of the conditional operator, the blocker mode
  (a value below \<open>- 1\<close>) in every other program; letters of either case name the cores from 10 on
  in all of them.
\<close>

theorem map_char_cores:
  "(\<forall>d \<in> {1..9}. map_char 0 (digit_char d) = int d) \<and>
   (\<forall>d \<in> {1..9}. \<forall>start > 0. map_char start (digit_char d) < - 1) \<and>
   (\<forall>k < 26. \<forall>start \<ge> 0. map_char start (char_of (65 + int k)) = 10 + int k \<and>
                         map_char start (char_of (97 + int k)) = 10 + int k)"
proof (intro conjI)
  have digit: "schar (digit_char d) = 48 + int d" if "d \<in> {1..9}" for d
    using that of_char_digit [of d] by (simp add: schar_def)
  show "\<forall>d \<in> {1..9}. map_char 0 (digit_char d) = int d"
    by (simp add: map_char_def digit)
  show "\<forall>d \<in> {1..9}. \<forall>start > 0. map_char start (digit_char d) < - 1"
    using upper_mask_digit by (auto simp: map_char_def digit)
  show "\<forall>k < 26. \<forall>start \<ge> 0. map_char start (char_of (65 + int k)) = 10 + int k \<and>
                         map_char start (char_of (97 + int k)) = 10 + int k"
    using upper_mask_letter by (auto simp: map_char_def schar_def of_char_of)
qed

theorem map_char_cores_witness:
  "map_char 1 (digit_char 2) < - 1 \<and> map_char 0 (digit_char 2) = 2 \<and> map_char 5 (CHR ''b'') = 11"
proof -
  have "char_of (97 + int 1) = CHR ''b''" by code_simp
  moreover have "map_char 5 (char_of (97 + int 1)) = 10 + int 1"
    using map_char_cores by (metis one_less_numeral_iff semiring_norm(76) zero_le_numeral)
  ultimately show ?thesis using map_char_cores by auto
qed

end
