(* ===== verification/Log_Mapping.thy ===== *)
theory Log_Mapping
  imports Log_Pausing Secmap_Config
begin

text \<open>
  The mapper on top of the queues: what \<open>map\<close>, \<open>map_before\<close>, \<open>filter\<close>, \<open>send_messages\<close> and
  \<open>core_queuewrite\<close> do to a well-formed log, the choice of the next core in blocker mode, the
  operations as a step relation whose reachable states keep the pausing discipline, and the
  delivery of the log of a single program to its cores.
\<close>

section \<open>Specification\<close>

text \<open>A log in good order.\<close>

definition log_ok :: "slog \<Rightarrow> bool" where
  "log_ok g \<longleftrightarrow> wf_slog g \<and> pause_inv g"

text \<open>Entries the main core adds one after the other, each to its queue.\<close>

fun adds :: "(nat \<times> securelogentry) list \<Rightarrow> slog \<Rightarrow> slog" where
  "adds [] g = g"
| "adds ((q, s) # es) g = adds es (added g s q 0)"

text \<open>The operations of the running system on the log.\<close>

inductive log_step :: "slog \<Rightarrow> slog \<Rightarrow> bool" where
  commit: "filter_log now s g = Inr g' \<Longrightarrow> log_step g g'"
| pop: "pop_from_queue now g core item = Inr (v, g') \<Longrightarrow> log_step g g'"
| put: "1 \<le> w \<Longrightarrow> w \<le> NUMBEROFCHECKERCORES \<Longrightarrow>
    core_queuewrite now d target (int w) g = Inr g' \<Longrightarrow> log_step g g'"
| send: "send_messages now d1 d2 d3 g = Inr g' \<Longrightarrow> log_step g g'"
| cores_ready: "log_step g (g\<lparr>ready := 0\<rparr>)"

inductive_cases log_step_elim: "log_step g g'"

text \<open>\<open>k\<close> pops in a row by one core.\<close>

inductive pops :: "int \<Rightarrow> nat \<Rightarrow> slog \<Rightarrow> slog \<Rightarrow> bool" where
  none: "pops core 0 g g"
| more: "pop_from_queue now g core item = Inr (v, g1) \<Longrightarrow> pops core k g1 g2 \<Longrightarrow>
    pops core (Suc k) g g2"

section \<open>Adding to a queue\<close>

lemma add_to_queueD:
  assumes wf: "wf_slog g" and add: "add_to_queue g s queue (int w) = Inr g'"
    and w: "w \<le> NUMBEROFCHECKERCORES"
  obtains q where "q < NUMBEROFCHECKERCORES" "queue = int q" "g' = added g s q w"
proof -
  have len: "length (mapped_to_core g) = NUMBEROFCHECKERCORES"
    using wf by (simp add: wf_slog_def)
  have r: "in_arr queue (mapped_to_core g)"
    and size: "queue_size g ! nat queue \<noteq> RINGSLOTS"
    using add by (auto simp: add_to_queue_def rd_def assertE_def bindE_Inr_iff Let_def split: if_splits)
  obtain q where q: "q < NUMBEROFCHECKERCORES" "queue = int q"
    using r len by (auto simp: in_arr_def dest: nonneg_int_cases)
  have "g' = added g s q w"
    using add_to_queue_eq [OF wf q(1) w, of s] size add by (simp add: q(2))
  with q show thesis using that by blast
qed

lemma log_ok_added:
  assumes "log_ok g" "q < NUMBEROFCHECKERCORES" "w \<le> NUMBEROFCHECKERCORES"
  shows "log_ok (added g s q w)"
  using assms wf_added pause_inv_added by (simp add: log_ok_def)

lemma adds_append [simp]: "adds (es @ fs) g = adds fs (adds es g)"
  by (induction es arbitrary: g) auto

lemma log_ok_adds:
  assumes "log_ok g" "\<forall>(q, s) \<in> set es. q < NUMBEROFCHECKERCORES"
  shows "log_ok (adds es g)"
  using assms
proof (induction es g rule: adds.induct)
  case (2 q s es g)
  then show ?case using log_ok_added [of g q 0 s] by auto
qed simp

lemma same_config_adds: "same_config g (adds es g)"
proof (induction es g rule: adds.induct)
  case (2 q s es g)
  then show ?case using same_config_trans same_config_added by fastforce
qed (simp add: same_config_refl)

lemma log_ok_fields:
  "log_ok (g\<lparr>mapped := m\<rparr>) \<longleftrightarrow> log_ok g" "log_ok (g\<lparr>programs := ps\<rparr>) \<longleftrightarrow> log_ok g"
  "log_ok (g\<lparr>ready := r\<rparr>) \<longleftrightarrow> log_ok g"
  by (simp_all add: log_ok_def wf_slog_def pause_inv_def)

section \<open>The next core in blocker mode\<close>

text \<open>
  The scan keeps the least size seen below the limit and the first core that has it.
\<close>

lemma next_core_scan_spec:
  assumes "\<forall>x \<in> set xs. 0 \<le> x \<and> x < int (length (queue_size g))"
  shows "\<exists>c. next_core_scan g xs limit prev = Inr c \<and>
    (if \<exists>x \<in> set xs. queue_size g ! nat x < limit
     then \<exists>i < length xs. c = xs ! i \<and> queue_size g ! nat c < limit \<and>
       (\<forall>x \<in> set xs. queue_size g ! nat c \<le> queue_size g ! nat x) \<and>
       (\<forall>j < i. queue_size g ! nat c < queue_size g ! nat (xs ! j))
     else c = prev)"
  using assms
proof (induction xs arbitrary: limit prev)
  case (Cons x xs)
  let ?sz = "\<lambda>x. queue_size g ! nat x"
  have rd: "rd (queue_size g) x = Inr (?sz x)"
    using Cons.prems by (simp add: rd_def in_arr_def)
  show ?case
  proof (cases "?sz x < limit")
    case True
    with Cons.IH [of "?sz x" x] Cons.prems obtain c
      where c: "next_core_scan g xs (?sz x) x = Inr c"
        and spec: "if \<exists>y \<in> set xs. ?sz y < ?sz x
          then \<exists>i < length xs. c = xs ! i \<and> ?sz c < ?sz x \<and>
            (\<forall>y \<in> set xs. ?sz c \<le> ?sz y) \<and> (\<forall>j < i. ?sz c < ?sz (xs ! j))
          else c = x"
      by auto
    show ?thesis
    proof (cases "\<exists>y \<in> set xs. ?sz y < ?sz x")
      case less: True
      with spec obtain i where "i < length xs" "c = xs ! i" "?sz c < ?sz x"
        "\<forall>y \<in> set xs. ?sz c \<le> ?sz y" "\<forall>j < i. ?sz c < ?sz (xs ! j)" by auto
      then have "\<exists>i < length (x # xs). c = (x # xs) ! i \<and> ?sz c < limit \<and>
          (\<forall>y \<in> set (x # xs). ?sz c \<le> ?sz y) \<and> (\<forall>j < i. ?sz c < ?sz ((x # xs) ! j))"
        using True by (intro exI [of _ "Suc i"]) (auto simp: less_Suc_eq_0_disj)
      with True c rd show ?thesis by auto
    next
      case least: False
      with spec have "c = x" by simp
      with least True have "\<exists>i < length (x # xs). c = (x # xs) ! i \<and> ?sz c < limit \<and>
          (\<forall>y \<in> set (x # xs). ?sz c \<le> ?sz y) \<and> (\<forall>j < i. ?sz c < ?sz ((x # xs) ! j))"
        by (intro exI [of _ 0]) (auto simp: not_less)
      with True c rd show ?thesis by auto
    qed
  next
    case False
    with Cons.IH [of limit prev] Cons.prems obtain c
      where c: "next_core_scan g xs limit prev = Inr c"
        and spec: "if \<exists>y \<in> set xs. ?sz y < limit
          then \<exists>i < length xs. c = xs ! i \<and> ?sz c < limit \<and>
            (\<forall>y \<in> set xs. ?sz c \<le> ?sz y) \<and> (\<forall>j < i. ?sz c < ?sz (xs ! j))
          else c = prev"
      by auto
    have "\<exists>i < length (x # xs). c = (x # xs) ! i \<and> ?sz c < limit \<and>
          (\<forall>y \<in> set (x # xs). ?sz c \<le> ?sz y) \<and> (\<forall>j < i. ?sz c < ?sz ((x # xs) ! j))"
      if "\<exists>y \<in> set xs. ?sz y < limit"
    proof -
      from that spec obtain i where "i < length xs" "c = xs ! i" "?sz c < limit"
        "\<forall>y \<in> set xs. ?sz c \<le> ?sz y" "\<forall>j < i. ?sz c < ?sz (xs ! j)" by auto
      with False show ?thesis
        by (intro exI [of _ "Suc i"]) (auto simp: less_Suc_eq_0_disj)
    qed
    with False c rd spec show ?thesis by auto
  qed
qed simp

text \<open>
  C17: \<open>getNextCore\<close> on a program's core range returns the first of the least loaded cores of the
  range when one holds fewer than \<open>limit\<close> entries, and \<open>- 1\<close> when none does.
\<close>

theorem getNextCore_least:
  assumes "wf_slog g" "0 \<le> corestart p" "coreend p < int NUMBEROFCHECKERCORES"
  shows "\<exists>c. getNextCore g limit p = Inr c \<and>
    (if \<exists>x \<in> {corestart p..coreend p}. queue_size g ! nat x < limit
     then c \<in> {corestart p..coreend p} \<and> queue_size g ! nat c < limit \<and>
       (\<forall>x \<in> {corestart p..coreend p}. queue_size g ! nat c \<le> queue_size g ! nat x) \<and>
       (\<forall>x \<in> {corestart p..<c}. queue_size g ! nat c < queue_size g ! nat x)
     else c = - 1)"
proof -
  let ?sz = "\<lambda>x. queue_size g ! nat x" and ?r = "[corestart p..coreend p]"
  have "\<forall>x \<in> set ?r. 0 \<le> x \<and> x < int (length (queue_size g))"
    using assms by (auto simp: wf_slog_def)
  from next_core_scan_spec [OF this, of limit "- 1"] obtain c
    where c: "next_core_scan g ?r limit (- 1) = Inr c"
      and spec: "if \<exists>x \<in> set ?r. ?sz x < limit
        then \<exists>i < length ?r. c = ?r ! i \<and> ?sz c < limit \<and> (\<forall>x \<in> set ?r. ?sz c \<le> ?sz x) \<and>
          (\<forall>j < i. ?sz c < ?sz (?r ! j)) else c = - 1"
    by blast
  have "c \<in> set ?r \<and> (\<forall>x \<in> {corestart p..<c}. ?sz c < ?sz x)"
    if "i < length ?r" "c = ?r ! i" "\<forall>j < i. ?sz c < ?sz (?r ! j)" for i
  proof
    show "c \<in> set ?r" using that by (metis nth_mem)
    have i: "c = corestart p + int i" using that by (simp add: nth_upto)
    show "\<forall>x \<in> {corestart p..<c}. ?sz c < ?sz x"
    proof
      fix x assume x: "x \<in> {corestart p..<c}"
      then have "nat (x - corestart p) < i" "?r ! nat (x - corestart p) = x"
        using i that(1) by (auto simp: nth_upto)
      with that(3) show "?sz c < ?sz x" by metis
    qed
  qed
  with spec have "if \<exists>x \<in> set ?r. ?sz x < limit
    then c \<in> set ?r \<and> ?sz c < limit \<and> (\<forall>x \<in> set ?r. ?sz c \<le> ?sz x) \<and>
       (\<forall>x \<in> {corestart p..<c}. ?sz c < ?sz x) else c = - 1"
    by (auto split: if_splits)
  with c show ?thesis unfolding getNextCore_def set_upto by blast
qed

theorem getNextCore_least_witness:
  "wf_slog slog_static \<and> getNextCore slog_static 32
     \<lparr>prog_map = [], counter = 3, corestart = 3, coreend = 7\<rparr> = Inr 3"
proof -
  let ?p = "\<lparr>prog_map = [], counter = 3, corestart = 3, coreend = 7\<rparr>"
  have wf: "wf_slog slog_static" by (simp add: wf_slog_def slog_static_def slog_consts)
  have sz: "queue_size slog_static ! nat x = 0" if "x \<in> {3..7}" for x
  proof -
    have "nat x < 12" using that by auto
    then show ?thesis by (simp add: slog_static_def slog_consts)
  qed
  from getNextCore_least [OF wf, of ?p 32, unfolded sprogram.select_convs NUMBEROFCHECKERCORES_def]
  obtain c where "getNextCore slog_static 32 ?p = Inr c"
    "if \<exists>x \<in> {3..7}. queue_size slog_static ! nat x < 32
     then c \<in> {3..7} \<and> queue_size slog_static ! nat c < 32 \<and>
       (\<forall>x \<in> {3..7}. queue_size slog_static ! nat c \<le> queue_size slog_static ! nat x) \<and>
       (\<forall>x \<in> {3..<c}. queue_size slog_static ! nat c < queue_size slog_static ! nat x)
     else c = - 1"
    by auto
  moreover from this sz have "c = 3"
    by (auto split: if_splits) (metis atLeastAtMost_iff atLeastLessThan_iff less_le not_less_zero order_refl)
  ultimately show ?thesis using wf by simp
qed

section \<open>The mapper as a sequence of additions\<close>

lemma map_blockerD:
  assumes wf: "wf_slog g" and m: "map_blocker now s p g = Inr (p', g')"
  shows "\<exists>es. g' = adds es g \<and> (\<forall>(q, e) \<in> set es. q < NUMBEROFCHECKERCORES)"
proof -
  obtain g1 where a: "add_to_queue g s (counter p) (int 0) = Inr g1"
    using m by (auto simp: map_blocker_def bindE_Inr_iff)
  obtain q where q: "q < NUMBEROFCHECKERCORES" "counter p = int q" "g1 = added g s q 0"
    using add_to_queueD [OF wf a] by auto
  have wf1: "wf_slog g1" using wf_added [OF wf q(1)] q(3) by simp
  consider "g' = g1"
    | b where "add_to_queue g1 b (counter p) (int 0) = Inr g'"
    using m a by (fastforce simp: map_blocker_def bindE_Inr_iff split: if_splits)
  then show ?thesis
  proof cases
    case 1
    then show ?thesis using q by (intro exI [of _ "[(q, s)]"]) simp
  next
    case 2
    obtain q' where "q' < NUMBEROFCHECKERCORES" "g' = added g1 b q' 0"
      using add_to_queueD [OF wf1 2] by auto
    then show ?thesis using q by (intro exI [of _ "[(q, s), (q', b)]"]) simp
  qed
qed

lemma map_programD:
  assumes wf: "wf_slog g" and m: "map_program now advance s p g = Inr (p', g')"
  shows "\<exists>es. g' = adds es g \<and> (\<forall>(q, e) \<in> set es. q < NUMBEROFCHECKERCORES)"
proof -
  consider "g' = g" | queue where "add_to_queue g s queue (int 0) = Inr g'"
    | "map_blocker now s p g = Inr (p', g')"
    using m by (fastforce simp: map_program_def bindE_Inr_iff Let_def split: if_splits)
  then show ?thesis
  proof cases
    case 1
    then show ?thesis by (intro exI [of _ "[]"]) simp
  next
    case 2
    then obtain q where "q < NUMBEROFCHECKERCORES" "g' = added g s q 0"
      using add_to_queueD [OF wf 2] by auto
    then show ?thesis by (intro exI [of _ "[(q, s)]"]) simp
  next
    case 3
    then show ?thesis by (rule map_blockerD [OF wf])
  qed
qed

lemma wf_adds:
  assumes "wf_slog g" "\<forall>(q, s) \<in> set es. q < NUMBEROFCHECKERCORES"
  shows "wf_slog (adds es g)"
  using assms
proof (induction es g rule: adds.induct)
  case (2 q s es g)
  then show ?case using wf_added [of g q 0 s] by auto
qed simp

lemma map_programsD:
  assumes "wf_slog g" "map_programs now advance s ps g = Inr (ps', g')"
  shows "\<exists>es. g' = adds es g \<and> (\<forall>(q, e) \<in> set es. q < NUMBEROFCHECKERCORES)"
  using assms
proof (induction ps arbitrary: g ps')
  case Nil
  then show ?case by (intro exI [of _ "[]"]) simp
next
  case (Cons p ps)
  then obtain p1 g1 ps1 where p: "map_program now advance s p g = Inr (p1, g1)"
    and ps: "map_programs now advance s ps g1 = Inr (ps1, g')"
    by (auto simp: bindE_Inr_iff)
  obtain es where es: "g1 = adds es g" "\<forall>(q, e) \<in> set es. q < NUMBEROFCHECKERCORES"
    using map_programD [OF Cons.prems(1) p] by blast
  have "wf_slog g1" unfolding es(1) by (rule wf_adds [OF Cons.prems(1) es(2)])
  from Cons.IH [OF this ps] obtain fs
    where "g' = adds fs g1" "\<forall>(q, e) \<in> set fs. q < NUMBEROFCHECKERCORES" by blast
  then show ?case using es by (intro exI [of _ "es @ fs"]) auto
qed

lemma map_programs_ok:
  assumes "log_ok g" "map_programs now advance s ps g = Inr (ps', g')"
  shows "log_ok g'"
  using map_programsD [OF _ assms(2)] log_ok_adds [OF assms(1)] assms(1)
  by (auto simp: log_ok_def)

lemma map_log_ok:
  assumes "log_ok g" "map_log now s g = Inr g'"
  shows "log_ok g'"
proof -
  obtain ps g1 where "map_programs now True s (programs g) (g\<lparr>mapped := mapped g + 1\<rparr>) = Inr (ps, g1)"
    and g': "g' = g1\<lparr>programs := ps\<rparr>"
    using assms(2) by (auto simp: map_log_def bindE_Inr_iff)
  with map_programs_ok [OF _ this(1)] assms(1) show ?thesis by (simp add: log_ok_fields)
qed

lemma map_before_ok:
  assumes "log_ok g" "map_before now s g = Inr g'"
  shows "log_ok g'"
proof -
  obtain ps g1 where "map_programs now False s (programs g) (g\<lparr>mapped := mapped g + 1\<rparr>) = Inr (ps, g1)"
    and g': "g' = g1\<lparr>programs := ps\<rparr>"
    using assms(2) by (auto simp: map_before_def bindE_Inr_iff)
  with map_programs_ok [OF _ this(1)] assms(1) show ?thesis by (simp add: log_ok_fields)
qed

lemma filter_log_ok:
  assumes "log_ok g" "filter_log now s g = Inr g'"
  shows "log_ok g'"
  using assms map_log_ok by (auto simp: filter_log_def bindE_Inr_iff split: if_splits)

lemma send_messages_ok:
  assumes "log_ok g" "send_messages now d1 d2 d3 g = Inr g'"
  shows "log_ok g'"
proof -
  obtain g1 g2 where "map_before now (securelogentry_new now Comms d1 0 0) g = Inr g1"
    "map_before now (securelogentry_new now Comms d2 0 0) g1 = Inr g2"
    "map_log now (securelogentry_new now Comms d3 0 0) g2 = Inr g'"
    using assms(2) by (auto simp: send_messages_def bindE_Inr_iff Let_def)
  then show ?thesis using assms(1) map_before_ok map_log_ok by blast
qed

lemma core_queuewrite_ok:
  assumes ok: "log_ok g" and w: "w \<le> NUMBEROFCHECKERCORES"
    and put: "core_queuewrite now d target (int w) g = Inr g'"
  shows "log_ok g'"
proof -
  have wf: "wf_slog g" using ok by (simp add: log_ok_def)
  obtain q where "q < NUMBEROFCHECKERCORES" "g' = added g (securelogentry_new now Comms d 0 0) q w"
    using add_to_queueD [OF wf put [unfolded core_queuewrite_def] w] by blast
  then show ?thesis using log_ok_added [OF ok _ w] by simp
qed

lemma pop_ok:
  assumes ok: "log_ok g" and pop: "pop_from_queue now g core item = Inr (v, g')"
  shows "log_ok g'"
proof -
  have wf: "wf_slog g" and inv: "pause_inv g" using ok by (auto simp: log_ok_def)
  show ?thesis using pop_from_queue_keeps [OF wf pop] inv by (simp add: log_ok_def)
qed

section \<open>Reachable states\<close>

lemma log_step_ok: "log_step g g' \<Longrightarrow> log_ok g \<Longrightarrow> log_ok g'"
  by (induction rule: log_step.induct)
     (auto simp: log_ok_fields intro: filter_log_ok pop_ok core_queuewrite_ok send_messages_ok)

lemma map_line_length:
  "map_line start i l fb = Inr (vs, fb') \<Longrightarrow> length fb' = length fb"
  by (induction start i l fb arbitrary: vs fb' rule: map_line.induct)
     (fastforce simp: bindE_Inr_iff split: if_splits)+

lemma init_loop_length:
  assumes "init_loop st line cores ps fb = Some r"
  shows "\<forall>c ps' fb'. r = Inr (c, ps', fb') \<longrightarrow> length fb' = length fb"
proof (rule init_loop.raw_induct [OF _ assms], goal_cases)
  case (1 self st line cores ps fb r)
  show ?case
  proof (cases "line = []")
    case True
    with 1(2) show ?thesis by auto
  next
    case False
    with 1(2) show ?thesis
      by (auto simp: Let_def dest!: map_line_length 1(1) split: prod.splits sum.splits)
  qed
qed

lemma log_ok_init:
  assumes "init_slog file slog_static = Some (Inr g)"
  shows "log_ok g"
proof -
  obtain line st c ps fb where "GetNextLine (open_file file) [] = (line, st)"
    and loop: "init_loop st line 0 [] (replicate ENUMSIZE False) = Some (Inr (c, ps, fb))"
    and g: "g = slog_static\<lparr>pause := False # replicate NUMBEROFCHECKERCORES True,
         queue_end := replicate NUMBEROFCHECKERCORES 0,
         queue_start := replicate NUMBEROFCHECKERCORES 0,
         queue_size := replicate NUMBEROFCHECKERCORES 0,
         programs := ps, filterb := fb, ready := c\<rparr>"
    using assms by (auto simp: init_slog_def slog_static_def Let_def
        split: prod.splits option.splits sum.splits)
  have "length fb = ENUMSIZE" using init_loop_length [OF loop] by simp
  moreover have "pause_ok (replicate NUMBEROFCHECKERCORES 0)
      (False # replicate NUMBEROFCHECKERCORES True) (replicate NUMBEROFCHECKERCORES [])"
    by (rule pause_okI) (auto simp: nth_Cons' split: if_splits)
  ultimately show ?thesis
    by (simp add: g log_ok_def wf_slog_def slog_static_def pause_inv_def QUEUESIZE_def)
qed

text \<open>
  C2: no operation of the system breaks the log. In every state reached from a loaded
  configuration, whatever it is, by commits, pops, puts between cores and broadcasts, the rings
  are well-formed and the pausing discipline holds: cores with an empty queue are paused, and
  whoever else is paused is recorded exactly once, on a queue that is full, so that the pops of
  that queue will wake it.
\<close>

theorem reachable_log_ok:
  assumes "init_slog file slog_static = Some (Inr g0)" "log_step\<^sup>*\<^sup>* g0 g"
  shows "wf_slog g \<and> pause_inv g"
proof -
  from assms(2) have "log_ok g"
    by induction (auto intro: log_step_ok log_ok_init [OF assms(1)])
  then show ?thesis by (simp add: log_ok_def)
qed

lemma init_slog_returns:
  assumes "secmap_ok cfg" "cfg \<noteq> []"
  shows "\<exists>g. init_slog (show_secmap cfg) slog_static = Some (Inr g)"
  using init_loop_secmap [OF assms(1) _ assms(2), of "replicate ENUMSIZE False" "[]" 0 "[]"]
  by (simp add: init_slog_def open_file_def slog_static_def Let_def split: prod.splits)

theorem reachable_log_ok_witness:
  "\<exists>g0. init_slog (show_secmap shadow_config) slog_static = Some (Inr g0) \<and>
     wf_slog (g0\<lparr>ready := 0\<rparr>) \<and> pause_inv (g0\<lparr>ready := 0\<rparr>)"
proof -
  have "secmap_ok shadow_config" "shadow_config \<noteq> []"
    by (auto simp: shadow_config_def secmap_ok_def ENUMSIZE_def newline_def)
  then obtain g0 where g0: "init_slog (show_secmap shadow_config) slog_static = Some (Inr g0)"
    using init_slog_returns by blast
  have "log_step\<^sup>*\<^sup>* g0 (g0\<lparr>ready := 0\<rparr>)"
    by (intro r_into_rtranclp log_step.cores_ready)
  from g0 reachable_log_ok [OF g0 this] show ?thesis by blast
qed

section \<open>Waking the main core\<close>

lemma pop_main:
  assumes wf: "wf_slog g" and pop: "pop_from_queue now g (int (q + 1)) item = Inr (v, g')"
  shows "queue_size g' ! q = queue_size g ! q - 1" "queue_size g ! q \<noteq> 0"
    "pause g' ! 0 \<Longrightarrow> pause g ! 0"
    "queue_size g ! q - 1 \<le> QUEUESIZE \<Longrightarrow> 0 \<in> set (pausedOn g ! q) \<Longrightarrow> \<not> pause g' ! 0"
    "\<not> queue_size g ! q - 1 \<le> QUEUESIZE \<Longrightarrow> pausedOn g' = pausedOn g"
proof -
  obtain q' g2 where q': "int (q + 1) = int (q' + 1)" "q' < NUMBEROFCHECKERCORES" "queue_size g ! q' \<noteq> 0"
    and r: "record_delay now (hd (fifo g q')) (start_clock now g) = Inr g2"
    and g': "g' = popped g2 q'"
    by (rule pop_from_queueD [OF wf pop])
  have q: "q' = q" using q'(1) by linarith
  note sel = record_delay_sel [OF r, simplified]
  have len: "0 < length (pause g)" "q < length (queue_size g)"
    using wf q' q by (auto simp: wf_slog_def)
  show "queue_size g' ! q = queue_size g ! q - 1" "queue_size g ! q \<noteq> 0"
    using q' len by (simp_all add: g' q sel)
  show "pause g' ! 0 \<Longrightarrow> pause g ! 0"
    "queue_size g ! q - 1 \<le> QUEUESIZE \<Longrightarrow> 0 \<in> set (pausedOn g ! q) \<Longrightarrow> \<not> pause g' ! 0"
    "\<not> queue_size g ! q - 1 \<le> QUEUESIZE \<Longrightarrow> pausedOn g' = pausedOn g"
    using len by (auto simp: g' q sel popped_def Let_def ring_pop_def split: if_splits)
qed

lemma pops_main:
  assumes "pops core k g g'" "core = int (q + 1)" "wf_slog g"
  shows "(pause g' ! 0 \<longrightarrow> pause g ! 0) \<and>
    (0 < k \<longrightarrow> 0 \<in> set (pausedOn g ! q) \<longrightarrow> queue_size g ! q - k \<le> QUEUESIZE \<longrightarrow> \<not> pause g' ! 0)"
  using assms
proof (induction rule: pops.induct)
  case (more now g core item v g1 k g2)
  note wf1 = pop_from_queue_keeps(1) [OF more.prems(2) more.hyps(1)]
  note one = pop_main [OF more.prems(2) more.hyps(1) [unfolded more.prems(1)]]
  note rest = more.IH [OF more.prems(1) wf1]
  show ?case
  proof (cases "queue_size g ! q - 1 \<le> QUEUESIZE")
    case True
    with one rest show ?thesis by blast
  next
    case False
    then have "k = 0 \<Longrightarrow> \<not> queue_size g ! q - Suc k \<le> QUEUESIZE" by simp
    with False one rest show ?thesis by (cases k) auto
  qed
qed simp

text \<open>
  C3: the main core is never stuck. Whenever it is paused there is a queue holding at least
  \<open>QUEUESIZE\<close> entries on which it is recorded, and as soon as the core of that queue has popped
  it down to \<open>QUEUESIZE\<close> (by at least one pop) the main core runs. When no checker core is blocked
  on another one, the core of that queue is running and so can pop.
\<close>

theorem main_core_released:
  assumes "wf_slog g" "pause_inv g" "pause g ! 0"
  shows "\<exists>q < NUMBEROFCHECKERCORES. QUEUESIZE \<le> queue_size g ! q \<and>
    (\<forall>k g'. 0 < k \<longrightarrow> queue_size g ! q - k \<le> QUEUESIZE \<longrightarrow> pops (int (q + 1)) k g g' \<longrightarrow>
       \<not> pause g' ! 0) \<and>
    ((\<forall>r < NUMBEROFCHECKERCORES. set (pausedOn g ! r) \<subseteq> {0}) \<longrightarrow> \<not> pause g ! (q + 1))"
proof -
  note ok = assms(2) [unfolded pause_inv_def]
  obtain q where q: "q < NUMBEROFCHECKERCORES" "0 \<in> set (pausedOn g ! q)"
    using pause_okD(6) [OF ok, of 0] assms(3) by auto
  have full: "QUEUESIZE \<le> queue_size g ! q" using pause_okD(3) [OF ok q] .
  have "\<not> pause g ! (q + 1)" if "\<forall>r < NUMBEROFCHECKERCORES. set (pausedOn g ! r) \<subseteq> {0}"
  proof
    assume "pause g ! (q + 1)"
    with pause_okD(6) [OF ok, of "q + 1"] q(1) full obtain r
      where "r < NUMBEROFCHECKERCORES" "int (q + 1) \<in> set (pausedOn g ! r)"
      by (auto simp: QUEUESIZE_def)
    with that show False by force
  qed
  with q full pops_main [OF _ refl assms(1)] show ?thesis by blast
qed

definition full_log :: slog where
  "full_log = slog_static\<lparr>queue_size := QUEUESIZE # replicate 11 0,
     pause := [True, False] @ replicate 11 True, pausedOn := [0] # replicate 11 []\<rparr>"

lemma full_log_ok: "wf_slog full_log" "pause_inv full_log"
proof -
  have "q < 12 \<Longrightarrow> (QUEUESIZE # replicate 11 0) ! q = (if q = 0 then QUEUESIZE else 0)"
    "q < 12 \<Longrightarrow> ([0 :: int] # replicate 11 []) ! q = (if q = 0 then [0] else [])"
    "q < 13 \<Longrightarrow> ([True, False] @ replicate 11 True) ! q = (q \<noteq> 1)" for q
    by (auto simp: nth_Cons' nth_append)
  note * = this
  show "wf_slog full_log"
    by (auto simp: full_log_def wf_slog_def slog_static_def * *(1) [unfolded QUEUESIZE_def]
        NUMBEROFCHECKERCORES_def QUEUESIZE_def
        RINGSLOTS_def ENUMSIZE_def split: if_splits)
  have "pause_ok (QUEUESIZE # replicate 11 0) ([True, False] @ replicate 11 True)
      ([0] # replicate 11 [])"
  proof (rule pause_okI, goal_cases)
    case (1 q)
    then have "q \<noteq> 0" by (cases q) (auto simp: QUEUESIZE_def)
    with 1 *(3) [of "q + 1"] show ?case by (simp add: NUMBEROFCHECKERCORES_def)
  next
    case (4 w)
    show ?case
    proof (cases "w = 0")
      case True
      then have "int w \<in> set (([0] # replicate 11 []) ! 0)" by simp
      then show ?thesis by (intro disjI2 exI [of _ 0]) (simp add: NUMBEROFCHECKERCORES_def)
    next
      case False
      with 4 *(3) [of w] have "w - 1 \<noteq> 0" "w - 1 < 12" by (auto simp: NUMBEROFCHECKERCORES_def)
      with False *(1) [of "w - 1"] show ?thesis by simp
    qed
  qed (auto simp: *(1,2) *(3) [simplified] NUMBEROFCHECKERCORES_def QUEUESIZE_def split: if_splits)
  then show "pause_inv full_log"
    by (simp add: pause_inv_def full_log_def)
qed

theorem main_core_released_witness:
  "pause full_log ! 0 \<and> (\<exists>q < NUMBEROFCHECKERCORES. QUEUESIZE \<le> queue_size full_log ! q \<and>
    (\<forall>k g'. 0 < k \<longrightarrow> queue_size full_log ! q - k \<le> QUEUESIZE \<longrightarrow> pops (int (q + 1)) k full_log g' \<longrightarrow>
       \<not> pause g' ! 0))"
proof -
  have "pause full_log ! 0" by (simp add: full_log_def)
  with main_core_released [OF full_log_ok this] show ?thesis by blast
qed

section \<open>Losing entries\<close>

text \<open>
  C34: the ring arithmetic is modulo \<open>QUEUESIZE\<close>, but the assertion of \<open>add_to_queue\<close> admits up to
  \<open>RINGSLOTS\<close> entries. An addition to a queue that already holds \<open>QUEUESIZE\<close> entries succeeds and
  overwrites the oldest of them: the reader sees the new entry first, then the others, then the
  new entry again; the oldest is never delivered.
\<close>

theorem add_to_full_queue:
  assumes "wf_slog g" "q < NUMBEROFCHECKERCORES" "queue_size g ! q = QUEUESIZE"
    "w \<le> NUMBEROFCHECKERCORES"
  shows "\<exists>g'. add_to_queue g s (int q) (int w) = Inr g' \<and>
    fifo g' q = s\<lparr>from_core := int w\<rparr> # tl (fifo g q) @ [s\<lparr>from_core := int w\<rparr>]"
proof -
  have "add_to_queue g s (int q) (int w) = Inr (added g s q w)"
    using assms by (intro add_to_queue_eq) (auto simp: RINGSLOTS_def)
  moreover have "fifo (added g s q w) q = fifo (pushed g s q w) q"
    by (simp add: added_def)
  moreover have "wf_slog (g\<lparr>mapped_to_core := (mapped_to_core g)[q := mapped_to_core g ! q + 1]\<rparr>)"
    using assms(1) by (simp add: wf_slog_def)
  from fifo_ring_push_full [OF this assms(2)] assms(3)
  have "fifo (pushed g s q w) q = s\<lparr>from_core := int w\<rparr> # tl (fifo g q) @ [s\<lparr>from_core := int w\<rparr>]"
    by (simp add: pushed_def fifo_def)
  ultimately show ?thesis by simp
qed

theorem add_to_full_queue_witness:
  "\<exists>g'. add_to_queue full_log (securelogentry_new 5 Comms 1 0 0) (int 0) (int 2) = Inr g' \<and>
    fifo g' 0 = (securelogentry_new 5 Comms 1 0 0)\<lparr>from_core := int 2\<rparr> # tl (fifo full_log 0) @
                [(securelogentry_new 5 Comms 1 0 0)\<lparr>from_core := int 2\<rparr>]"
  using full_log_ok(1) by (intro add_to_full_queue) (simp_all add: full_log_def NUMBEROFCHECKERCORES_def)

end
