(* ===== verification/Log_Delivery.thy ===== *)
theory Log_Delivery
  imports Log_Mapping
begin

text \<open>
  Delivery of the log of one guardian program. For a configuration with a single program whose
  map line uses fixed cores and the round-robin mode, committing on the main core and popping on
  the checker cores behaves like one unbounded queue per core: every entry the filter accepts
  arrives, once and in order, at the core the configuration names, and a commit of the running
  main core never faults.
\<close>

section \<open>Runs and their specification\<close>

datatype log_event = Commit u64 securelogentry | PopItem u64 int int

text \<open>The values popped in a run, with the core and the item asked for.\<close>

fun run_log :: "log_event list \<Rightarrow> slog \<Rightarrow> ((int \<times> int \<times> u64) list \<times> slog) res" where
  "run_log [] g = Inr ([], g)"
| "run_log (Commit now s # es) g = bindE (filter_log now s g) (run_log es)"
| "run_log (PopItem now core item # es) g =
     bindE (pop_from_queue now g core item) (\<lambda>(v, g1).
     bindE (run_log es g1) (\<lambda>(os, g2). Inr ((core, item, v) # os, g2)))"

text \<open>
  The abstract machine: unbounded queues, and the number \<open>k\<close> of entries distributed round-robin
  so far; entry number \<open>k\<close> goes to core \<open>k mod n\<close> of the \<open>n\<close> cores of the program.
\<close>

definition ncores :: "sprogram \<Rightarrow> int" where
  "ncores p = coreend p - corestart p + 1"

definition target_core :: "sprogram \<Rightarrow> nat \<Rightarrow> securelogentry \<Rightarrow> nat option" where
  "target_core p k s =
     (let v = prog_map p ! instType_code (insttype s)
      in if v = 0 then None else if v > 0 then Some (nat (v - 1))
         else Some (nat (corestart p + int k mod ncores p)))"

definition round_robin :: "sprogram \<Rightarrow> securelogentry \<Rightarrow> bool" where
  "round_robin p s \<longleftrightarrow> prog_map p ! instType_code (insttype s) < 0"

fun sent_to :: "sprogram \<Rightarrow> bool list \<Rightarrow> nat \<Rightarrow> log_event list \<Rightarrow> nat \<Rightarrow> securelogentry list" where
  "sent_to p fb k [] q = []"
| "sent_to p fb k (Commit now s # es) q =
     (if fb ! instType_code (insttype s)
      then (if target_core p k s = Some q then [s\<lparr>from_core := 0\<rparr>] else []) @
           sent_to p fb (if round_robin p s then k + 1 else k) es q
      else sent_to p fb k es q)"
| "sent_to p fb k (PopItem now core item # es) q = sent_to p fb k es q"

definition received :: "(int \<times> int \<times> u64) list \<Rightarrow> nat \<Rightarrow> (int \<times> u64) list" where
  "received os q = map snd (filter (\<lambda>(core, item, v). core = int (q + 1)) os)"

text \<open>Configurations and states covered.\<close>

definition simple_program :: "sprogram \<Rightarrow> bool" where
  "simple_program p \<longleftrightarrow>
     length (prog_map p) = ENUMSIZE \<and>
     (\<forall>v \<in> set (prog_map p). - 1 \<le> v \<and> v \<le> int NUMBEROFCHECKERCORES) \<and>
     0 \<le> corestart p \<and> corestart p \<le> coreend p \<and> coreend p < int NUMBEROFCHECKERCORES"

definition delivering :: "sprogram \<Rightarrow> nat \<Rightarrow> slog \<Rightarrow> bool" where
  "delivering p k g \<longleftrightarrow>
     log_ok g \<and> ready g \<le> 0 \<and>
     programs g = [p\<lparr>counter := corestart p + int k mod ncores p\<rparr>] \<and>
     (\<forall>q < NUMBEROFCHECKERCORES. queue_size g ! q \<le> QUEUESIZE \<and>
        (queue_size g ! q = QUEUESIZE \<longrightarrow> 0 \<in> set (pausedOn g ! q)))"

section \<open>A commit of the running main core\<close>

lemma instType_code_less: "instType_code t < ENUMSIZE"
  by (cases t) (auto simp: ENUMSIZE_def)

lemma instType_codes: "instType_code t = instType_code u \<longleftrightarrow> t = u"
  by (cases t; cases u) auto

lemma running_room:
  assumes "delivering p k g" "\<not> pause g ! 0" "q < NUMBEROFCHECKERCORES"
  shows "queue_size g ! q < QUEUESIZE"
proof -
  have "int 0 \<notin> set (pausedOn g ! q)"
    using assms running_not_recorded [of "queue_size g" "pause g" "pausedOn g" 0 q]
    by (simp add: delivering_def log_ok_def pause_inv_def)
  with assms(1,3) show ?thesis by (auto simp: delivering_def le_less)
qed

lemma target_core_less:
  assumes "simple_program p" "target_core p k s = Some q"
  shows "q < NUMBEROFCHECKERCORES"
proof -
  let ?v = "prog_map p ! instType_code (insttype s)"
  have "?v \<in> set (prog_map p)"
    using assms(1) instType_code_less by (simp add: simple_program_def)
  then have v: "?v \<le> int NUMBEROFCHECKERCORES" using assms(1) by (simp add: simple_program_def)
  have "0 < ncores p" using assms(1) by (simp add: simple_program_def ncores_def)
  then have "0 \<le> int k mod ncores p" "int k mod ncores p < ncores p" by simp_all
  with v assms show ?thesis
    by (auto simp: target_core_def Let_def simple_program_def ncores_def split: if_splits)
qed

text \<open>The counter wraps at the end of the range exactly as the round-robin number does.\<close>

lemma counter_step:
  assumes "simple_program p"
  shows "(if corestart p + int k mod ncores p + 1 > coreend p then corestart p
          else corestart p + int k mod ncores p + 1) = corestart p + int (k + 1) mod ncores p"
proof -
  have n: "0 < ncores p" using assms by (simp add: simple_program_def ncores_def)
  have "int (k + 1) mod ncores p = (int k mod ncores p + 1) mod ncores p"
    by (metis mod_add_left_eq of_nat_1 of_nat_add)
  moreover have "int k mod ncores p < ncores p" "0 \<le> int k mod ncores p" using n by simp_all
  ultimately have "int (k + 1) mod ncores p =
      (if int k mod ncores p + 1 = ncores p then 0 else int k mod ncores p + 1)"
    by (auto simp: mod_pos_pos_trivial)
  with \<open>int k mod ncores p < ncores p\<close> show ?thesis by (auto simp: ncores_def)
qed

text \<open>The state after the running main core committed \<open>s\<close>.\<close>

definition committed :: "sprogram \<Rightarrow> nat \<Rightarrow> securelogentry \<Rightarrow> slog \<Rightarrow> slog" where
  "committed p k s g =
     (let g1 = g\<lparr>mapped := mapped g + 1\<rparr>
      in (case target_core p k s of None \<Rightarrow> g1 | Some q \<Rightarrow> added g1 s q 0)
           \<lparr>programs := [p\<lparr>counter := corestart p +
              int (if round_robin p s then k + 1 else k) mod ncores p\<rparr>]\<rparr>)"

lemma filter_log_eq:
  assumes p: "simple_program p" and d: "delivering p k g" and run: "\<not> pause g ! 0"
    and acc: "filterb g ! instType_code (insttype s)"
  shows "filter_log now s g = Inr (committed p k s g)"
proof -
  let ?v = "prog_map p ! instType_code (insttype s)"
  let ?g = "g\<lparr>mapped := mapped g + 1\<rparr>" and ?c = "corestart p + int k mod ncores p"
  have len: "instType_code (insttype s) < length (prog_map p)"
    using p instType_code_less by (simp add: simple_program_def)
  then have v: "- 1 \<le> ?v" using p by (simp add: simple_program_def)
  have add: "add_to_queue ?g s (int q) 0 = Inr (added ?g s q 0)"
    if "target_core p k s = Some q" for q
    using add_to_queue_eq [of ?g q 0 s] target_core_less [OF p that] running_room [OF d run]
      d by (auto simp: delivering_def log_ok_fields log_ok_def wf_slog_def RINGSLOTS_def)
  have "0 \<le> ?c" using p by (simp add: simple_program_def ncores_def)
  consider "?v = 0" | "0 < ?v" | "?v = - 1" using v by linarith
  then have "map_programs now True s (programs g) ?g =
      Inr (programs (committed p k s g), (case target_core p k s of None \<Rightarrow> ?g | Some q \<Rightarrow> added ?g s q 0))"
  proof cases
    case 1
    then show ?thesis
      using d len by (simp add: delivering_def map_program_def target_core_def committed_def
          round_robin_def Let_def)
  next
    case 2
    then have "target_core p k s = Some (nat (?v - 1))" by (simp add: target_core_def)
    with 2 add [OF this] d len show ?thesis
      by (simp add: delivering_def map_program_def committed_def round_robin_def Let_def)
  next
    case 3
    then have t: "target_core p k s = Some (nat ?c)" by (simp add: target_core_def)
    with 3 add [OF t] d len counter_step [OF p, of k] \<open>0 \<le> ?c\<close> show ?thesis
      by (auto simp: delivering_def map_program_def committed_def round_robin_def Let_def
          split: if_splits)
  qed
  then show ?thesis
    using acc run d
    by (simp add: filter_log_def map_log_def delivering_def committed_def Let_def assertE_def)
qed

lemma fifo_fields: "fifo (g\<lparr>mapped := m\<rparr>) = fifo g" "fifo (g\<lparr>programs := ps\<rparr>) = fifo g"
  by (simp_all add: fifo_def fun_eq_iff)

lemma committed_fifo:
  assumes p: "simple_program p" and d: "delivering p k g" and run: "\<not> pause g ! 0"
  shows "fifo (committed p k s g) q =
    fifo g q @ (if target_core p k s = Some q then [s\<lparr>from_core := 0\<rparr>] else [])"
proof (cases "target_core p k s")
  case None
  then show ?thesis by (simp add: committed_def fifo_fields Let_def)
next
  case (Some r)
  let ?g = "g\<lparr>mapped := mapped g + 1\<rparr>"
  have r: "r < NUMBEROFCHECKERCORES" using target_core_less [OF p Some] .
  have "wf_slog ?g" "queue_size ?g ! r < QUEUESIZE"
    using d running_room [OF d run r] by (auto simp: delivering_def log_ok_def wf_slog_def)
  from fifo_added [OF this(1) r this(2), of s 0] Some show ?thesis
    by (simp add: committed_def fifo_fields Let_def)
qed

lemma committed_delivering:
  assumes p: "simple_program p" and d: "delivering p k g" and run: "\<not> pause g ! 0"
  shows "delivering p (if round_robin p s then k + 1 else k) (committed p k s g)"
proof (cases "target_core p k s")
  case None
  with d show ?thesis
    by (simp add: committed_def delivering_def log_ok_fields Let_def)
next
  case (Some r)
  let ?g = "g\<lparr>mapped := mapped g + 1\<rparr>"
  have r: "r < NUMBEROFCHECKERCORES" using target_core_less [OF p Some] .
  have ok: "log_ok ?g" using d by (simp add: delivering_def log_ok_fields)
  have room: "queue_size g ! r < QUEUESIZE" using running_room [OF d run r] .
  have len: "length (queue_size g) = NUMBEROFCHECKERCORES" "length (pausedOn g) = NUMBEROFCHECKERCORES"
    using d by (auto simp: delivering_def log_ok_def wf_slog_def)
  have "queue_size (added ?g s r 0) ! q \<le> QUEUESIZE \<and>
      (queue_size (added ?g s r 0) ! q = QUEUESIZE \<longrightarrow> 0 \<in> set (pausedOn (added ?g s r 0) ! q))"
    if q: "q < NUMBEROFCHECKERCORES" for q
    using d running_room [OF d run q] q r room len run
    by (cases "q = r")
       (auto simp: added_def pushed_def delivering_def nth_list_update ring_push_def split: if_splits)
  moreover have "log_ok (added ?g s r 0)" by (rule log_ok_added [OF ok r]) simp
  moreover have "ready (added ?g s r 0) = ready g"
    using same_config_added [of ?g s r 0] by (simp add: same_config_def)
  ultimately show ?thesis
    using d Some by (simp add: committed_def delivering_def log_ok_fields Let_def)
qed

lemma committed_filterb: "filterb (committed p k s g) = filterb g"
proof -
  have "filterb (added (g\<lparr>mapped := mapped g + 1\<rparr>) s q 0) = filterb g" for q
    using same_config_added [of "g\<lparr>mapped := mapped g + 1\<rparr>" s q 0] by (simp add: same_config_def)
  then show ?thesis by (simp add: committed_def Let_def split: option.splits)
qed

lemma delivering_pop:
  assumes d: "delivering p k g" and pop: "pop_from_queue now g core item = Inr (v, g')"
  shows "delivering p k g'"
proof -
  have wf: "wf_slog g" and inv: "pause_inv g" using d by (auto simp: delivering_def log_ok_def)
  obtain q g2 where q: "q < NUMBEROFCHECKERCORES" "queue_size g ! q \<noteq> 0"
    and r: "record_delay now (hd (fifo g q)) (start_clock now g) = Inr g2" and g': "g' = popped g2 q"
    by (rule pop_from_queueD [OF wf pop])
  note sel = record_delay_sel [OF r, simplified] and keep = pop_from_queue_keeps [OF wf pop]
  have len: "length (queue_size g) = NUMBEROFCHECKERCORES" "length (pausedOn g) = NUMBEROFCHECKERCORES"
    using wf by (auto simp: wf_slog_def)
  have "queue_size g' ! j \<le> QUEUESIZE \<and>
      (queue_size g' ! j = QUEUESIZE \<longrightarrow> 0 \<in> set (pausedOn g' ! j))"
    if j: "j < NUMBEROFCHECKERCORES" for j
    using d j q len
    by (cases "j = q") (auto simp: g' popped_def Let_def ring_pop_def sel delivering_def nth_list_update)
  moreover have "log_ok g'" "same_config g g'" using keep inv by (auto simp: log_ok_def)
  ultimately show ?thesis using d by (auto simp: delivering_def same_config_def)
qed

section \<open>Whole runs\<close>

lemma run_log_from:
  assumes "simple_program p" "delivering p k g" "run_log es g = Inr (os, g')" "q < NUMBEROFCHECKERCORES"
  shows "length (received os q) \<le> length (fifo g q @ sent_to p (filterb g) k es q) \<and>
    map snd (received os q) =
      map2 (\<lambda>item s. entry_item s item) (map fst (received os q)) (fifo g q @ sent_to p (filterb g) k es q) \<and>
    fifo g' q = drop (length (received os q)) (fifo g q @ sent_to p (filterb g) k es q)"
  using assms(2,3)
proof (induction es arbitrary: k g os)
  case Nil
  then show ?case by (simp add: received_def)
next
  case (Cons e es)
  show ?case
  proof (cases e)
    case (Commit now s)
    then obtain g1 where f: "filter_log now s g = Inr g1" and r: "run_log es g1 = Inr (os, g')"
      using Cons.prems by (auto simp: bindE_Inr_iff)
    show ?thesis
    proof (cases "filterb g ! instType_code (insttype s)")
      case False
      then have "g1 = g" using f by (simp add: filter_log_def)
      with Cons.IH [OF Cons.prems(1)] r Commit False show ?thesis by simp
    next
      case True
      have run: "\<not> pause g ! 0"
        using f True Cons.prems(1) by (auto simp: filter_log_def delivering_def bindE_Inr_iff assertE_def split: if_splits)
      have g1: "g1 = committed p k s g"
        using filter_log_eq [OF assms(1) Cons.prems(1) run True] f by simp
      show ?thesis
        using Cons.IH [OF committed_delivering [OF assms(1) Cons.prems(1) run] r [unfolded g1]]
        unfolding committed_fifo [OF assms(1) Cons.prems(1) run] committed_filterb
        by (simp add: Commit True)
    qed
  next
    case (PopItem now core item)
    then obtain v g1 os' where pop: "pop_from_queue now g core item = Inr (v, g1)"
      and r: "run_log es g1 = Inr (os', g')" and os: "os = (core, item, v) # os'"
      using Cons.prems by (auto simp: bindE_Inr_iff)
    have wf: "wf_slog g" using Cons.prems(1) by (simp add: delivering_def log_ok_def)
    have fb: "filterb g1 = filterb g"
      using pop_from_queue_keeps(2) [OF wf pop] by (simp add: same_config_def)
    from pop_from_queue_keeps(4) [OF wf pop] obtain j where j: "core = int (j + 1)" "fifo g j \<noteq> []"
      "v = entry_item (hd (fifo g j)) item" "fifo g1 = (fifo g)(j := tl (fifo g j))" by blast
    note IH = Cons.IH [OF delivering_pop [OF Cons.prems(1) pop] r, unfolded fb]
    show ?thesis
    proof (cases "j = q")
      case True
      then obtain s ss where ss: "fifo g q = s # ss" using j(2) by (cases "fifo g q") auto
      have "received os q = (item, v) # received os' q" using j(1) True by (simp add: received_def os)
      with IH j(3,4) True ss PopItem show ?thesis by simp
    next
      case False
      then have "received os q = received os' q" using j(1) by (auto simp: received_def os)
      with IH j(4) False PopItem show ?thesis by simp
    qed
  qed
qed

text \<open>
  C1: delivery. Start a single guardian program on empty queues and let the main core commit and
  the checker cores pop in any order. For every core, the values its pops returned are, in order,
  the requested items of the first entries the configuration sends to that core, and its queue
  holds exactly the remaining ones: nothing is lost, duplicated, reordered or sent elsewhere.
  Entries in round-robin mode go to the cores of the program in turn.
\<close>

theorem run_log_delivers:
  assumes "simple_program p" "delivering p 0 g" "\<forall>q < NUMBEROFCHECKERCORES. queue_size g ! q = 0"
    and "run_log es g = Inr (os, g')" "q < NUMBEROFCHECKERCORES"
  shows "let sent = sent_to p (filterb g) 0 es q; got = received os q
    in length got \<le> length sent \<and>
       map snd got = map2 (\<lambda>item s. entry_item s item) (map fst got) sent \<and>
       fifo g' q = drop (length got) sent"
proof -
  have "fifo g q = []" using assms(3,5) by simp
  with run_log_from [OF assms(1,2,4,5)] show ?thesis by (simp add: Let_def)
qed

definition demo_program :: sprogram where
  "demo_program = \<lparr>prog_map = [0, 0, 0, - 1, - 1, 2, 0, 0, 0], counter = 0, corestart = 0, coreend = 11\<rparr>"

definition demo_log :: slog where
  "demo_log = slog_static\<lparr>pause := False # replicate NUMBEROFCHECKERCORES True,
     programs := [demo_program], filterb := [False, False, False, True, True, True, False, False, False]\<rparr>"

definition demo_run :: "log_event list" where
  "demo_run = [Commit 5 (securelogentry_new 5 Call 40 0 0), Commit 6 (securelogentry_new 6 Load 1 0 0),
     Commit 7 (securelogentry_new 7 Return 44 0 0), PopItem 9 2 0, Commit 9 (securelogentry_new 9 Memflush 3 0 0),
     PopItem 12 1 1]"

lemma demo_ok: "simple_program demo_program" "delivering demo_program 0 demo_log"
  "\<forall>q < NUMBEROFCHECKERCORES. queue_size demo_log ! q = 0"
proof -
  show "simple_program demo_program"
    by (simp add: simple_program_def demo_program_def slog_consts)
  have "pause_ok (replicate NUMBEROFCHECKERCORES 0)
      (False # replicate NUMBEROFCHECKERCORES True) (replicate NUMBEROFCHECKERCORES [])"
    by (rule pause_okI) (auto simp: nth_Cons' split: if_splits)
  then show "delivering demo_program 0 demo_log"
    by (simp add: delivering_def log_ok_def wf_slog_def demo_log_def slog_static_def pause_inv_def
        demo_program_def ENUMSIZE_def QUEUESIZE_def)
  show "\<forall>q < NUMBEROFCHECKERCORES. queue_size demo_log ! q = 0"
    by (simp add: demo_log_def slog_static_def)
qed

lemma demo_run_returns:
  "case run_log demo_run demo_log of Inl e \<Rightarrow> False | Inr (os, g') \<Rightarrow> os = [(2, 0, 4), (1, 1, 40)]"
  by code_simp

theorem run_log_delivers_witness:
  "\<exists>os g'. run_log demo_run demo_log = Inr (os, g') \<and>
     fifo g' 1 = drop (length (received os 1)) (sent_to demo_program (filterb demo_log) 0 demo_run 1)"
proof -
  obtain os g' where r: "run_log demo_run demo_log = Inr (os, g')"
    using demo_run_returns by (auto split: sum.splits)
  with run_log_delivers [OF demo_ok r, of 1] show ?thesis
    by (simp add: Let_def NUMBEROFCHECKERCORES_def)
qed

text \<open>
  C22: a commit of the running main core under such a program never faults: no assertion fails, no
  array is left, whatever the instruction kind. The entry is appended to the queue of its target
  core, if it has one, every other queue stays, and the state stays one of these.
\<close>

theorem commit_total:
  assumes "simple_program p" "delivering p k g" "\<not> pause g ! 0"
  shows "\<exists>g' k'. filter_log now s g = Inr g' \<and> delivering p k' g' \<and>
    (\<forall>q. fifo g' q = fifo g q @
       (if filterb g ! instType_code (insttype s) \<and> target_core p k s = Some q
        then [s\<lparr>from_core := 0\<rparr>] else []))"
proof (cases "filterb g ! instType_code (insttype s)")
  case True
  with filter_log_eq [OF assms True] committed_delivering [OF assms] committed_fifo [OF assms]
  show ?thesis by auto
next
  case False
  with assms(2) show ?thesis by (auto simp: filter_log_def)
qed

theorem commit_total_witness:
  "\<exists>g' k'. filter_log 5 (securelogentry_new 5 Call 40 0 0) demo_log = Inr g' \<and> delivering demo_program k' g'"
  using commit_total [OF demo_ok(1,2), of 5 "securelogentry_new 5 Call 40 0 0"]
  by (auto simp: demo_log_def)

end
