(* ===== verification/Guardian_Commit.thy ===== *)
theory Guardian_Commit
  imports Log_Delivery
begin

text \<open>
  The users of the log in the simulator: the hooks of the out-of-order core's commit stage
  (\<open>commitInsts\<close> of \<open>src/cpu/o3/commit_impl.hh\<close>), the pseudo instructions of the checker cores
  (\<open>src/sim/pseudo_inst.cc\<close>), the start-up of the mapper (\<open>wakeupFetch\<close> of
  \<open>src/cpu/minor/fetch1.cc\<close>) and the report at the end of the simulation
  (\<open>exitSimLoop\<close> of \<open>src/sim/sim_events.cc\<close>). A committing instruction is the record of the
  attributes the hooks read; the rest of the pipeline is not modelled.
\<close>

section \<open>Commit hooks\<close>

record dyn_inst =
  isMemRef :: bool
  isLoad :: bool
  isStore :: bool
  isMemBarrier :: bool
  isCall :: bool
  isIndirectCtrl :: bool
  isReturn :: bool
  effAddr :: u64
  instAddr :: u64
  branchTarget :: u64

definition log_memref :: "u64 \<Rightarrow> u64 \<Rightarrow> dyn_inst \<Rightarrow> slog \<Rightarrow> slog res" where
  "log_memref now timed i g =
     (if isMemRef i
      then bindE (if isLoad i
                  then filter_log now (securelogentry_new now Load (effAddr i) (instAddr i) timed) g
                  else if isStore i
                  then filter_log now (securelogentry_new now Store (effAddr i) (instAddr i) timed) g
                  else Inr g) (\<lambda>g1.
           if isMemBarrier i
           then filter_log now (securelogentry_new now Barrier 0 (instAddr i) timed) g1
           else Inr g1)
      else Inr g)"

definition log_call :: "u64 \<Rightarrow> u64 \<Rightarrow> dyn_inst \<Rightarrow> slog \<Rightarrow> slog res" where
  "log_call now timed i g =
     (if isCall i
      then filter_log now (securelogentry_new now Call (instAddr i + 16) (instAddr i) timed) g
      else Inr g)"

text \<open>The range of addresses seen in indirect branches, extended by one address.\<close>

definition widen_branches :: "u64 \<Rightarrow> slog \<Rightarrow> slog" where
  "widen_branches a g =
     (let g1 = (if a > maxaddr g then g\<lparr>maxaddr := a\<rparr> else g)
      in if a < minaddr g1 then g1\<lparr>minaddr := a\<rparr> else g1)"

definition log_indirect :: "u64 \<Rightarrow> u64 \<Rightarrow> dyn_inst \<Rightarrow> slog \<Rightarrow> slog res" where
  "log_indirect now timed i g =
     (if isIndirectCtrl i
      then filter_log now (securelogentry_new now IndirectBranch (branchTarget i) (instAddr i) timed)
             (widen_branches (instAddr i) (widen_branches (branchTarget i) g))
      else Inr g)"

definition log_return :: "u64 \<Rightarrow> u64 \<Rightarrow> dyn_inst \<Rightarrow> slog \<Rightarrow> slog res" where
  "log_return now timed i g =
     (if isReturn i
      then filter_log now (securelogentry_new now Return (branchTarget i) (instAddr i) timed) g
      else Inr g)"

text \<open>
  What a committed instruction logs, with the tick of the previous one (\<open>lastCurtick\<close>).
\<close>

definition log_committed :: "u64 \<Rightarrow> u64 \<Rightarrow> dyn_inst \<Rightarrow> slog \<Rightarrow> slog res" where
  "log_committed now lastCurtick i g =
     (let timed = now - lastCurtick
      in if pause g ! 0 then Inr g
         else bindE (log_memref now timed i g) (\<lambda>g1.
              bindE (log_call now timed i g1) (\<lambda>g2.
              bindE (log_indirect now timed i g2) (log_return now timed i))))"

text \<open>The start of a cycle: the occupancy statistics and the end of a flush.\<close>

fun count_occupancy :: "nat list \<Rightarrow> slog \<Rightarrow> slog res" where
  "count_occupancy [] g = Inr g"
| "count_occupancy (x # xs) g =
     (let row = fifo_occupancy g ! x
      in bindE (rd row (int (queue_size g ! x))) (\<lambda>n.
         count_occupancy xs
           (g\<lparr>fifo_occupancy := (fifo_occupancy g)[x := row[queue_size g ! x := n + 1]]\<rparr>)))"

definition clear_flush :: "slog \<Rightarrow> slog" where
  "clear_flush g =
     (if flush g
      then (if \<exists>x < NUMBEROFCHECKERCORES. queue_size g ! x > 0 then g else g\<lparr>flush := False\<rparr>)
      else g)"

text \<open>
  One cycle of the commit stage as far as the log sees it. \<open>rob\<close> holds the instructions that are
  ready to commit, oldest first; \<open>width\<close> is \<open>commitWidth\<close>. Result: the log, the tick of the last
  commit, the instructions left and the number committed.
\<close>

fun commit_loop ::
  "u64 \<Rightarrow> nat \<Rightarrow> dyn_inst list \<Rightarrow> u64 \<Rightarrow> slog \<Rightarrow> (slog \<times> u64 \<times> dyn_inst list \<times> nat) res" where
  "commit_loop now 0 rob prev g = Inr (g, prev, rob, 0)"
| "commit_loop now (Suc left) rob prev g =
     (if pause g ! 0 \<or> flush g then Inr (g, prev, rob, 0)
      else case rob of
        [] \<Rightarrow> Inr (g, prev, [], 0)
      | i # rest \<Rightarrow>
          bindE (log_committed now prev i g) (\<lambda>g1.
          bindE (commit_loop now left rest now g1) (\<lambda>(g2, prev2, rob2, n).
          Inr (g2, prev2, rob2, n + 1))))"

definition commitInsts ::
  "u64 \<Rightarrow> nat \<Rightarrow> dyn_inst list \<Rightarrow> u64 \<Rightarrow> slog \<Rightarrow> (slog \<times> u64 \<times> dyn_inst list \<times> nat) res" where
  "commitInsts now width rob lastCurtick g =
     bindE (count_occupancy [0..<NUMBEROFCHECKERCORES] g) (\<lambda>g1.
     (let prev = (if pause g1 ! 0 then now else lastCurtick)
      in commit_loop now width rob prev (clear_flush g1)))"

section \<open>Pseudo instructions\<close>

definition top_queue :: "int \<Rightarrow> u64 \<Rightarrow> slog \<Rightarrow> u64 res" where
  "top_queue threadid element g = top_from_queue g threadid (int_of_u64 element)"

definition pop_queue :: "u64 \<Rightarrow> int \<Rightarrow> u64 \<Rightarrow> slog \<Rightarrow> (u64 \<times> slog) res" where
  "pop_queue now threadid element g = pop_from_queue now g threadid (int_of_u64 element)"

definition put_queue :: "u64 \<Rightarrow> int \<Rightarrow> u64 \<Rightarrow> u64 \<Rightarrow> slog \<Rightarrow> slog res" where
  "put_queue now threadid queue d g = core_queuewrite now d queue threadid g"

definition add_counter :: "u64 \<Rightarrow> u64 \<Rightarrow> slog \<Rightarrow> slog" where
  "add_counter i value g =
     (if i < of_nat NUMBEROFCOUNTERS
      then g\<lparr>counters := (counters g)[unat i := counters g ! unat i + value]\<rparr> else g)"

definition flush_gpe :: "slog \<Rightarrow> slog" where
  "flush_gpe g = g\<lparr>flush := True\<rparr>"

text \<open>
  The dispatcher on the function codes of the log; the other codes do not touch it. The result is
  the returned value and the log, \<open>None\<close> for a code that is handled outside the log.
\<close>

definition pseudoInst ::
  "u64 \<Rightarrow> int \<Rightarrow> nat \<Rightarrow> u64 list \<Rightarrow> slog \<Rightarrow> (u64 \<times> slog) res option" where
  "pseudoInst now cpuId func args g =
     (if func = 0x5a then
        Some (bindE (send_messages now (args ! 0) (args ! 1) (args ! 2) g) (\<lambda>g1. Inr (0, g1)))
      else if func = 0x55 \<or> func = 0x56 then
        Some (bindE (top_queue cpuId (args ! 0) g) (\<lambda>v. Inr (v, g)))
      else if func = 0x57 then Some (pop_queue now cpuId (args ! 0) g)
      else if func = 0x58 then
        Some (bindE (put_queue now cpuId (args ! 0) (args ! 1) g) (\<lambda>g1. Inr (0, g1)))
      else if func = 0x59 then Some (Inr (0, add_counter (args ! 0) (args ! 1) g))
      else None)"

section \<open>Start-up and report\<close>

datatype thread_status = Active | Suspended | Halted

text \<open>\<open>wakeupFetch\<close>: once no thread context is halted the mapper is ready.\<close>

definition wakeup_ready :: "thread_status list \<Rightarrow> slog \<Rightarrow> slog" where
  "wakeup_ready statuses g =
     (if \<exists>s \<in> set statuses. s = Halted then g else g\<lparr>ready := 0\<rparr>)"

record exit_report =
  rep_delays :: "histo_report option"
  rep_counters :: "(nat \<times> u64) list"
  rep_branches :: "u64 \<times> u64"
  rep_mapped :: u64
  rep_mapped_to_core :: "u64 list"
  rep_occupancy :: "(nat \<times> u64 list) list"

definition exitSimLoop_report :: "slog \<Rightarrow> exit_report" where
  "exitSimLoop_report g =
     \<lparr>rep_delays = printHisto (histogram g),
      rep_counters = map (\<lambda>x. (x, counters g ! x)) [0..<NUMBEROFCOUNTERS],
      rep_branches = (minaddr g, maxaddr g),
      rep_mapped = mapped g,
      rep_mapped_to_core = map (\<lambda>x. mapped_to_core g ! x) [0..<NUMBEROFCHECKERCORES],
      rep_occupancy =
        map (\<lambda>x. (x, map (\<lambda>y. fifo_occupancy g ! y ! x) [0..<NUMBEROFCHECKERCORES])) [0..<RINGSLOTS]\<rparr>"

section \<open>The branch range\<close>

lemma widen_branches_sel [simp]:
  "minaddr (widen_branches a g) = min a (minaddr g)"
  "maxaddr (widen_branches a g) = max a (maxaddr g)"
  "pause (widen_branches a g) = pause g" "filterb (widen_branches a g) = filterb g"
  "flush (widen_branches a g) = flush g" "fifo (widen_branches a g) = fifo g"
  "queue_size (widen_branches a g) = queue_size g" "programs (widen_branches a g) = programs g"
  "log_ok (widen_branches a g) = log_ok g"
  "delivering p k (widen_branches a g) = delivering p k g"
  "wf_slog (widen_branches a g) = wf_slog g" "ready (widen_branches a g) = ready g"
  by (auto simp: widen_branches_def Let_def min_def max_def fifo_def fun_eq_iff log_ok_def
      wf_slog_def pause_inv_def delivering_def)

text \<open>What the filter leaves alone.\<close>

lemma filter_log_keeps:
  assumes "filter_log now s g = Inr g'" "wf_slog g"
  shows "minaddr g' = minaddr g" "maxaddr g' = maxaddr g" "flush g' = flush g" "wf_slog g'"
    "fifo_occupancy g' = fifo_occupancy g" "filterb g' = filterb g"
proof -
  have "g' = g \<or> (\<exists>es ps. g' = (adds es (g\<lparr>mapped := mapped g + 1\<rparr>))\<lparr>programs := ps\<rparr> \<and>
      (\<forall>(q, e) \<in> set es. q < NUMBEROFCHECKERCORES))"
  proof (cases "filterb g ! instType_code (insttype s) \<and> \<not> ready g > 0")
    case True
    then obtain ps g1 where m: "map_programs now True s (programs g) (g\<lparr>mapped := mapped g + 1\<rparr>) = Inr (ps, g1)"
      and g': "g' = g1\<lparr>programs := ps\<rparr>"
      using assms(1) by (auto simp: filter_log_def map_log_def bindE_Inr_iff)
    have "wf_slog (g\<lparr>mapped := mapped g + 1\<rparr>)" using assms(2) by (simp add: wf_slog_def)
    from map_programsD [OF this m] g' show ?thesis by blast
  next
    case False
    then show ?thesis using assms(1) by (auto simp: filter_log_def split: if_splits)
  qed
  then have "minaddr g' = minaddr g \<and> maxaddr g' = maxaddr g \<and> flush g' = flush g \<and> wf_slog g' \<and>
    fifo_occupancy g' = fifo_occupancy g \<and> filterb g' = filterb g"
  proof
    assume "\<exists>es ps. g' = (adds es (g\<lparr>mapped := mapped g + 1\<rparr>))\<lparr>programs := ps\<rparr> \<and>
      (\<forall>(q, e) \<in> set es. q < NUMBEROFCHECKERCORES)"
    then obtain es ps where g': "g' = (adds es (g\<lparr>mapped := mapped g + 1\<rparr>))\<lparr>programs := ps\<rparr>"
      and es: "\<forall>(q, e) \<in> set es. q < NUMBEROFCHECKERCORES" by blast
    have "wf_slog (g\<lparr>mapped := mapped g + 1\<rparr>)" using assms(2) by (simp add: wf_slog_def)
    from wf_adds [OF this es] have "wf_slog g'" by (simp add: g' wf_slog_def)
    with same_config_adds [of "g\<lparr>mapped := mapped g + 1\<rparr>" es] show ?thesis
      by (simp add: g' same_config_def)
  qed (use assms(2) in simp)
  then show "minaddr g' = minaddr g" "maxaddr g' = maxaddr g" "flush g' = flush g" "wf_slog g'"
    "fifo_occupancy g' = fifo_occupancy g" "filterb g' = filterb g"
    by simp_all
qed

lemma log_memref_keeps:
  assumes "log_memref now t i g = Inr g'" "wf_slog g"
  shows "minaddr g' = minaddr g" "maxaddr g' = maxaddr g" "wf_slog g'" "flush g' = flush g"
proof -
  have "minaddr g' = minaddr g \<and> maxaddr g' = maxaddr g \<and> wf_slog g' \<and> flush g' = flush g"
  proof (cases "isMemRef i")
    case True
    then obtain g1 where
      1: "(if isLoad i
           then filter_log now (securelogentry_new now Load (effAddr i) (instAddr i) t) g
           else if isStore i
           then filter_log now (securelogentry_new now Store (effAddr i) (instAddr i) t) g
           else Inr g) = Inr g1"
      and 2: "(if isMemBarrier i
           then filter_log now (securelogentry_new now Barrier 0 (instAddr i) t) g1
           else Inr g1) = Inr g'"
      using assms(1) by (auto simp: log_memref_def bindE_Inr_iff)
    have "minaddr g1 = minaddr g \<and> maxaddr g1 = maxaddr g \<and> wf_slog g1 \<and> flush g1 = flush g"
      using 1 filter_log_keeps [OF _ assms(2), of now _ g1] assms(2) by (auto split: if_splits)
    then show ?thesis
      using 2 filter_log_keeps [of now _ g1 g'] by (auto split: if_splits)
  qed (use assms in \<open>simp add: log_memref_def\<close>)
  then show "minaddr g' = minaddr g" "maxaddr g' = maxaddr g" "wf_slog g'" "flush g' = flush g"
    by simp_all
qed

lemma log_committed_range:
  assumes c: "log_committed now prev i g = Inr g'" and wf: "wf_slog g"
  shows "wf_slog g'" "minaddr g' \<le> minaddr g" "maxaddr g \<le> maxaddr g'" "flush g' = flush g"
    "\<not> pause g ! 0 \<Longrightarrow> isIndirectCtrl i \<Longrightarrow> {branchTarget i, instAddr i} \<subseteq> {minaddr g'..maxaddr g'}"
proof -
  have "wf_slog g' \<and> minaddr g' \<le> minaddr g \<and> maxaddr g \<le> maxaddr g' \<and> flush g' = flush g \<and>
    (\<not> pause g ! 0 \<longrightarrow> isIndirectCtrl i \<longrightarrow> {branchTarget i, instAddr i} \<subseteq> {minaddr g'..maxaddr g'})"
  proof (cases "pause g ! 0")
    case True
    with c wf show ?thesis by (simp add: log_committed_def Let_def)
  next
    case False
    let ?t = "now - prev"
    obtain g1 g2 g3 where 1: "log_memref now ?t i g = Inr g1" and 2: "log_call now ?t i g1 = Inr g2"
      and 3: "log_indirect now ?t i g2 = Inr g3" and 4: "log_return now ?t i g3 = Inr g'"
      using c False by (auto simp: log_committed_def Let_def bindE_Inr_iff)
    note k1 = log_memref_keeps [OF 1 wf]
    have k2: "minaddr g2 = minaddr g" "maxaddr g2 = maxaddr g" "wf_slog g2" "flush g2 = flush g"
      using 2 k1 filter_log_keeps [of now _ g1 g2] by (auto simp: log_call_def split: if_splits)
    have k3: "wf_slog g3" "flush g3 = flush g" "if isIndirectCtrl i
       then minaddr g3 = min (instAddr i) (min (branchTarget i) (minaddr g)) \<and>
            maxaddr g3 = max (instAddr i) (max (branchTarget i) (maxaddr g))
       else minaddr g3 = minaddr g \<and> maxaddr g3 = maxaddr g"
      using 3 k2 filter_log_keeps [of now _ _ g3] by (auto simp: log_indirect_def split: if_splits)
    have "minaddr g' = minaddr g3" "maxaddr g' = maxaddr g3" "wf_slog g'" "flush g' = flush g3"
      using 4 k3(1) filter_log_keeps [of now _ g3 g'] by (auto simp: log_return_def split: if_splits)
    with k3 show ?thesis by (auto simp: min_le_iff_disj le_max_iff_disj split: if_splits)
  qed
  then show "wf_slog g'" "minaddr g' \<le> minaddr g" "maxaddr g \<le> maxaddr g'" "flush g' = flush g"
    "\<not> pause g ! 0 \<Longrightarrow> isIndirectCtrl i \<Longrightarrow> {branchTarget i, instAddr i} \<subseteq> {minaddr g'..maxaddr g'}"
    by simp_all
qed

text \<open>The committed instructions of a cycle are a prefix of the ready ones.\<close>

lemma commit_loop_range:
  assumes "commit_loop now left rob prev g = Inr (g', prev', rob', n)" "wf_slog g"
  shows "n \<le> left \<and> n \<le> length rob \<and> rob' = drop n rob \<and> wf_slog g' \<and>
    flush g' = flush g \<and> minaddr g' \<le> minaddr g \<and> maxaddr g \<le> maxaddr g' \<and>
    (\<forall>i \<in> set (take n rob). isIndirectCtrl i \<longrightarrow>
       {branchTarget i, instAddr i} \<subseteq> {minaddr g'..maxaddr g'})"
  using assms
proof (induction now left rob prev g arbitrary: g' prev' rob' n rule: commit_loop.induct)
  case (2 now left rob prev g)
  show ?case
  proof (cases "pause g ! 0 \<or> flush g \<or> rob = []")
    case True
    with 2(2,3) show ?thesis by (auto split: list.splits)
  next
    case False
    then obtain i rest where rob: "rob = i # rest" by (cases rob) auto
    with False 2(2) obtain g1 m where c: "log_committed now prev i g = Inr g1"
      and l: "commit_loop now left rest now g1 = Inr (g', prev', rob', m)" and n: "n = m + 1"
      by (auto simp: bindE_Inr_iff)
    note r = log_committed_range [OF c 2(3)]
    have IH: "m \<le> left \<and> m \<le> length rest \<and> rob' = drop m rest \<and> wf_slog g' \<and>
      flush g' = flush g1 \<and> minaddr g' \<le> minaddr g1 \<and> maxaddr g1 \<le> maxaddr g' \<and>
      (\<forall>i \<in> set (take m rest). isIndirectCtrl i \<longrightarrow>
         {branchTarget i, instAddr i} \<subseteq> {minaddr g'..maxaddr g'})"
      using False by (intro 2(1) [OF _ rob c l r(1)]) simp
    have "{branchTarget i, instAddr i} \<subseteq> {minaddr g'..maxaddr g'}" if "isIndirectCtrl i"
      using r(5) that False IH by (auto intro: order_trans)
    with IH r(2,3,4) show ?thesis by (auto simp: rob n intro: order_trans)
  qed
qed auto

lemma count_occupancy_eq:
  assumes "\<forall>x \<in> set xs. queue_size g ! x < length (fifo_occupancy g ! x)" "distinct xs"
    "\<forall>x \<in> set xs. x < length (fifo_occupancy g)"
  shows "count_occupancy xs g = Inr (g\<lparr>fifo_occupancy :=
    map (\<lambda>x. if x \<in> set xs
             then (fifo_occupancy g ! x)[queue_size g ! x := fifo_occupancy g ! x ! (queue_size g ! x) + 1]
             else fifo_occupancy g ! x) [0..<length (fifo_occupancy g)]\<rparr>)"
  using assms
proof (induction xs arbitrary: g)
  case Nil
  then show ?case by (simp add: map_nth)
next
  case (Cons x xs)
  let ?row = "(fifo_occupancy g ! x)[queue_size g ! x := fifo_occupancy g ! x ! (queue_size g ! x) + 1]"
  let ?g = "g\<lparr>fifo_occupancy := (fifo_occupancy g)[x := ?row]\<rparr>"
  have "count_occupancy (x # xs) g = count_occupancy xs ?g"
    using Cons.prems by (simp add: rd_of_nat Let_def)
  also have "\<dots> = Inr (?g\<lparr>fifo_occupancy :=
    map (\<lambda>y. if y \<in> set xs
             then (fifo_occupancy ?g ! y)[queue_size ?g ! y := fifo_occupancy ?g ! y ! (queue_size ?g ! y) + 1]
             else fifo_occupancy ?g ! y) [0..<length (fifo_occupancy ?g)]\<rparr>)"
    using Cons.prems by (intro Cons.IH) (auto simp: nth_list_update)
  also have "\<dots> = Inr (g\<lparr>fifo_occupancy :=
    map (\<lambda>y. if y \<in> set (x # xs)
             then (fifo_occupancy g ! y)[queue_size g ! y := fifo_occupancy g ! y ! (queue_size g ! y) + 1]
             else fifo_occupancy g ! y) [0..<length (fifo_occupancy g)]\<rparr>)"
    using Cons.prems by (auto simp: nth_list_update)
  finally show ?case .
qed

section \<open>Safety of a commit\<close>

text \<open>
  The state between two hooks when \<open>n\<close> entries of the instruction have been accepted so far.
\<close>

definition between_hooks :: "sprogram \<Rightarrow> bool list \<Rightarrow> nat \<Rightarrow> slog \<Rightarrow> bool" where
  "between_hooks p fb n g \<longleftrightarrow>
     (\<exists>k. delivering p k g) \<and> filterb g = fb \<and> (n = 0 \<longrightarrow> \<not> pause g ! 0)"

definition accepts :: "bool list \<Rightarrow> instType \<Rightarrow> nat" where
  "accepts fb t = (if fb ! instType_code t then 1 else 0)"

lemma between_widen [simp]: "between_hooks p fb n (widen_branches a g) = between_hooks p fb n g"
  by (simp add: between_hooks_def)

lemma between_filter:
  assumes p: "simple_program p" and b: "between_hooks p fb n g"
    and le: "n + accepts fb (insttype s) \<le> 1"
  shows "\<exists>g'. filter_log now s g = Inr g' \<and> between_hooks p fb (n + accepts fb (insttype s)) g'"
proof (cases "fb ! instType_code (insttype s)")
  case True
  obtain k where d: "delivering p k g" and run: "\<not> pause g ! 0" and fb: "filterb g = fb"
    using b le True by (auto simp: between_hooks_def accepts_def)
  have "filter_log now s g = Inr (committed p k s g)"
    using filter_log_eq [OF p d run] True fb by simp
  with committed_delivering [OF p d run] committed_filterb [of p k s g] fb True show ?thesis
    by (auto simp: between_hooks_def accepts_def)
next
  case False
  with b show ?thesis by (auto simp: between_hooks_def accepts_def filter_log_def)
qed

lemma between_hook:
  assumes p: "simple_program p" and b: "between_hooks p fb n g"
    and le: "n + (if c then accepts fb (insttype s) else 0) \<le> 1"
  shows "\<exists>g'. (if c then filter_log now s g else Inr g) = Inr g' \<and>
    between_hooks p fb (n + (if c then accepts fb (insttype s) else 0)) g'"
  using between_filter [OF p b, of s now] b le by (cases c) auto

text \<open>The number of entries of an instruction the filter accepts.\<close>

definition accepted :: "bool list \<Rightarrow> dyn_inst \<Rightarrow> nat" where
  "accepted fb i =
     (if isMemRef i
      then (if isLoad i then accepts fb Load else if isStore i then accepts fb Store else 0) +
           (if isMemBarrier i then accepts fb Barrier else 0)
      else 0) +
     (if isCall i then accepts fb Call else 0) +
     (if isIndirectCtrl i then accepts fb IndirectBranch else 0) +
     (if isReturn i then accepts fb Return else 0)"

lemma log_memref_between:
  assumes p: "simple_program p" and b: "between_hooks p fb 0 g"
    and le: "accepted fb i \<le> 1"
  shows "\<exists>g'. log_memref now t i g = Inr g' \<and>
    between_hooks p fb (if isMemRef i
      then (if isLoad i then accepts fb Load else if isStore i then accepts fb Store else 0) +
           (if isMemBarrier i then accepts fb Barrier else 0)
      else 0) g'"
proof (cases "isMemRef i")
  case True
  let ?n = "if isLoad i then accepts fb Load else if isStore i then accepts fb Store else 0"
  let ?s = "if isLoad i then securelogentry_new now Load (effAddr i) (instAddr i) t
            else securelogentry_new now Store (effAddr i) (instAddr i) t"
  have n: "0 + (if isLoad i \<or> isStore i then accepts fb (insttype ?s) else 0) = ?n"
    by (simp add: securelogentry_new_def)
  have n1: "?n \<le> 1" and nb: "?n + (if isMemBarrier i then accepts fb Barrier else 0) \<le> 1"
    using le True by (auto simp: accepted_def split: if_splits)
  from between_hook [OF p b, of "isLoad i \<or> isStore i" ?s now, unfolded n, OF n1] obtain g1
    where "(if isLoad i \<or> isStore i then filter_log now ?s g else Inr g) = Inr g1"
      and b1: "between_hooks p fb ?n g1" by blast
  then have 1: "(if isLoad i
           then filter_log now (securelogentry_new now Load (effAddr i) (instAddr i) t) g
           else if isStore i
           then filter_log now (securelogentry_new now Store (effAddr i) (instAddr i) t) g
           else Inr g) = Inr g1"
    by (auto split: if_splits)
  have ty: "insttype (securelogentry_new now Barrier 0 (instAddr i) t) = Barrier"
    by (simp add: securelogentry_new_def)
  from between_hook [OF p b1, of "isMemBarrier i" "securelogentry_new now Barrier 0 (instAddr i) t" now,
      unfolded ty, OF nb]
  show ?thesis unfolding log_memref_def 1 by (simp only: True if_True bindE_simps)
qed (use b in \<open>simp add: log_memref_def\<close>)

text \<open>
  C25: an instruction of which the filter accepts at most one entry commits without a fault on the
  running main core under a single program, whatever its kind.
\<close>

theorem log_committed_total:
  assumes p: "simple_program p" and d: "delivering p k g" and run: "\<not> pause g ! 0"
    and one: "accepted (filterb g) i \<le> 1"
  shows "\<exists>g' k'. log_committed now prev i g = Inr g' \<and> delivering p k' g'"
proof -
  let ?fb = "filterb g" and ?t = "now - prev"
  let ?m = "if isMemRef i
      then (if isLoad i then accepts ?fb Load else if isStore i then accepts ?fb Store else 0) +
           (if isMemBarrier i then accepts ?fb Barrier else 0) else 0"
  let ?c = "if isCall i then accepts ?fb Call else 0"
  let ?j = "if isIndirectCtrl i then accepts ?fb IndirectBranch else 0"
  let ?r = "if isReturn i then accepts ?fb Return else 0"
  have sum: "?m + ?c + ?j + ?r \<le> 1" using one by (simp add: accepted_def)
  have b: "between_hooks p ?fb 0 g" using d run by (auto simp: between_hooks_def)
  obtain g1 where 1: "log_memref now ?t i g = Inr g1" and b1: "between_hooks p ?fb ?m g1"
    using log_memref_between [OF p b one] by blast
  have types: "insttype (securelogentry_new now ty d d2 t) = ty" for ty d d2 t
    by (simp add: securelogentry_new_def)
  obtain g2 where 2: "log_call now ?t i g1 = Inr g2" and b2: "between_hooks p ?fb (?m + ?c) g2"
    using between_hook [OF p b1, of "isCall i" "securelogentry_new now Call (instAddr i + 16) (instAddr i) ?t" now]
      sum unfolding log_call_def types by fastforce
  let ?w = "widen_branches (instAddr i) (widen_branches (branchTarget i) g2)"
  have "between_hooks p ?fb (?m + ?c) ?w" using b2 by simp
  from between_hook [OF p this, of "isIndirectCtrl i"
      "securelogentry_new now IndirectBranch (branchTarget i) (instAddr i) ?t" now] b2 sum
  obtain g3 where 3: "log_indirect now ?t i g2 = Inr g3" and b3: "between_hooks p ?fb (?m + ?c + ?j) g3"
    unfolding log_indirect_def types by (cases "isIndirectCtrl i") fastforce+
  obtain g4 where "log_return now ?t i g3 = Inr g4" "between_hooks p ?fb (?m + ?c + ?j + ?r) g4"
    using between_hook [OF p b3, of "isReturn i" "securelogentry_new now Return (branchTarget i) (instAddr i) ?t" now]
      sum unfolding log_return_def types by fastforce
  with run 1 2 3 show ?thesis by (auto simp: log_committed_def Let_def between_hooks_def)
qed

theorem log_committed_total_witness:
  "\<exists>g' k'. log_committed 9 7 \<lparr>isMemRef = True, isLoad = True, isStore = False, isMemBarrier = False,
     isCall = False, isIndirectCtrl = True, isReturn = True, effAddr = 64, instAddr = 4096,
     branchTarget = 8192\<rparr> demo_log = Inr g' \<and> delivering demo_program k' g'"
proof -
  have "\<not> pause demo_log ! 0" by (simp add: demo_log_def)
  from log_committed_total [OF demo_ok(1,2) this] show ?thesis
    by (simp add: accepted_def accepts_def demo_log_def)
qed

text \<open>
  C35: an instruction that logs twice can stop the simulation. A call through a register offers a
  call and an indirect branch; when both are accepted and the call fills its queue, the main core
  is paused between the two hooks and the assertion of the filter fails.
\<close>

theorem double_log_asserts:
  assumes p: "simple_program p" and d: "delivering p k g" and run: "\<not> pause g ! 0"
    and i: "\<not> isMemRef i" "isCall i" "isIndirectCtrl i"
    and acc: "filterb g ! instType_code Call" "filterb g ! instType_code IndirectBranch"
    and full: "target_core p k (securelogentry_new now Call (instAddr i + 16) (instAddr i) (now - prev)) = Some q"
      "queue_size g ! q = QUEUESIZE - 1"
  shows "log_committed now prev i g = Inl AssertFail"
proof -
  let ?t = "now - prev"
  let ?s = "securelogentry_new now Call (instAddr i + 16) (instAddr i) ?t"
  let ?g = "committed p k ?s g"
  have ty: "insttype ?s = Call" by (simp add: securelogentry_new_def)
  have "filter_log now ?s g = Inr ?g"
    using acc(1) by (intro filter_log_eq [OF p d run]) (simp add: ty)
  then have call: "log_call now ?t i g = Inr ?g" using i by (simp add: log_call_def)
  have "0 < length (pause g)" using d by (simp add: delivering_def log_ok_def wf_slog_def)
  then have "pause ?g ! 0"
    using full run by (simp add: committed_def added_def QUEUESIZE_def Let_def)
  moreover have "ready ?g \<le> 0"
    using committed_delivering [OF p d run, of ?s] by (auto simp: delivering_def)
  ultimately have "log_indirect now ?t i ?g = Inl AssertFail"
    using i acc committed_filterb [of p k ?s g]
    by (simp add: log_indirect_def filter_log_def securelogentry_new_def assertE_def)
  with call i run show ?thesis by (simp add: log_committed_def log_memref_def Let_def)
qed

definition busy_log :: slog where
  "busy_log = demo_log\<lparr>queue_size := (QUEUESIZE - 1) # replicate 11 0, queue_end := (QUEUESIZE - 1) # replicate 11 0,
     pause := [False, False] @ replicate 11 True, filterb := replicate ENUMSIZE True\<rparr>"

lemma busy_delivering: "delivering demo_program 0 busy_log"
proof -
  have n: "q < 12 \<Longrightarrow> ((QUEUESIZE - 1) # replicate 11 0) ! q = (if q = 0 then 63 else 0)"
    "q < 13 \<Longrightarrow> ([False, False] @ replicate 11 True) ! q = (q \<noteq> 0 \<and> q \<noteq> 1)" for q
    by (auto simp: nth_Cons' QUEUESIZE_def)
  have "pause_ok ((QUEUESIZE - 1) # replicate 11 0) ([False, False] @ replicate 11 True)
      (replicate NUMBEROFCHECKERCORES [])"
  proof (rule pause_okI, goal_cases)
    case (1 q)
    then have "q \<noteq> 0" by (cases q) (auto simp: QUEUESIZE_def)
    with 1 n(2) [of "q + 1"] show ?case by (simp add: NUMBEROFCHECKERCORES_def)
  next
    case (4 w)
    with n(2) [of w] have "w \<noteq> 0" "w \<noteq> 1" "w < 13" by (auto simp: NUMBEROFCHECKERCORES_def)
    with n(1) [of "w - 1"] show ?case by auto
  qed auto
  then have "pause_inv busy_log"
    by (simp add: pause_inv_def busy_log_def demo_log_def slog_static_def)
  moreover have "wf_slog busy_log"
    using n(1) by (simp add: wf_slog_def busy_log_def demo_log_def slog_static_def NUMBEROFCHECKERCORES_def
        QUEUESIZE_def ENUMSIZE_def)
  ultimately show ?thesis
    using n(1) by (simp add: delivering_def log_ok_def busy_log_def demo_log_def slog_static_def
        demo_program_def NUMBEROFCHECKERCORES_def QUEUESIZE_def)
qed

theorem double_log_asserts_witness:
  "log_committed 9 7 \<lparr>isMemRef = False, isLoad = False, isStore = False, isMemBarrier = False,
     isCall = True, isIndirectCtrl = True, isReturn = False, effAddr = 0, instAddr = 4096,
     branchTarget = 8192\<rparr> busy_log = Inl AssertFail"
  by (rule double_log_asserts [OF demo_ok(1) busy_delivering, of _ 9 7 0])
     (simp_all add: busy_log_def ENUMSIZE_def target_core_def demo_program_def securelogentry_new_def
       ncores_def)

section \<open>Cycles of the commit stage\<close>

lemma count_occupancy_keeps:
  "count_occupancy xs g = Inr g1 \<Longrightarrow> \<exists>oc. g1 = g\<lparr>fifo_occupancy := oc\<rparr>"
proof (induction xs arbitrary: g)
  case Nil
  then have "g1 = g\<lparr>fifo_occupancy := fifo_occupancy g\<rparr>" by simp
  then show ?case by blast
next
  case (Cons x xs)
  then obtain oc where "count_occupancy xs (g\<lparr>fifo_occupancy := oc\<rparr>) = Inr g1"
    by (auto simp: Let_def bindE_Inr_iff)
  from Cons.IH [OF this] show ?case by simp
qed


text \<open>
  A flush holds the main core until the checkers are done. While the flush flag is set and
  some queue is not empty, a cycle commits nothing and keeps the flag; once all queues are empty
  the flag is cleared.
\<close>

theorem flush_drains:
  assumes "commitInsts now width rob prev g = Inr (g', prev', rob', n)" "flush g" "wf_slog g"
  shows "if \<exists>q < NUMBEROFCHECKERCORES. 0 < queue_size g ! q
    then n = 0 \<and> rob' = rob \<and> fifo g' = fifo g \<and> flush g'
    else \<not> flush g'"
proof -
  obtain g1 where 1: "count_occupancy [0..<NUMBEROFCHECKERCORES] g = Inr g1"
    and 2: "commit_loop now width rob (if pause g1 ! 0 then now else prev) (clear_flush g1) =
      Inr (g', prev', rob', n)"
    using assms(1) by (auto simp: commitInsts_def bindE_Inr_iff Let_def)
  obtain oc where "g1 = g\<lparr>fifo_occupancy := oc\<rparr>" using count_occupancy_keeps [OF 1] by blast
  then have occ: "flush g1 = flush g" "queue_size g1 = queue_size g" "fifo g1 = fifo g" "wf_slog g1 = wf_slog g"
    by (simp_all add: wf_slog_def fifo_def fun_eq_iff)
  show ?thesis
  proof (cases "\<exists>q < NUMBEROFCHECKERCORES. 0 < queue_size g ! q")
    case True
    then have "clear_flush g1 = g1" "flush g1" using occ assms(2) by (auto simp: clear_flush_def)
    with 2 True occ show ?thesis by (cases width) auto
  next
    case False
    then have "\<not> flush (clear_flush g1)" using occ assms(2) by (simp add: clear_flush_def)
    moreover have "wf_slog (clear_flush g1)"
      using occ(4) assms(3) by (simp add: clear_flush_def wf_slog_def)
    ultimately have "\<not> flush g'" using commit_loop_range [OF 2] by simp
    with False show ?thesis by (simp only: if_False simp_thms)
  qed
qed

definition jump :: dyn_inst where
  "jump = \<lparr>isMemRef = False, isLoad = False, isStore = False, isMemBarrier = False,
     isCall = False, isIndirectCtrl = True, isReturn = False, effAddr = 0, instAddr = 4096,
     branchTarget = 8192\<rparr>"

lemma jump_commits:
  "case commitInsts 9 2 [jump] 7 demo_log of
     Inl e \<Rightarrow> False | Inr (g', prev', rob', n) \<Rightarrow> n = 1 \<and> maxaddr g' = 8192"
  "case commitInsts 9 2 [jump] 7 (flush_gpe busy_log) of
     Inl e \<Rightarrow> False | Inr (g', prev', rob', n) \<Rightarrow> n = 0"
  by code_simp+


theorem flush_drains_witness:
  "\<exists>g' prev' rob' n. commitInsts 9 2 [jump] 7 (flush_gpe busy_log) = Inr (g', prev', rob', n) \<and>
     n = 0 \<and> flush g'"
proof -
  obtain g' prev' rob' n where c: "commitInsts 9 2 [jump] 7 (flush_gpe busy_log) = Inr (g', prev', rob', n)"
    using jump_commits(2) by (auto split: sum.splits)
  have "wf_slog (flush_gpe busy_log)"
    using busy_delivering by (simp add: flush_gpe_def delivering_def log_ok_def wf_slog_def)
  moreover have "\<exists>q < NUMBEROFCHECKERCORES. 0 < queue_size (flush_gpe busy_log) ! q"
    by (intro exI [of _ 0]) (simp add: flush_gpe_def busy_log_def NUMBEROFCHECKERCORES_def QUEUESIZE_def)
  ultimately show ?thesis
    using flush_drains [OF c] c by (auto simp: flush_gpe_def)
qed

text \<open>
  The occupancy statistics. A cycle adds one to the count of the current size of every queue
  and to no other count, as long as the table has a column for that size; the largest size
  \<open>add_to_queue\<close> can produce, \<open>RINGSLOTS\<close>, has none, and the count is written out of bounds.
\<close>

theorem occupancy_counts:
  assumes "length (fifo_occupancy g) = NUMBEROFCHECKERCORES"
    "\<forall>x < NUMBEROFCHECKERCORES. length (fifo_occupancy g ! x) = RINGSLOTS"
  shows "count_occupancy [0..<NUMBEROFCHECKERCORES] g =
    (if \<exists>x < NUMBEROFCHECKERCORES. RINGSLOTS \<le> queue_size g ! x then Inl OutOfBounds
     else Inr (g\<lparr>fifo_occupancy :=
       map (\<lambda>x. map (\<lambda>s. fifo_occupancy g ! x ! s + (if s = queue_size g ! x then 1 else 0)) [0..<RINGSLOTS])
         [0..<NUMBEROFCHECKERCORES]\<rparr>))"
proof (cases "\<exists>x < NUMBEROFCHECKERCORES. RINGSLOTS \<le> queue_size g ! x")
  case True
  have "count_occupancy xs g = Inl OutOfBounds"
    if "\<exists>x \<in> set xs. RINGSLOTS \<le> queue_size g ! x" "set xs \<subseteq> {..<length (fifo_occupancy g)}"
      "\<forall>row \<in> set (fifo_occupancy g). length row = RINGSLOTS" for xs g
    using that
  proof (induction xs arbitrary: g)
    case (Cons x xs)
    let ?g = "g\<lparr>fifo_occupancy := (fifo_occupancy g)[x := (fifo_occupancy g ! x)[queue_size g ! x :=
      fifo_occupancy g ! x ! (queue_size g ! x) + 1]]\<rparr>"
    have row: "length (fifo_occupancy g ! x) = RINGSLOTS" using Cons.prems by simp
    show ?case
    proof (cases "RINGSLOTS \<le> queue_size g ! x")
      case True
      with row show ?thesis by (simp add: rd_def in_arr_def Let_def)
    next
      case False
      have "count_occupancy xs ?g = Inl OutOfBounds"
        using Cons.prems False row by (intro Cons.IH) (auto dest!: set_update_subset_insert [THEN subsetD])
      with False row show ?thesis by (simp add: rd_of_nat Let_def)
    qed
  qed simp
  from this [of "[0..<NUMBEROFCHECKERCORES]" g] True assms show ?thesis
    by (force simp: in_set_conv_nth)
next
  case False
  then have lt: "\<forall>x \<in> set [0..<NUMBEROFCHECKERCORES]. queue_size g ! x < length (fifo_occupancy g ! x)"
    using assms by (auto simp: not_le)
  have "xs[i := xs ! i + 1] = map (\<lambda>s. xs ! s + (if s = i then 1 else 0)) [0..<RINGSLOTS]"
    if "length xs = RINGSLOTS" "i < RINGSLOTS" for xs :: "u64 list" and i
    using that by (auto intro!: nth_equalityI simp: nth_list_update)
  with False assms count_occupancy_eq [OF lt] show ?thesis
    by (auto simp: not_le intro!: map_cong)
qed

theorem occupancy_counts_witness:
  "count_occupancy [0..<NUMBEROFCHECKERCORES] slog_static = Inr (slog_static\<lparr>fifo_occupancy :=
       map (\<lambda>x. map (\<lambda>s. fifo_occupancy slog_static ! x ! s +
                        (if s = queue_size slog_static ! x then 1 else 0)) [0..<RINGSLOTS])
         [0..<NUMBEROFCHECKERCORES]\<rparr>)"
proof -
  have "length (fifo_occupancy slog_static) = NUMBEROFCHECKERCORES"
    "\<forall>x < NUMBEROFCHECKERCORES. length (fifo_occupancy slog_static ! x) = RINGSLOTS"
    by (simp_all add: slog_static_def)
  moreover have "\<not> (\<exists>x < NUMBEROFCHECKERCORES. RINGSLOTS \<le> queue_size slog_static ! x)"
    by (simp add: slog_static_def RINGSLOTS_def)
  ultimately show ?thesis using occupancy_counts [of slog_static] by (simp only: if_False)
qed

end
