(* ===== verification/Guardian_Kernels.thy ===== *)
theory Guardian_Kernels
  imports Guardian_Commit
begin

text \<open>
  The other guardian kernels (\<open>guardian_kernels/controlflow.c\<close>, \<open>controlflow_fine.c\<close>,
  \<open>performance_counter.c\<close>, \<open>rowhammer.c\<close>). Each kernel's loop body is a function on the values one
  entry delivers. \<open>char\<close> is unsigned on the targets. Table contents come from \<open>malloc\<close> and are
  arguments.
\<close>

section \<open>Control flow\<close>

definition cfi_size :: "u64 \<Rightarrow> u64 \<Rightarrow> u64" where
  "cfi_size mn mx = drop_bit 5 (mx - mn)"

text \<open>
  The coarse check of one branch target. \<open>1 << n\<close> is on a 32-bit \<open>int\<close>: a shift of 32 or more is
  undefined.
\<close>

definition cfi_check :: "u64 \<Rightarrow> u64 \<Rightarrow> u8 list \<Rightarrow> u64 \<Rightarrow> unit res" where
  "cfi_check mn mx cfi address =
     bindE (assertE (address \<ge> mn \<and> address \<le> mx)) (\<lambda>_.
     bindE (rd cfi (uint (drop_bit 5 (address - mn)))) (\<lambda>lookup.
     (let n = drop_bit 2 (address - mn) * 7
      in if n \<ge> 32 then Inl BadShift
         else assertE ((push_bit (unat n) 1 AND (ucast lookup :: u32)) = 0))))"

definition fine_size :: "u64 \<Rightarrow> u64 \<Rightarrow> u64" where
  "fine_size mn mx = drop_bit 2 (mx - mn)"

definition fine_check :: "u64 \<Rightarrow> u64 \<Rightarrow> u8 list \<Rightarrow> u8 list \<Rightarrow> u64 \<Rightarrow> u64 \<Rightarrow> unit res" where
  "fine_check mn mx cfi typ pc address =
     bindE (assertE (address \<ge> mn \<and> address \<le> mx)) (\<lambda>_.
     bindE (assertE (pc \<ge> mn \<and> pc \<le> mx)) (\<lambda>_.
     bindE (rd cfi (uint (drop_bit 2 (address - mn)))) (\<lambda>lookup.
     bindE (rd typ (uint (drop_bit 2 (pc - mn)))) (\<lambda>typed.
     assertE (typed = lookup)))))"

section \<open>Performance counter\<close>

text \<open>One load address: \<open>loads\<close> and the log, whose counter 1 receives every fiftieth.\<close>

definition count_load :: "u64 \<Rightarrow> u64 \<times> slog \<Rightarrow> u64 \<times> slog" where
  "count_load address s =
     (let (loads, g) = s; top = 100000000; base = 0
      in if address < top \<and> address > base
         then (let loads' = loads + 1
               in if loads' = 50 then (0, add_counter 1 loads' g) else (loads', g))
         else (loads, g))"

fun count_loads :: "u64 list \<Rightarrow> u64 \<times> slog \<Rightarrow> u64 \<times> slog" where
  "count_loads [] s = s"
| "count_loads (a # as) s = count_loads as (count_load a s)"

section \<open>Rowhammer\<close>

definition threshold :: u32 where
  "threshold = 42949672"

definition maxtime :: u64 where
  "maxtime = 40000"

definition rowsize :: u64 where
  "rowsize = 64 * 1024"

definition hash :: "u32 \<Rightarrow> u32" where
  "hash x = (let x = x * 1664525; x = x + 1013904223 in x)"

text \<open>One access: the generator and the addresses prefetched.\<close>

definition rowhammer :: "u64 \<times> u64 \<Rightarrow> u32 \<times> u64 list \<Rightarrow> u32 \<times> u64 list" where
  "rowhammer e s =
     (let (time, address) = e; (rand, fetched) = s
      in if time < maxtime then (rand, fetched)
         else let rand' = hash rand
              in if rand' < threshold
                 then (rand', fetched @ [address + rowsize, address - rowsize])
                 else (rand', fetched))"

fun rowhammer_all :: "(u64 \<times> u64) list \<Rightarrow> u32 \<times> u64 list \<Rightarrow> u32 \<times> u64 list" where
  "rowhammer_all [] s = s"
| "rowhammer_all (e # es) s = rowhammer_all es (rowhammer e s)"

section \<open>What the kernels do\<close>

text \<open>
  The coarse control-flow kernel evaluates a target only within the first five instructions of
  the branch range. Further on the shift amount reaches the width of an \<open>int\<close> and the
  behaviour is undefined, whatever the table holds.
\<close>

theorem cfi_check_shift:
  assumes "mn \<le> address" "address \<le> mx" "length cfi = unat (cfi_size mn mx)"
    "unat (drop_bit 5 (address - mn)) < length cfi" "20 \<le> address - mn"
    "address - mn < 2 ^ 60"
  shows "cfi_check mn mx cfi address = Inl BadShift"
proof -
  let ?o = "address - mn"
  have r: "rd cfi (uint (drop_bit 5 ?o)) = Inr (cfi ! unat (drop_bit 5 ?o))"
    using assms(4) rd_of_nat [of "unat (drop_bit 5 ?o)" cfi] by simp
  have lo: "20 \<le> unat ?o" using assms(5) by (simp add: word_le_nat_alt)
  have hi: "unat ?o < 2 ^ 60" using assms(6) by (simp add: word_less_nat_alt)
  have d: "unat (drop_bit 2 ?o) = unat ?o div 4"
    by (simp add: unat_drop_bit)
  have "unat (drop_bit 2 ?o * 7) = unat (drop_bit 2 ?o) * 7"
    using hi d unat_mult_small [of "drop_bit 2 ?o" 7] by simp
  with d lo have "32 \<le> drop_bit 2 ?o * 7"
    using div_le_mono [OF lo, of 4] by (simp add: word_le_nat_alt)
  with assms(1,2) r show ?thesis by (simp add: cfi_check_def Let_def)
qed

theorem cfi_check_shift_witness:
  "cfi_check 4096 4352 (replicate 8 0) 4196 = Inl BadShift"
  by (rule cfi_check_shift) code_simp+

text \<open>
  The target with the highest address of the range lies one entry behind both tables: a check
  of a branch to it reads outside the table in either control-flow kernel.
\<close>

theorem max_target_overruns:
  assumes "mn \<le> mx" "mn \<le> pc" "pc \<le> mx"
    and "length coarse = unat (cfi_size mn mx)" "length cfi = unat (fine_size mn mx)"
  shows "cfi_check mn mx coarse mx = Inl OutOfBounds \<and>
    fine_check mn mx cfi typ pc mx = Inl OutOfBounds"
proof -
  have o: "rd xs (uint w) = Inl OutOfBounds" if "length xs = unat w" for xs :: "u8 list" and w :: u64
    unfolding rd_def in_arr_def uint_nat using that by simp
  show ?thesis
    using assms o [of coarse, unfolded cfi_size_def] o [of cfi]
    by (simp add: cfi_check_def fine_check_def cfi_size_def fine_size_def)
qed

theorem max_target_overruns_witness:
  "cfi_check 4096 4352 (replicate 8 0) 4352 = Inl OutOfBounds \<and>
   fine_check 4096 4352 (replicate 64 0) [] 4096 4352 = Inl OutOfBounds"
  by (rule max_target_overruns) code_simp+

text \<open>The load addresses the performance counter counts.\<close>

definition counted :: "u64 \<Rightarrow> bool" where
  "counted a \<longleftrightarrow> 0 < a \<and> a < 100000000"

lemma count_load_eq:
  assumes "k < 50"
  shows "count_load a (of_nat k, g) =
    (if counted a then (if k = 49 then (0, add_counter 1 50 g) else (of_nat (Suc k), g))
     else (of_nat k, g))"
proof -
  have "((of_nat (Suc k) :: u64) = 50) = (Suc k = 50)"
    using assms by (simp add: word_unat_eq_iff unat_of_nat del: of_nat_Suc)
  then show ?thesis by (auto simp: count_load_def counted_def Let_def add.commute)
qed


lemma add_counter_1:
  assumes "1 < length (counters g)"
  shows "add_counter 1 v g = g\<lparr>counters := (counters g)[1 := counters g ! 1 + v]\<rparr>"
  using assms by (simp add: add_counter_def NUMBEROFCOUNTERS_def)

lemma count_loads_from:
  assumes "1 < length (counters g)" "k < 50"
  shows "count_loads as (of_nat k, g) =
    (of_nat ((k + length (filter counted as)) mod 50),
     g\<lparr>counters := (counters g)[1 := counters g ! 1 +
       of_nat (50 * ((k + length (filter counted as)) div 50))]\<rparr>)"
  using assms
proof (induction as arbitrary: k g)
  case (Cons a as)
  show ?case
  proof (cases "counted a \<and> k = 49")
    case True
    let ?g = "add_counter 1 50 g" and ?n = "length (filter counted as)"
    have g: "?g = g\<lparr>counters := (counters g)[1 := counters g ! 1 + 50]\<rparr>"
      by (rule add_counter_1 [OF Cons.prems(1)])
    have d: "(50 + ?n) mod 50 = ?n mod 50" "(50 + ?n) div 50 = Suc (?n div 50)" by simp_all
    have "count_loads as (of_nat 0, ?g) = (of_nat ((0 + ?n) mod 50),
        ?g\<lparr>counters := (counters ?g)[1 := counters ?g ! 1 + of_nat (50 * ((0 + ?n) div 50))]\<rparr>)"
      using Cons.prems(1) g by (intro Cons.IH) simp_all
    then show ?thesis
      using True count_load_eq [OF Cons.prems(2)] Cons.prems(1) d
      by (simp add: g algebra_simps)
  next
    case False
    then show ?thesis
      using Cons.IH [OF Cons.prems(1)] Cons.prems count_load_eq [OF Cons.prems(2), of a g]
      by (auto simp del: of_nat_Suc)
  qed
qed simp

text \<open>
  Over any sequence of load addresses the performance counter kernel adds 50 to counter 1 for
  every fifty addresses in its range, keeps the rest in \<open>loads\<close>, and changes nothing else of the
  log.
\<close>

theorem count_loads_total:
  assumes "1 < length (counters g)"
  shows "count_loads as (0, g) =
    (let n = length (filter (\<lambda>a. 0 < a \<and> a < 100000000) as)
     in (of_nat (n mod 50),
         g\<lparr>counters := (counters g)[1 := counters g ! 1 + of_nat (50 * (n div 50))]\<rparr>))"
proof -
  have "counted = (\<lambda>a. 0 < a \<and> a < 100000000)" by (simp add: counted_def fun_eq_iff)
  then show ?thesis using count_loads_from [OF assms, of 0 as] by (simp add: Let_def)
qed

theorem count_loads_total_witness:
  "count_loads (replicate 120 64 @ [0]) (0, demo_log) =
     (20, demo_log\<lparr>counters := (counters demo_log)[1 := counters demo_log ! 1 + 100]\<rparr>)"
proof -
  have "1 < length (counters demo_log)"
    by (simp add: demo_log_def slog_static_def NUMBEROFCOUNTERS_def)
  from count_loads_total [OF this, of "replicate 120 64 @ [0]"] show ?thesis
    by (simp add: Let_def)
qed

text \<open>The generator is invertible, so it visits the values below the threshold evenly.\<close>

definition unhash :: "u32 \<Rightarrow> u32" where
  "unhash y = (y - 1013904223) * 4276115653"

lemma hash_unhash: "hash (unhash y) = y" "unhash (hash x) = x"
proof -
  have k: "(4276115653 :: u32) * 1664525 = 1" "(1664525 :: u32) * 4276115653 = 1" by simp_all
  have i: "(w * 4276115653) * 1664525 = w" "(w * 1664525) * 4276115653 = w" for w :: u32
    by (simp_all only: mult.assoc k mult_1_right)
  show "hash (unhash y) = y" unfolding hash_def unhash_def Let_def i(1) by simp
  have "unhash (hash x) = (x * 1664525) * 4276115653" unfolding hash_def unhash_def Let_def by simp
  then show "unhash (hash x) = x" unfolding i(2) .
qed

lemma card_below: "card {y :: u32. y < of_nat n} = n" if "n < 2 ^ 32"
proof -
  have u: "unat (of_nat n :: u32) = n" using that by (simp add: unat_of_nat)
  have "bij_betw unat {y :: u32. y < of_nat n} {..<n}"
  proof (rule bij_betw_byWitness [where f' = of_nat])
    show "unat ` {y :: u32. y < of_nat n} \<subseteq> {..<n}" using u by (auto simp: word_less_nat_alt)
    show "of_nat ` {..<n} \<subseteq> {y :: u32. y < of_nat n}"
      using that u by (auto simp: word_less_nat_alt unat_of_nat)
  qed (use that in \<open>auto simp: unat_of_nat\<close>)
  then show ?thesis by (simp add: bij_betw_same_card)
qed

text \<open>
  An access late enough in the run makes the rowhammer kernel prefetch both neighbouring rows for
  exactly 42949672 of the \<open>2 ^ 32\<close> generator states, one in a hundred; an early access
  leaves the prefetches alone in every state.
\<close>

theorem rowhammer_refreshes:
  "card {rand. snd (rowhammer (t, a) (rand, f)) = f @ [a + 65536, a - 65536]} =
     (if t < 40000 then 0 else 42949672) \<and>
   {rand. snd (rowhammer (t, a) (rand, f)) \<noteq> f} =
     {rand. snd (rowhammer (t, a) (rand, f)) = f @ [a + 65536, a - 65536]}"
proof -
  have "bij_betw hash {x. hash x < threshold} {y. y < threshold}"
    by (rule bij_betw_byWitness [where f' = unhash]) (auto simp: hash_unhash)
  then have "card {x. hash x < threshold} = 42949672"
    using card_below [of 42949672] by (simp add: bij_betw_same_card threshold_def)
  then show ?thesis
    by (auto simp: rowhammer_def maxtime_def rowsize_def Let_def cong: if_cong)
qed

end
