(* ===== verification/Sanitizer.thy ===== *)
theory Sanitizer
  imports Guardian_Commit
begin

text \<open>
  The shadow memory of the checking allocator (\<open>guardian_kernels/sanitizer/malloc.c\<close>, built with
  \<open>GEM5\<close> for 32-bit ARM, where \<open>char\<close> is unsigned): \<open>poison\<close>, \<open>unpoison\<close>, the checker kernel and the
  wrappers that call them. What the allocator itself returns is an argument.
\<close>

section \<open>State\<close>

text \<open>
  \<open>shadow\<close> has one byte for every 128 bytes of address space; it is a map from its indices.
  \<open>shadow_at\<close> is the address of the array: the alignment tests are on pointers into it.
  \<open>checker_threads\<close> counts the threads created and \<open>clog\<close> is the log the drain instruction acts on.
\<close>

record sanitizer =
  shadow_mem :: "int \<Rightarrow> u8"
  shadow_at :: u32
  inited_checker_cores :: int
  checker_threads :: nat
  clog :: slog

definition SHADOWSIZE :: int where
  "SHADOWSIZE = 32 * 1024 * 1024"

section \<open>Operations\<close>

definition init_checker_cores :: "sanitizer \<Rightarrow> sanitizer" where
  "init_checker_cores z = z\<lparr>checker_threads := checker_threads z + 12, inited_checker_cores := 1\<rparr>"

text \<open>An address is shifted as a signed \<open>long\<close>; the index must lie in the array.\<close>

definition shadow_index :: "u32 \<Rightarrow> int" where
  "shadow_index a = sint a div 2 ^ 7"

definition in_shadow :: "int \<Rightarrow> bool" where
  "in_shadow i \<longleftrightarrow> 0 \<le> i \<and> i < SHADOWSIZE"

text \<open>\<open>((long) p) & 8\<close> of a pointer \<open>p\<close> into the array.\<close>

definition misalign :: "sanitizer \<Rightarrow> int \<Rightarrow> nat" where
  "misalign z i = unat ((shadow_at z + of_int i) AND 8)"

fun fill :: "nat \<Rightarrow> int \<Rightarrow> u8 \<Rightarrow> (int \<Rightarrow> u8) \<Rightarrow> int \<Rightarrow> u8" where
  "fill 0 s v m = m"
| "fill (Suc n) s v m = fill n (s + 1) v (m(s := v))"

definition poison :: "u32 \<Rightarrow> u32 \<Rightarrow> sanitizer \<Rightarrow> sanitizer res" where
  "poison start bytes z =
     (let z = z\<lparr>clog := flush_gpe (clog z)\<rparr>;
          z = (if inited_checker_cores z = 0 then init_checker_cores z else z);
          start_s = shadow_index start; end_s = shadow_index (start + bytes)
      in if \<not> in_shadow start_s \<or> \<not> in_shadow end_s then Inl OutOfBounds
      else let misalign_end = misalign z end_s;
          m = shadow_mem z;
          m = (if misalign_end \<noteq> 0
               then m(end_s := m end_s OR ucast (drop_bit 8 (push_bit misalign_end (255 :: u32)))) else m);
          mis = misalign z start_s;
          (m, start_s) = (if mis \<noteq> 0
               then (m(start_s := m start_s OR ucast (drop_bit mis (push_bit 8 (255 :: u32)))), start_s + 1)
               else (m, start_s))
      in Inr (z\<lparr>shadow_mem := fill (nat (end_s - start_s)) start_s (- 1) m\<rparr>))"

definition unpoison :: "u32 \<Rightarrow> u32 \<Rightarrow> sanitizer \<Rightarrow> sanitizer res" where
  "unpoison start bytes z =
     (let z = z\<lparr>clog := flush_gpe (clog z)\<rparr>;
          start_s = shadow_index start; end_s = shadow_index (start + bytes)
      in if \<not> in_shadow start_s \<or> \<not> in_shadow end_s then Inl OutOfBounds
      else let misalign_end = misalign z end_s;
          m = shadow_mem z;
          m = (if misalign_end \<noteq> 0
               then m(end_s := m end_s AND ucast (NOT (drop_bit 8 (push_bit misalign_end (255 :: u32))))) else m);
          mis = misalign z start_s;
          (m, start_s) = (if mis \<noteq> 0
               then (m(start_s := m start_s AND ucast (NOT (drop_bit mis (push_bit 8 (255 :: u32))))), start_s + 1)
               else (m, start_s))
      in Inr (z\<lparr>shadow_mem := fill (nat (end_s - start_s)) start_s 0 m\<rparr>))"

text \<open>One round of \<open>checker_main\<close>: the values it sends to the terminal.\<close>

definition checker_main :: "u32 \<Rightarrow> u32 \<Rightarrow> sanitizer \<Rightarrow> u32 list" where
  "checker_main pc address z =
     (let bits = shadow_mem z (uint (drop_bit 7 address))
      in if bits = 0 then []
         else if (ucast bits :: u32) AND push_bit (unat (drop_bit 7 address AND 8)) 1 \<noteq> 0
         then [address, pc] else [])"

text \<open>
  The wrappers, with \<open>m\<close> the pointer the allocator returned. \<open>public_rEALLOc\<close> makes the
  same two calls as \<open>public_mALLOc\<close>.
\<close>

definition public_mALLOc :: "u32 \<Rightarrow> u32 \<Rightarrow> sanitizer \<Rightarrow> sanitizer res" where
  "public_mALLOc m bytes z = bindE (unpoison m bytes z) (poison (m + bytes) 16)"

definition public_rEALLOc :: "u32 \<Rightarrow> u32 \<Rightarrow> sanitizer \<Rightarrow> sanitizer res" where
  "public_rEALLOc m bytes z = bindE (unpoison m bytes z) (poison (m + bytes) 16)"

definition public_cALLOc :: "u32 \<Rightarrow> u32 \<Rightarrow> u32 \<Rightarrow> sanitizer \<Rightarrow> sanitizer res" where
  "public_cALLOc m n elem_size z = unpoison m (n * elem_size) z"

section \<open>Closed forms\<close>

text \<open>The bytes a marking call covers: all before the end, and a misaligned first or end byte.\<close>

definition marked :: "sanitizer \<Rightarrow> int \<Rightarrow> int \<Rightarrow> int \<Rightarrow> bool" where
  "marked z s e i \<longleftrightarrow>
     s \<le> i \<and> i < e \<or> i = e \<and> misalign z e \<noteq> 0 \<or> i = s \<and> misalign z s \<noteq> 0"

lemma fill_eq: "fill n s v m i = (if s \<le> i \<and> i < s + int n then v else m i)"
  by (induction n arbitrary: s m) auto

lemma misalign_bit: "misalign z i = (if bit (shadow_at z + of_int i) 3 then 8 else 0)"
  using and_exp_word [of "shadow_at z + of_int i" 3] by (simp add: misalign_def)

lemma u8_all:
  fixes b :: u8
  shows "b OR 255 = 255" "b AND 4294967040 = 0"
proof -
  have "b OR - 1 = - 1" "(- 1 :: u8) = 255" by simp_all
  then show "b OR 255 = 255" by metis
  have z: "(4294967040 :: u8) = 0" by simp
  show "b AND 4294967040 = 0" unfolding z by simp
qed

lemma marking:
  "(let m1 = (if misalign z e \<noteq> 0 then m(e := v) else m);
        (m2, s2) = (if misalign z s \<noteq> 0 then (m1(s := v), s + 1) else (m1, s))
    in fill (nat (e - s2)) s2 v m2) = (\<lambda>i. if marked z s e i then v else m i)"
  by (rule ext) (auto simp: fill_eq marked_def Let_def)

text \<open>The start-up part of \<open>poison\<close>.\<close>

definition started :: "sanitizer \<Rightarrow> sanitizer" where
  "started z = (let z = z\<lparr>clog := flush_gpe (clog z)\<rparr>
     in if inited_checker_cores z = 0 then init_checker_cores z else z)"

lemma started_sel [simp]:
  "shadow_mem (started z) = shadow_mem z" "shadow_at (started z) = shadow_at z"
  "misalign (started z) = misalign z" "marked (started z) = marked z"
  by (simp_all add: started_def init_checker_cores_def misalign_def marked_def fun_eq_iff Let_def)

lemma poison_eq:
  "poison start bytes z =
     (let s = shadow_index start; e = shadow_index (start + bytes)
      in if \<not> in_shadow s \<or> \<not> in_shadow e then Inl OutOfBounds
         else Inr ((started z)\<lparr>shadow_mem := (\<lambda>i. if marked z s e i then 255 else shadow_mem z i)\<rparr>))"
proof -
  note m = marking [of z "shadow_index (start + bytes)" "shadow_mem z" 255 "shadow_index start", symmetric]
  have neg: "(- 1 :: u8) = 255" by simp
  from m show ?thesis
    unfolding poison_def neg started_def [symmetric, unfolded Let_def] Let_def
    by (cases "misalign z (shadow_index start) = 0"; cases "misalign z (shadow_index (start + bytes)) = 0";
        simp add: u8_all misalign_bit split: if_splits)
qed

lemma unpoison_eq:
  "unpoison start bytes z =
     (let s = shadow_index start; e = shadow_index (start + bytes)
      in if \<not> in_shadow s \<or> \<not> in_shadow e then Inl OutOfBounds
         else Inr (z\<lparr>clog := flush_gpe (clog z),
           shadow_mem := (\<lambda>i. if marked z s e i then 0 else shadow_mem z i)\<rparr>))"
proof -
  note m = marking [of z "shadow_index (start + bytes)" "shadow_mem z" 0 "shadow_index start", symmetric]
  from m show ?thesis
    unfolding unpoison_def Let_def
    by (cases "misalign z (shadow_index start) = 0"; cases "misalign z (shadow_index (start + bytes)) = 0";
        simp add: u8_all misalign_bit split: if_splits)
qed

section \<open>What the checkers see\<close>

lemma checker_main_eq:
  "checker_main pc address z =
     (if bit (shadow_mem z (uint (drop_bit 7 address))) 0 \<and> \<not> bit address 10 then [address, pc] else [])"
proof -
  let ?b = "shadow_mem z (uint (drop_bit 7 address))"
  have a: "drop_bit 7 address AND 8 = (if bit address 10 then 8 else 0)"
    using and_exp_word [of "drop_bit 7 address" 3] by (simp add: bit_drop_bit_eq)
  have "(ucast ?b :: u32) AND 2 ^ 8 = 0" "((ucast ?b :: u32) AND 1 \<noteq> 0) = bit ?b 0"
    using and_exp_word [of "ucast ?b :: u32" 8] and_exp_word [of "ucast ?b :: u32" 0]
    using bit_imp_le_length [of ?b 8] by (auto simp: bit_simps)
  then show ?thesis by (auto simp: checker_main_def Let_def a)
qed

lemma shadow_index_small: "unat a < 2 ^ 31 \<Longrightarrow> shadow_index a = int (unat a div 128)"
  by (simp add: shadow_index_def sint_small zdiv_int)

lemma in_shadow_small: "unat a < 2 ^ 31 \<Longrightarrow> in_shadow (shadow_index a)"
  by (simp add: shadow_index_small in_shadow_def SHADOWSIZE_def)

lemma unat_plus_small: "unat a + unat b < 2 ^ 32 \<Longrightarrow> unat (a + b :: u32) = unat a + unat b"
  by (simp add: unat_word_ariths)

lemma misalign_fields [simp]:
  "misalign (z\<lparr>clog := l\<rparr>) = misalign z" "misalign (z\<lparr>shadow_mem := m\<rparr>) = misalign z"
  "marked (z\<lparr>clog := l\<rparr>) = marked z" "marked (z\<lparr>shadow_mem := m\<rparr>) = marked z"
  by (simp_all add: misalign_def marked_def fun_eq_iff)

text \<open>The shadow byte of granule \<open>i\<close> after \<open>public_mALLOc\<close>.\<close>

lemma malloc_shadow:
  assumes "unat p + unat bytes + 16 < 2 ^ 31"
  shows "\<exists>z'. public_mALLOc p bytes z = Inr z' \<and> shadow_mem z' =
    (\<lambda>i. if marked z (int ((unat p + unat bytes) div 128)) (int ((unat p + unat bytes + 16) div 128)) i
         then 255
         else if marked z (int (unat p div 128)) (int ((unat p + unat bytes) div 128)) i then 0
         else shadow_mem z i)"
proof -
  have e: "unat (p + bytes) = unat p + unat bytes"
    using assms by (intro unat_plus_small) simp
  have e': "unat (p + bytes + 16) = unat p + unat bytes + 16"
    using assms e unat_plus_small [of "p + bytes" 16] by simp
  have lt: "unat p < 2 ^ 31" "unat (p + bytes) < 2 ^ 31" "unat (p + bytes + 16) < 2 ^ 31"
    using assms e e' by simp_all
  note i = lt [THEN shadow_index_small, unfolded e e']
  show ?thesis
    unfolding public_mALLOc_def unpoison_eq poison_eq Let_def
    using lt [THEN in_shadow_small] by (simp add: i cong: if_cong)
qed

text \<open>
  C24: \<open>public_mALLOc\<close> of a block of \<open>bytes\<close> bytes at \<open>p\<close> below \<open>2 ^ 31\<close> returns, and afterwards the
  checkers report nothing for an address with bit 10 set, nothing for an access to the block in a
  granule of 128 bytes before the one the block ends in, and every access to the 16 bytes behind the
  block with bit 10 clear whose granule is before the one the red zone ends in or has a misaligned
  shadow byte.
\<close>

theorem malloc_checks:
  assumes "unat p + unat bytes + 16 < 2 ^ 31"
  shows "\<exists>z'. public_mALLOc p bytes z = Inr z' \<and> (\<forall>a pc.
    (bit a 10 \<longrightarrow> checker_main pc a z' = []) \<and>
    (unat p \<le> unat a \<and> unat a div 128 < (unat p + unat bytes) div 128 \<longrightarrow>
       checker_main pc a z' = []) \<and>
    (unat p + unat bytes \<le> unat a \<and> unat a < unat p + unat bytes + 16 \<and> \<not> bit a 10 \<and>
       (unat a div 128 < (unat p + unat bytes + 16) div 128 \<or>
        misalign z (int (unat a div 128)) \<noteq> 0) \<longrightarrow>
       checker_main pc a z' = [a, pc]))"
proof -
  let ?s = "unat p div 128" and ?e = "(unat p + unat bytes) div 128"
    and ?r = "(unat p + unat bytes + 16) div 128"
  obtain z' where z': "public_mALLOc p bytes z = Inr z'"
    and m: "shadow_mem z' = (\<lambda>i. if marked z (int ?e) (int ?r) i then 255
         else if marked z (int ?s) (int ?e) i then 0 else shadow_mem z i)"
    using malloc_shadow [OF assms] by blast
  have g: "uint (drop_bit 7 a) = int (unat a div 128)" for a :: u32
    using unat_drop_bit [of 7 a] uint_nat [of "drop_bit 7 a"] by simp
  have none: "bit a 10 \<Longrightarrow> checker_main pc a z' = []" for a pc
    by (simp add: checker_main_eq)
  have inside: "checker_main pc a z' = []"
    if "unat p \<le> unat a" "unat a div 128 < ?e" for a pc
  proof -
    have "?s \<le> unat a div 128" using that(1) by (rule div_le_mono)
    moreover have "?e \<le> ?r" by (rule div_le_mono) simp
    ultimately have "shadow_mem z' (int (unat a div 128)) = 0"
      using that(2) unfolding m marked_def by simp
    then show ?thesis by (simp add: checker_main_eq g)
  qed
  have zone: "checker_main pc a z' = [a, pc]"
    if "unat p + unat bytes \<le> unat a" "unat a < unat p + unat bytes + 16" "\<not> bit a 10"
      "unat a div 128 < ?r \<or> misalign z (int (unat a div 128)) \<noteq> 0" for a pc
  proof -
    have "?e \<le> unat a div 128" "unat a div 128 \<le> ?r" using that(1,2) by (auto intro: div_le_mono)
    then have "marked z (int ?e) (int ?r) (int (unat a div 128))"
      using that(4) unfolding marked_def by (cases "unat a div 128 = ?r") auto
    then show ?thesis using that(3) by (simp add: checker_main_eq g m)
  qed
  show ?thesis using z' none inside zone by blast
qed

definition demo_sanitizer :: sanitizer where
  "demo_sanitizer = \<lparr>shadow_mem = (\<lambda>_. 0), shadow_at = 65536, inited_checker_cores = 0,
     checker_threads = 0, clog = demo_log\<rparr>"

theorem malloc_checks_witness:
  "\<exists>z'. public_mALLOc 4096 120 demo_sanitizer = Inr z' \<and>
     checker_main 4 4216 z' = [4216, 4] \<and> checker_main 4 5120 z' = []"
proof -
  have b: "\<not> bit (4216 :: u32) 10" "bit (5120 :: u32) 10" by code_simp+
  from malloc_checks [of 4096 120 demo_sanitizer] obtain z' where
    "public_mALLOc 4096 120 demo_sanitizer = Inr z'"
    "\<forall>a pc. (bit a 10 \<longrightarrow> checker_main pc a z' = []) \<and>
       (4216 \<le> unat a \<and> unat a < 4232 \<and> \<not> bit a 10 \<and> unat a div 128 < 33 \<longrightarrow>
         checker_main pc a z' = [a, pc])"
    by auto
  with b show ?thesis by auto
qed

text \<open>
  A red zone that ends in the granule it starts in, at an aligned shadow byte, is not poisoned at
  all: the call drains the checkers and leaves the shadow memory as it was.
\<close>

theorem small_poison_noop:
  assumes "unat start + unat bytes < 2 ^ 31"
    and "(unat start + unat bytes) div 128 = unat start div 128"
    and "misalign z (int (unat start div 128)) = 0"
  shows "poison start bytes z = Inr (started z)"
proof -
  have e: "unat (start + bytes) = unat start + unat bytes"
    using assms(1) by (intro unat_plus_small) simp
  have lt: "unat start < 2 ^ 31" "unat (start + bytes) < 2 ^ 31" using assms(1) e by simp_all
  have m: "(\<lambda>i. if marked z k k i then 255 else shadow_mem z i) = shadow_mem z"
    if "misalign z k = 0" for k
    using that by (intro ext) (auto simp: marked_def)
  have s: "(started z)\<lparr>shadow_mem := shadow_mem z\<rparr> = started z"
    by (simp add: started_def init_checker_cores_def Let_def)
  show ?thesis
    unfolding poison_eq Let_def using lt [THEN in_shadow_small] assms(2,3)
    by (simp add: lt [THEN shadow_index_small, unfolded e] m s)
qed

theorem small_poison_noop_witness:
  "poison 4096 16 demo_sanitizer = Inr (started demo_sanitizer)"
  by (rule small_poison_noop) (simp_all add: demo_sanitizer_def misalign_def, (code_simp)?)

end
