(* ===== verification/Shadow_Stack.thy ===== *)
theory Shadow_Stack
  imports Guardian_Prelude
begin

text \<open>
  The parallel shadow stack (\<open>guardian_kernels/shadowstackpar.cpp\<close> on the combining core and
  \<open>shadowstackparfilter.cpp\<close> on the other cores). The combining core receives messages from the
  other cores, each tagged with its sender: a push, a pop, or a token naming the core whose
  messages come next. A kernel is a function on one received entry; its endless loop is the fold
  over the entries received.
\<close>

section \<open>The combining core\<close>

record combiner =
  shadow :: "u64 list"
  currentTarget :: int
  cqueues :: "u64 list list"
  complaints :: "(u64 \<times> u64) list"

definition combiner_init :: combiner where
  "combiner_init = \<lparr>shadow = [], currentTarget = 0, cqueues = replicate 12 [], complaints = []\<rparr>"

definition msg_type :: "u64 \<Rightarrow> u64" where
  "msg_type typeaddr = typeaddr AND 3"

definition msg_addr :: "u64 \<Rightarrow> u64" where
  "msg_addr typeaddr = drop_bit 2 typeaddr"

text \<open>The value compared on a pop: the top of the shadow stack, or 0 when it is empty.\<close>

definition pop_shadow :: "u64 list \<Rightarrow> u64 \<times> u64 list" where
  "pop_shadow s = (case s of [] \<Rightarrow> (0, []) | c # cs \<Rightarrow> (c, cs))"

text \<open>
  \<open>clearQueue\<close>: work through the stored messages of a core, following tokens. Every round
  takes a stored message, so it ends.
\<close>

definition stored :: "combiner \<Rightarrow> nat" where
  "stored c = sum_list (map length (cqueues c))"

definition take_msg :: "combiner \<Rightarrow> nat \<Rightarrow> combiner" where
  "take_msg c q = c\<lparr>cqueues := (cqueues c)[q := tl (cqueues c ! q)]\<rparr>"

lemma stored_take_msg:
  assumes "q < length (cqueues c)" "cqueues c ! q \<noteq> []"
  shows "stored (take_msg c q) < stored c"
proof -
  have "length (tl (cqueues c ! q)) < length (cqueues c ! q)"
    using assms(2) by (cases "cqueues c ! q") auto
  moreover have "stored (take_msg c q) + length (cqueues c ! q) = stored c + length (tl (cqueues c ! q))"
    using sum_list_update_nat [of q "map length (cqueues c)" "length (tl (cqueues c ! q))"] assms(1)
    by (simp add: stored_def take_msg_def map_update)
  ultimately show ?thesis by linarith
qed

function (sequential) clearQueue :: "combiner \<Rightarrow> int \<Rightarrow> combiner res" where
  "clearQueue c queue =
     (if \<not> in_arr queue (cqueues c) then Inl OutOfBounds
      else let q = nat queue; c1 = c\<lparr>currentTarget := queue\<rparr>
      in case cqueues c ! q of
           [] \<Rightarrow> Inr c1
         | typeaddr # _ \<Rightarrow>
             (let c2 = take_msg c1 q; addr = msg_addr typeaddr
              in if msg_type typeaddr = 2 then clearQueue c2 (int_of_u64 addr)
                 else if msg_type typeaddr = 1
                 then clearQueue (c2\<lparr>shadow := addr # shadow c2\<rparr>) queue
                 else let (cmp, rest) = pop_shadow (shadow c2)
                 in clearQueue (c2\<lparr>shadow := rest,
                      complaints := (if cmp \<noteq> addr then complaints c2 @ [(cmp, addr)]
                                     else complaints c2)\<rparr>) queue))"
  by pat_completeness auto
termination
proof (relation "measure (\<lambda>(c, q). stored c)", goal_cases)
  case (2 c queue q c1 t ts c2 addr)
  then have "stored (take_msg c1 q) < stored c1"
    by (intro stored_take_msg) (auto simp: in_arr_def)
  with 2 show ?case by (simp add: stored_def)
next
  case (3 c queue q c1 t ts c2 addr)
  then have "stored (take_msg c1 q) < stored c1"
    by (intro stored_take_msg) (auto simp: in_arr_def)
  with 3 show ?case by (simp add: stored_def)
next
  case (4 c queue q c1 t ts c2 addr r cmp rest)
  then have "stored (take_msg c1 q) < stored c1"
    by (intro stored_take_msg) (auto simp: in_arr_def)
  with 4 show ?case by (simp add: stored_def)
qed simp

declare clearQueue.simps [simp del]

text \<open>One round of \<open>main\<close> on a message \<open>typeaddr\<close> from core \<open>from\<close>.\<close>

definition combine :: "int \<times> u64 \<Rightarrow> combiner \<Rightarrow> combiner res" where
  "combine m c =
     (let (from, typeaddr) = m; addr = msg_addr typeaddr
      in if from = currentTarget c
         then (if msg_type typeaddr = 2 then clearQueue c (int_of_u64 addr)
               else if msg_type typeaddr = 1 then Inr (c\<lparr>shadow := addr # shadow c\<rparr>)
               else let (cmp, rest) = pop_shadow (shadow c)
                    in bindE (assertE (cmp = addr)) (\<lambda>_. Inr (c\<lparr>shadow := rest\<rparr>)))
         else if in_arr from (cqueues c)
         then Inr (c\<lparr>cqueues := (cqueues c)[nat from := cqueues c ! nat from @ [typeaddr]]\<rparr>)
         else Inl OutOfBounds)"

fun combine_all :: "(int \<times> u64) list \<Rightarrow> combiner \<Rightarrow> combiner res" where
  "combine_all [] c = Inr c"
| "combine_all (m # ms) c = bindE (combine m c) (combine_all ms)"

section \<open>The filtering cores\<close>

text \<open>
  State: the deque of open calls, front first; the messages put to the combining core; the
  printed mismatches. An entry is its type and its address.
\<close>

record sfilter =
  calls :: "u64 list"
  puts :: "u64 list"
  mismatches :: "(u64 \<times> u64) list"

definition sfilter_init :: sfilter where
  "sfilter_init = \<lparr>calls = [], puts = [], mismatches = []\<rparr>"

text \<open>The flush loop: from the back, one message per open call.\<close>

fun flush_calls :: "u64 list \<Rightarrow> u64 list" where
  "flush_calls [] = []"
| "flush_calls (d # back) = (push_bit 2 d AND 1) # flush_calls back"

definition filter_entry :: "int \<times> u64 \<Rightarrow> sfilter \<Rightarrow> sfilter" where
  "filter_entry e f =
     (let (ty, addr) = e
      in if ty = 3 then f\<lparr>calls := addr # calls f\<rparr>
         else if ty = 4
         then (case calls f of
                 [] \<Rightarrow> f\<lparr>puts := puts f @ [push_bit 2 addr]\<rparr>
               | cmp # rest \<Rightarrow>
                   f\<lparr>calls := rest,
                     mismatches := (if cmp \<noteq> addr then mismatches f @ [(cmp, addr)]
                                    else mismatches f)\<rparr>)
         else f\<lparr>calls := [], puts := puts f @ flush_calls (rev (calls f)) @ [push_bit 2 addr AND 2]\<rparr>)"

fun filter_entries :: "(int \<times> u64) list \<Rightarrow> sfilter \<Rightarrow> sfilter" where
  "filter_entries [] f = f"
| "filter_entries (e # es) f = filter_entries es (filter_entry e f)"

section \<open>Reassembly\<close>

text \<open>The messages of core \<open>q\<close> in a list of received messages, and all of them stored at once.\<close>

definition sent_by :: "(int \<times> u64) list \<Rightarrow> nat \<Rightarrow> u64 list" where
  "sent_by ms q = map snd (filter (\<lambda>m. fst m = int q) ms)"

definition loads :: "(int \<times> u64) list \<Rightarrow> combiner \<Rightarrow> combiner" where
  "loads ms c = c\<lparr>cqueues := map (\<lambda>q. cqueues c ! q @ sent_by ms q) [0..<length (cqueues c)]\<rparr>"

definition settled :: "combiner \<Rightarrow> bool" where
  "settled c \<longleftrightarrow>
     in_arr (currentTarget c) (cqueues c) \<and> cqueues c ! nat (currentTarget c) = []"

lemma loads_Nil [simp]: "loads [] c = c"
  by (simp add: loads_def sent_by_def map_nth)

lemma loads_sel [simp]:
  "shadow (loads ms c) = shadow c" "currentTarget (loads ms c) = currentTarget c"
  "complaints (loads ms c) = complaints c" "length (cqueues (loads ms c)) = length (cqueues c)"
  "in_arr q (cqueues (loads ms c)) = in_arr q (cqueues c)"
  by (simp_all add: loads_def in_arr_def)

lemma loads_fields:
  "loads ms (c\<lparr>shadow := s\<rparr>) = (loads ms c)\<lparr>shadow := s\<rparr>"
  "loads ms (c\<lparr>currentTarget := t\<rparr>) = (loads ms c)\<lparr>currentTarget := t\<rparr>"
  "loads ms (c\<lparr>complaints := m\<rparr>) = (loads ms c)\<lparr>complaints := m\<rparr>"
  by (simp_all add: loads_def)

lemma loads_same [simp]:
  "(loads ms c)\<lparr>shadow := s, complaints := complaints c\<rparr> = (loads ms c)\<lparr>shadow := s\<rparr>"
  by (simp add: loads_def)

lemma nth_loads: "q < length (cqueues c) \<Longrightarrow> cqueues (loads ms c) ! q = cqueues c ! q @ sent_by ms q"
  by (simp add: loads_def)

lemma take_msg_loads:
  assumes "q < length (cqueues c)" "cqueues c ! q \<noteq> []"
  shows "take_msg (loads ms c) q = loads ms (take_msg c q)"
proof -
  let ?qs = "cqueues c"
  have "(map (\<lambda>j. ?qs ! j @ sent_by ms j) [0..<length ?qs])[q := tl (?qs ! q @ sent_by ms q)] =
      map (\<lambda>j. ?qs[q := tl (?qs ! q)] ! j @ sent_by ms j) [0..<length ?qs]"
    by (rule nth_equalityI) (use assms in \<open>auto simp: nth_list_update\<close>)
  with assms show ?thesis by (simp add: take_msg_def loads_def)
qed

lemma clearQueue_target: "clearQueue (c\<lparr>currentTarget := t\<rparr>) q = clearQueue c q"
  by (subst (1 2) clearQueue.simps) simp

lemma clearQueue_empty:
  "in_arr q (cqueues c) \<Longrightarrow> cqueues c ! nat q = [] \<Longrightarrow> clearQueue c q = Inr (c\<lparr>currentTarget := q\<rparr>)"
  by (subst clearQueue.simps) simp

lemma clearQueue_step:
  assumes "in_arr queue (cqueues c)" "cqueues c ! nat queue = t # ts"
  shows "clearQueue c queue =
    (let c2 = take_msg (c\<lparr>currentTarget := queue\<rparr>) (nat queue); addr = msg_addr t
     in if msg_type t = 2 then clearQueue c2 (int_of_u64 addr)
        else if msg_type t = 1 then clearQueue (c2\<lparr>shadow := addr # shadow c2\<rparr>) queue
        else let (cmp, rest) = pop_shadow (shadow c2)
        in clearQueue (c2\<lparr>shadow := rest,
             complaints := (if cmp \<noteq> addr then complaints c2 @ [(cmp, addr)]
                            else complaints c2)\<rparr>) queue)"
  using assms by (subst clearQueue.simps) simp

text \<open>Messages stored beforehand are found after the ones already there.\<close>

lemma clearQueue_loads:
  "clearQueue c queue = Inr c' \<Longrightarrow>
   clearQueue (loads ms c) queue = clearQueue (loads ms c') (currentTarget c')"
proof (induction c queue rule: clearQueue.induct)
  case (1 c queue)
  have in_q: "in_arr queue (cqueues c)"
    using "1.prems" by (subst (asm) clearQueue.simps) (simp split: if_splits)
  then have q: "nat queue < length (cqueues c)" by (simp add: in_arr_def nat_less_iff)
  show ?case
  proof (cases "cqueues c ! nat queue")
    case Nil
    then have "c' = c\<lparr>currentTarget := queue\<rparr>" using "1.prems" clearQueue_empty [OF in_q] by simp
    then show ?thesis by (simp add: loads_fields clearQueue_target)
  next
    case (Cons t ts)
    let ?c1 = "c\<lparr>currentTarget := queue\<rparr>"
    let ?c2 = "take_msg ?c1 (nat queue)"
    have l: "cqueues (loads ms c) ! nat queue = t # (ts @ sent_by ms (nat queue))"
      using Cons q by (simp add: nth_loads)
    have tk: "take_msg ((loads ms c)\<lparr>currentTarget := queue\<rparr>) (nat queue) = loads ms ?c2"
      using take_msg_loads [of "nat queue" ?c1 ms] Cons q by (simp add: loads_fields)
    note step = clearQueue_step [OF in_q Cons] and step' = clearQueue_step [of queue "loads ms c", OF _ l]
    note IH = 1(1) [OF _ refl refl Cons refl refl] 1(2) [OF _ refl refl Cons refl refl]
      1(3) [OF _ refl refl Cons refl refl]
    obtain cmp rest where ps: "pop_shadow (shadow ?c2) = (cmp, rest)" by (cases "pop_shadow (shadow ?c2)")
    consider "msg_type t = 2" | "msg_type t = 1" | "msg_type t \<noteq> 2" "msg_type t \<noteq> 1" by blast
    then show ?thesis
    proof cases
      case 1
      then show ?thesis
        using IH(1) "1.prems" in_q step step' tk by (simp add: Let_def)
    next
      case 2
      then show ?thesis
        using IH(2) "1.prems" in_q step step' tk by (simp add: loads_fields Let_def)
    next
      case 3
      then show ?thesis
        using IH(3) [OF _ _ _ ps [symmetric] refl] "1.prems" in_q step step' tk ps
        by (cases "cmp = msg_addr t") (simp_all add: loads_fields Let_def)
    qed
  qed
qed

lemma length_take_msg [simp]: "length (cqueues (take_msg c q)) = length (cqueues c)"
  by (simp add: take_msg_def)

lemma in_arr_length: "length xs = length ys \<Longrightarrow> in_arr q xs = in_arr q ys"
  by (simp add: in_arr_def)

text \<open>A cleared core is the current one, with nothing stored.\<close>

lemma clearQueue_settled:
  "clearQueue c queue = Inr c' \<Longrightarrow> settled c' \<and> length (cqueues c') = length (cqueues c)"
proof (induction c queue rule: clearQueue.induct)
  case (1 c queue)
  have in_q: "in_arr queue (cqueues c)"
    using "1.prems" by (subst (asm) clearQueue.simps) (simp split: if_splits)
  show ?case
  proof (cases "cqueues c ! nat queue")
    case Nil
    then have "c' = c\<lparr>currentTarget := queue\<rparr>" using "1.prems" clearQueue_empty [OF in_q] by simp
    then show ?thesis using in_q Nil by (simp add: settled_def)
  next
    case (Cons t ts)
    let ?c2 = "take_msg (c\<lparr>currentTarget := queue\<rparr>) (nat queue)"
    note step = clearQueue_step [OF in_q Cons]
    note IH = 1(1) [OF _ refl refl Cons refl refl] 1(2) [OF _ refl refl Cons refl refl]
      1(3) [OF _ refl refl Cons refl refl]
    obtain cmp rest where ps: "pop_shadow (shadow ?c2) = (cmp, rest)" by (cases "pop_shadow (shadow ?c2)")
    consider "msg_type t = 2" | "msg_type t = 1" | "msg_type t \<noteq> 2" "msg_type t \<noteq> 1" by blast
    then show ?thesis
    proof cases
      case 1
      then show ?thesis using IH(1) "1.prems" in_q step by (simp add: Let_def)
    next
      case 2
      then show ?thesis using IH(2) "1.prems" in_q step by (simp add: Let_def)
    next
      case 3
      then show ?thesis
        using IH(3) [OF _ _ _ ps [symmetric] refl] "1.prems" in_q step ps by (simp add: Let_def)
    qed
  qed
qed

lemma loads_Cons:
  "loads ((from, t) # ms) c = loads ms (loads [(from, t)] c)"
  by (auto simp: loads_def sent_by_def)

lemma loads_one:
  assumes "in_arr from (cqueues c)"
  shows "loads [(from, t)] c = c\<lparr>cqueues := (cqueues c)[nat from := cqueues c ! nat from @ [t]]\<rparr>"
proof -
  have "map (\<lambda>q. cqueues c ! q @ sent_by [(from, t)] q) [0..<length (cqueues c)] =
      (cqueues c)[nat from := cqueues c ! nat from @ [t]]"
    by (rule nth_equalityI) (use assms in \<open>auto simp: sent_by_def in_arr_def nth_list_update\<close>)
  then show ?thesis by (simp add: loads_def)
qed

text \<open>Receiving one message is storing it and clearing the current core.\<close>

lemma combine_clear:
  assumes st: "settled c" and cm: "combine (from, t) c = Inr c'"
  shows "clearQueue (loads [(from, t)] c) (currentTarget c) = Inr c'"
proof (cases "from = currentTarget c")
  case True
  have in_q: "in_arr from (cqueues c)" and e: "cqueues c ! nat from = []"
    using st True by (auto simp: settled_def)
  then have q: "nat from < length (cqueues c)" by (simp add: in_arr_def nat_less_iff)
  let ?l = "loads [(from, t)] c"
  have l: "?l = c\<lparr>cqueues := (cqueues c)[nat from := [t]]\<rparr>"
    using loads_one [OF in_q] e by simp
  have hd: "in_arr from (cqueues ?l)" "cqueues ?l ! nat from = t # []"
    using in_q q by (simp_all add: l in_arr_def)
  have "(cqueues c)[nat from := []] = cqueues c" using e q by (metis list_update_id)
  then have tk: "take_msg (?l\<lparr>currentTarget := from\<rparr>) (nat from) = c"
    unfolding l take_msg_def using q True by simp
  obtain cmp rest where ps: "pop_shadow (shadow c) = (cmp, rest)" by (cases "pop_shadow (shadow c)")
  have fin: "clearQueue (c\<lparr>shadow := s\<rparr>) from = Inr (c\<lparr>shadow := s\<rparr>)" for s
    using clearQueue_empty [of "from" "c\<lparr>shadow := s\<rparr>"] in_q e True by simp
  show ?thesis
    using cm clearQueue_step [OF hd, unfolded Let_def tk] True ps fin
    by (auto simp: combine_def Let_def bindE_Inr_iff assertE_def split: if_splits)
next
  case False
  then have "in_arr from (cqueues c)" and c': "c' = loads [(from, t)] c"
    using cm loads_one [of "from" c t] by (auto simp: combine_def Let_def split: if_splits)
  moreover have "cqueues (loads [(from, t)] c) ! nat (currentTarget c) = []"
  proof -
    have q: "nat (currentTarget c) < length (cqueues c)" "0 \<le> currentTarget c"
      using st by (auto simp: settled_def in_arr_def)
    have "sent_by [(from, t)] (nat (currentTarget c)) = []" using False q(2) by (simp add: sent_by_def)
    with st q show ?thesis by (simp add: nth_loads settled_def)
  qed
  ultimately show ?thesis
    using clearQueue_empty [of "currentTarget c" c'] st by (simp add: settled_def)
qed

lemma combine_all_clear:
  "settled c \<Longrightarrow> combine_all ms c = Inr c' \<Longrightarrow> clearQueue (loads ms c) (currentTarget c) = Inr c'"
proof (induction ms arbitrary: c)
  case Nil
  then show ?case using clearQueue_empty [of "currentTarget c" c] by (simp add: settled_def)
next
  case (Cons m ms)
  obtain fr t where m: "m = (fr, t)" by (cases m)
  obtain c1 where c1: "combine (fr, t) c = Inr c1" and rest: "combine_all ms c1 = Inr c'"
    using Cons.prems by (auto simp: m bindE_Inr_iff)
  note clear = combine_clear [OF Cons.prems(1) c1]
  have "settled c1" using clearQueue_settled [OF clear] by simp
  from Cons.IH [OF this rest] clearQueue_loads [OF clear, of ms] show ?case
    by (simp add: m loads_Cons [of fr t ms])
qed

lemma settled_init [simp]: "settled combiner_init"
  by (simp add: settled_def combiner_init_def in_arr_def)

text \<open>
  C10: the order in which messages arrive does not matter. When two interleavings carry the same
  messages of every core in the same order, and the combining core gets through both without an
  assertion failing, it ends in the same state: the same shadow stack, the same core awaited, the
  same messages left over and the same complaints.
\<close>

theorem combine_confluent:
  assumes "combine_all ms combiner_init = Inr c" "combine_all ms' combiner_init = Inr c'"
    "\<forall>q < 12. sent_by ms q = sent_by ms' q"
  shows "c = c'"
proof -
  have "loads ms combiner_init = loads ms' combiner_init"
    using assms(3) by (simp add: loads_def combiner_init_def)
  with combine_all_clear [OF settled_init assms(1)] combine_all_clear [OF settled_init assms(2)]
  show ?thesis by simp
qed

definition token_run :: "(int \<times> u64) list" where
  "token_run = [(1, 4 * 80 + 1), (0, 4 * 40 + 1), (0, 4 * 1 + 2), (1, 4 * 80)]"

theorem combine_confluent_witness:
  "\<exists>c c'. combine_all token_run combiner_init = Inr c \<and>
     combine_all [token_run ! 1, token_run ! 2, token_run ! 0, token_run ! 3] combiner_init = Inr c' \<and> c = c'"
proof -
  have r: "case combine_all token_run combiner_init of Inl e \<Rightarrow> False | Inr c \<Rightarrow> shadow c = [40]"
    "case combine_all [token_run ! 1, token_run ! 2, token_run ! 0, token_run ! 3] combiner_init of
       Inl e \<Rightarrow> False | Inr c \<Rightarrow> shadow c = [40]"
    by code_simp+
  then obtain c c' where c: "combine_all token_run combiner_init = Inr c"
    "combine_all [token_run ! 1, token_run ! 2, token_run ! 0, token_run ! 3] combiner_init = Inr c'"
    by (auto split: sum.splits)
  have "sent_by token_run q = sent_by [token_run ! 1, token_run ! 2, token_run ! 0, token_run ! 3] q" for q
    by (simp add: sent_by_def token_run_def)
  with combine_confluent [OF c] c show ?thesis by blast
qed

section \<open>The messages of the filtering cores\<close>

lemma even_messages: "push_bit 2 (d :: u64) AND 1 = 0" "push_bit 2 (d :: u64) AND 2 = 0" "push_bit 2 (d :: u64) AND 3 = 0"
proof -
  have "push_bit 2 d AND mask 2 = 0"
    using take_bit_push_bit [of 2 2 d] by (simp add: take_bit_eq_mask)
  then show 3: "push_bit 2 d AND 3 = 0" by (simp add: mask_eq_exp_minus_1)
  have "push_bit 2 d AND 1 = (push_bit 2 d AND 3) AND 1" "push_bit 2 d AND 2 = (push_bit 2 d AND 3) AND 2"
    by (simp_all add: and.assoc)
  then show "push_bit 2 d AND 1 = 0" "push_bit 2 d AND 2 = 0" using 3 by simp_all
qed

lemma flush_calls_zero: "m \<in> set (flush_calls ds) \<Longrightarrow> m = 0"
  by (induction ds) (auto simp: even_messages)



text \<open>Properly nested calls and returns.\<close>

inductive nested :: "(int \<times> u64) list \<Rightarrow> bool" where
  none: "nested []"
| call: "nested es \<Longrightarrow> nested fs \<Longrightarrow> nested ((3, a) # es @ (4, a) # fs)"

lemma filter_entries_append: "filter_entries (es @ fs) f = filter_entries fs (filter_entries es f)"
  by (induction es arbitrary: f) auto

text \<open>
  Properly nested calls and returns are settled where they occur: a filtering core ends with
  the open calls, the messages and the mismatches it had before, whatever was open.
\<close>

theorem nested_is_local:
  assumes "nested es"
  shows "filter_entries es f = f"
  using assms
proof (induction arbitrary: f)
  case (call es fs a)
  have "filter_entry (4, a) (filter_entry (3, a) f) = f" by (simp add: filter_entry_def)
  with call.IH show ?case by (simp add: filter_entries_append)
qed simp

theorem nested_is_local_witness:
  "filter_entries [(3, 40), (3, 80), (4, 80), (4, 40)] sfilter_init = sfilter_init"
proof -
  have "nested [(3, 40), (3, 80), (4, 80), (4, 40)]"
    using nested.call [OF nested.call [OF nested.none nested.none, of 80] nested.none, of 40] by simp
  then show ?thesis by (rule nested_is_local)
qed

end
