(* ===== verification/Bit_Counting.thy ===== *)
theory Bit_Counting
  imports Guardian_Prelude
begin

text \<open>
  The bit counting benchmark (\<open>bitcount/bitcnt_1.c\<close> to \<open>bitcnt_4.c\<close> and \<open>bitcnts.c\<close>) as built for
  the 64-bit target: \<open>long\<close> is a 64-bit word, \<open>>>\<close> on it is the arithmetic shift, and \<open>x - 1\<close>
  wraps. Each counter is compared with the number of set bits.
\<close>

type_synonym clong = "64 word"

section \<open>The counters\<close>

text \<open>The table \<open>bits\<close> of \<open>bitcnt_3.c\<close> and \<open>bitcnt_4.c\<close>.\<close>

definition bits_table :: "nat list" where
  "bits_table =
     [0, 1, 1, 2, 1, 2, 2, 3, 1, 2, 2, 3, 2, 3, 3, 4,
      1, 2, 2, 3, 2, 3, 3, 4, 2, 3, 3, 4, 3, 4, 4, 5,
      1, 2, 2, 3, 2, 3, 3, 4, 2, 3, 3, 4, 3, 4, 4, 5,
      2, 3, 3, 4, 3, 4, 4, 5, 3, 4, 4, 5, 4, 5, 5, 6,
      1, 2, 2, 3, 2, 3, 3, 4, 2, 3, 3, 4, 3, 4, 4, 5,
      2, 3, 3, 4, 3, 4, 4, 5, 3, 4, 4, 5, 4, 5, 5, 6,
      2, 3, 3, 4, 3, 4, 4, 5, 3, 4, 4, 5, 4, 5, 5, 6,
      3, 4, 4, 5, 4, 5, 5, 6, 4, 5, 5, 6, 5, 6, 6, 7,
      1, 2, 2, 3, 2, 3, 3, 4, 2, 3, 3, 4, 3, 4, 4, 5,
      2, 3, 3, 4, 3, 4, 4, 5, 3, 4, 4, 5, 4, 5, 5, 6,
      2, 3, 3, 4, 3, 4, 4, 5, 3, 4, 4, 5, 4, 5, 5, 6,
      3, 4, 4, 5, 4, 5, 5, 6, 4, 5, 5, 6, 5, 6, 6, 7,
      2, 3, 3, 4, 3, 4, 4, 5, 3, 4, 4, 5, 4, 5, 5, 6,
      3, 4, 4, 5, 4, 5, 5, 6, 4, 5, 5, 6, 5, 6, 6, 7,
      3, 4, 4, 5, 4, 5, 5, 6, 4, 5, 5, 6, 5, 6, 6, 7,
      4, 5, 5, 6, 5, 6, 6, 7, 5, 6, 6, 7, 6, 7, 7, 8]"

text \<open>\<open>bit_count\<close>: the body runs once per set bit.\<close>

function bit_count_loop :: "clong \<Rightarrow> nat \<Rightarrow> nat" where
  "bit_count_loop x n =
     (let x' = x AND (x - 1) in if x \<noteq> 0 \<and> x' \<noteq> 0 then bit_count_loop x' (n + 1) else n + 1)"
  by pat_completeness auto
termination
proof (relation "measure (\<lambda>(x, n). unat x)")
  fix x x' :: clong and n :: nat
  assume x': "x' = x AND (x - 1)" and "x \<noteq> 0 \<and> x' \<noteq> 0"
  then have "unat (x - 1) < unat x" by (simp add: unat_minus_one unat_gt_0)
  moreover have "unat x' \<le> unat (x - 1)"
    unfolding x' unsigned_and_eq by (rule and_le_nat)
  ultimately show "((x', n + 1), x, n) \<in> measure (\<lambda>(x, n). unat x)" by simp
qed simp

declare bit_count_loop.simps [simp del]

definition bit_count :: "clong \<Rightarrow> nat" where
  "bit_count x = (if x \<noteq> 0 then bit_count_loop x 0 else 0)"

definition bitcount :: "clong \<Rightarrow> clong" where
  "bitcount i =
     (let i = drop_bit 1 (i AND 0xAAAAAAAA) + (i AND 0x55555555);
          i = drop_bit 2 (i AND 0xCCCCCCCC) + (i AND 0x33333333);
          i = drop_bit 4 (i AND 0xF0F0F0F0) + (i AND 0x0F0F0F0F);
          i = drop_bit 8 (i AND 0xFF00FF00) + (i AND 0x00FF00FF);
          i = drop_bit 16 (i AND 0xFFFF0000) + (i AND 0x0000FFFF)
      in i)"

definition ntbl_bitcount :: "clong \<Rightarrow> nat" where
  "ntbl_bitcount x =
     bits_table ! unat (x AND 0x0000000F) +
     bits_table ! unat (drop_bit 4 (x AND 0x000000F0)) +
     bits_table ! unat (drop_bit 8 (x AND 0x00000F00)) +
     bits_table ! unat (drop_bit 12 (x AND 0x0000F000)) +
     bits_table ! unat (drop_bit 16 (x AND 0x000F0000)) +
     bits_table ! unat (drop_bit 20 (x AND 0x00F00000)) +
     bits_table ! unat (drop_bit 24 (x AND 0x0F000000)) +
     bits_table ! unat (drop_bit 28 (x AND 0xF0000000))"

text \<open>Byte \<open>k\<close> of the object representation of a \<open>long\<close> (little endian).\<close>

definition byte_of :: "nat \<Rightarrow> clong \<Rightarrow> u8" where
  "byte_of k x = ucast (drop_bit (8 * k) x)"

definition BW_btbl_bitcount :: "clong \<Rightarrow> nat" where
  "BW_btbl_bitcount x =
     bits_table ! unat (byte_of 0 x) + bits_table ! unat (byte_of 1 x) +
     bits_table ! unat (byte_of 3 x) + bits_table ! unat (byte_of 2 x)"

definition AR_btbl_bitcount :: "clong \<Rightarrow> nat" where
  "AR_btbl_bitcount x =
     (let Accu = bits_table ! unat (byte_of 0 x);
          Accu = Accu + bits_table ! unat (byte_of 1 x);
          Accu = Accu + bits_table ! unat (byte_of 2 x);
          Accu = Accu + bits_table ! unat (byte_of 3 x)
      in Accu)"

text \<open>The recursive counters; \<open>None\<close> is a recursion that does not end.\<close>

partial_function (option) ntbl_bitcnt :: "clong \<Rightarrow> nat option" where
  "ntbl_bitcnt x =
     (let cnt = bits_table ! unat (x AND 0x0000000F); x' = signed_drop_bit 4 x
      in if x' \<noteq> 0 then Option.bind (ntbl_bitcnt x') (\<lambda>c. Some (cnt + c)) else Some cnt)"

partial_function (option) btbl_bitcnt :: "clong \<Rightarrow> nat option" where
  "btbl_bitcnt x =
     (let cnt = bits_table ! unat (byte_of 0 x); x' = signed_drop_bit 8 x
      in if x' \<noteq> 0 then Option.bind (btbl_bitcnt x') (\<lambda>c. Some (cnt + c)) else Some cnt)"

text \<open>\<open>bit_shifter\<close>: \<open>left\<close> iterations of the 64 remain.\<close>

fun bit_shifter_loop :: "nat \<Rightarrow> clong \<Rightarrow> nat \<Rightarrow> nat" where
  "bit_shifter_loop 0 x n = n"
| "bit_shifter_loop (Suc left) x n =
     (if x \<noteq> 0 then bit_shifter_loop left (signed_drop_bit 1 x) (n + unat (x AND 1)) else n)"

definition bit_shifter :: "clong \<Rightarrow> nat" where
  "bit_shifter x = bit_shifter_loop 64 x 0"

text \<open>
  The benchmark loop of \<open>main\<close> for one counter: \<open>iterations\<close> seeds, 13 apart. A counter that does
  not return makes the loop not return.
\<close>

datatype counter_fn =
  Bit_count | Bitcount | Ntbl_bitcnt | Ntbl_bitcount | BW_btbl | AR_btbl | Bit_shifter

fun pBitCntFunc :: "counter_fn \<Rightarrow> clong \<Rightarrow> nat option" where
  "pBitCntFunc Bit_count x = Some (bit_count x)"
| "pBitCntFunc Bitcount x = Some (unat (bitcount x))"
| "pBitCntFunc Ntbl_bitcnt x = ntbl_bitcnt x"
| "pBitCntFunc Ntbl_bitcount x = Some (ntbl_bitcount x)"
| "pBitCntFunc BW_btbl x = Some (BW_btbl_bitcount x)"
| "pBitCntFunc AR_btbl x = Some (AR_btbl_bitcount x)"
| "pBitCntFunc Bit_shifter x = Some (bit_shifter x)"

fun bench_loop :: "counter_fn \<Rightarrow> nat \<Rightarrow> clong \<Rightarrow> nat \<Rightarrow> nat option" where
  "bench_loop f 0 seed n = Some n"
| "bench_loop f (Suc iterations) seed n =
     Option.bind (pBitCntFunc f seed) (\<lambda>c. bench_loop f iterations (seed + 13) (n + c))"

section \<open>Specification\<close>

text \<open>The number of set bits.\<close>

definition popcount :: "'a::len word \<Rightarrow> nat" where
  "popcount x = card {i. bit x i}"

text \<open>The same on naturals, by halving.\<close>

function pop :: "nat \<Rightarrow> nat" where
  "pop n = (if n = 0 then 0 else n mod 2 + pop (n div 2))"
  by pat_completeness auto
termination
  by (relation "measure id") auto

declare pop.simps [simp del]

section \<open>Counting on naturals\<close>

lemma pop_0 [simp]: "pop 0 = 0"
  by (simp add: pop.simps)

lemma pop_rec: "pop n = n mod 2 + pop (n div 2)"
  by (cases "n = 0") (simp_all add: pop.simps [of n])

lemma card_bits_rec:
  "card {i. bit (n :: nat) i} = n mod 2 + card {i. bit (n div 2) i}" if "finite {i. bit n i}"
proof -
  have "bit n i \<longleftrightarrow> (i = 0 \<and> odd n) \<or> (\<exists>j. i = Suc j \<and> bit (n div 2) j)" for i
    by (cases i) (simp_all add: bit_0 bit_Suc)
  then have s: "{i. bit n i} = {i. i = 0 \<and> odd n} \<union> Suc ` {i. bit (n div 2) i}"
    by auto
  have "finite {i. bit (n div 2) i}"
    using that unfolding s by (auto dest: finite_imageD)
  then have "card {i. bit n i} = card {i :: nat. i = 0 \<and> odd n} + card {i. bit (n div 2) i}"
    unfolding s by (subst card_Un_disjoint) (auto simp: card_image)
  then show ?thesis by (cases "odd n") (auto simp: odd_iff_mod_2_eq_one)
qed

lemma finite_bits_nat: "finite {i. bit (n :: nat) i}"
proof (rule finite_subset)
  show "{i. bit n i} \<subseteq> {..<n}"
  proof
    fix i assume "i \<in> {i. bit n i}"
    then have "2 ^ i \<le> n"
      by (metis bit_iff_odd div_less even_zero mem_Collect_eq not_less)
    moreover have "i < 2 ^ i" by (rule less_exp)
    ultimately have "i < n" by (rule less_le_trans [rotated])
    then show "i \<in> {..<n}" by simp
  qed
qed simp

lemma pop_card: "pop n = card {i. bit n i}"
proof (induction n rule: pop.induct)
  case (1 n)
  then show ?case
    using card_bits_rec [OF finite_bits_nat, of n] by (cases "n = 0") (simp_all add: pop.simps [of n])
qed

lemma popcount_pop: "popcount x = pop (unat x)"
  by (simp add: popcount_def pop_card bit_unsigned_iff)

lemma pop_split: "pop n = pop (n mod 2 ^ k) + pop (n div 2 ^ k)"
proof (induction k arbitrary: n)
  case (Suc k)
  have "n mod 2 ^ Suc k = 2 * (n div 2 mod 2 ^ k) + n mod 2"
    by (simp add: mod_mult2_eq)
  then have "pop (n mod 2 ^ Suc k) = n mod 2 + pop (n div 2 mod 2 ^ k)"
    using pop_rec [of "n mod 2 ^ Suc k"] by simp
  moreover have "n div 2 ^ Suc k = n div 2 div 2 ^ k"
    by (simp add: div_mult2_eq)
  ultimately show ?case using Suc.IH [of "n div 2"] pop_rec [of n] by simp
qed simp

lemma pop_even [simp]: "pop (2 * n) = pop n"
  using pop_rec [of "2 * n"] by simp

lemma pop_odd [simp]: "pop (Suc (2 * n)) = Suc (pop n)"
  using pop_rec [of "Suc (2 * n)"] by simp

section \<open>Clearing the lowest set bit\<close>

lemma pop_and_minus: "0 < n \<Longrightarrow> pop n = Suc (pop (n AND (n - 1)))"
proof (induction n rule: less_induct)
  case (less n)
  show ?case
  proof (cases "odd n")
    case True
    then obtain m where n: "n = Suc (2 * m)" by (auto elim: oddE)
    have "n AND (n - 1) = 2 * m" by (simp add: n and_rec [of "Suc (2 * m)"])
    then show ?thesis by (simp add: n)
  next
    case False
    then obtain m where n: "n = 2 * m" "0 < m" using less.prems by (auto elim: evenE)
    have "n AND (n - 1) = 2 * (m AND (m - 1))"
      using n by (subst and_rec) (cases m; simp)
    with less.IH [of m] n show ?thesis by simp
  qed
qed

lemma bit_count_loop_pop: "x \<noteq> 0 \<Longrightarrow> bit_count_loop x n = n + pop (unat x)"
proof (induction x n rule: bit_count_loop.induct)
  case (1 x n)
  let ?x' = "x AND (x - 1)"
  have "unat ?x' = unat x AND (unat x - 1)"
    using 1(2) by (simp add: unsigned_and_eq unat_minus_one)
  then have p: "pop (unat x) = Suc (pop (unat ?x'))"
    using pop_and_minus [of "unat x"] 1(2) by (simp add: unat_gt_0)
  show ?case
  proof (cases "?x' = 0")
    case True
    with p show ?thesis by (simp add: bit_count_loop.simps [of x])
  next
    case False
    with 1 p show ?thesis by (simp add: bit_count_loop.simps [of x])
  qed
qed

lemma bit_count_eq: "bit_count x = popcount x"
  by (simp add: bit_count_def bit_count_loop_pop popcount_pop)

section \<open>Digits in a power-of-two base\<close>

fun val :: "nat \<Rightarrow> nat list \<Rightarrow> nat" where
  "val B [] = 0"
| "val B (d # ds) = d + B * val B ds"

fun digits :: "nat \<Rightarrow> nat \<Rightarrow> nat \<Rightarrow> nat list" where
  "digits B 0 n = []"
| "digits B (Suc m) n = n mod B # digits B m (n div B)"

fun pairs :: "nat list \<Rightarrow> nat list" where
  "pairs (a # b # ds) = (a + b) # pairs ds"
| "pairs ds = ds"

lemma val_digits: "val B (digits B m n) = n mod B ^ m"
  by (induction m arbitrary: n) (simp_all add: mod_mult2_eq)

lemma length_digits [simp]: "length (digits B m n) = m"
  by (induction m arbitrary: n) simp_all

lemma digits_numeral: "digits B (numeral k) n = n mod B # digits B (pred_numeral k) (n div B)"
  by (simp add: numeral_eq_Suc)

lemma digits_less: "0 < B \<Longrightarrow> d \<in> set (digits B m n) \<Longrightarrow> d < B"
  by (induction m arbitrary: n) auto

lemma pop_digits: "sum_list (map pop (digits (2 ^ k) m n)) = pop (n mod 2 ^ (k * m))"
proof (induction m arbitrary: n)
  case (Suc m)
  have "n mod 2 ^ (k * Suc m) mod 2 ^ k = n mod 2 ^ k"
    by (simp add: mod_mod_cancel power_add)
  moreover have "n mod 2 ^ (k * Suc m) div 2 ^ k = n div 2 ^ k mod 2 ^ (k * m)"
    by (simp add: power_add mod_mult2_eq)
  ultimately have "pop (n mod 2 ^ (k * Suc m)) = pop (n mod 2 ^ k) + pop (n div 2 ^ k mod 2 ^ (k * m))"
    using pop_split [of "n mod 2 ^ (k * Suc m)" k] by simp
  with Suc show ?case by simp
qed simp

lemma sum_pairs: "sum_list (pairs ds) = sum_list ds"
  by (induction ds rule: pairs.induct) simp_all

lemma length_pairs: "even (length ds) \<Longrightarrow> length (pairs ds) = length ds div 2"
  by (induction ds rule: pairs.induct) simp_all

lemma pairs_le: "\<forall>d \<in> set ds. d \<le> c \<Longrightarrow> \<forall>d \<in> set (pairs ds). d \<le> 2 * c"
  by (induction ds rule: pairs.induct) auto

lemma and_digit:
  fixes a b :: nat
  shows "d < 2 ^ k \<Longrightarrow> m < 2 ^ k \<Longrightarrow> (d + 2 ^ k * a) AND (m + 2 ^ k * b) = (d AND m) + 2 ^ k * (a AND b)"
proof (induction k arbitrary: d m)
  case (Suc k)
  have "d div 2 < 2 ^ k" "m div 2 < 2 ^ k" using Suc.prems by auto
  note IH = Suc.IH [OF this]
  have "(d + 2 ^ Suc k * a) div 2 = d div 2 + 2 ^ k * a" "(m + 2 ^ Suc k * b) div 2 = m div 2 + 2 ^ k * b"
    by simp_all
  then show ?case
    using IH and_rec [of d m] and_rec [of "d + 2 ^ Suc k * a" "m + 2 ^ Suc k * b"]
    by (simp add: algebra_simps)
qed simp

lemma and_ones: "d < 2 ^ k \<Longrightarrow> d AND (2 ^ k - 1) = (d :: nat)"
  using take_bit_eq_mask [of k d] by (simp add: take_bit_nat_eq_self mask_eq_exp_minus_1)

text \<open>The masks of the even and of the odd digits.\<close>

fun even_mask :: "nat \<Rightarrow> nat \<Rightarrow> nat" where
  "even_mask B 0 = 0"
| "even_mask B (Suc m) = (B - 1) + B * (0 + B * even_mask B m)"

text \<open>One step of the pairwise addition.\<close>

lemma pairwise_step:
  assumes "\<forall>d \<in> set ds. d < 2 ^ k" "length ds = 2 * m"
  shows "\<exists>e f. val (2 ^ k) ds AND (2 ^ k * even_mask (2 ^ k) m) = 2 ^ k * e \<and>
    val (2 ^ k) ds AND even_mask (2 ^ k) m = f \<and> e + f = val (2 ^ k * 2 ^ k) (pairs ds)"
  using assms
proof (induction m arbitrary: ds)
  case (Suc m)
  obtain d0 d1 es where ds: "ds = d0 # d1 # es"
    using Suc.prems(2) by (cases ds rule: pairs.cases) auto
  have d: "d0 < 2 ^ k" "d1 < 2 ^ k" "\<forall>d \<in> set es. d < 2 ^ k" "length es = 2 * m"
    using Suc.prems by (auto simp: ds)
  define B :: nat where "B = 2 ^ k"
  obtain e f where ef: "val B es AND (B * even_mask B m) = B * e" "val B es AND even_mask B m = f"
    "e + f = val (B * B) (pairs es)"
    using Suc.IH [OF d(3,4)] by (auto simp: B_def)
  have pos: "0 < B" "B - 1 < B" by (simp_all add: B_def)
  have lt: "d0 < B" "d1 < B" using d by (simp_all add: B_def)
  note cut = and_digit [of _ k, folded B_def] and ones = and_ones [of _ k, folded B_def]
  have "val B ds AND even_mask B (Suc m) = d0 + B * (B * f)"
    unfolding ds val.simps even_mask.simps cut [OF lt(1) pos(2)] cut [OF lt(2) pos(1)]
    by (simp only: ones [OF lt(1)] ef(2)) simp
  moreover have "val B ds AND (0 + B * even_mask B (Suc m)) = B * (d1 + B * (B * e))"
  proof -
    have "even_mask B (Suc m) = (B - 1) + B * (B * even_mask B m)" by simp
    then show ?thesis
      unfolding ds val.simps cut [OF lt(1) pos(1)] by (simp only: cut [OF lt(2) pos(2)] ones [OF lt(2)] ef(1)) simp
  qed
  moreover have "d1 + B * (B * e) + (d0 + B * (B * f)) = val (B * B) (pairs ds)"
    by (simp add: ds flip: ef(3)) (simp add: algebra_simps)
  ultimately show ?case
    unfolding B_def by (intro exI conjI) simp_all
qed simp

section \<open>The pairwise counter\<close>

text \<open>One line of \<open>bitcount\<close> on naturals.\<close>

definition fold_line :: "nat \<Rightarrow> nat \<Rightarrow> nat \<Rightarrow> nat" where
  "fold_line k m n = (n AND (2 ^ k * m)) div 2 ^ k + (n AND m)"

lemma fold_line_pairs:
  assumes "\<forall>d \<in> set ds. d < 2 ^ k" "length ds = 2 * m"
  shows "fold_line k (even_mask (2 ^ k) m) (val (2 ^ k) ds) = val (2 ^ (2 * k)) (pairs ds)"
  using pairwise_step [OF assms] by (auto simp: fold_line_def mult_2 power_add)

lemma fold_line_mod:
  assumes "m < 2 ^ j" "2 ^ k * m < 2 ^ j"
  shows "fold_line k m (n mod 2 ^ j) = fold_line k m n"
proof -
  have "n AND c = n mod 2 ^ j AND c" if "c < 2 ^ j" for c :: nat
    using and_digit [of "n mod 2 ^ j" j c "n div 2 ^ j" 0] that by simp
  with assms show ?thesis by (simp add: fold_line_def)
qed

lemma unat_drop_bit_div: "unat (drop_bit k (w :: clong)) = unat w div 2 ^ k"
proof -
  have "take_bit 64 (unat w) = unat w"
    using unsigned_less [where ?'a = nat, of w] by (simp add: take_bit_nat_eq_self)
  then show ?thesis
    by (simp only: unsigned_drop_bit_eq) (simp add: drop_bit_eq_div)
qed

lemma unat_fold_line:
  fixes x :: clong
  assumes "m < 2 ^ 32" "2 ^ k * m < 2 ^ 32" and c: "c = of_nat (2 ^ k * m)" "c' = of_nat m"
  shows "unat (drop_bit k (x AND c) + (x AND c')) = fold_line k m (unat x)"
proof -
  have u: "unat (x AND of_nat c) = unat x AND c" if "c < 2 ^ 32" for c
    using that by (simp add: unsigned_and_eq unsigned_of_nat take_bit_nat_eq_self)
  have le: "unat x AND c < 2 ^ 32" if "c < 2 ^ 32" for c
    using and_le_nat [of "unat x" c] that by linarith
  let ?a = "drop_bit k (x AND of_nat (2 ^ k * m))" and ?b = "x AND of_nat m :: clong"
  have a: "unat ?a = (unat x AND 2 ^ k * m) div 2 ^ k"
    by (simp only: unat_drop_bit_div u [OF assms(2)])
  have "unat ?a + unat ?b < 2 ^ LENGTH(64)"
    using le [OF assms(1)] le [OF assms(2)] div_le_dividend [of "unat x AND 2 ^ k * m" "2 ^ k"]
    unfolding a u [OF assms(1)] by (simp del: div_le_dividend)
  then have "unat (?a + ?b) = unat ?a + unat ?b" by (rule unat_add_lem [THEN iffD1])
  then show ?thesis unfolding a u [OF assms(1)] c fold_line_def .
qed

lemma even_mask_numeral:
  "even_mask B (numeral k) = (B - 1) + B * (0 + B * even_mask B (pred_numeral k))"
  by (simp add: numeral_eq_Suc)

lemma even_masks:
  "even_mask (2 ^ 1) 16 = 0x55555555" "even_mask (2 ^ 2) 8 = 0x33333333"
  "even_mask (2 ^ 4) 4 = 0x0F0F0F0F" "even_mask (2 ^ 8) 2 = 0x00FF00FF"
  "even_mask (2 ^ 16) 1 = 0x0000FFFF"
  using even_mask.simps(2) [of _ 0] by (simp_all add: even_mask_numeral)

lemma bitcount_fold:
  "unat (bitcount x) =
     fold_line 16 0x0000FFFF (fold_line 8 0x00FF00FF (fold_line 4 0x0F0F0F0F
       (fold_line 2 0x33333333 (fold_line 1 0x55555555 (unat x)))))"
proof -
  have 1: "unat (drop_bit 1 (x AND 0xAAAAAAAA) + (x AND 0x55555555)) = fold_line 1 0x55555555 (unat x)"
    and 2: "unat (drop_bit 2 (x AND 0xCCCCCCCC) + (x AND 0x33333333)) = fold_line 2 0x33333333 (unat x)"
    and 3: "unat (drop_bit 4 (x AND 0xF0F0F0F0) + (x AND 0x0F0F0F0F)) = fold_line 4 0x0F0F0F0F (unat x)"
    and 4: "unat (drop_bit 8 (x AND 0xFF00FF00) + (x AND 0x00FF00FF)) = fold_line 8 0x00FF00FF (unat x)"
    and 5: "unat (drop_bit 16 (x AND 0xFFFF0000) + (x AND 0x0000FFFF)) = fold_line 16 0x0000FFFF (unat x)"
    for x :: clong
    by (rule unat_fold_line; simp)+
  show ?thesis
    unfolding bitcount_def Let_def 5 4 3 2 1 ..
qed

lemma bitcount_eq: "unat (bitcount x) = pop (unat x mod 2 ^ 32)"
proof -
  let ?d0 = "digits 2 32 (unat x)"
  let ?d1 = "pairs ?d0"
  let ?d2 = "pairs ?d1"
  let ?d3 = "pairs ?d2"
  let ?d4 = "pairs ?d3"
  have len: "length ?d0 = 32" "length ?d1 = 16" "length ?d2 = 8" "length ?d3 = 4" "length ?d4 = 2"
    "length (pairs ?d4) = 1"
    by (simp_all add: length_pairs)
  have b0: "\<forall>d \<in> set ?d0. d \<le> 1" using digits_less [of 2] by fastforce
  have b1: "\<forall>d \<in> set ?d1. d \<le> 2" using pairs_le [OF b0] by simp
  have b2: "\<forall>d \<in> set ?d2. d \<le> 4" using pairs_le [OF b1] by simp
  have b3: "\<forall>d \<in> set ?d3. d \<le> 8" using pairs_le [OF b2] by simp
  have b4: "\<forall>d \<in> set ?d4. d \<le> 16" using pairs_le [OF b3] by simp
  have "fold_line 1 0x55555555 (unat x) = fold_line 1 0x55555555 (val (2 ^ 1) ?d0)"
    using val_digits [of 2 32 "unat x"] fold_line_mod [of "0x55555555" 32 1 "unat x"] by simp
  also have "\<dots> = val (2 ^ (2 * 1)) ?d1"
    by (rule fold_line_pairs [of ?d0 1 16, unfolded even_masks]) (use len b0 in auto)
  finally have 1: "fold_line 1 0x55555555 (unat x) = val (2 ^ 2) ?d1" by simp
  have 2: "fold_line 2 0x33333333 (val (2 ^ 2) ?d1) = val (2 ^ (2 * 2)) ?d2"
    by (rule fold_line_pairs [of ?d1 2 8, unfolded even_masks]) (use len b1 in auto)
  have 3: "fold_line 4 0x0F0F0F0F (val (2 ^ 4) ?d2) = val (2 ^ (2 * 4)) ?d3"
    by (rule fold_line_pairs [of ?d2 4 4, unfolded even_masks]) (use len b2 in auto)
  have 4: "fold_line 8 0x00FF00FF (val (2 ^ 8) ?d3) = val (2 ^ (2 * 8)) ?d4"
    by (rule fold_line_pairs [of ?d3 8 2, unfolded even_masks]) (use len b3 in auto)
  have 5: "fold_line 16 0x0000FFFF (val (2 ^ 16) ?d4) = val (2 ^ (2 * 16)) (pairs ?d4)"
    by (rule fold_line_pairs [of ?d4 16 1, unfolded even_masks]) (use len b4 in auto)
  obtain s where s: "pairs ?d4 = [s]" using len(6) by (cases "pairs ?d4") auto
  have "map pop ?d0 = ?d0"
  proof (rule map_idI)
    fix d assume "d \<in> set ?d0"
    with b0 have "d = 0 \<or> d = 1" by fastforce
    then show "pop d = d" by (auto simp: pop_odd [of 0, simplified])
  qed
  then have "s = pop (unat x mod 2 ^ 32)"
    using sum_pairs [of ?d4] sum_pairs [of ?d3] sum_pairs [of ?d2] sum_pairs [of ?d1]
      sum_pairs [of ?d0] pop_digits [of 1 32 "unat x"] s by simp
  then show ?thesis using 2 3 4 5 unfolding bitcount_fold 1 s by simp
qed

section \<open>The table counters\<close>

text \<open>The table doubles: its second half is the first, one higher.\<close>

fun doubled :: "nat \<Rightarrow> nat list" where
  "doubled 0 = [0]"
| "doubled (Suc k) = doubled k @ map Suc (doubled k)"

lemma pops_doubled: "map pop [0..<2 ^ k] = doubled k"
proof (induction k)
  case (Suc k)
  have p: "pop (n + 2 ^ k) = Suc (pop n)" if "n < 2 ^ k" for n
  proof -
    have "(n + 2 ^ k) mod 2 ^ k = n" "(n + 2 ^ k) div 2 ^ k = 1" using that by (simp_all add: div_add_self2)
    with pop_split [of "n + 2 ^ k" k] pop_odd [of 0] show ?thesis by simp
  qed
  have "[2 ^ k..<2 ^ k + (2 ^ k :: nat)] = map (\<lambda>i. i + 2 ^ k) [0..<2 ^ k]"
    by (rule map_add_upt [symmetric])
  then have "map pop [2 ^ k..<2 ^ k + 2 ^ k] = map Suc (map pop [0..<2 ^ k])"
    using p by simp
  moreover have "[0..<2 ^ Suc k] = [0..<2 ^ k] @ [2 ^ k..<2 ^ k + (2 ^ k :: nat)]"
    using upt_add_eq_append [of 0 "2 ^ k" "2 ^ k"] by (simp only: mult_2 power_Suc)
  ultimately show ?case using Suc by (simp only: map_append doubled.simps)
qed simp

lemma bits_table_doubled: "bits_table = doubled 8"
  by code_simp

lemma nth_doubled: "n < 2 ^ k \<Longrightarrow> doubled k ! n = pop n"
  by (simp flip: pops_doubled)

lemma bits_table_pop: "n < 256 \<Longrightarrow> bits_table ! n = pop n"
  using nth_doubled [of n 8] by (simp add: bits_table_doubled del: doubled.simps)

lemma nybble:
  fixes x m :: clong
  assumes "unat (drop_bit k m) = 15"
  shows "bits_table ! unat (drop_bit k (x AND m)) = pop (unat x div 2 ^ k mod 2 ^ 4)"
proof -
  have "unat (drop_bit k (x AND m)) = (unat x div 2 ^ k) AND 15"
    by (simp only: drop_bit_and unsigned_and_eq assms) (simp only: unat_drop_bit_div)
  also have "(unat x div 2 ^ k) AND 15 = unat x div 2 ^ k mod 2 ^ 4"
    using take_bit_eq_mask [of 4 "unat x div 2 ^ k"] by (simp add: take_bit_eq_mod mask_eq_exp_minus_1)
  finally show ?thesis by (simp add: bits_table_pop)
qed

lemma ntbl_bitcount_eq: "ntbl_bitcount x = pop (unat x mod 2 ^ 32)"
proof -
  have 0: "bits_table ! unat (x AND 0x0000000F) = pop (unat x mod 2 ^ 4)"
    using nybble [of 0 "0x0000000F" x] by simp
  have n: "bits_table ! unat (drop_bit 4 (x AND 0x000000F0)) = pop (unat x div 2 ^ 4 mod 2 ^ 4)"
    "bits_table ! unat (drop_bit 8 (x AND 0x00000F00)) = pop (unat x div 2 ^ 8 mod 2 ^ 4)"
    "bits_table ! unat (drop_bit 12 (x AND 0x0000F000)) = pop (unat x div 2 ^ 12 mod 2 ^ 4)"
    "bits_table ! unat (drop_bit 16 (x AND 0x000F0000)) = pop (unat x div 2 ^ 16 mod 2 ^ 4)"
    "bits_table ! unat (drop_bit 20 (x AND 0x00F00000)) = pop (unat x div 2 ^ 20 mod 2 ^ 4)"
    "bits_table ! unat (drop_bit 24 (x AND 0x0F000000)) = pop (unat x div 2 ^ 24 mod 2 ^ 4)"
    "bits_table ! unat (drop_bit 28 (x AND 0xF0000000)) = pop (unat x div 2 ^ 28 mod 2 ^ 4)"
    by (rule nybble; simp)+
  have "sum_list (map pop (digits (2 ^ 4) 8 (unat x))) =
      pop (unat x mod 2 ^ 4) + pop (unat x div 2 ^ 4 mod 2 ^ 4) + pop (unat x div 2 ^ 8 mod 2 ^ 4) +
      pop (unat x div 2 ^ 12 mod 2 ^ 4) + pop (unat x div 2 ^ 16 mod 2 ^ 4) +
      pop (unat x div 2 ^ 20 mod 2 ^ 4) + pop (unat x div 2 ^ 24 mod 2 ^ 4) +
      pop (unat x div 2 ^ 28 mod 2 ^ 4)"
    by (simp add: digits_numeral flip: div_mult2_eq)
  then show ?thesis
    using pop_digits [of 4 8 "unat x"] unfolding ntbl_bitcount_def 0 n by simp
qed

lemma unat_byte_of: "unat (byte_of k x) = unat x div 2 ^ (8 * k) mod 2 ^ 8"
  by (simp only: byte_of_def unsigned_ucast_eq unat_drop_bit_div) (simp add: take_bit_eq_mod)

lemma byte_counter: "bits_table ! unat (byte_of k x) = pop (unat x div 2 ^ (8 * k) mod 2 ^ 8)"
  by (simp add: bits_table_pop unat_byte_of)

lemma four_bytes:
  "pop (unat x mod 2 ^ 32) = bits_table ! unat (byte_of 0 x) + bits_table ! unat (byte_of 1 x) +
     bits_table ! unat (byte_of 2 x) + bits_table ! unat (byte_of 3 x)"
proof -
  have "sum_list (map pop (digits (2 ^ 8) 4 (unat x))) =
      pop (unat x mod 2 ^ 8) + pop (unat x div 2 ^ 8 mod 2 ^ 8) + pop (unat x div 2 ^ 16 mod 2 ^ 8) +
      pop (unat x div 2 ^ 24 mod 2 ^ 8)"
    by (simp add: digits_numeral flip: div_mult2_eq)
  moreover have "sum_list (map pop (digits (2 ^ 8) 4 (unat x))) = pop (unat x mod 2 ^ 32)"
    using pop_digits [of 8 4 "unat x"] by simp
  moreover have "unat x div 2 ^ (8 * 0) = unat x" "8 * 1 = (8 :: nat)" "8 * 2 = (16 :: nat)"
    "8 * 3 = (24 :: nat)" by simp_all
  ultimately show ?thesis unfolding byte_counter by (simp only:)
qed

section \<open>Arithmetic shifts\<close>

lemma bit_signed_drop:
  "i < 64 \<Longrightarrow> bit (signed_drop_bit k (x :: clong)) i \<longleftrightarrow> bit x (if 64 - k \<le> i then 63 else k + i)"
  by (simp add: bit_signed_drop_bit_iff)

lemma signed_drop_nonneg:
  assumes "\<not> bit (x :: clong) 63"
  shows "signed_drop_bit k x = drop_bit k x"
proof (rule bit_word_eqI)
  fix i assume i: "i < LENGTH(64)"
  show "bit (signed_drop_bit k x) i = bit (drop_bit k x) i"
  proof (cases "64 - k \<le> i")
    case True
    then have "\<not> bit x (k + i)" using bit_imp_le_length [of x "k + i"] by auto
    with True i assms show ?thesis by (simp add: bit_signed_drop bit_drop_bit_eq)
  next
    case False
    with i show ?thesis by (simp add: bit_signed_drop bit_drop_bit_eq)
  qed
qed

lemma nonneg_drop: "\<not> bit (x :: clong) 63 \<Longrightarrow> 0 < k \<Longrightarrow> \<not> bit (drop_bit k x) 63"
  using bit_imp_le_length [of x "k + 63"] by (auto simp: bit_drop_bit_eq)

lemma signed_drop_neg:
  assumes "bit (x :: clong) 63"
  shows "bit (signed_drop_bit k x) 63" "signed_drop_bit k x \<noteq> 0"
proof -
  show *: "bit (signed_drop_bit k x) 63" using assms by (cases k) (simp_all add: bit_signed_drop)
  then show "signed_drop_bit k x \<noteq> 0" by auto
qed

lemma shifter_loop:
  "left \<le> 64 \<Longrightarrow> bit_shifter_loop left x n = n + (\<Sum>i < left. of_bool (bit x i))"
proof (induction left x n rule: bit_shifter_loop.induct)
  case (2 left x n)
  show ?case
  proof (cases "x = 0")
    case False
    have b: "(\<Sum>i < left. of_bool (bit (signed_drop_bit 1 x) i)) = (\<Sum>i < left. of_bool (bit x (Suc i)) :: nat)"
      using 2(2) by (intro sum.cong) (simp_all add: bit_signed_drop)
    have "unat (x AND 1) = of_bool (bit x 0)"
      by (cases "bit x 0") (simp_all add: and_one_eq bit_0 mod_2_eq_odd)
    with 2 False b show ?thesis
      by (simp add: sum.lessThan_Suc_shift del: sum.lessThan_Suc)
  qed simp
qed simp

lemma bit_shifter_eq: "bit_shifter x = popcount x"
proof -
  have "{..<64} \<inter> {i. bit x i} = {i. bit x i}"
    using bit_imp_le_length [of x] by auto
  then have "popcount x = (\<Sum>i < 64. of_bool (bit x i))"
    by (simp add: popcount_def sum_of_bool_eq)
  then show ?thesis by (simp add: bit_shifter_def shifter_loop)
qed

section \<open>The recursive counters\<close>

lemma ntbl_bitcnt_nonneg: "\<not> bit x 63 \<Longrightarrow> ntbl_bitcnt x = Some (pop (unat x))"
proof (induction "unat x" arbitrary: x rule: less_induct)
  case less
  let ?x = "drop_bit 4 x"
  have c: "bits_table ! unat (x AND 0x0000000F) = pop (unat x mod 2 ^ 4)"
    using nybble [of 0 "0x0000000F" x] by simp
  have x: "signed_drop_bit 4 x = ?x" by (rule signed_drop_nonneg [OF less.prems])
  have u: "unat ?x = unat x div 2 ^ 4" by (rule unat_drop_bit_div)
  have p: "pop (unat x mod 2 ^ 4) + pop (unat ?x) = pop (unat x)"
    unfolding u by (rule pop_split [symmetric])
  have step: "ntbl_bitcnt x = (if ?x \<noteq> 0
      then Option.bind (ntbl_bitcnt ?x) (\<lambda>c. Some (pop (unat x mod 2 ^ 4) + c))
      else Some (pop (unat x mod 2 ^ 4)))"
    by (subst ntbl_bitcnt.simps) (simp only: Let_def c x)
  show ?case
  proof (cases "?x = 0")
    case True
    with step p show ?thesis by simp
  next
    case False
    then have "unat x div 2 ^ 4 \<noteq> 0" using u by (metis unat_eq_zero)
    then have "unat ?x < unat x" unfolding u by (intro div_less_dividend) (auto intro: ccontr)
    from less.hyps [OF this] nonneg_drop [OF less.prems] have "ntbl_bitcnt ?x = Some (pop (unat ?x))"
      by simp
    with False step p show ?thesis by simp
  qed
qed

lemma btbl_bitcnt_nonneg: "\<not> bit x 63 \<Longrightarrow> btbl_bitcnt x = Some (pop (unat x))"
proof (induction "unat x" arbitrary: x rule: less_induct)
  case less
  let ?x = "drop_bit 8 x"
  have c: "bits_table ! unat (byte_of 0 x) = pop (unat x mod 2 ^ 8)"
    using byte_counter [of 0 x] by simp
  have x: "signed_drop_bit 8 x = ?x" by (rule signed_drop_nonneg [OF less.prems])
  have u: "unat ?x = unat x div 2 ^ 8" by (rule unat_drop_bit_div)
  have p: "pop (unat x mod 2 ^ 8) + pop (unat ?x) = pop (unat x)"
    unfolding u by (rule pop_split [symmetric])
  have step: "btbl_bitcnt x = (if ?x \<noteq> 0
      then Option.bind (btbl_bitcnt ?x) (\<lambda>c. Some (pop (unat x mod 2 ^ 8) + c))
      else Some (pop (unat x mod 2 ^ 8)))"
    by (subst btbl_bitcnt.simps) (simp only: Let_def c x)
  show ?case
  proof (cases "?x = 0")
    case True
    with step p show ?thesis by simp
  next
    case False
    then have "unat x div 2 ^ 8 \<noteq> 0" using u by (metis unat_eq_zero)
    then have "unat ?x < unat x" unfolding u by (intro div_less_dividend) (auto intro: ccontr)
    from less.hyps [OF this] nonneg_drop [OF less.prems] have "btbl_bitcnt ?x = Some (pop (unat ?x))"
      by simp
    with False step p show ?thesis by simp
  qed
qed

lemma ntbl_bitcnt_neg:
  assumes "bit x 63"
  shows "ntbl_bitcnt x = None"
proof -
  have "\<not> bit x 63" if "ntbl_bitcnt x = Some r" for r
  proof (rule ntbl_bitcnt.raw_induct [OF _ that])
    fix f :: "clong \<Rightarrow> nat option" and x r
    assume IH: "\<And>x r. f x = Some r \<Longrightarrow> \<not> bit x 63"
      and body: "(let cnt = bits_table ! unat (x AND 0x0000000F); x' = signed_drop_bit 4 x
        in if x' \<noteq> 0 then Option.bind (f x') (\<lambda>c. Some (cnt + c)) else Some cnt) = Some r"
    show "\<not> bit x 63"
      using IH [of "signed_drop_bit 4 x"] body signed_drop_neg [of x 4]
      by (cases "f (signed_drop_bit 4 x)") (auto simp: Let_def)
  qed
  with assms show ?thesis by (cases "ntbl_bitcnt x") auto
qed

lemma btbl_bitcnt_neg:
  assumes "bit x 63"
  shows "btbl_bitcnt x = None"
proof -
  have "\<not> bit x 63" if "btbl_bitcnt x = Some r" for r
  proof (rule btbl_bitcnt.raw_induct [OF _ that])
    fix f :: "clong \<Rightarrow> nat option" and x r
    assume IH: "\<And>x r. f x = Some r \<Longrightarrow> \<not> bit x 63"
      and body: "(let cnt = bits_table ! unat (byte_of 0 x); x' = signed_drop_bit 8 x
        in if x' \<noteq> 0 then Option.bind (f x') (\<lambda>c. Some (cnt + c)) else Some cnt) = Some r"
    show "\<not> bit x 63"
      using IH [of "signed_drop_bit 8 x"] body signed_drop_neg [of x 8]
      by (cases "f (signed_drop_bit 8 x)") (auto simp: Let_def)
  qed
  with assms show ?thesis by (cases "btbl_bitcnt x") auto
qed

lemma popcount_low: "popcount (take_bit 32 (x :: clong)) = pop (unat x mod 2 ^ 32)"
  by (simp only: popcount_pop unsigned_take_bit_eq) (simp add: take_bit_eq_mod)

section \<open>What the counters count\<close>

text \<open>
  C27: the counters that mask or look up fixed positions count the set bits of the low 32 bits of
  their argument: the pairwise additions of \<open>bitcount\<close>, the eight nybbles and the four bytes.
\<close>

theorem counters_low_word:
  "unat (bitcount x) = popcount (take_bit 32 x) \<and>
   ntbl_bitcount x = popcount (take_bit 32 x) \<and>
   BW_btbl_bitcount x = popcount (take_bit 32 x) \<and>
   AR_btbl_bitcount x = popcount (take_bit 32 x)"
  using four_bytes [of x]
  by (simp add: popcount_low bitcount_eq ntbl_bitcount_eq BW_btbl_bitcount_def AR_btbl_bitcount_def)

text \<open>
  C26: the loops that clear the lowest set bit and that shift count all 64 bits; the recursive
  table counters do so for every non-negative argument and do not return for a negative one,
  because the arithmetic shift never reaches zero.
\<close>

theorem counters_all_bits:
  "bit_count x = popcount x \<and> bit_shifter x = popcount x \<and>
   ntbl_bitcnt x = (if bit x 63 then None else Some (popcount x)) \<and>
   btbl_bitcnt x = (if bit x 63 then None else Some (popcount x))"
  by (simp add: bit_count_eq bit_shifter_eq ntbl_bitcnt_neg btbl_bitcnt_neg ntbl_bitcnt_nonneg
      btbl_bitcnt_nonneg popcount_pop)

lemma small_counters:
  assumes "unat x < 2 ^ 32"
  shows "pBitCntFunc f x = Some (popcount x)"
proof -
  have "take_bit 32 (unat x) = unat x" using assms by (simp add: take_bit_nat_eq_self)
  then have "\<not> bit (unat x) 63" using bit_take_bit_iff [of 32 "unat x" 63] by simp
  then have "\<not> bit x 63" by (simp add: bit_unsigned_iff)
  moreover have "unat x mod 2 ^ 32 = unat x" using assms by simp
  ultimately show ?thesis
    using bitcount_eq [of x] ntbl_bitcount_eq [of x] four_bytes [of x]
    by (cases f) (auto simp: bit_count_eq bit_shifter_eq ntbl_bitcnt_nonneg popcount_pop
        BW_btbl_bitcount_def AR_btbl_bitcount_def)
qed

text \<open>
  The benchmark is fair. As long as the seeds stay below \<open>2 ^ 32\<close> every one of the seven
  counters of \<open>main\<close> returns, and all of them print the same total: the number of set bits of all
  seeds.
\<close>

theorem bench_totals:
  assumes "unat seed + 13 * iterations \<le> 2 ^ 32"
  shows "bench_loop f iterations seed n =
    Some (n + (\<Sum>j < iterations. popcount (seed + 13 * of_nat j)))"
  using assms
proof (induction iterations arbitrary: seed n)
  case (Suc it)
  have "unat (seed + 13) = unat seed + 13"
    using Suc.prems by (simp add: unat_word_ariths)
  then have "bench_loop f it (seed + 13) (n + popcount seed) =
      Some (n + popcount seed + (\<Sum>j < it. popcount (seed + 13 + 13 * of_nat j)))"
    using Suc.prems by (intro Suc.IH) simp
  moreover have "pBitCntFunc f seed = Some (popcount seed)"
    using Suc.prems by (intro small_counters) simp
  ultimately show ?case
    by (simp add: sum.lessThan_Suc_shift algebra_simps del: sum.lessThan_Suc)
qed simp

theorem bench_totals_witness:
  "bench_loop Ntbl_bitcnt 3 7 0 = Some (0 + (\<Sum>j < 3. popcount (7 + 13 * of_nat j :: clong)))"
  by (rule bench_totals) simp

end
