(* ===== verification/Int_Math.thy ===== *)
theory Int_Math
  imports Guardian_Prelude "HOL-Library.Signed_Division"
begin

text \<open>
  Integer arithmetic of the simulator (\<open>base/intmath.hh\<close>, \<open>base/intmath.cc\<close>). The templates are
  taken at the unsigned widths they are used with; \<open>floorLog2\<close> at both widths it is written for.
\<close>

section \<open>Logarithms\<close>

text \<open>One line \<open>if (x & m) { y += k; x >>= k; }\<close>.\<close>

definition log2_step :: "nat \<Rightarrow> 'a::len word \<Rightarrow> nat \<times> 'a word \<Rightarrow> nat \<times> 'a word" where
  "log2_step k m s = (let (y, x) = s in if x AND m \<noteq> 0 then (y + k, drop_bit k x) else (y, x))"

definition floorLog2_u32 :: "u32 \<Rightarrow> nat res" where
  "floorLog2_u32 x =
     bindE (assertE (x > 0)) (\<lambda>_.
     let s = (0, x);
         s = log2_step 16 0xffff0000 s;
         s = log2_step 8 0x0000ff00 s;
         s = log2_step 4 0x000000f0 s;
         (y, x) = log2_step 2 0x0000000c s
     in Inr (if x AND 0x00000002 \<noteq> 0 then y + 1 else y))"

definition floorLog2_u64 :: "u64 \<Rightarrow> nat res" where
  "floorLog2_u64 x =
     bindE (assertE (x > 0)) (\<lambda>_.
     let s = (0, x);
         s = log2_step 32 0xffffffff00000000 s;
         s = log2_step 16 0x00000000ffff0000 s;
         s = log2_step 8 0x000000000000ff00 s;
         s = log2_step 4 0x00000000000000f0 s;
         (y, x) = log2_step 2 0x000000000000000c s
     in Inr (if x AND 0x0000000000000002 \<noteq> 0 then y + 1 else y))"

text \<open>The overload for a signed \<open>int\<close>.\<close>

definition floorLog2_int :: "int \<Rightarrow> nat res" where
  "floorLog2_int x = bindE (assertE (x > 0)) (\<lambda>_. floorLog2_u32 (of_int x))"

definition ceilLog2 :: "u64 \<Rightarrow> nat res" where
  "ceilLog2 n = (if n = 1 then Inr 0 else bindE (floorLog2_u64 (n - 1)) (\<lambda>l. Inr (l + 1)))"

definition ceilLog2_u32 :: "u32 \<Rightarrow> nat res" where
  "ceilLog2_u32 n = (if n = 1 then Inr 0 else bindE (floorLog2_u32 (n - 1)) (\<lambda>l. Inr (l + 1)))"

definition floorPow2 :: "u64 \<Rightarrow> u64 res" where
  "floorPow2 n = bindE (floorLog2_u64 n) (\<lambda>l. Inr (push_bit l 1))"

definition ceilPow2 :: "u64 \<Rightarrow> u64 res" where
  "ceilPow2 n = bindE (ceilLog2 n) (\<lambda>l. if 64 \<le> l then Inl BadShift else Inr (push_bit l 1))"

section \<open>Powers of two and alignment\<close>

definition leastSigBit :: "'a::len word \<Rightarrow> 'a word" where
  "leastSigBit n = n AND NOT (n - 1)"

definition isPowerOf2 :: "'a::len word \<Rightarrow> bool" where
  "isPowerOf2 n \<longleftrightarrow> n \<noteq> 0 \<and> leastSigBit n = n"

definition divCeil :: "u64 \<Rightarrow> u64 \<Rightarrow> u64 res" where
  "divCeil a b = (if b = 0 then Inl DivByZero else Inr ((a + b - 1) div b))"

definition roundUp :: "u64 \<Rightarrow> u64 \<Rightarrow> u64" where
  "roundUp val align = (let m = align - 1 in (val + m) AND NOT m)"

definition roundDown :: "u64 \<Rightarrow> u64 \<Rightarrow> u64" where
  "roundDown val align = (let m = align - 1 in val AND NOT m)"

text \<open>\<open>power\<close>: the result and the number of overflow warnings.\<close>

fun power_loop :: "nat \<Rightarrow> u32 \<Rightarrow> u64 \<times> nat \<Rightarrow> u64 \<times> nat" where
  "power_loop 0 n s = s"
| "power_loop (Suc k) n (result, warns) =
     (let old_result = result; result = result * ucast n
      in power_loop k n (result, if old_result > result then warns + 1 else warns))"

definition power_u32 :: "u32 \<Rightarrow> u32 \<Rightarrow> u64 \<times> nat" where
  "power_u32 n e = (if e = 0 then (1, 0) else power_loop (unat e - 1) n (ucast n, 0))"

section \<open>Primes\<close>

text \<open>
  \<open>isPrime\<close> on an \<open>int\<close> (for arguments below \<open>46337 ^ 2\<close>, where the squares of the loop stay in
  range).
\<close>

function prime_loop :: "int \<Rightarrow> int \<Rightarrow> bool" where
  "prime_loop i n =
     (if i * i \<le> n \<and> 0 < i
      then if n mod i = 0 \<or> n mod (i + 2) = 0 then False else prime_loop (i + 6) n
      else True)"
  by pat_completeness auto
termination
proof (relation "measure (\<lambda>(i, n). nat (n + 1 - i))")
  fix i n :: int
  assume a: "i * i \<le> n \<and> 0 < i"
  then have "i * 1 \<le> i * i" by (intro mult_left_mono) auto
  with a have "i \<le> n" by linarith
  then show "((i + 6, n), i, n) \<in> measure (\<lambda>(i, n). nat (n + 1 - i))" using a by simp
qed simp

declare prime_loop.simps [simp del]

definition isPrime :: "int \<Rightarrow> bool" where
  "isPrime n \<longleftrightarrow> (if n = 2 \<or> n = 3 then True else prime_loop 5 n)"

text \<open>
  \<open>prevPrime\<close>: the loop runs until a candidate passes \<open>isPrime\<close>; \<open>None\<close> would be a loop that does not
  end. \<open>%\<close> truncates towards zero.
\<close>

partial_function (option) prev_loop :: "int \<Rightarrow> int \<Rightarrow> int option" where
  "prev_loop n decr = (if isPrime n then Some n else prev_loop (n - decr) (6 - decr))"

definition prevPrime :: "int \<Rightarrow> int option" where
  "prevPrime n =
     (let n = (if n AND 1 = 0 then n - 1 else n);
          decr = n smod 3;
          (n, decr) = (if decr = 0 then (n - 2, 2) else if decr = 1 then (n, 4) else (n, decr))
      in prev_loop n decr)"

section \<open>Characters\<close>

definition between :: "char \<Rightarrow> char \<Rightarrow> char \<Rightarrow> bool" where
  "between lo c hi \<longleftrightarrow> (of_char lo :: nat) \<le> of_char c \<and> (of_char c :: nat) \<le> of_char hi"

definition isDec :: "char \<Rightarrow> bool" where
  "isDec c \<longleftrightarrow> between CHR ''0'' c CHR ''9''"

definition isOct :: "char \<Rightarrow> bool" where
  "isOct c \<longleftrightarrow> between CHR ''0'' c CHR ''7''"

definition isHex :: "char \<Rightarrow> bool" where
  "isHex c \<longleftrightarrow> between CHR ''0'' c CHR ''9'' \<or> between CHR ''A'' c CHR ''F'' \<or> between CHR ''a'' c CHR ''f''"

definition hex2Int :: "char \<Rightarrow> nat" where
  "hex2Int c =
     (if between CHR ''0'' c CHR ''9'' then of_char c - of_char CHR ''0''
      else if between CHR ''A'' c CHR ''F'' then of_char c - of_char CHR ''A'' + 10
      else if between CHR ''a'' c CHR ''f'' then of_char c - of_char CHR ''a'' + 10
      else 0)"

section \<open>The logarithm\<close>

lemma and_high_bits:
  fixes x :: "'a::len word"
  assumes "unat x < 2 ^ (2 * k)"
  shows "x AND push_bit k (mask k) = 0 \<longleftrightarrow> unat x < 2 ^ k"
proof -
  have "unat (take_bit (2 * k) x) = take_bit (2 * k) (unat x)" by (rule unsigned_take_bit_eq)
  also have "\<dots> = unat x" using assms by (simp add: take_bit_nat_eq_self)
  finally have t: "take_bit (2 * k) x = x" by (simp only: word_unat_eq_iff)
  have b: "bit x n \<Longrightarrow> n < 2 * k" for n using t by (metis bit_take_bit_iff)
  have "x AND push_bit k (mask k) = push_bit k (drop_bit k x)"
    by (rule bit_word_eqI) (use b in \<open>fastforce simp: bit_simps\<close>)
  also have "\<dots> = 0 \<longleftrightarrow> drop_bit k x = 0"
  proof
    assume p: "push_bit k (drop_bit k x) = 0"
    have "\<not> bit x (k + n)" for n
      using p bit_imp_le_length [of x "k + n"] by (auto simp: bit_eq_iff bit_simps dest: spec [of _ "k + n"])
    then show "drop_bit k x = 0" by (intro bit_word_eqI) (simp add: bit_simps)
  qed simp
  also have "\<dots> \<longleftrightarrow> unat (drop_bit k x) = 0" by (simp add: unat_eq_zero)
  also have "\<dots> \<longleftrightarrow> unat x < 2 ^ k" by (auto simp: unat_drop_bit div_eq_0_iff)
  finally show ?thesis .
qed

text \<open>
  A step keeps that the shifted value is what remains of the original, and halves the number of
  bits it may have.
\<close>

definition log_inv :: "nat \<Rightarrow> 'a::len word \<Rightarrow> nat \<times> 'a word \<Rightarrow> bool" where
  "log_inv k x0 s \<longleftrightarrow>
     (case s of (y, x) \<Rightarrow> unat x = unat x0 div 2 ^ y \<and> 0 < unat x \<and> unat x < 2 ^ k)"

lemma log2_step_inv:
  assumes "log_inv (2 * k) x0 s" "m = push_bit k (mask k)"
  shows "log_inv k x0 (log2_step k m s)"
proof -
  obtain y x where s: "s = (y, x)" by (cases s)
  have i: "unat x = unat x0 div 2 ^ y" "0 < unat x" "unat x < 2 ^ (2 * k)"
    using assms(1) by (auto simp: log_inv_def s)
  note h = and_high_bits [OF i(3)]
  show ?thesis
  proof (cases "unat x < 2 ^ k")
    case True
    with h i show ?thesis by (simp add: log2_step_def s assms(2) log_inv_def)
  next
    case False
    have "unat x div 2 ^ k < 2 ^ k"
      using i(3) by (simp add: div_less_iff_less_mult mult_2 power_add)
    moreover have "0 < unat x div 2 ^ k" using False by (simp add: div_greater_zero_iff)
    moreover have "unat x div 2 ^ k = unat x0 div 2 ^ (y + k)"
      using i(1) by (simp add: div_mult2_eq power_add)
    ultimately show ?thesis using False h
      by (simp add: log2_step_def s assms(2) log_inv_def unat_drop_bit)
  qed
qed

lemma log_last:
  assumes "log_inv 2 x0 (y, x)"
  shows "let l = (if x AND 2 \<noteq> 0 then y + 1 else y) in 2 ^ l \<le> unat x0 \<and> unat x0 < 2 ^ (l + 1)"
proof -
  have i: "unat x = unat x0 div 2 ^ y" "0 < unat x" "unat x < 4"
    using assms by (auto simp: log_inv_def)
  have m: "push_bit 1 (mask 1) = (2 :: 'a word)" by simp
  have "x AND push_bit 1 (mask 1) = 0 \<longleftrightarrow> unat x < 2 ^ 1"
    by (rule and_high_bits) (use i(3) in simp)
  then have h: "x AND 2 = 0 \<longleftrightarrow> unat x < 2" unfolding m by simp
  have q: "q * 2 ^ y \<le> unat x0 \<and> unat x0 < (q + 1) * 2 ^ y" if "unat x = q" for q
    using that i(1) div_times_less_eq_dividend [of "unat x0" "2 ^ y"]
      dividend_less_div_times [of "2 ^ y" "unat x0"] by simp
  consider "unat x = 1" | "unat x = 2" | "unat x = 3" using i(2,3) by linarith
  then show ?thesis
  proof cases
    case 1
    with h q [of 1] show ?thesis by simp
  next
    case 2
    with h q [of 2] show ?thesis by simp
  next
    case 3
    with h q [of 3] show ?thesis by simp
  qed
qed

lemma log_start: "0 < x \<Longrightarrow> log_inv LENGTH('a) x (0, x)" for x :: "'a::len word"
  by (simp add: log_inv_def unat_gt_0 word_gt_0)

lemma log2_step_half:
  "\<lbrakk>log_inv j x0 s; j = 2 * k; m = push_bit k (2 ^ k - 1)\<rbrakk> \<Longrightarrow> log_inv k x0 (log2_step k m s)"
  using log2_step_inv [of k x0 s m] by (simp add: mask_eq_exp_minus_1)

lemma log_result:
  assumes "log_inv 2 x s"
  shows "\<exists>l. (case s of (y, x) \<Rightarrow> Inr (if x AND 2 \<noteq> 0 then y + 1 else y)) = (Inr l :: nat res) \<and>
    2 ^ l \<le> unat x \<and> unat x < 2 ^ (l + 1)"
  using log_last [of x "fst s" "snd s"] assms by (cases s) (simp add: Let_def split: if_splits)

lemma floorLog2_u32_bounds:
  assumes "0 < x"
  shows "\<exists>l. floorLog2_u32 x = Inr l \<and> 2 ^ l \<le> unat x \<and> unat x < 2 ^ (l + 1)"
proof -
  have "log_inv 32 x (0, x)" using log_start [OF assms] by simp
  then have "log_inv 2 x (log2_step 2 0x0000000c (log2_step 4 0x000000f0 (log2_step 8 0x0000ff00
      (log2_step 16 0xffff0000 (0, x)))))"
    by (intro log2_step_half [of 4] log2_step_half [of 8] log2_step_half [of 16] log2_step_half [of 32])
      simp_all
  with assms show ?thesis
    using log_result unfolding floorLog2_u32_def Let_def by simp
qed

lemma floorLog2_u64_bounds:
  assumes "0 < x"
  shows "\<exists>l. floorLog2_u64 x = Inr l \<and> 2 ^ l \<le> unat x \<and> unat x < 2 ^ (l + 1)"
proof -
  have "log_inv 64 x (0, x)" using log_start [OF assms] by simp
  then have "log_inv 2 x (log2_step 2 0x000000000000000c (log2_step 4 0x00000000000000f0
      (log2_step 8 0x000000000000ff00 (log2_step 16 0x00000000ffff0000
      (log2_step 32 0xffffffff00000000 (0, x))))))"
    by (intro log2_step_half [of 4] log2_step_half [of 8] log2_step_half [of 16] log2_step_half [of 32]
        log2_step_half [of 64]) simp_all
  with assms show ?thesis
    using log_result unfolding floorLog2_u64_def Let_def by simp
qed

lemma floorLog2_zero:
  "floorLog2_u32 0 = Inl AssertFail" "floorLog2_u64 0 = Inl AssertFail"
  by (simp_all add: floorLog2_u32_def floorLog2_u64_def assertE_def)

text \<open>
  \<open>floorLog2\<close> of a positive argument is the exponent of the largest power of two that does not
  exceed it, at both widths, and fails its assertion for 0.
\<close>

theorem floorLog2_bounds:
  "(if x = 0 then floorLog2_u32 x = Inl AssertFail
    else \<exists>l. floorLog2_u32 x = Inr l \<and> 2 ^ l \<le> unat x \<and> unat x < 2 ^ (l + 1)) \<and>
   (if w = 0 then floorLog2_u64 w = Inl AssertFail
    else \<exists>l. floorLog2_u64 w = Inr l \<and> 2 ^ l \<le> unat w \<and> unat w < 2 ^ (l + 1))"
  using floorLog2_u32_bounds [of x] floorLog2_u64_bounds [of w]
  by (simp add: floorLog2_zero word_gt_0)

section \<open>Primes\<close>

lemma prime_loop_iff:
  assumes "i mod 6 = 5" "0 < i"
  shows "prime_loop i n \<longleftrightarrow>
    (\<forall>j. i \<le> j \<and> j mod 6 = 5 \<and> j * j \<le> n \<longrightarrow> n mod j \<noteq> 0 \<and> n mod (j + 2) \<noteq> 0)"
  using assms
proof (induction i n rule: prime_loop.induct)
  case (1 i n)
  show ?case
  proof (cases "i * i \<le> n")
    case False
    have "\<not> j * j \<le> n" if "i \<le> j" for j
      using False 1(3) that mult_mono [of i j i j] by auto
    with False show ?thesis by (subst prime_loop.simps) auto
  next
    case True
    have next_j: "j = i \<or> i + 6 \<le> j" if "i \<le> j" "j mod 6 = 5" for j
      using that 1(2) by presburger
    show ?thesis
    proof (cases "n mod i = 0 \<or> n mod (i + 2) = 0")
      case True
      with \<open>i * i \<le> n\<close> 1(2,3) show ?thesis by (subst prime_loop.simps) auto
    next
      case False
      have "prime_loop i n \<longleftrightarrow> prime_loop (i + 6) n"
        using True False 1(3) by (subst prime_loop.simps) simp
      also have "\<dots> \<longleftrightarrow> (\<forall>j. i + 6 \<le> j \<and> j mod 6 = 5 \<and> j * j \<le> n \<longrightarrow> n mod j \<noteq> 0 \<and> n mod (j + 2) \<noteq> 0)"
        using True False 1(2,3) by (intro 1(1)) simp_all
      also have "\<dots> \<longleftrightarrow> (\<forall>j. i \<le> j \<and> j mod 6 = 5 \<and> j * j \<le> n \<longrightarrow> n mod j \<noteq> 0 \<and> n mod (j + 2) \<noteq> 0)"
      proof (rule all_cong1)
        fix j
        show "(i + 6 \<le> j \<and> j mod 6 = 5 \<and> j * j \<le> n \<longrightarrow> n mod j \<noteq> 0 \<and> n mod (j + 2) \<noteq> 0) \<longleftrightarrow>
          (i \<le> j \<and> j mod 6 = 5 \<and> j * j \<le> n \<longrightarrow> n mod j \<noteq> 0 \<and> n mod (j + 2) \<noteq> 0)"
          using False next_j [of j] by (cases "j = i") auto
      qed
      finally show ?thesis .
    qed
  qed
qed

lemma small_divisor:
  fixes n :: int
  assumes "1 < d" "d < n" "d dvd n"
  obtains e where "1 < e" "e * e \<le> n" "e dvd n"
proof (cases "d * d \<le> n")
  case False
  obtain e where e: "n = d * e" using assms(3) by (auto elim: dvdE)
  then have "1 < e" using assms by (metis mult_1_right mult_less_cancel_left_pos less_trans zero_less_one)
  moreover have "e < d" using False e assms(1) by (simp add: not_le)
  then have "e * e \<le> n" using e \<open>1 < e\<close> by (simp add: mult_right_mono)
  ultimately show thesis using that e by simp
qed (use assms that in blast)

text \<open>
  \<open>isPrime\<close> decides primality of the numbers above 1 that neither 2 nor 3 divides; divisors 2
  and 3 are not tried.
\<close>

theorem isPrime_correct:
  assumes "1 < n" "n mod 2 \<noteq> 0" "n mod 3 \<noteq> 0"
  shows "isPrime n \<longleftrightarrow> (\<forall>d. 1 < d \<and> d < n \<longrightarrow> \<not> d dvd n)"
proof -
  have i: "isPrime n = prime_loop 5 n" using assms by (auto simp: isPrime_def)
  have l: "prime_loop 5 n \<longleftrightarrow>
      (\<forall>j. 5 \<le> j \<and> j mod 6 = 5 \<and> j * j \<le> n \<longrightarrow> n mod j \<noteq> 0 \<and> n mod (j + 2) \<noteq> 0)"
    by (rule prime_loop_iff) simp_all
  show ?thesis
  proof
    assume p: "isPrime n"
    show "\<forall>d. 1 < d \<and> d < n \<longrightarrow> \<not> d dvd n"
    proof (intro allI impI notI)
      fix d assume "1 < d \<and> d < n" "d dvd n"
      then obtain e where e: "1 < e" "e * e \<le> n" "e dvd n" by (blast elim: small_divisor)
      have "e mod 2 \<noteq> 0" "e mod 3 \<noteq> 0"
        using e(3) assms(2,3) by (metis dvd_imp_mod_0 dvd_trans mod_0_imp_dvd)+
      then have "e mod 6 = 5 \<or> (e - 2) mod 6 = 5" "5 \<le> e" using e(1) by presburger+
      moreover have "(e - 2) * (e - 2) \<le> n" if "2 \<le> e"
        using that e(1,2) mult_mono [of "e - 2" e "e - 2" e] by linarith
      moreover have "5 \<le> e - 2" if "(e - 2) mod 6 = 5" using that e(1) by presburger
      ultimately show False
        using p e l unfolding i by (auto dest: spec [of _ e] spec [of _ "e - 2"])
    qed
  next
    assume nd: "\<forall>d. 1 < d \<and> d < n \<longrightarrow> \<not> d dvd n"
    have "n mod j \<noteq> 0 \<and> n mod (j + 2) \<noteq> 0" if "5 \<le> j" "j * j \<le> n" for j
    proof -
      have "j + 2 < n" using that mult_mono [of 5 j j j] by linarith
      then have "1 < j \<and> j < n" "1 < j + 2 \<and> j + 2 < n" using that(1) by linarith+
      with nd have "\<not> j dvd n" "\<not> (j + 2) dvd n" by blast+
      then show ?thesis unfolding dvd_eq_mod_eq_0 by (rule conjI)
    qed
    then show "isPrime n" unfolding i l by (intro allI impI) (elim conjE)
  qed
qed

theorem isPrime_correct_witness:
  "isPrime 35 \<longleftrightarrow> (\<forall>d. 1 < d \<and> d < 35 \<longrightarrow> \<not> d dvd (35 :: int))"
  by (rule isPrime_correct) simp_all

lemma smod_nonneg: "\<lbrakk>0 \<le> a; 0 < b\<rbrakk> \<Longrightarrow> a smod b = (a mod b :: int)"
  by (simp add: signed_modulo_int_def signed_divide_int_def minus_mult_div_eq_mod [symmetric] sgn_if algebra_simps)

lemma isPrime_small: "n < 25 \<Longrightarrow> isPrime n"
  unfolding isPrime_def by (subst prime_loop.simps) simp

lemma prev_loop_returns:
  "decr = 2 \<or> decr = 4 \<Longrightarrow> \<exists>p. prev_loop n decr = Some p \<and> isPrime p \<and> p \<le> n"
proof (induction "nat n" arbitrary: n decr rule: less_induct)
  case less
  show ?case
  proof (cases "isPrime n")
    case False
    then have "25 \<le> n" using isPrime_small [of n] by linarith
    then have "nat (n - decr) < nat n" "6 - decr = 2 \<or> 6 - decr = 4" using less.prems by auto
    from less.hyps [OF this] obtain p where
      "prev_loop (n - decr) (6 - decr) = Some p" "isPrime p" "p \<le> n - decr" by blast
    with False less.prems show ?thesis by (subst prev_loop.simps) auto
  qed (subst prev_loop.simps, simp)
qed

text \<open>
  The search of \<open>prevPrime\<close> ends for every argument: it returns a number not above it that
  \<open>isPrime\<close> accepts.
\<close>

theorem prevPrime_returns: "\<exists>p. prevPrime n = Some p \<and> isPrime p \<and> p \<le> n"
proof -
  define m where "m = (if n AND 1 = 0 then n - 1 else n)"
  have pr: "prevPrime n = (if m smod 3 = 0 then prev_loop (m - 2) 2
      else if m smod 3 = 1 then prev_loop m 4 else prev_loop m (m smod 3))"
    by (simp add: prevPrime_def m_def Let_def)
  have m: "m \<le> n" by (simp add: m_def)
  have lp: "\<exists>p. prev_loop k d = Some p \<and> isPrime p \<and> p \<le> n" if "k \<le> n" "d = 2 \<or> d = 4" for k d
    using prev_loop_returns [OF that(2), of k] that(1) by (blast intro: order_trans)
  show ?thesis
  proof (cases "m < 0")
    case True
    then have "isPrime m" by (simp add: isPrime_small)
    then have "prev_loop m d = Some m" for d by (subst prev_loop.simps) simp
    with \<open>isPrime m\<close> m lp [of "m - 2" 2] show ?thesis unfolding pr by auto
  next
    case False
    then have "m smod 3 = m mod 3" by (simp add: smod_nonneg)
    then have "m smod 3 = 0 \<or> m smod 3 = 1 \<or> m smod 3 = 2" by presburger
    then show ?thesis unfolding pr using lp [of "m - 2" 2] lp [of m 4] lp [of m 2] m by auto
  qed
qed

text \<open>
  From a number that is 5 modulo 6 the first step of \<open>prevPrime\<close> leads to a multiple of 3, a
  divisor \<open>isPrime\<close> does not try, and may return it.
\<close>

theorem prevPrime_multiple_of_3:
  assumes "0 < n" "n mod 6 = 5" "\<not> isPrime n" "isPrime (n - 2)"
  shows "prevPrime n = Some (n - 2) \<and> 3 dvd (n - 2)"
proof -
  have o: "n AND 1 = 1" "n mod 3 = 2" "3 dvd (n - 2)"
    using assms(2) by (simp_all add: and_one_eq odd_iff_mod_2_eq_one, presburger+)
  have "n smod 3 = n mod 3"
    using assms(1) by (simp add: smod_nonneg)
  then have "prevPrime n = prev_loop n 2" using o by (simp add: prevPrime_def)
  also have "\<dots> = prev_loop (n - 2) 4" using assms(3) by (subst prev_loop.simps) simp
  also have "\<dots> = Some (n - 2)" using assms(4) by (subst prev_loop.simps) simp
  finally show ?thesis using o(3) by simp
qed

theorem prevPrime_multiple_of_3_witness:
  "prevPrime 35 = Some 33 \<and> 3 dvd (33 :: int)"
proof -
  have "\<not> isPrime 35" "isPrime 33" by (simp_all add: isPrime_def prime_loop.simps)
  with prevPrime_multiple_of_3 [of 35] show ?thesis by simp
qed

end
