(* ===== verification/Ruby_Address.thy ===== *)
theory Ruby_Address
  imports Int_Math
begin

text \<open>
  Bit fields of addresses (\<open>mem/ruby/common/Address.cc\<close>). Bit positions are unsigned ints; the block
  size bits and bytes of \<open>RubySystem\<close>, static values set at start-up, are arguments.
\<close>

type_synonym addr = u64

definition ADDRESS_WIDTH :: u32 where
  "ADDRESS_WIDTH = 64"

text \<open>The shifts \<open>(Addr) ~0 << n\<close> and \<open>addr >> n\<close>.\<close>

definition shl :: "u64 \<Rightarrow> u32 \<Rightarrow> u64 res" where
  "shl x n = (if n \<ge> 64 then Inl BadShift else Inr (push_bit (unat n) x))"

definition shr :: "u64 \<Rightarrow> u32 \<Rightarrow> u64 res" where
  "shr x n = (if n \<ge> 64 then Inl BadShift else Inr (drop_bit (unat n) x))"

definition bitSelect :: "addr \<Rightarrow> u32 \<Rightarrow> u32 \<Rightarrow> addr res" where
  "bitSelect addr small big =
     bindE (assertE (big \<ge> small)) (\<lambda>_.
     if big \<ge> ADDRESS_WIDTH - 1 then shr addr small
     else bindE (shl (NOT 0) (big + 1)) (\<lambda>m. shr (addr AND NOT m) small))"

definition bitRemove :: "addr \<Rightarrow> u32 \<Rightarrow> u32 \<Rightarrow> addr res" where
  "bitRemove addr small big =
     bindE (assertE (big \<ge> small)) (\<lambda>_.
     if small \<ge> ADDRESS_WIDTH - 1 then Inr addr
     else if big \<ge> ADDRESS_WIDTH - 1 then bindE (shr (NOT 0) small) (\<lambda>m. Inr (addr AND m))
     else if small = 0 then bindE (shl (NOT 0) big) (\<lambda>m. Inr (addr AND m))
     else bindE (shl (NOT 0) small) (\<lambda>m.
       let lower_bits = addr AND NOT m
       in bindE (shl (NOT 0) (big + 1)) (\<lambda>m.
       bindE (shr (addr AND m) (big - small + 1)) (\<lambda>higher_bits. Inr (higher_bits OR lower_bits)))))"

definition maskLowOrderBits :: "addr \<Rightarrow> u32 \<Rightarrow> addr res" where
  "maskLowOrderBits addr number =
     bindE (if number \<ge> ADDRESS_WIDTH - 1 then Inr (NOT 0) else shl (NOT 0) number) (\<lambda>m. Inr (addr AND m))"

definition maskHighOrderBits :: "addr \<Rightarrow> u32 \<Rightarrow> addr res" where
  "maskHighOrderBits addr number =
     bindE (if number \<ge> ADDRESS_WIDTH - 1 then Inr (NOT 0) else shr (NOT 0) number) (\<lambda>m. Inr (addr AND m))"

definition shiftLowOrderBits :: "addr \<Rightarrow> u32 \<Rightarrow> addr res" where
  "shiftLowOrderBits addr number = shr addr number"

definition getOffset :: "u32 \<Rightarrow> addr \<Rightarrow> addr res" where
  "getOffset block_size_bits addr = bitSelect addr 0 (block_size_bits - 1)"

definition makeLineAddress :: "u32 \<Rightarrow> addr \<Rightarrow> addr res" where
  "makeLineAddress block_size_bits addr = maskLowOrderBits addr block_size_bits"

text \<open>The unsigned product of the block size and the \<open>int\<close> stride has 32 bits.\<close>

definition makeNextStrideAddress :: "u32 \<Rightarrow> u32 \<Rightarrow> addr \<Rightarrow> int \<Rightarrow> addr res" where
  "makeNextStrideAddress block_size_bits block_size_bytes addr stride =
     bindE (maskLowOrderBits addr block_size_bits) (\<lambda>a.
     Inr (a + ucast (block_size_bytes * of_int stride)))"

section \<open>What the selections return\<close>

lemma bit_of_shl: "n < 64 \<Longrightarrow> shl (NOT 0) n = Inr (NOT (mask (unat n)))"
  by (simp add: shl_def not_le minus_exp_eq_not_mask flip: push_bit_minus_one)

lemma shr_small: "n < 64 \<Longrightarrow> shr x n = Inr (drop_bit (unat n) x)"
  by (simp add: shr_def not_le [symmetric])

lemma bitSelect_bits:
  assumes "small \<le> big" "big < 63"
  shows "bitSelect addr small big =
    Inr (drop_bit (unat small) (take_bit (unat big + 1) addr))"
proof -
  have b: "unat (big + 1) = unat big + 1"
    using assms(2) by (simp add: word_less_nat_alt unat_word_ariths)
  have lt: "big + 1 < 64" "small < 64"
    using assms b by (simp_all add: word_less_nat_alt word_le_nat_alt)
  show ?thesis
    using assms lt bit_of_shl [OF lt(1)]
    by (simp add: bitSelect_def ADDRESS_WIDTH_def shr_def b take_bit_eq_mask not_le)
qed

lemma bitRemove_bits:
  assumes "0 < small" "small \<le> big" "big < 63"
  shows "bitRemove addr small big =
    Inr (drop_bit (unat big - unat small + 1) (addr AND NOT (mask (unat big + 1))) OR
         take_bit (unat small) addr)"
proof -
  have b: "unat (big + 1) = unat big + 1"
    using assms(3) by (simp add: word_less_nat_alt unat_word_ariths)
  have d: "unat (big - small + 1) = unat big - unat small + 1"
    using assms(2,3) by (simp add: unat_word_ariths unat_sub word_less_nat_alt word_le_nat_alt)
  have lt: "small < 63" "small < 64" "big + 1 < 64" "big - small + 1 < 64"
    using assms b d by (simp_all add: word_less_nat_alt word_le_nat_alt)
  have n: "\<not> small \<ge> 63" "\<not> big \<ge> 63" "small \<noteq> 0" "(64 :: u32) - 1 = 63"
    using lt(1) assms by auto
  show ?thesis
    unfolding bitRemove_def ADDRESS_WIDTH_def bit_of_shl [OF lt(2)] bit_of_shl [OF lt(3)] shr_small [OF lt(4)] n(4)
    using n assms(2) by (simp add: b d take_bit_eq_mask)
qed

text \<open>With the field at the bottom nothing is shifted and its top bit stays.\<close>

lemma bitRemove_bottom: "big < 63 \<Longrightarrow> bitRemove addr 0 big = Inr (addr AND NOT (mask (unat big)))"
  using bit_of_shl [of big] by (simp add: bitRemove_def ADDRESS_WIDTH_def word_less_nat_alt not_le word_le_nat_alt)

lemma reassemble:
  fixes w :: "'a::len word"
  assumes "i \<le> j" "r = drop_bit (j - i) (w AND NOT (mask j)) OR take_bit i w"
  shows "w = push_bit j (drop_bit i r) OR push_bit i (drop_bit i (take_bit j w)) OR take_bit i r"
proof (rule bit_word_eqI)
  fix n assume "n < LENGTH('a)"
  then show "bit w n = bit (push_bit j (drop_bit i r) OR push_bit i (drop_bit i (take_bit j w)) OR take_bit i r) n"
    using assms(1) unfolding assms(2)
    by (cases "n < i"; cases "n < j") (auto simp: bit_simps)
qed

text \<open>
  For a field above bit 0 and below bit 63, \<open>bitSelect\<close> returns its value and \<open>bitRemove\<close> the
  rest of the address closed up: the two together determine the address.
\<close>

theorem select_remove:
  assumes "0 < small" "small \<le> big" "big < 63"
  shows "\<exists>s r. bitSelect addr small big = Inr s \<and> bitRemove addr small big = Inr r \<and>
    unat s = unat addr div 2 ^ unat small mod 2 ^ (unat big - unat small + 1) \<and>
    addr = push_bit (unat big + 1) (drop_bit (unat small) r) OR push_bit (unat small) s OR
      take_bit (unat small) r"
proof -
  let ?i = "unat small" and ?j = "unat big"
  let ?s = "drop_bit ?i (take_bit (?j + 1) addr)"
  let ?r = "drop_bit (?j - ?i + 1) (addr AND NOT (mask (?j + 1))) OR take_bit ?i addr"
  have ij: "?i \<le> ?j" using assms(2) by (simp add: word_le_nat_alt)
  have "?s = take_bit (?j - ?i + 1) (drop_bit ?i addr)"
    using ij by (simp add: drop_bit_take_bit Suc_diff_le)
  then have "unat ?s = take_bit (?j - ?i + 1) (unat (drop_bit ?i addr))"
    by (simp only: unsigned_take_bit_eq)
  then have "unat ?s = unat addr div 2 ^ ?i mod 2 ^ (?j - ?i + 1)"
    by (simp only: unat_drop_bit take_bit_eq_mod [where 'a = nat])
  moreover have "addr = push_bit (?j + 1) (drop_bit ?i ?r) OR push_bit ?i ?s OR take_bit ?i ?r"
    using ij by (intro reassemble) (simp_all add: Suc_diff_le)
  ultimately show ?thesis using bitSelect_bits [OF assms(2,3)] bitRemove_bits [OF assms] by blast
qed

theorem select_remove_witness:
  "\<exists>s r. bitSelect 0x12345 8 11 = Inr s \<and> bitRemove 0x12345 8 11 = Inr r \<and>
     unat s = unat (0x12345 :: u64) div 2 ^ unat (8 :: u32) mod 2 ^ (unat (11 :: u32) - unat (8 :: u32) + 1)"
proof -
  have "0 < (8 :: u32)" "(8 :: u32) \<le> 11" "(11 :: u32) < 63" by simp_all
  from select_remove [OF this, of "0x12345"] show ?thesis by blast
qed

end
