(* ===== verification/Bloom_Base.thy ===== *)
theory Bloom_Base
  imports Ruby_Address
begin

text \<open>
  What the address filters of the Ruby memory system (\<open>mem/ruby/filters\<close>) share: the loops over a
  filter vector, and the contract of \<open>AbstractBloomFilter\<close> as a locale. A filter vector holds \<open>int\<close>s
  (unbounded here); an access outside it is a fault.
\<close>

section \<open>Loops over a filter vector\<close>

text \<open>\<open>for (i = 0; i < n; i++) m_filter[i] = 0\<close>, with \<open>n\<close> rounds left from \<open>i\<close>.\<close>

fun zero_loop :: "nat \<Rightarrow> nat \<Rightarrow> int list \<Rightarrow> int list res" where
  "zero_loop 0 i v = Inr v"
| "zero_loop (Suc n) i v = bindE (wr v (int i) 0) (zero_loop n (Suc i))"

fun or_loop :: "nat \<Rightarrow> nat \<Rightarrow> int list \<Rightarrow> int list \<Rightarrow> int list res" where
  "or_loop 0 i other v = Inr v"
| "or_loop (Suc n) i other v =
     bindE (rd v (int i)) (\<lambda>a. bindE (rd other (int i)) (\<lambda>b.
     bindE (wr v (int i) (a OR b)) (or_loop n (Suc i) other)))"

fun count_loop :: "nat \<Rightarrow> nat \<Rightarrow> int list \<Rightarrow> int \<Rightarrow> int res" where
  "count_loop 0 i v cnt = Inr cnt"
| "count_loop (Suc n) i v cnt =
     bindE (rd v (int i)) (\<lambda>a. count_loop n (Suc i) v (if a \<noteq> 0 then cnt + 1 else cnt))"

fun total_loop :: "nat \<Rightarrow> nat \<Rightarrow> int list \<Rightarrow> int \<Rightarrow> int res" where
  "total_loop 0 i v cnt = Inr cnt"
| "total_loop (Suc n) i v cnt = bindE (rd v (int i)) (\<lambda>a. total_loop n (Suc i) v (cnt + a))"

text \<open>The loops over the hash functions of a filter; \<open>idx i\<close> is the index under hash \<open>i\<close>.\<close>

fun set_loop :: "(int \<Rightarrow> int res) \<Rightarrow> nat \<Rightarrow> nat \<Rightarrow> int list \<Rightarrow> int list res" where
  "set_loop idx 0 i v = Inr v"
| "set_loop idx (Suc n) i v =
     bindE (idx (int i)) (\<lambda>x. bindE (wr v x 1) (set_loop idx n (Suc i)))"

fun test_loop :: "(int \<Rightarrow> int res) \<Rightarrow> nat \<Rightarrow> nat \<Rightarrow> int list \<Rightarrow> bool \<Rightarrow> bool res" where
  "test_loop idx 0 i v r = Inr r"
| "test_loop idx (Suc n) i v r =
     bindE (idx (int i)) (\<lambda>x.
     if r then bindE (rd v x) (\<lambda>a. test_loop idx n (Suc i) v (a \<noteq> 0))
     else test_loop idx n (Suc i) v False)"

section \<open>Closed forms\<close>

lemma zero_loop_eq:
  "i + n \<le> length v \<Longrightarrow> zero_loop n i v = Inr (take i v @ replicate n 0 @ drop (i + n) v)"
proof (induction n arbitrary: i v)
  case (Suc n)
  then have "wr v (int i) 0 = Inr (v[i := 0])" by (intro wr_of_nat) simp
  moreover have "zero_loop n (Suc i) (v[i := 0]) =
      Inr (take (Suc i) (v[i := 0]) @ replicate n 0 @ drop (Suc i + n) (v[i := 0]))"
    using Suc.prems by (intro Suc.IH) simp
  moreover have "take (Suc i) (v[i := 0]) = take i v @ [0]"
    using Suc.prems by (simp add: take_Suc_conv_app_nth)
  ultimately show ?case by simp
qed simp

lemma clear_all: "n = length v \<Longrightarrow> zero_loop n 0 v = Inr (replicate n 0)"
  using zero_loop_eq [of 0 n v] by simp

lemma set_loop_eq:
  assumes "\<And>j. \<lbrakk>i \<le> j; j < i + n\<rbrakk> \<Longrightarrow> idx (int j) = Inr (int (h j)) \<and> h j < length v"
  shows "\<exists>w. set_loop idx n i v = Inr w \<and> length w = length v \<and>
    (\<forall>k < length v. w ! k = (if k \<in> h ` {i..<i + n} then 1 else v ! k))"
  using assms
proof (induction n arbitrary: i v)
  case (Suc n)
  have h: "idx (int i) = Inr (int (h i))" "h i < length v" using Suc.prems [of i] by auto
  obtain w where w: "set_loop idx n (Suc i) (v[h i := 1]) = Inr w" "length w = length v"
    "\<forall>k < length v. w ! k = (if k \<in> h ` {Suc i..<Suc i + n} then 1 else v[h i := 1] ! k)"
    using Suc.IH [of "Suc i" "v[h i := 1]"] Suc.prems by force
  have "{i..<i + Suc n} = insert i {Suc i..<Suc i + n}" by auto
  with w h show ?case by (intro exI [of _ w]) (auto simp: wr_of_nat nth_list_update)
qed simp

lemma test_loop_eq:
  assumes "\<And>j. \<lbrakk>i \<le> j; j < i + n\<rbrakk> \<Longrightarrow> idx (int j) = Inr (int (h j)) \<and> h j < length v"
  shows "test_loop idx n i v r = Inr (r \<and> (\<forall>j. i \<le> j \<and> j < i + n \<longrightarrow> v ! h j \<noteq> 0))"
  using assms
proof (induction n arbitrary: i r)
  case (Suc n)
  have h: "idx (int i) = Inr (int (h i))" "h i < length v" using Suc.prems [of i] by auto
  have IH: "test_loop idx n (Suc i) v q =
      Inr (q \<and> (\<forall>j. Suc i \<le> j \<and> j < Suc i + n \<longrightarrow> v ! h j \<noteq> 0))" for q
    using Suc.prems by (intro Suc.IH) simp
  have "i \<le> j \<and> j < i + Suc n \<longleftrightarrow> j = i \<or> Suc i \<le> j \<and> j < Suc i + n" for j by auto
  then have "(\<forall>j. i \<le> j \<and> j < i + Suc n \<longrightarrow> v ! h j \<noteq> 0) \<longleftrightarrow>
      v ! h i \<noteq> 0 \<and> (\<forall>j. Suc i \<le> j \<and> j < Suc i + n \<longrightarrow> v ! h j \<noteq> 0)"
    by (simp only:) blast
  then show ?case using h IH by (simp add: rd_of_nat)
qed simp

section \<open>The contract\<close>

text \<open>
  A client stores addresses with \<open>set\<close> and asks with \<open>isSet\<close>, in any order. A filter may answer
  yes for an address that was not stored, never no for one that was. Asking may change the state
  of a filter but no later answer.
\<close>

datatype filter_op = Add addr | Ask addr

fun run_ops :: "(addr \<Rightarrow> 's \<Rightarrow> 's res) \<Rightarrow> (addr \<Rightarrow> 's \<Rightarrow> (bool \<times> 's) res) \<Rightarrow> filter_op list \<Rightarrow> 's \<Rightarrow>
  (bool list \<times> 's) res" where
  "run_ops add ask [] f = Inr ([], f)"
| "run_ops add ask (Add a # os) f = bindE (add a f) (run_ops add ask os)"
| "run_ops add ask (Ask a # os) f =
     bindE (ask a f) (\<lambda>(b, f). bindE (run_ops add ask os f) (\<lambda>(bs, f). Inr (b # bs, f)))"

locale bloom_filter =
  fixes inv :: "'s \<Rightarrow> bool"
    and member :: "'s \<Rightarrow> addr \<Rightarrow> bool"
    and add :: "addr \<Rightarrow> 's \<Rightarrow> 's res"
    and ask :: "addr \<Rightarrow> 's \<Rightarrow> (bool \<times> 's) res"
  assumes add_stores: "inv f \<Longrightarrow>
      \<exists>f'. add a f = Inr f' \<and> inv f' \<and> member f' a \<and> (\<forall>b. member f b \<longrightarrow> member f' b)"
    and ask_answers: "inv f \<Longrightarrow>
      \<exists>f'. ask a f = Inr (member f a, f') \<and> inv f' \<and> member f' = member f"
begin

lemma run_keeps:
  "inv f \<Longrightarrow> \<exists>bs f'. run_ops add ask os f = Inr (bs, f') \<and> inv f' \<and>
     (\<forall>b. member f b \<or> Add b \<in> set os \<longrightarrow> member f' b)"
proof (induction os arbitrary: f)
  case (Cons p os)
  show ?case
  proof (cases p)
    case (Add a)
    obtain g where g: "add a f = Inr g" "inv g" "member g a" "\<forall>b. member f b \<longrightarrow> member g b"
      using add_stores [OF Cons.prems] by blast
    with Cons.IH [OF g(2)] Add show ?thesis by fastforce
  next
    case (Ask a)
    obtain g where g: "ask a f = Inr (member f a, g)" "inv g" "member g = member f"
      using ask_answers [OF Cons.prems] by blast
    with Cons.IH [OF g(2)] Ask show ?thesis by fastforce
  qed
qed simp

lemma run_append:
  "run_ops add ask (os @ qs) f =
     bindE (run_ops add ask os f) (\<lambda>(bs, g). bindE (run_ops add ask qs g) (\<lambda>(cs, h). Inr (bs @ cs, h)))"
proof (induction os arbitrary: f)
  case Nil
  show ?case by (simp add: bindE_def split: sum.splits prod.splits)
next
  case (Cons p os)
  then show ?case by (cases p) (auto simp: bindE_def split: sum.splits prod.splits)
qed

lemma no_false_negative:
  assumes "inv f" "Add a \<in> set os"
  shows "\<exists>bs f'. run_ops add ask (os @ [Ask a]) f = Inr (bs @ [True], f')"
proof -
  obtain bs g where g: "run_ops add ask os f = Inr (bs, g)" "inv g" "member g a"
    using run_keeps [OF assms(1), of os] assms(2) by blast
  obtain h where "ask a g = Inr (True, h)" using ask_answers [OF g(2), of a] g(3) by auto
  with g(1) show ?thesis by (simp add: run_append)
qed

end

end
