(* ===== verification/Bloom_Filters.thy ===== *)
theory Bloom_Filters
  imports Bloom_Base
begin

text \<open>
  The filters indexed by address bits: \<open>BlockBloomFilter\<close>, \<open>NonCountingBloomFilter\<close>,
  \<open>LSB_CountingBloomFilter\<close>, \<open>MultiGrainBloomFilter\<close> and \<open>BulkBloomFilter\<close> of
  \<open>mem/ruby/filters\<close>. The argument \<open>bsb\<close> is \<open>RubySystem::getBlockSizeBits()\<close>.
\<close>

record bloom =
  m_filter :: "int list"
  m_filter_size :: int
  m_filter_size_bits :: nat

section \<open>BlockBloomFilter\<close>

definition Block_clear :: "bloom \<Rightarrow> bloom res" where
  "Block_clear f = bindE (zero_loop (nat (m_filter_size f)) 0 (m_filter f)) (\<lambda>v. Inr (f\<lparr>m_filter := v\<rparr>))"

definition Block_new :: "int \<Rightarrow> bloom res" where
  "Block_new sz = bindE (floorLog2_int sz) (\<lambda>bits.
     Block_clear \<lparr>m_filter = replicate (nat sz) 0, m_filter_size = sz, m_filter_size_bits = bits\<rparr>)"

definition Block_get_index :: "u32 \<Rightarrow> bloom \<Rightarrow> addr \<Rightarrow> int res" where
  "Block_get_index bsb f addr =
     bindE (bitSelect addr bsb (2 * bsb - 1)) (\<lambda>block_bits.
     let offset = 5
     in bindE (bitSelect addr (2 * bsb + offset) (2 * bsb + offset + of_nat (m_filter_size_bits f) - 1)) (\<lambda>other_bits.
     let index = int_of_u64 (block_bits XOR other_bits)
     in bindE (assertE (index < m_filter_size f)) (\<lambda>_. Inr index)))"

definition Block_set :: "u32 \<Rightarrow> addr \<Rightarrow> bloom \<Rightarrow> bloom res" where
  "Block_set bsb addr f =
     bindE (Block_get_index bsb f addr) (\<lambda>i. bindE (wr (m_filter f) i 1) (\<lambda>v. Inr (f\<lparr>m_filter := v\<rparr>)))"

definition Block_unset :: "u32 \<Rightarrow> addr \<Rightarrow> bloom \<Rightarrow> bloom res" where
  "Block_unset bsb addr f =
     bindE (Block_get_index bsb f addr) (\<lambda>i. bindE (wr (m_filter f) i 0) (\<lambda>v. Inr (f\<lparr>m_filter := v\<rparr>)))"

definition Block_isSet :: "u32 \<Rightarrow> addr \<Rightarrow> bloom \<Rightarrow> bool res" where
  "Block_isSet bsb addr f =
     bindE (Block_get_index bsb f addr) (\<lambda>i. bindE (rd (m_filter f) i) (\<lambda>a. Inr (a \<noteq> 0)))"

definition Block_getCount :: "u32 \<Rightarrow> addr \<Rightarrow> bloom \<Rightarrow> int res" where
  "Block_getCount bsb addr f = bindE (Block_get_index bsb f addr) (rd (m_filter f))"

definition Block_getTotalCount :: "bloom \<Rightarrow> int res" where
  "Block_getTotalCount f = count_loop (nat (m_filter_size f)) 0 (m_filter f) 0"

definition Block_readBit :: "bloom \<Rightarrow> int \<Rightarrow> int res" where
  "Block_readBit f index = rd (m_filter f) index"

definition Block_writeBit :: "bloom \<Rightarrow> int \<Rightarrow> int \<Rightarrow> bloom res" where
  "Block_writeBit f index v = bindE (wr (m_filter f) index v) (\<lambda>w. Inr (f\<lparr>m_filter := w\<rparr>))"

section \<open>NonCountingBloomFilter\<close>

record noncounting = bloom +
  m_offset :: int

definition NonCounting_clear :: "noncounting \<Rightarrow> noncounting res" where
  "NonCounting_clear f =
     bindE (zero_loop (nat (m_filter_size f)) 0 (m_filter f)) (\<lambda>v. Inr (f\<lparr>m_filter := v\<rparr>))"

definition NonCounting_new :: "int \<Rightarrow> int \<Rightarrow> noncounting res" where
  "NonCounting_new head tail = bindE (floorLog2_int head) (\<lambda>bits.
     NonCounting_clear \<lparr>m_filter = replicate (nat head) 0, m_filter_size = head,
       m_filter_size_bits = bits, m_offset = tail\<rparr>)"

definition NonCounting_merge :: "noncounting \<Rightarrow> noncounting \<Rightarrow> noncounting res" where
  "NonCounting_merge other f =
     bindE (or_loop (nat (m_filter_size f)) 0 (m_filter other) (m_filter f)) (\<lambda>v. Inr (f\<lparr>m_filter := v\<rparr>))"

definition NonCounting_get_index :: "u32 \<Rightarrow> noncounting \<Rightarrow> addr \<Rightarrow> int res" where
  "NonCounting_get_index bsb f addr =
     bindE (bitSelect addr (bsb + of_int (m_offset f))
       (bsb + of_int (m_offset f) + of_nat (m_filter_size_bits f) - 1)) (\<lambda>i. Inr (int_of_u64 i))"

definition NonCounting_set :: "u32 \<Rightarrow> addr \<Rightarrow> noncounting \<Rightarrow> noncounting res" where
  "NonCounting_set bsb addr f =
     bindE (NonCounting_get_index bsb f addr) (\<lambda>i. bindE (wr (m_filter f) i 1) (\<lambda>v. Inr (f\<lparr>m_filter := v\<rparr>)))"

definition NonCounting_unset :: "u32 \<Rightarrow> addr \<Rightarrow> noncounting \<Rightarrow> noncounting res" where
  "NonCounting_unset bsb addr f =
     bindE (NonCounting_get_index bsb f addr) (\<lambda>i. bindE (wr (m_filter f) i 0) (\<lambda>v. Inr (f\<lparr>m_filter := v\<rparr>)))"

definition NonCounting_isSet :: "u32 \<Rightarrow> addr \<Rightarrow> noncounting \<Rightarrow> bool res" where
  "NonCounting_isSet bsb addr f =
     bindE (NonCounting_get_index bsb f addr) (\<lambda>i. bindE (rd (m_filter f) i) (\<lambda>a. Inr (a \<noteq> 0)))"

definition NonCounting_getCount :: "u32 \<Rightarrow> addr \<Rightarrow> noncounting \<Rightarrow> int res" where
  "NonCounting_getCount bsb addr f = bindE (NonCounting_get_index bsb f addr) (rd (m_filter f))"

definition NonCounting_getTotalCount :: "noncounting \<Rightarrow> int res" where
  "NonCounting_getTotalCount f = total_loop (nat (m_filter_size f)) 0 (m_filter f) 0"

definition NonCounting_readBit :: "noncounting \<Rightarrow> int \<Rightarrow> int res" where
  "NonCounting_readBit f index = rd (m_filter f) index"

definition NonCounting_writeBit :: "noncounting \<Rightarrow> int \<Rightarrow> int \<Rightarrow> noncounting res" where
  "NonCounting_writeBit f index v = bindE (wr (m_filter f) index v) (\<lambda>w. Inr (f\<lparr>m_filter := w\<rparr>))"

section \<open>LSB-CountingBloomFilter\<close>

record lsb_counting = bloom +
  m_count :: int
  m_count_bits :: nat

definition LSB_clear :: "lsb_counting \<Rightarrow> lsb_counting res" where
  "LSB_clear f =
     bindE (zero_loop (nat (m_filter_size f)) 0 (m_filter f)) (\<lambda>v. Inr (f\<lparr>m_filter := v\<rparr>))"

definition LSB_new :: "int \<Rightarrow> int \<Rightarrow> lsb_counting res" where
  "LSB_new head tail = bindE (floorLog2_int head) (\<lambda>bits. bindE (floorLog2_int tail) (\<lambda>cbits.
     LSB_clear \<lparr>m_filter = replicate (nat head) 0, m_filter_size = head, m_filter_size_bits = bits,
       m_count = tail, m_count_bits = cbits\<rparr>))"

definition LSB_get_index :: "u32 \<Rightarrow> lsb_counting \<Rightarrow> addr \<Rightarrow> int res" where
  "LSB_get_index bsb f addr =
     bindE (bitSelect addr bsb (bsb + of_nat (m_filter_size_bits f) - 1)) (\<lambda>i. Inr (int_of_u64 i))"

definition LSB_increment :: "u32 \<Rightarrow> addr \<Rightarrow> lsb_counting \<Rightarrow> lsb_counting res" where
  "LSB_increment bsb addr f =
     bindE (LSB_get_index bsb f addr) (\<lambda>i. bindE (rd (m_filter f) i) (\<lambda>a.
     if a < m_count f then bindE (wr (m_filter f) i (a + 1)) (\<lambda>v. Inr (f\<lparr>m_filter := v\<rparr>)) else Inr f))"

definition LSB_decrement :: "u32 \<Rightarrow> addr \<Rightarrow> lsb_counting \<Rightarrow> lsb_counting res" where
  "LSB_decrement bsb addr f =
     bindE (LSB_get_index bsb f addr) (\<lambda>i. bindE (rd (m_filter f) i) (\<lambda>a.
     if a > 0 then bindE (wr (m_filter f) i (a - 1)) (\<lambda>v. Inr (f\<lparr>m_filter := v\<rparr>)) else Inr f))"

definition LSB_isSet :: "addr \<Rightarrow> lsb_counting \<Rightarrow> bool" where
  "LSB_isSet addr f = False"

definition LSB_getCount :: "u32 \<Rightarrow> addr \<Rightarrow> lsb_counting \<Rightarrow> int res" where
  "LSB_getCount bsb addr f = bindE (LSB_get_index bsb f addr) (rd (m_filter f))"

definition LSB_getTotalCount :: "lsb_counting \<Rightarrow> int res" where
  "LSB_getTotalCount f = total_loop (nat (m_filter_size f)) 0 (m_filter f) 0"

section \<open>MultiGrainBloomFilter\<close>

record multigrain = bloom +
  m_page_filter :: "int list"
  m_page_filter_size :: int
  m_page_filter_size_bits :: nat

definition MultiGrain_clear :: "multigrain \<Rightarrow> multigrain res" where
  "MultiGrain_clear f =
     bindE (zero_loop (nat (m_filter_size f)) 0 (m_filter f)) (\<lambda>v.
     bindE (zero_loop (nat (m_page_filter_size f)) 0 (m_page_filter f)) (\<lambda>w.
     Inr (f\<lparr>m_filter := v, m_page_filter := w\<rparr>)))"

definition MultiGrain_new :: "int \<Rightarrow> int \<Rightarrow> multigrain res" where
  "MultiGrain_new head tail = bindE (floorLog2_int head) (\<lambda>bits. bindE (floorLog2_int tail) (\<lambda>pbits.
     MultiGrain_clear \<lparr>m_filter = replicate (nat head) 0, m_filter_size = head,
       m_filter_size_bits = bits, m_page_filter = replicate (nat tail) 0,
       m_page_filter_size = tail, m_page_filter_size_bits = pbits\<rparr>))"

definition MultiGrain_get_block_index :: "u32 \<Rightarrow> multigrain \<Rightarrow> addr \<Rightarrow> int res" where
  "MultiGrain_get_block_index bsb f addr =
     bindE (bitSelect addr bsb (bsb + of_nat (m_filter_size_bits f) - 1)) (\<lambda>i. Inr (int_of_u64 i))"

definition MultiGrain_get_page_index :: "u32 \<Rightarrow> multigrain \<Rightarrow> addr \<Rightarrow> int res" where
  "MultiGrain_get_page_index bsb f addr =
     (let bits = bsb + of_nat (m_filter_size_bits f) - 1
      in bindE (bitSelect addr bits (bits + of_nat (m_page_filter_size_bits f) - 1)) (\<lambda>i. Inr (int_of_u64 i)))"

definition MultiGrain_set :: "u32 \<Rightarrow> addr \<Rightarrow> multigrain \<Rightarrow> multigrain res" where
  "MultiGrain_set bsb addr f =
     bindE (MultiGrain_get_block_index bsb f addr) (\<lambda>i.
     bindE (assertE (i < m_filter_size f)) (\<lambda>_.
     bindE (MultiGrain_get_page_index bsb f addr) (\<lambda>p.
     bindE (assertE (p < m_page_filter_size f)) (\<lambda>_.
     bindE (wr (m_filter f) i 1) (\<lambda>v.
     bindE (wr (m_page_filter f) i 1) (\<lambda>w. Inr (f\<lparr>m_filter := v, m_page_filter := w\<rparr>)))))))"

definition MultiGrain_isSet :: "u32 \<Rightarrow> addr \<Rightarrow> multigrain \<Rightarrow> bool res" where
  "MultiGrain_isSet bsb addr f =
     bindE (MultiGrain_get_block_index bsb f addr) (\<lambda>i.
     bindE (assertE (i < m_filter_size f)) (\<lambda>_.
     bindE (MultiGrain_get_page_index bsb f addr) (\<lambda>p.
     bindE (assertE (p < m_page_filter_size f)) (\<lambda>_.
     bindE (rd (m_filter f) i) (\<lambda>a.
     if a \<noteq> 0 then bindE (rd (m_page_filter f) i) (\<lambda>b. Inr (b \<noteq> 0)) else Inr False)))))"

text \<open>
  \<open>getTotalCount\<close>: the second loop adds the value of the assignment \<open>m_page_filter[i] = 0\<close>, so the
  page filter is cleared on the way.
\<close>

definition MultiGrain_getTotalCount :: "multigrain \<Rightarrow> (int \<times> multigrain) res" where
  "MultiGrain_getTotalCount f =
     bindE (total_loop (nat (m_filter_size f)) 0 (m_filter f) 0) (\<lambda>cnt.
     bindE (zero_loop (nat (m_page_filter_size f)) 0 (m_page_filter f)) (\<lambda>w.
     Inr (cnt, f\<lparr>m_page_filter := w\<rparr>)))"

section \<open>BulkBloomFilter\<close>

record bulk = bloom +
  m_temp_filter :: "int list"
  m_sector_bits :: int

definition Bulk_clear :: "bulk \<Rightarrow> bulk res" where
  "Bulk_clear f = bindE (zero_loop (nat (m_filter_size f)) 0 (m_filter f)) (\<lambda>v. Inr (f\<lparr>m_filter := v\<rparr>))"

definition Bulk_new :: "int \<Rightarrow> bulk res" where
  "Bulk_new sz = bindE (floorLog2_int sz) (\<lambda>bits.
     bindE (Bulk_clear \<lparr>m_filter = replicate (nat sz) 0, m_filter_size = sz, m_filter_size_bits = bits,
       m_temp_filter = replicate (nat sz) 0, m_sector_bits = int bits - 1\<rparr>) (\<lambda>f.
     bindE (zero_loop (nat sz) 0 (m_temp_filter f)) (\<lambda>t. Inr (f\<lparr>m_temp_filter := t\<rparr>))))"

definition Bulk_c0 :: "u32 \<Rightarrow> bulk \<Rightarrow> addr \<Rightarrow> int res" where
  "Bulk_c0 bsb f addr =
     (let set_bits = of_int (m_sector_bits f)
      in bindE (bitSelect addr bsb (bsb + set_bits - 1)) (\<lambda>i. Inr (int_of_u64 i)))"

definition Bulk_c1 :: "u32 \<Rightarrow> bulk \<Rightarrow> addr \<Rightarrow> int res" where
  "Bulk_c1 bsb f addr =
     (let set_bits = of_int (m_sector_bits f)
      in bindE (bitSelect addr (bsb + set_bits) (bsb + 2 * set_bits - 1)) (\<lambda>i. Inr (int_of_u64 i)))"

definition Bulk_set :: "u32 \<Rightarrow> addr \<Rightarrow> bulk \<Rightarrow> bulk res" where
  "Bulk_set bsb addr f =
     bindE (Bulk_c0 bsb f addr) (\<lambda>c0. bindE (Bulk_c1 bsb f addr) (\<lambda>c1.
     bindE (wr (m_filter f) (c0 + m_filter_size f div 2) 1) (\<lambda>v.
     bindE (wr v c1 1) (\<lambda>v. Inr (f\<lparr>m_filter := v\<rparr>)))))"

text \<open>Intersection of the temporary filter with the filter, from \<open>i\<close> for \<open>n\<close> rounds.\<close>

fun meet_loop :: "nat \<Rightarrow> nat \<Rightarrow> int list \<Rightarrow> int list \<Rightarrow> bool \<Rightarrow> (int list \<times> bool) res" where
  "meet_loop 0 i v t zero = Inr (t, zero)"
| "meet_loop (Suc n) i v t zero =
     bindE (rd t (int i)) (\<lambda>a. bindE (rd v (int i)) (\<lambda>b.
     let c = (if a \<noteq> 0 \<and> b \<noteq> 0 then 1 else 0)
     in bindE (wr t (int i) c) (\<lambda>t. meet_loop n (Suc i) v t (zero \<or> c \<noteq> 0))))"

definition reset_temp :: "bulk \<Rightarrow> int \<Rightarrow> int \<Rightarrow> int list \<Rightarrow> bulk res" where
  "reset_temp f c0 c1 t =
     bindE (wr t (c0 + m_filter_size f div 2) 0) (\<lambda>t. bindE (wr t c1 0) (\<lambda>t. Inr (f\<lparr>m_temp_filter := t\<rparr>)))"

definition Bulk_isSet :: "u32 \<Rightarrow> addr \<Rightarrow> bulk \<Rightarrow> (bool \<times> bulk) res" where
  "Bulk_isSet bsb addr f =
     bindE (Bulk_c0 bsb f addr) (\<lambda>c0. bindE (Bulk_c1 bsb f addr) (\<lambda>c1.
     let half = nat (m_filter_size f div 2)
     in bindE (wr (m_temp_filter f) (c0 + m_filter_size f div 2) 1) (\<lambda>t.
     bindE (wr t c1 1) (\<lambda>t.
     bindE (meet_loop half 0 (m_filter f) t False) (\<lambda>(t, some).
     if \<not> some then bindE (reset_temp f c0 c1 t) (\<lambda>f. Inr (False, f))
     else bindE (meet_loop (nat (m_filter_size f) - half) half (m_filter f) t False) (\<lambda>(t, some).
     bindE (reset_temp f c0 c1 t) (\<lambda>f. Inr (some, f))))))))"

definition Bulk_getTotalCount :: "bulk \<Rightarrow> int res" where
  "Bulk_getTotalCount f = count_loop (nat (m_filter_size f)) 0 (m_filter f) 0"

definition Bulk_get_index :: "u32 \<Rightarrow> bulk \<Rightarrow> addr \<Rightarrow> int res" where
  "Bulk_get_index bsb f addr =
     bindE (bitSelect addr bsb (bsb + of_nat (m_filter_size_bits f) - 1)) (\<lambda>i. Inr (int_of_u64 i))"

definition Bulk_permute :: "u32 \<Rightarrow> addr \<Rightarrow> addr res" where
  "Bulk_permute block_offset addr =
     bindE (bitSelect addr block_offset (block_offset + 6)) (\<lambda>part1.
     bindE (bitSelect addr (block_offset + 9) (block_offset + 9)) (\<lambda>part2.
     bindE (bitSelect addr (block_offset + 11) (block_offset + 11)) (\<lambda>part3.
     bindE (bitSelect addr (block_offset + 17) (block_offset + 17)) (\<lambda>part4.
     bindE (bitSelect addr (block_offset + 7) (block_offset + 8)) (\<lambda>part5.
     bindE (bitSelect addr (block_offset + 10) (block_offset + 10)) (\<lambda>part6.
     bindE (bitSelect addr (block_offset + 12) (block_offset + 12)) (\<lambda>part7.
     bindE (bitSelect addr (block_offset + 13) (block_offset + 13)) (\<lambda>part8.
     bindE (bitSelect addr (block_offset + 15) (block_offset + 16)) (\<lambda>part9.
     bindE (bitSelect addr (block_offset + 18) (block_offset + 20)) (\<lambda>part10.
     bindE (bitSelect addr (block_offset + 14) (block_offset + 14)) (\<lambda>part11.
     let result = push_bit 14 part1 OR push_bit 13 part2 OR push_bit 12 part3 OR push_bit 11 part4 OR
           push_bit 9 part5 OR push_bit 8 part6 OR push_bit 7 part7 OR push_bit 6 part8 OR
           push_bit 4 part9 OR push_bit 1 part10 OR part11
     in bindE (bitSelect addr (block_offset + 21) 31) (\<lambda>rest.
     Inr (result OR push_bit 21 rest)))))))))))))"

section \<open>Indices\<close>

lemma select_below:
  assumes "1 \<le> n" "unat s + n \<le> 63"
  shows "\<exists>w. bitSelect a s (s + of_nat n - 1) = Inr w \<and> unat w < 2 ^ n"
proof -
  have n: "unat (of_nat n :: u32) = n" using assms(2) by (simp add: unat_of_nat)
  have e: "unat (s + of_nat n - 1) = unat s + n - 1"
    using assms n by (simp add: unat_word_ariths unat_sub word_le_nat_alt)
  have le: "s \<le> s + of_nat n - 1" "s + of_nat n - 1 < 63"
    using assms e by (simp_all add: word_le_nat_alt word_less_nat_alt)
  let ?w = "drop_bit (unat s) (take_bit (unat (s + of_nat n - 1) + 1) a)"
  have "?w = take_bit n (drop_bit (unat s) a)" using assms e by (simp add: drop_bit_take_bit)
  then have "unat ?w = take_bit n (unat (drop_bit (unat s) a))" by (simp only: unsigned_take_bit_eq)
  then have "unat ?w < 2 ^ n" by simp
  with bitSelect_bits [OF le] show ?thesis by blast
qed

lemma xor_below: "\<lbrakk>unat w < 2 ^ n; unat x < 2 ^ n\<rbrakk> \<Longrightarrow> unat (w XOR x) < 2 ^ n"
proof -
  assume "unat w < 2 ^ n" "unat x < 2 ^ n"
  then have "take_bit n (unat (w XOR x)) = unat (w XOR x)"
    by (simp add: unsigned_xor_eq take_bit_nat_eq_self)
  then show ?thesis by (metis take_bit_nat_less_exp)
qed

lemma select_index:
  assumes "1 \<le> n" "n < 31" "unat s + n \<le> 63" "2 ^ n \<le> m"
  shows "\<exists>k. bindE (bitSelect a s (s + of_nat n - 1)) (\<lambda>i. Inr (int_of_u64 i)) = Inr (int k) \<and> k < m"
proof -
  obtain w where w: "bitSelect a s (s + of_nat n - 1) = Inr w" "unat w < 2 ^ n"
    using select_below [OF assms(1,3)] by blast
  have "(2 :: nat) ^ n \<le> 2 ^ 31" using assms(2) by (intro power_increasing) simp_all
  with w(2) have "int_of_u64 w = int (unat w)" by (intro int_of_u64_small) simp
  with w assms(4) show ?thesis by (intro exI [of _ "unat w"]) simp
qed

section \<open>Filters with one index\<close>

text \<open>
  A filter with one vector and one index per address, which does not depend on the contents. It
  meets the contract of \<open>bloom_filter\<close>.
\<close>

locale indexed_filter =
  fixes vec :: "'s \<Rightarrow> int list"
    and upd :: "int list \<Rightarrow> 's \<Rightarrow> 's"
    and inv :: "'s \<Rightarrow> bool"
    and idx :: "'s \<Rightarrow> addr \<Rightarrow> int res"
  assumes idx_ok: "inv f \<Longrightarrow> \<exists>k. idx f a = Inr (int k) \<and> k < length (vec f)"
    and vec_upd [simp]: "vec (upd v f) = v"
    and idx_upd [simp]: "idx (upd v f) = idx f"
    and inv_upd: "\<lbrakk>inv f; length v = length (vec f)\<rbrakk> \<Longrightarrow> inv (upd v f)"
begin

definition holds :: "'s \<Rightarrow> addr \<Rightarrow> bool" where
  "holds f a \<longleftrightarrow> (case idx f a of Inl e \<Rightarrow> False | Inr i \<Rightarrow> vec f ! nat i \<noteq> 0)"

lemma store:
  assumes "inv f"
  shows "\<exists>g. bindE (idx f a) (\<lambda>i. bindE (wr (vec f) i 1) (\<lambda>v. Inr (upd v f))) = Inr g \<and> inv g \<and>
    holds g a \<and> (\<forall>b. holds f b \<longrightarrow> holds g b)"
proof -
  obtain k where k: "idx f a = Inr (int k)" "k < length (vec f)" using idx_ok [OF assms] by blast
  have "holds f b \<longrightarrow> holds (upd ((vec f)[k := 1]) f) b" for b
    using idx_ok [OF assms, of b] k by (auto simp: holds_def nth_list_update)
  with k assms show ?thesis by (simp add: wr_of_nat holds_def inv_upd)
qed

lemma query:
  assumes "inv f"
  shows "bindE (bindE (idx f a) (\<lambda>i. bindE (rd (vec f) i) (\<lambda>b. Inr (b \<noteq> 0)))) (\<lambda>b. Inr (b, f)) =
    Inr (holds f a, f)"
  using idx_ok [OF assms, of a] by (auto simp: holds_def rd_of_nat)

end

sublocale indexed_filter \<subseteq> bloom_filter inv holds
  "\<lambda>a f. bindE (idx f a) (\<lambda>i. bindE (wr (vec f) i 1) (\<lambda>v. Inr (upd v f)))"
  "\<lambda>a f. bindE (bindE (idx f a) (\<lambda>i. bindE (rd (vec f) i) (\<lambda>b. Inr (b \<noteq> 0)))) (\<lambda>b. Inr (b, f))"
  by unfold_locales (blast intro: store, simp add: query)

text \<open>The size fields as the constructors set them.\<close>

definition sized :: "'a bloom_scheme \<Rightarrow> bool" where
  "sized f \<longleftrightarrow> length (m_filter f) = nat (m_filter_size f) \<and> 1 \<le> m_filter_size_bits f \<and>
     m_filter_size_bits f < 31 \<and> 2 ^ m_filter_size_bits f \<le> nat (m_filter_size f)"

lemma sized_pos: "sized f \<Longrightarrow> 0 \<le> m_filter_size f"
proof -
  assume "sized f"
  then have "2 ^ m_filter_size_bits f \<le> nat (m_filter_size f)" by (simp add: sized_def)
  moreover have "0 < (2 :: nat) ^ m_filter_size_bits f" by simp
  ultimately have "0 < nat (m_filter_size f)" by linarith
  then show ?thesis by simp
qed

definition Block_inv :: "u32 \<Rightarrow> bloom \<Rightarrow> bool" where
  "Block_inv bsb f \<longleftrightarrow> sized f \<and> 1 \<le> unat bsb \<and> unat bsb \<le> m_filter_size_bits f \<and>
     2 * unat bsb + 5 + m_filter_size_bits f \<le> 63"

definition NonCounting_inv :: "u32 \<Rightarrow> noncounting \<Rightarrow> bool" where
  "NonCounting_inv bsb f \<longleftrightarrow> sized f \<and> 0 \<le> m_offset f \<and>
     int (unat bsb) + m_offset f + int (m_filter_size_bits f) \<le> 63"

lemma Block_index:
  assumes "Block_inv bsb f"
  shows "\<exists>k. Block_get_index bsb f a = Inr (int k) \<and> k < length (m_filter f)"
proof -
  let ?n = "m_filter_size_bits f" and ?s = "2 * bsb + 5"
  have i: "?n < 31" "2 ^ ?n \<le> nat (m_filter_size f)" "length (m_filter f) = nat (m_filter_size f)"
    "1 \<le> ?n" "1 \<le> unat bsb" "unat bsb \<le> ?n" "2 * unat bsb + 5 + ?n \<le> 63"
    using assms by (auto simp: Block_inv_def sized_def)
  have "bsb + of_nat (unat bsb) - 1 = 2 * bsb - 1" by simp
  then obtain w where w: "bitSelect a bsb (2 * bsb - 1) = Inr w" "unat w < 2 ^ unat bsb"
    using select_below [of "unat bsb" bsb a] i by auto
  have "unat ?s = 2 * unat bsb + 5" using i by (simp add: unat_word_ariths)
  then obtain x where x: "bitSelect a ?s (?s + of_nat ?n - 1) = Inr x" "unat x < 2 ^ ?n"
    using select_below [of ?n ?s a] i by auto
  have "unat w < 2 ^ ?n" using w(2) i(6) by (meson less_le_trans one_le_numeral power_increasing)
  then have lt: "unat (w XOR x) < 2 ^ ?n"
    using x(2) by (rule xor_below)
  have "(2 :: nat) ^ ?n \<le> 2 ^ 31" using i(1) by (intro power_increasing) simp_all
  with lt have e: "int_of_u64 (w XOR x) = int (unat (w XOR x))" by (intro int_of_u64_small) simp
  have "int (unat (w XOR x)) < m_filter_size f" using lt i(2) by linarith
  then have "Block_get_index bsb f a = Inr (int (unat (w XOR x)))"
    unfolding Block_get_index_def Let_def using w(1) x(1) e by simp
  moreover have "unat (w XOR x) < length (m_filter f)" using lt i(2,3) by linarith
  ultimately show ?thesis by blast
qed

lemma NonCounting_index:
  assumes "NonCounting_inv bsb f"
  shows "\<exists>k. NonCounting_get_index bsb f a = Inr (int k) \<and> k < length (m_filter f)"
proof -
  have i: "0 \<le> m_offset f" "int (unat bsb) + m_offset f + int (m_filter_size_bits f) \<le> 63"
    using assms by (auto simp: NonCounting_inv_def)
  obtain j where j: "m_offset f = int j" using i(1) by (rule nonneg_int_cases)
  have b: "unat bsb + j + m_filter_size_bits f \<le> 63" using i(2) j by linarith
  then have "unat (bsb + of_nat j :: u32) = unat bsb + j" by (simp add: unat_word_ariths unat_of_nat)
  with b j assms show ?thesis
    unfolding NonCounting_get_index_def
    by (intro select_index) (auto simp: NonCounting_inv_def sized_def)
qed

interpretation block: indexed_filter m_filter "\<lambda>v f. f\<lparr>m_filter := v\<rparr>" "Block_inv bsb" "Block_get_index bsb"
  for bsb
  by unfold_locales
    (blast intro: Block_index, simp, simp add: Block_get_index_def fun_eq_iff, simp add: Block_inv_def sized_def)

interpretation noncounting: indexed_filter m_filter "\<lambda>v f. f\<lparr>m_filter := v\<rparr>" "NonCounting_inv bsb"
  "NonCounting_get_index bsb" for bsb
  by unfold_locales
    (blast intro: NonCounting_index, simp, simp add: NonCounting_get_index_def fun_eq_iff,
     simp add: NonCounting_inv_def sized_def)

text \<open>
  C31: after any sequence of \<open>set\<close> and \<open>isSet\<close> calls a block filter and a non-counting filter of
  proper size answer yes for every address stored.
\<close>

theorem address_filters_keep:
  assumes "Add a \<in> set os" "Block_inv bsb f" "NonCounting_inv bsb g"
  shows "(\<exists>bs f'. run_ops (Block_set bsb) (\<lambda>a f. bindE (Block_isSet bsb a f) (\<lambda>b. Inr (b, f)))
      (os @ [Ask a]) f = Inr (bs @ [True], f')) \<and>
    (\<exists>bs g'. run_ops (NonCounting_set bsb) (\<lambda>a g. bindE (NonCounting_isSet bsb a g) (\<lambda>b. Inr (b, g)))
      (os @ [Ask a]) g = Inr (bs @ [True], g'))"
  using block.no_false_negative [OF assms(2,1)] noncounting.no_false_negative [OF assms(3,1)]
  unfolding Block_set_def [abs_def] Block_isSet_def [abs_def] NonCounting_set_def [abs_def]
    NonCounting_isSet_def [abs_def] by blast

definition demo_block :: bloom where
  "demo_block = \<lparr>m_filter = replicate 64 0, m_filter_size = 64, m_filter_size_bits = 6\<rparr>"

definition demo_noncounting :: noncounting where
  "demo_noncounting = \<lparr>m_filter = replicate 64 0, m_filter_size = 64, m_filter_size_bits = 6, m_offset = 2\<rparr>"

theorem address_filters_keep_witness:
  "(\<exists>bs f'. run_ops (Block_set 6) (\<lambda>a f. bindE (Block_isSet 6 a f) (\<lambda>b. Inr (b, f)))
      ([Add 4096, Ask 64, Add 0] @ [Ask 4096]) demo_block = Inr (bs @ [True], f')) \<and>
    (\<exists>bs g'. run_ops (NonCounting_set 6) (\<lambda>a g. bindE (NonCounting_isSet 6 a g) (\<lambda>b. Inr (b, g)))
      ([Add 4096, Ask 64, Add 0] @ [Ask 4096]) demo_noncounting = Inr (bs @ [True], g'))"
  by (rule address_filters_keep)
    (simp_all add: Block_inv_def NonCounting_inv_def sized_def demo_block_def demo_noncounting_def)

section \<open>Counting\<close>

text \<open>What an address shares its counter with, and the counter of an index after some calls.\<close>

datatype count_op = Inc addr | Dec addr

fun LSB_run :: "u32 \<Rightarrow> count_op list \<Rightarrow> lsb_counting \<Rightarrow> lsb_counting res" where
  "LSB_run bsb [] f = Inr f"
| "LSB_run bsb (Inc a # os) f = bindE (LSB_increment bsb a f) (LSB_run bsb os)"
| "LSB_run bsb (Dec a # os) f = bindE (LSB_decrement bsb a f) (LSB_run bsb os)"

text \<open>The saturating counter an abstract observer of one index keeps.\<close>

fun sat_count :: "(addr \<Rightarrow> bool) \<Rightarrow> int \<Rightarrow> count_op list \<Rightarrow> int \<Rightarrow> int" where
  "sat_count P mx [] c = c"
| "sat_count P mx (Inc a # os) c = sat_count P mx os (if P a then min mx (c + 1) else c)"
| "sat_count P mx (Dec a # os) c = sat_count P mx os (if P a then max 0 (c - 1) else c)"

definition LSB_inv :: "u32 \<Rightarrow> lsb_counting \<Rightarrow> bool" where
  "LSB_inv bsb f \<longleftrightarrow> sized f \<and> unat bsb + m_filter_size_bits f \<le> 63 \<and> 0 \<le> m_count f \<and>
     (\<forall>c \<in> set (m_filter f). 0 \<le> c \<and> c \<le> m_count f)"

definition same_slot :: "u32 \<Rightarrow> lsb_counting \<Rightarrow> addr \<Rightarrow> addr \<Rightarrow> bool" where
  "same_slot bsb f a b \<longleftrightarrow> LSB_get_index bsb f a = LSB_get_index bsb f b"

lemma LSB_index:
  assumes "LSB_inv bsb f"
  shows "\<exists>k. LSB_get_index bsb f a = Inr (int k) \<and> k < length (m_filter f)"
  unfolding LSB_get_index_def
  by (rule select_index) (use assms in \<open>auto simp: LSB_inv_def sized_def\<close>)

lemma LSB_get_index_upd [simp]: "LSB_get_index bsb (f\<lparr>m_filter := v\<rparr>) = LSB_get_index bsb f"
  by (simp add: LSB_get_index_def fun_eq_iff)

lemma LSB_upd:
  assumes "LSB_inv bsb f" "k < length (m_filter f)" "0 \<le> c" "c \<le> m_count f"
  shows "LSB_inv bsb (f\<lparr>m_filter := (m_filter f)[k := c]\<rparr>)"
  using assms set_update_subset_insert [of "m_filter f" k c]
  by (fastforce simp: LSB_inv_def sized_def)

lemma LSB_step:
  assumes "LSB_inv bsb f" "LSB_get_index bsb f a = Inr (int i)" "i < length (m_filter f)"
  shows "LSB_increment bsb a f = Inr (f\<lparr>m_filter := (m_filter f)[i := min (m_count f) (m_filter f ! i + 1)]\<rparr>)"
    and "LSB_decrement bsb a f = Inr (f\<lparr>m_filter := (m_filter f)[i := max 0 (m_filter f ! i - 1)]\<rparr>)"
proof -
  have c: "0 \<le> m_filter f ! i" "m_filter f ! i \<le> m_count f"
    using assms(1,3) by (auto simp: LSB_inv_def)
  have n: "f\<lparr>m_filter := (m_filter f)[i := m_filter f ! i]\<rparr> = f" by simp
  show "LSB_increment bsb a f = Inr (f\<lparr>m_filter := (m_filter f)[i := min (m_count f) (m_filter f ! i + 1)]\<rparr>)"
  proof (cases "m_filter f ! i < m_count f")
    case True
    then have "min (m_count f) (m_filter f ! i + 1) = m_filter f ! i + 1" by simp
    with True assms show ?thesis by (simp add: LSB_increment_def rd_of_nat wr_of_nat)
  next
    case False
    then have "min (m_count f) (m_filter f ! i + 1) = m_filter f ! i" using c by simp
    with False assms n show ?thesis by (simp add: LSB_increment_def rd_of_nat)
  qed
  show "LSB_decrement bsb a f = Inr (f\<lparr>m_filter := (m_filter f)[i := max 0 (m_filter f ! i - 1)]\<rparr>)"
  proof (cases "m_filter f ! i > 0")
    case True
    then have "max 0 (m_filter f ! i - 1) = m_filter f ! i - 1" by simp
    with True assms show ?thesis by (simp add: LSB_decrement_def rd_of_nat wr_of_nat)
  next
    case False
    then have "max 0 (m_filter f ! i - 1) = m_filter f ! i" using c by simp
    then have "(m_filter f)[i := max 0 (m_filter f ! i - 1)] = m_filter f" by (simp only: list_update_id)
    with False assms show ?thesis by (simp add: LSB_decrement_def rd_of_nat)
  qed
qed

text \<open>
  After any sequence of increments and decrements the count of an address is the saturating
  count, between 0 and \<open>m_count\<close>, of the calls for addresses with the same index.
\<close>

theorem LSB_counts:
  assumes "LSB_inv bsb f"
  shows "\<exists>f' c c'. LSB_run bsb os f = Inr f' \<and> LSB_inv bsb f' \<and>
    LSB_getCount bsb a f = Inr c \<and> LSB_getCount bsb a f' = Inr c' \<and>
    c' = sat_count (same_slot bsb f a) (m_count f) os c"
  using assms
proof (induction os arbitrary: f)
  case Nil
  obtain k where "LSB_get_index bsb f a = Inr (int k)" "k < length (m_filter f)"
    using LSB_index [OF Nil] by blast
  with Nil show ?case by (simp add: LSB_getCount_def rd_of_nat)
next
  case (Cons p os)
  obtain b where b: "p = Inc b \<or> p = Dec b" by (cases p) auto
  obtain k i where k: "LSB_get_index bsb f a = Inr (int k)" "k < length (m_filter f)"
    and i: "LSB_get_index bsb f b = Inr (int i)" "i < length (m_filter f)"
    using LSB_index [OF Cons.prems] by meson
  have c: "0 \<le> m_filter f ! i" "m_filter f ! i \<le> m_count f" "0 \<le> m_count f"
    using Cons.prems i(2) by (auto simp: LSB_inv_def)
  define x where "x = (if p = Inc b then min (m_count f) (m_filter f ! i + 1) else max 0 (m_filter f ! i - 1))"
  define g where "g = f\<lparr>m_filter := (m_filter f)[i := x]\<rparr>"
  have run: "LSB_run bsb (p # os) f = LSB_run bsb os g"
    using b LSB_step [OF Cons.prems i] by (auto simp: g_def x_def)
  have inv: "LSB_inv bsb g"
    unfolding g_def by (rule LSB_upd [OF Cons.prems i(2)]) (use c in \<open>auto simp: x_def\<close>)
  have ss: "same_slot bsb g a = same_slot bsb f a" "m_count g = m_count f"
    by (simp_all add: same_slot_def g_def fun_eq_iff)
  have s: "same_slot bsb f a b \<longleftrightarrow> i = k" using k i by (auto simp: same_slot_def)
  have cnt: "LSB_getCount bsb a f = Inr (m_filter f ! k)"
    "LSB_getCount bsb a g = Inr (if i = k then x else m_filter f ! k)"
    using k i by (auto simp: LSB_getCount_def rd_of_nat g_def)
  have "sat_count (same_slot bsb f a) (m_count f) (p # os) (m_filter f ! k) =
      sat_count (same_slot bsb f a) (m_count f) os (if i = k then x else m_filter f ! k)"
    using b s by (auto simp: x_def)
  with Cons.IH [OF inv] run cnt ss show ?case by auto
qed

definition demo_lsb :: lsb_counting where
  "demo_lsb = \<lparr>m_filter = replicate 64 0, m_filter_size = 64, m_filter_size_bits = 6,
     m_count = 2, m_count_bits = 1\<rparr>"

theorem LSB_counts_witness:
  "\<exists>f' c c'. LSB_run 6 [Inc 64, Inc 64, Inc 65, Dec 64, Inc 0] demo_lsb = Inr f' \<and> LSB_inv 6 f' \<and>
    LSB_getCount 6 64 demo_lsb = Inr c \<and> LSB_getCount 6 64 f' = Inr c' \<and>
    c' = sat_count (same_slot 6 demo_lsb 64) 2 [Inc 64, Inc 64, Inc 65, Dec 64, Inc 0] c"
proof -
  have "LSB_inv 6 demo_lsb" by (simp add: LSB_inv_def sized_def demo_lsb_def)
  moreover have "m_count demo_lsb = 2" by (simp add: demo_lsb_def)
  ultimately show ?thesis
    using LSB_counts [of 6 demo_lsb "[Inc 64, Inc 64, Inc 65, Dec 64, Inc 0]" 64] by simp
qed

section \<open>MultiGrainBloomFilter forgets\<close>

lemma total_loop_ok: "i + n \<le> length v \<Longrightarrow> \<exists>t. total_loop n i v c = Inr t"
  by (induction n arbitrary: i c) (simp_all add: rd_of_nat)

text \<open>
  Asking a multi-grain filter for its total count clears its page filter, so that afterwards no
  address is reported as stored.
\<close>

theorem MultiGrain_count_forgets:
  assumes "length (m_filter f) = nat (m_filter_size f)"
    and "length (m_page_filter f) = nat (m_page_filter_size f)"
  shows "\<exists>cnt g. MultiGrain_getTotalCount f = Inr (cnt, g) \<and>
    (\<forall>a. MultiGrain_isSet bsb a g \<noteq> Inr True)"
proof -
  obtain cnt where c: "total_loop (nat (m_filter_size f)) 0 (m_filter f) 0 = Inr cnt"
    using total_loop_ok [of 0 "nat (m_filter_size f)" "m_filter f" 0] assms(1) by auto
  define g where "g = f\<lparr>m_page_filter := replicate (nat (m_page_filter_size f)) 0\<rparr>"
  have "rd (m_page_filter g) i = Inr b \<Longrightarrow> b = 0" for i b
    by (auto simp: rd_Inr_iff g_def)
  then have "MultiGrain_isSet bsb a g \<noteq> Inr True" for a
    by (auto simp: MultiGrain_isSet_def bindE_Inr_iff split: if_splits)
  moreover have "MultiGrain_getTotalCount f = Inr (cnt, g)"
    using c assms(2) by (simp add: MultiGrain_getTotalCount_def clear_all g_def)
  ultimately show ?thesis by blast
qed

definition demo_multigrain :: multigrain where
  "demo_multigrain = \<lparr>m_filter = replicate 64 1, m_filter_size = 64, m_filter_size_bits = 6,
     m_page_filter = replicate 64 1, m_page_filter_size = 64, m_page_filter_size_bits = 6\<rparr>"

theorem MultiGrain_count_forgets_witness:
  "MultiGrain_isSet 6 4096 demo_multigrain = Inr True \<and>
   (\<exists>cnt g. MultiGrain_getTotalCount demo_multigrain = Inr (cnt, g) \<and>
     (\<forall>a. MultiGrain_isSet 6 a g \<noteq> Inr True))"
proof
  show "MultiGrain_isSet 6 4096 demo_multigrain = Inr True" by code_simp
  show "\<exists>cnt g. MultiGrain_getTotalCount demo_multigrain = Inr (cnt, g) \<and>
     (\<forall>a. MultiGrain_isSet 6 a g \<noteq> Inr True)"
    by (rule MultiGrain_count_forgets) (simp_all add: demo_multigrain_def)
qed

section \<open>BulkBloomFilter\<close>

lemma meet_loop_eq:
  assumes "i + n \<le> length t" "length v = length t"
  shows "\<exists>t'. meet_loop n i v t z =
      Inr (t', z \<or> (\<exists>j. i \<le> j \<and> j < i + n \<and> t ! j \<noteq> 0 \<and> v ! j \<noteq> 0)) \<and> length t' = length t \<and>
    (\<forall>j < length t. t' ! j = (if i \<le> j \<and> j < i + n then of_bool (t ! j \<noteq> 0 \<and> v ! j \<noteq> 0) else t ! j))"
  using assms
proof (induction n arbitrary: i t z)
  case (Suc n)
  define c :: int where "c = (if t ! i \<noteq> 0 \<and> v ! i \<noteq> 0 then 1 else 0)"
  have step: "meet_loop (Suc n) i v t z = meet_loop n (Suc i) v (t[i := c]) (z \<or> c \<noteq> 0)"
    using Suc.prems by (simp add: rd_of_nat wr_of_nat c_def)
  obtain t' where t': "meet_loop n (Suc i) v (t[i := c]) (z \<or> c \<noteq> 0) =
      Inr (t', (z \<or> c \<noteq> 0) \<or> (\<exists>j. Suc i \<le> j \<and> j < Suc i + n \<and> t[i := c] ! j \<noteq> 0 \<and> v ! j \<noteq> 0))"
    "length t' = length t"
    "\<forall>j < length t. t' ! j =
      (if Suc i \<le> j \<and> j < Suc i + n then of_bool (t[i := c] ! j \<noteq> 0 \<and> v ! j \<noteq> 0) else t[i := c] ! j)"
    using Suc.IH [of "Suc i" "t[i := c]" "z \<or> c \<noteq> 0"] Suc.prems by auto
  have r: "i \<le> j \<and> j < i + Suc n \<longleftrightarrow> j = i \<or> Suc i \<le> j \<and> j < Suc i + n" for j by auto
  have c: "c \<noteq> 0 \<longleftrightarrow> t ! i \<noteq> 0 \<and> v ! i \<noteq> 0" by (simp add: c_def)
  have other: "Suc i \<le> j \<Longrightarrow> t[i := c] ! j = t ! j" for j by simp
  have e: "((z \<or> c \<noteq> 0) \<or> (\<exists>j. Suc i \<le> j \<and> j < Suc i + n \<and> t[i := c] ! j \<noteq> 0 \<and> v ! j \<noteq> 0)) =
      (z \<or> (\<exists>j. i \<le> j \<and> j < i + Suc n \<and> t ! j \<noteq> 0 \<and> v ! j \<noteq> 0))"
    using c other r by (metis (no_types, lifting))
  have n: "t' ! j = (if i \<le> j \<and> j < i + Suc n then of_bool (t ! j \<noteq> 0 \<and> v ! j \<noteq> 0) else t ! j)"
    if "j < length t" for j
    using t'(3) that Suc.prems(1) by (cases "j = i") (auto simp: c_def)
  show ?case unfolding step t'(1) e using t'(2) n by blast
qed auto

definition Bulk_inv :: "u32 \<Rightarrow> bulk \<Rightarrow> bool" where
  "Bulk_inv bsb f \<longleftrightarrow> sized f \<and> 2 \<le> m_filter_size_bits f \<and>
     m_sector_bits f = int (m_filter_size_bits f) - 1 \<and>
     unat bsb + 2 * m_filter_size_bits f \<le> 65 \<and>
     m_temp_filter f = replicate (nat (m_filter_size f)) 0"

definition Bulk_member :: "u32 \<Rightarrow> bulk \<Rightarrow> addr \<Rightarrow> bool" where
  "Bulk_member bsb f a \<longleftrightarrow>
     (case (Bulk_c0 bsb f a, Bulk_c1 bsb f a) of
        (Inr c0, Inr c1) \<Rightarrow> m_filter f ! nat (c0 + m_filter_size f div 2) \<noteq> 0 \<and> m_filter f ! nat c1 \<noteq> 0
      | _ \<Rightarrow> False)"

lemma Bulk_indices:
  assumes "Bulk_inv bsb f"
  shows "\<exists>c0 c1. Bulk_c0 bsb f a = Inr (int c0) \<and> Bulk_c1 bsb f a = Inr (int c1) \<and>
    c0 < nat (m_filter_size f) div 2 \<and> c1 < nat (m_filter_size f) div 2"
proof -
  have i: "2 \<le> m_filter_size_bits f" "m_filter_size_bits f < 31" "unat bsb + 2 * m_filter_size_bits f \<le> 65"
    "2 ^ m_filter_size_bits f \<le> nat (m_filter_size f)" "m_sector_bits f = int (m_filter_size_bits f) - 1"
    using assms by (auto simp: Bulk_inv_def sized_def)
  obtain n where n: "m_filter_size_bits f = Suc n" using i(1) by (cases "m_filter_size_bits f") auto
  have s: "m_sector_bits f = int n" using i(5) n by simp
  have h: "2 ^ n \<le> nat (m_filter_size f) div 2" using i(4) unfolding n power_Suc by linarith
  have u: "unat (bsb + of_nat n :: u32) = unat bsb + n"
    using i(3) n by (simp add: unat_word_ariths unat_of_nat)
  have "\<exists>c0. Bulk_c0 bsb f a = Inr (int c0) \<and> c0 < nat (m_filter_size f) div 2"
    unfolding Bulk_c0_def Let_def s of_int_of_nat_eq
    by (rule select_index) (use i n h in auto)
  moreover have d: "bsb + 2 * of_nat n - 1 = bsb + of_nat n + of_nat n - 1" by simp
  have "\<exists>c1. Bulk_c1 bsb f a = Inr (int c1) \<and> c1 < nat (m_filter_size f) div 2"
    unfolding Bulk_c1_def Let_def s of_int_of_nat_eq d
    by (rule select_index) (use i n h u in auto)
  ultimately show ?thesis by blast
qed

lemma Bulk_c_upd [simp]:
  "Bulk_c0 bsb (f\<lparr>m_filter := v\<rparr>) = Bulk_c0 bsb f" "Bulk_c1 bsb (f\<lparr>m_filter := v\<rparr>) = Bulk_c1 bsb f"
  "Bulk_c0 bsb (f\<lparr>m_temp_filter := v\<rparr>) = Bulk_c0 bsb f" "Bulk_c1 bsb (f\<lparr>m_temp_filter := v\<rparr>) = Bulk_c1 bsb f"
  by (simp_all add: Bulk_c0_def Bulk_c1_def fun_eq_iff)

lemma Bulk_set_ok:
  assumes "Bulk_inv bsb f"
  shows "\<exists>g. Bulk_set bsb a f = Inr g \<and> Bulk_inv bsb g \<and> Bulk_member bsb g a \<and>
    (\<forall>b. Bulk_member bsb f b \<longrightarrow> Bulk_member bsb g b)"
proof -
  let ?h = "nat (m_filter_size f) div 2"
  obtain c0 c1 where c: "Bulk_c0 bsb f a = Inr (int c0)" "Bulk_c1 bsb f a = Inr (int c1)" "c0 < ?h" "c1 < ?h"
    using Bulk_indices [OF assms] by blast
  have len: "length (m_filter f) = nat (m_filter_size f)" "0 \<le> m_filter_size f"
    using assms sized_pos [of f] by (auto simp: Bulk_inv_def sized_def)
  have hi: "m_filter_size f div 2 = int ?h" using len(2) by (simp add: zdiv_int)
  define g where "g = f\<lparr>m_filter := (m_filter f)[c0 + ?h := 1, c1 := 1]\<rparr>"
  have x: "int c0 + m_filter_size f div 2 = int (c0 + ?h)" using hi by simp
  have "wr (m_filter f) (int (c0 + ?h)) 1 = Inr ((m_filter f)[c0 + ?h := 1])"
    using c len by (intro wr_of_nat) simp
  moreover have "wr ((m_filter f)[c0 + ?h := 1]) (int c1) 1 = Inr ((m_filter f)[c0 + ?h := 1, c1 := 1])"
    using c len by (intro wr_of_nat) simp
  ultimately have run: "Bulk_set bsb a f = Inr g"
    unfolding Bulk_set_def c(1,2) g_def by (simp add: x)
  have inv: "Bulk_inv bsb g" using assms by (simp add: g_def Bulk_inv_def sized_def)
  have nz: "m_filter g ! k \<noteq> 0" if "m_filter f ! k \<noteq> 0 \<or> k = c0 + ?h \<or> k = c1" "k < length (m_filter f)" for k
    using that by (cases "k = c1"; cases "k = c0 + ?h") (auto simp: g_def)
  have m: "Bulk_member bsb g b"
    if b: "Bulk_c0 bsb f b = Inr (int d0)" "Bulk_c1 bsb f b = Inr (int d1)" "d0 < ?h" "d1 < ?h"
      "m_filter f ! (d0 + ?h) \<noteq> 0 \<or> d0 = c0" "m_filter f ! d1 \<noteq> 0 \<or> d1 = c1" for b d0 d1
  proof -
    have "nat (int d0 + m_filter_size g div 2) = d0 + ?h" using hi by (simp add: g_def)
    moreover have "m_filter g ! (d0 + ?h) \<noteq> 0" "m_filter g ! d1 \<noteq> 0"
      using b(3-6) len(1) nz [of "d0 + ?h"] nz [of d1] by auto
    ultimately show ?thesis using b(1,2) by (simp add: Bulk_member_def g_def)
  qed
  have "Bulk_member bsb f b \<longrightarrow> Bulk_member bsb g b" for b
  proof
    assume fb: "Bulk_member bsb f b"
    obtain d0 d1 where d: "Bulk_c0 bsb f b = Inr (int d0)" "Bulk_c1 bsb f b = Inr (int d1)" "d0 < ?h" "d1 < ?h"
      using Bulk_indices [OF assms] by blast
    have "nat (int d0 + m_filter_size f div 2) = d0 + ?h" using hi by simp
    with fb d show "Bulk_member bsb g b" by (intro m [OF d]) (simp_all add: Bulk_member_def)
  qed
  moreover have "Bulk_member bsb g a" by (rule m [OF c]) simp_all
  ultimately show ?thesis using run inv by blast
qed

lemma Bulk_isSet_ok:
  assumes "Bulk_inv bsb f"
  shows "Bulk_isSet bsb a f = Inr (Bulk_member bsb f a, f)"
proof -
  let ?n = "nat (m_filter_size f)" and ?h = "nat (m_filter_size f) div 2"
  obtain c0 c1 where c: "Bulk_c0 bsb f a = Inr (int c0)" "Bulk_c1 bsb f a = Inr (int c1)" "c0 < ?h" "c1 < ?h"
    using Bulk_indices [OF assms] by blast
  have len: "length (m_filter f) = ?n" "0 \<le> m_filter_size f" "m_temp_filter f = replicate ?n 0"
    using assms sized_pos [of f] by (auto simp: Bulk_inv_def sized_def)
  have hi: "m_filter_size f div 2 = int ?h" "nat (m_filter_size f div 2) = ?h"
    using len(2) by (simp_all add: zdiv_int nat_div_distrib)
  have x: "int c0 + m_filter_size f div 2 = int (c0 + ?h)" using hi by simp
  have lt: "c0 + ?h < ?n" "c1 < ?n" "c1 \<noteq> c0 + ?h" using c(3,4) by auto
  define t where "t = (replicate ?n (0 :: int))[c0 + ?h := 1, c1 := 1]"
  have t: "t ! j = of_bool (j = c0 + ?h \<or> j = c1)" if "j < ?n" for j
    using that lt by (auto simp: t_def nth_list_update)
  have w: "wr (replicate ?n (0 :: int)) (int (c0 + ?h)) 1 = Inr ((replicate ?n 0)[c0 + ?h := 1])"
    "wr ((replicate ?n 0)[c0 + ?h := 1]) (int c1) 1 = Inr t"
    using lt unfolding t_def by (intro wr_of_nat; simp)+
  obtain t1 where t1: "meet_loop ?h 0 (m_filter f) t False =
      Inr (t1, \<exists>j < ?h. t ! j \<noteq> 0 \<and> m_filter f ! j \<noteq> 0)" "length t1 = ?n"
    "\<forall>j < ?n. t1 ! j = (if j < ?h then of_bool (t ! j \<noteq> 0 \<and> m_filter f ! j \<noteq> 0) else t ! j)"
    using meet_loop_eq [of 0 ?h t "m_filter f" False] len by (auto simp: t_def)
  have s1: "(\<exists>j < ?h. t ! j \<noteq> 0 \<and> m_filter f ! j \<noteq> 0) \<longleftrightarrow> m_filter f ! c1 \<noteq> 0"
    using t lt c(4) by (auto split: if_splits)
  obtain t2 where t2: "meet_loop (?n - ?h) ?h (m_filter f) t1 False =
      Inr (t2, \<exists>j. ?h \<le> j \<and> j < ?n \<and> t1 ! j \<noteq> 0 \<and> m_filter f ! j \<noteq> 0)" "length t2 = ?n"
    "\<forall>j < ?n. t2 ! j = (if ?h \<le> j then of_bool (t1 ! j \<noteq> 0 \<and> m_filter f ! j \<noteq> 0) else t1 ! j)"
    using meet_loop_eq [of ?h "?n - ?h" t1 "m_filter f" False] len t1(2) by auto
  have s2: "(\<exists>j. ?h \<le> j \<and> j < ?n \<and> t1 ! j \<noteq> 0 \<and> m_filter f ! j \<noteq> 0) \<longleftrightarrow> m_filter f ! (c0 + ?h) \<noteq> 0"
  proof -
    have "t1 ! j = of_bool (j = c0 + ?h)" if "?h \<le> j" "j < ?n" for j
      using t1(3) t [OF that(2)] that c(4) by auto
    with lt(1) show ?thesis by (auto intro!: exI [of _ "c0 + ?h"])
  qed
  have reset: "reset_temp f (int c0) (int c1) u = Inr f"
    if u: "length u = ?n" "\<And>j. \<lbrakk>j < ?n; j \<noteq> c0 + ?h; j \<noteq> c1\<rbrakk> \<Longrightarrow> u ! j = 0" for u
  proof -
    have "u[c0 + ?h := 0, c1 := 0] = replicate ?n 0"
    proof (rule nth_equalityI)
      fix j assume "j < length (u[c0 + ?h := 0, c1 := 0])"
      then show "u[c0 + ?h := 0, c1 := 0] ! j = replicate ?n 0 ! j"
        using u by (cases "j = c1"; cases "j = c0 + ?h") auto
    qed (simp add: u)
    moreover have "wr u (int (c0 + ?h)) 0 = Inr (u[c0 + ?h := 0])"
      "wr (u[c0 + ?h := 0]) (int c1) 0 = Inr (u[c0 + ?h := 0, c1 := 0])"
      using lt u(1) by (intro wr_of_nat; simp)+
    ultimately show ?thesis unfolding reset_temp_def x using len(3) by simp
  qed
  have r: "reset_temp f (int c0) (int c1) t1 = Inr f" "reset_temp f (int c0) (int c1) t2 = Inr f"
    using t1(2,3) t2(2,3) t by (auto intro!: reset)
  have m: "Bulk_member bsb f a \<longleftrightarrow> m_filter f ! (c0 + ?h) \<noteq> 0 \<and> m_filter f ! c1 \<noteq> 0"
  proof -
    have "nat (int c0 + m_filter_size f div 2) = c0 + ?h" unfolding x by (rule nat_int)
    then show ?thesis unfolding Bulk_member_def c(1,2) by simp
  qed
  show ?thesis
    unfolding Bulk_isSet_def c(1,2) Let_def hi(2) len(3) m
    using w [folded x] t1(1) t2(1) r by (simp add: s1 s2)
qed

interpretation bulk: bloom_filter "Bulk_inv bsb" "Bulk_member bsb" "Bulk_set bsb" "Bulk_isSet bsb" for bsb
  by unfold_locales (blast intro: Bulk_set_ok, simp add: Bulk_isSet_ok)

text \<open>
  The bulk filter answers yes for every address stored, whatever was asked in between; its
  query intersects a scratch vector with the filter and leaves the whole state as it was.
\<close>

theorem Bulk_keeps:
  assumes "Bulk_inv bsb f" "Add a \<in> set os"
  shows "(\<exists>bs f'. run_ops (Bulk_set bsb) (Bulk_isSet bsb) (os @ [Ask a]) f = Inr (bs @ [True], f')) \<and>
    (\<exists>b. Bulk_isSet bsb c f = Inr (b, f))"
  using bulk.no_false_negative [OF assms] Bulk_isSet_ok [OF assms(1)] by blast

definition demo_bulk :: bulk where
  "demo_bulk = \<lparr>m_filter = replicate 16 0, m_filter_size = 16, m_filter_size_bits = 4,
     m_temp_filter = replicate 16 0, m_sector_bits = 3\<rparr>"

theorem Bulk_keeps_witness:
  "(\<exists>bs f'. run_ops (Bulk_set 6) (Bulk_isSet 6) ([Add 4096, Ask 64] @ [Ask 4096]) demo_bulk =
      Inr (bs @ [True], f')) \<and>
    (\<exists>b. Bulk_isSet 6 64 demo_bulk = Inr (b, demo_bulk))"
  by (rule Bulk_keeps) (simp_all add: Bulk_inv_def sized_def demo_bulk_def)

end
