(* ===== verification/Bloom_Hashed.thy ===== *)
theory Bloom_Hashed
  imports Bloom_Filters
begin

text \<open>
  The filters with several hash functions: \<open>H3BloomFilter\<close> and \<open>MultiBitSelBloomFilter\<close> of
  \<open>mem/ruby/filters\<close>. The argument \<open>bsb\<close> is \<open>RubySystem::getBlockSizeBits()\<close>; a hash value, an \<open>int\<close>,
  is the signed value of a 32-bit word; \<open>%\<close> truncates towards zero.
\<close>

record hashed = bloom +
  m_num_hashes :: int
  m_par_filter_size :: int
  m_par_filter_size_bits :: nat
  isParallel :: bool

definition crem :: "int \<Rightarrow> int \<Rightarrow> int res" where
  "crem a b = (if b = 0 then Inl DivByZero else Inr (a smod b))"

definition cdiv :: "int \<Rightarrow> int \<Rightarrow> int res" where
  "cdiv a b = (if b = 0 then Inl DivByZero else Inr (a sdiv b))"

text \<open>The last step of both \<open>get_index\<close> functions: place a hash value in its part of the filter.\<close>

definition place :: "'a hashed_scheme \<Rightarrow> int \<Rightarrow> int \<Rightarrow> int res" where
  "place f y i =
     (if isParallel f then bindE (crem y (m_par_filter_size f)) (\<lambda>r. Inr (r + i * m_par_filter_size f))
      else crem y (m_filter_size f))"

section \<open>H3BloomFilter\<close>

text \<open>The last three members are set and not used.\<close>

record h3 = hashed +
  primes_list :: "int list"
  mults_list :: "int list"
  adds_list :: "int list"

text \<open>The table of random words, in three parts.\<close>

definition H3_rows0 :: "u32 list list" where
  "H3_rows0 =
  [[33268410, 395488709, 311024285, 456111753, 181495008, 119997521, 220697869, 433891432,
    755927921, 515226970, 719448198, 349842774, 269183649, 463275672, 429800228, 521598937],
   [628677802, 820947732, 809435975, 1024657192, 887631270, 412050215, 391365090, 324227279,
    318338329, 1038393087, 489807930, 387366128, 518096428, 324184340, 429376066, 447109279],
   [599747653, 404960623, 103933604, 946416030, 656460913, 925957005, 1047665689, 163552053,
    88359290, 841315415, 899833584, 1067336680, 348549994, 464045876, 270252128, 829897652],
   [215495230, 966696438, 82589012, 750102795, 909780866, 920285789, 769759214, 331966823,
    939936006, 439950703, 883794828, 1009277508, 61634610, 741444350, 98689608, 524144422],
   [93868534, 196958667, 774076619, 327921978, 122538783, 879785030, 690748527, 3498564,
    83163077, 1027963025, 582088444, 466152216, 312424878, 550064499, 646612667, 561099434],
   [1002047931, 395477707, 821317480, 890482112, 697094476, 263813044, 840275189, 469664185,
    795625845, 211504898, 99204277, 1004491153, 725930417, 1064479221, 893834767, 839719181],
   [278507126, 985111995, 706462983, 1042178726, 123281719, 963778122, 500881056, 726291104,
    134293026, 568379664, 317050609, 533470307, 1022365922, 197645211, 315125721, 634827678],
   [219227366, 553960647, 870169525, 322232839, 508322497, 648672696, 249405795, 883596102,
    476433133, 541372919, 646647793, 1042679515, 43242483, 600187508, 499866821, 135713210],
   [52837162, 96966684, 401840460, 1071661176, 733560065, 150035417, 341319946, 811582750,
    636173904, 519054065, 196321433, 1028294565, 882204070, 522965093, 48884074, 117810166],
   [650860353, 789534698, 328813544, 473250022, 143128306, 173196006, 846958825, 174632187,
    683273509, 405459497, 787235556, 773873501, 240110267, 426797736, 92043842, 711789240],
   [586637493, 5059646, 398035664, 6686087, 498300175, 948278148, 681227731, 592751744,
    572019677, 558044722, 589368271, 695745538, 1073416749, 529192035, 550984939, 1070620580],
   [102904663, 647598516, 758863940, 313426443, 76504114, 1050747783, 708436441, 563815069,
    224107668, 875925186, 167675944, 926209739, 279737287, 1040288182, 768184312, 371708956],
   [683968868, 1027427757, 180781926, 742898864, 624078545, 645659833, 577225838, 987150210,
    723410002, 224013421, 993286634, 33188488, 247264323, 888018697, 38048664, 189037096],
   [475612146, 426739285, 873726278, 529192871, 607715202, 388486246, 987001312, 474493980,
    259747270, 417465536, 217062395, 392858482, 563810075, 137852805, 1051814153, 72895217],
   [71277086, 785496675, 500608842, 89633426, 274085706, 248467935, 838061983, 48106147,
    773662506, 49545328, 9071573, 100739031, 602018002, 904371654, 534132064, 332211304],
   [401893602, 735125342, 775548339, 210224843, 256081130, 482894412, 350801633, 1035713633,
    429458128, 327281409, 739927752, 359327650, 886942880, 847691759, 752417993, 359445596],
   [267472014, 1050659620, 1068232362, 1049684368, 17130239, 690524969, 793224378, 14455158,
    423092885, 873853424, 430535778, 7867877, 309731959, 370260786, 862353083, 403906850],
   [993077283, 218812656, 389234651, 393202875, 413116501, 263300295, 470013158, 592730725,
    441847172, 732392823, 407574059, 875664777, 271347307, 792954404, 554774761, 1022424300],
   [675919719, 637054073, 784720745, 149714381, 813144874, 502525801, 635436670, 1003196587,
    160786091, 947509775, 969788637, 26854073, 257964369, 63898568, 539767732, 772364518],
   [943076868, 1021732472, 697575075, 15843624, 617573396, 534113303, 122953324, 964873912,
    942995378, 87830944, 1012914818, 455484661, 592160054, 599844284, 810394353, 836812568],
   [688992674, 279465370, 731582262, 687883235, 438178468, 80493001, 342701501, 663561405,
    23360106, 531315007, 508931618, 36294623, 231216223, 840438413, 255665680, 663205938],
   [857265418, 552630887, 8173237, 792122963, 210140052, 823124938, 667709953, 751538219,
    991957789, 462064153, 19070176, 726604748, 714567823, 151147895, 1012619677, 697114353]]"

definition H3_rows1 :: "u32 list list" where
  "H3_rows1 =
  [[467105652, 683256174, 702387467, 28730434, 549942998, 48712701, 960519696, 1008345587,
    679267717, 370932249, 880419471, 352141567, 331640403, 598772468, 95160685, 812053015],
   [1053491323, 430526562, 1014938507, 109685515, 765949103, 177288303, 1034642653, 485421658,
    71850281, 981034542, 61620389, 601367920, 504420930, 220599168, 583051998, 158735752],
   [103033901, 522494916, 658494760, 959206022, 931348143, 834510661, 21542994, 189699884,
    679327018, 171983002, 96774168, 456133168, 543103352, 923945936, 970074188, 643658485],
   [566379913, 805798263, 840662512, 820206124, 796507494, 223712542, 118811519, 662246595,
    809326534, 416471323, 748027186, 161169753, 739149488, 276330378, 924837051, 964873733],
   [585882743, 135502711, 3386031, 625631285, 1068193307, 270342640, 432739484, 556606453,
    826419155, 1038540977, 158000202, 69109538, 207087256, 298111218, 678046259, 184611498],
   [305310710, 46237988, 855726974, 735975153, 930663798, 425764232, 104362407, 391371443,
    867622101, 71645091, 61824734, 661902640, 293738633, 309416189, 281710675, 879317360],
   [398146324, 398293087, 689145387, 1038451703, 521637478, 516134620, 314658937, 830334981,
    583400300, 340083705, 68029852, 675389876, 994635780, 788959180, 406967042, 74403607],
   [69463153, 744427484, 191639960, 590927798, 969916795, 546846769, 728756758, 889355646,
    520855076, 136068426, 776132410, 189663815, 252051082, 533662856, 362198652, 1026161384],
   [584984279, 1004834381, 568439705, 834508761, 21812513, 670870173, 1052043300, 341868768,
    473755574, 124339439, 36193947, 437997647, 137419489, 58705193, 337793711, 340738909],
   [898051466, 512792906, 234874060, 655358775, 683745319, 671676404, 428888546, 639928192,
    672697722, 176477579, 747020991, 758211282, 443045009, 205395173, 1016944273, 5584717],
   [156038300, 138620174, 588466825, 1061494056, 1013672100, 1064257198, 881417791, 839470738,
    83519030, 100875683, 237486447, 461483733, 681527127, 777996147, 574635362, 815974538],
   [184168473, 519509808, 62531892, 51821173, 43787358, 385711644, 141325169, 36069511,
    584183031, 571372909, 671503175, 226486781, 194932686, 1045460970, 753718579, 331442433],
   [73065106, 1015327221, 630916840, 1058053470, 306737587, 296343219, 907194989, 920172546,
    224516225, 818625553, 551143849, 634570650, 432966225, 756438259, 939564853, 767999933],
   [884775648, 394862257, 446787794, 219833788, 727195727, 728122304, 249888353, 732947974,
    289908868, 448282580, 618161877, 898939716, 739554163, 860631799, 1058977530, 86916736],
   [143850006, 352708694, 200194048, 979764914, 629404175, 546279766, 72106714, 860980514,
    313190585, 897143111, 308425797, 953791785, 349924906, 221457005, 950588925, 908254505],
   [950032043, 829868728, 68623614, 714624605, 69760597, 297275854, 355894016, 985369737,
    882852618, 864071289, 958512902, 950910111, 991368991, 829645051, 434698210, 771350575],
   [552695074, 319195551, 80297396, 496413831, 944046531, 621525571, 617653363, 416729825,
    441842808, 9847464, 99420657, 1033914550, 812966458, 937053011, 673390195, 934577365],
   [1034695843, 190969665, 332900185, 51897434, 523888639, 883512843, 146908572, 506785674,
    565814307, 692255649, 314052926, 826386588, 430691325, 866927620, 413880214, 936474339],
   [129380164, 741739952, 1013703462, 494392795, 957214600, 1010879043, 931790677, 94551922,
    988065869, 120637871, 882506912, 395075379, 210570485, 812422692, 910383687, 817722285],
   [51850866, 283408630, 1053047202, 858940389, 818507731, 477082181, 353546901, 993324368,
    407093779, 231608253, 1067319867, 73159811, 429792535, 971320614, 565699344, 718823399],
   [408185106, 491493570, 596050720, 310776444, 703628192, 454438809, 523988035, 728512200,
    686012353, 976339656, 72816924, 116926720, 165866591, 452043792, 866943072, 968545481],
   [443231195, 905907843, 1061421320, 746360489, 1043120338, 1069659155, 463359031, 688303227,
    186550710, 155347339, 1044842421, 1005904570, 69332909, 706951903, 422513657, 882038450]]"

definition H3_rows2 :: "u32 list list" where
  "H3_rows2 =
  [[430990623, 946501980, 742556791, 278398643, 183759217, 659404315, 279754382, 1069347846,
    843746517, 222777670, 990835599, 548741637, 129220580, 1392170, 1032654091, 894058935],
   [452042227, 751640705, 259481376, 765824585, 145991469, 1013683228, 1055491225, 536379588,
    392593350, 913368594, 1029429776, 226857786, 31505342, 1054416381, 32341741, 687106649],
   [404750944, 811417027, 869530820, 773491060, 810901282, 979340397, 1036910290, 461764404,
    834235095, 765695033, 604692390, 452158120, 928988098, 442719218, 1024059719, 167723114],
   [974245177, 1046377300, 1003424287, 787349855, 336314155, 875074696, 1018462718, 890313003,
    367376809, 86355556, 1020618772, 890710345, 444741481, 373230261, 767064947, 840920177],
   [719581124, 431808156, 138301690, 668222575, 497413494, 740492013, 485033226, 125301442,
    831265111, 879071459, 341690480, 152975256, 850330086, 717444507, 694225877, 785340566],
   [1032766252, 140959364, 737474726, 1062767538, 364464647, 331414723, 356152634, 642832379,
    158733632, 374691640, 285504811, 345349905, 876599880, 476392727, 479589210, 606376325],
   [174997730, 778177086, 319164313, 163614456, 10331364, 599358958, 8331663, 237538058,
    159173957, 174533880, 65588684, 878222844, 424467599, 901803515, 187504218, 776690353],
   [803856182, 965850321, 694948067, 218315960, 358416571, 683713254, 178069303, 428076035,
    686176454, 579553217, 357306738, 315018080, 886852373, 568563910, 896839725, 257416821],
   [401650013, 183289141, 497957228, 879734476, 265024455, 825794561, 889237440, 323359863,
    100258491, 991414783, 313986632, 85847250, 362520248, 276103512, 1041630342, 525981595],
   [487732740, 46201705, 990837834, 62744493, 1067364756, 58015363, 690846283, 680262648,
    997278956, 469357861, 432164624, 996763915, 211907847, 167824295, 144928194, 454839915],
   [41404232, 514493300, 259546924, 578217256, 972345130, 123299213, 346040332, 1014668104,
    520910639, 579955198, 36627803, 179072921, 547684341, 598950511, 269497394, 854352266],
   [603906768, 100863318, 708837659, 204175569, 375560904, 908375384, 28314106, 6303733,
    175283124, 749851198, 308667367, 415293931, 225365403, 1032188331, 977112710, 819705229],
   [399767123, 697985692, 356790426, 643687584, 298624218, 185095167, 381653926, 876816342,
    296720023, 2205879, 235816616, 521850105, 622753786, 1021421218, 726349744, 256504902],
   [851245024, 1022500222, 511909628, 313809625, 99776025, 39710175, 798739932, 741832408,
    140631966, 898295927, 607660421, 870669312, 1051422478, 789055529, 669113756, 681943450],
   [853872755, 491465269, 503341472, 98019440, 258267420, 335602837, 320687824, 1053324395,
    24932389, 955011453, 934255131, 435625663, 501568768, 238967025, 549987406, 248619780],
   [411151284, 576471205, 757985419, 544137226, 968135693, 877548443, 194586894, 74882373,
    248353663, 21207540, 273789651, 853653916, 861267970, 533253322, 3739570, 661358586],
   [271430986, 71390029, 257643671, 949329860, 348156406, 251939238, 445808698, 48269799,
    907589462, 105677619, 635451508, 20805932, 464874661, 7542147, 243619464, 288304568],
   [368215982, 530288964, 770090421, 660961164, 614935537, 630760399, 931299233, 794519275,
    779918979, 401746493, 561237006, 1027202224, 258968003, 339508073, 1050610516, 1064307013],
   [1039172162, 448331205, 928997884, 49813151, 198712120, 992335354, 671024050, 879525220,
    745915336, 1038822580, 138669665, 917958819, 681422342, 792868818, 924762727, 816386174],
   [515190336, 313808618, 441296783, 1022120897, 792325033, 354387581, 59273006, 280075434,
    411357221, 665274694, 4054464, 1059046246, 394261773, 848616745, 15446017, 517723271]]"

definition H3 :: "u32 list list" where
  "H3 = H3_rows0 @ H3_rows1 @ H3_rows2"

fun h3_loop :: "nat \<Rightarrow> nat \<Rightarrow> u64 \<Rightarrow> int \<Rightarrow> u32 \<Rightarrow> u32 res" where
  "h3_loop 0 i val index r = Inr r"
| "h3_loop (Suc n) i val index r =
     bindE (if val AND 1 \<noteq> 0
            then bindE (rd H3 (int i)) (\<lambda>row. bindE (rd row index) (\<lambda>h. Inr (r XOR h)))
            else Inr r) (h3_loop n (Suc i) (drop_bit 1 val) index)"

definition hash_H3 :: "u64 \<Rightarrow> int \<Rightarrow> int res" where
  "hash_H3 value index = bindE (h3_loop 64 0 value index 0) (\<lambda>r. Inr (sint r))"

definition H3_clear :: "h3 \<Rightarrow> h3 res" where
  "H3_clear f = bindE (zero_loop (nat (m_filter_size f)) 0 (m_filter f)) (\<lambda>v. Inr (f\<lparr>m_filter := v\<rparr>))"

definition H3_new :: "int \<Rightarrow> int \<Rightarrow> bool \<Rightarrow> h3 res" where
  "H3_new sz hashes parallel =
     bindE (floorLog2_int sz) (\<lambda>bits. bindE (cdiv sz hashes) (\<lambda>par. bindE (floorLog2_int par) (\<lambda>pbits.
     H3_clear \<lparr>m_filter = replicate (nat sz) 0, m_filter_size = sz, m_filter_size_bits = bits,
       m_num_hashes = hashes, m_par_filter_size = par, m_par_filter_size_bits = pbits,
       isParallel = parallel,
       primes_list = [9323, 11279, 10247, 30637, 25717, 43711],
       mults_list = [255, 29, 51, 3, 77, 43],
       adds_list = [841, 627, 1555, 241, 7777, 65931]\<rparr>)))"

definition H3_merge :: "h3 \<Rightarrow> h3 \<Rightarrow> h3 res" where
  "H3_merge other f =
     bindE (or_loop (nat (m_filter_size f)) 0 (m_filter other) (m_filter f)) (\<lambda>v. Inr (f\<lparr>m_filter := v\<rparr>))"

definition H3_get_index :: "u32 \<Rightarrow> h3 \<Rightarrow> addr \<Rightarrow> int \<Rightarrow> int res" where
  "H3_get_index bsb f addr i =
     bindE (makeLineAddress bsb addr) (\<lambda>x. bindE (hash_H3 x i) (\<lambda>y. place f y i))"

definition H3_set :: "u32 \<Rightarrow> addr \<Rightarrow> h3 \<Rightarrow> h3 res" where
  "H3_set bsb addr f =
     bindE (set_loop (H3_get_index bsb f addr) (nat (m_num_hashes f)) 0 (m_filter f)) (\<lambda>v.
     Inr (f\<lparr>m_filter := v\<rparr>))"

definition H3_unset :: "addr \<Rightarrow> h3 \<Rightarrow> h3 res" where
  "H3_unset addr f = Inl AssertFail"

definition H3_isSet :: "u32 \<Rightarrow> addr \<Rightarrow> h3 \<Rightarrow> bool res" where
  "H3_isSet bsb addr f =
     test_loop (H3_get_index bsb f addr) (nat (m_num_hashes f)) 0 (m_filter f) True"

definition H3_getCount :: "u32 \<Rightarrow> addr \<Rightarrow> h3 \<Rightarrow> int res" where
  "H3_getCount bsb addr f = bindE (H3_isSet bsb addr f) (\<lambda>b. Inr (if b then 1 else 0))"

definition H3_getTotalCount :: "h3 \<Rightarrow> int res" where
  "H3_getTotalCount f = total_loop (nat (m_filter_size f)) 0 (m_filter f) 0"

section \<open>MultiBitSelBloomFilter\<close>

record bitsel = hashed +
  m_skip_bits :: int

text \<open>One round of \<open>hash_bitsel\<close>; \<open>result += mask << i\<close> adds in 64 bits and keeps the low 32.\<close>

fun bitsel_loop :: "nat \<Rightarrow> nat \<Rightarrow> u64 \<Rightarrow> int \<Rightarrow> int \<Rightarrow> int \<Rightarrow> u32 \<Rightarrow> u32 res" where
  "bitsel_loop 0 i v index jump maxBits r = Inr r"
| "bitsel_loop (Suc n) i v index jump maxBits r =
     bindE (crem (index + jump * int i) maxBits) (\<lambda>b.
     if b < 0 \<or> 64 \<le> b \<or> 64 \<le> i then Inl BadShift
     else bitsel_loop n (Suc i) v index jump maxBits
       (if v AND push_bit (nat b) 1 \<noteq> 0 then r + ucast (push_bit i 1 :: u64) else r))"

definition hash_bitsel :: "u64 \<Rightarrow> int \<Rightarrow> int \<Rightarrow> int \<Rightarrow> nat \<Rightarrow> int res" where
  "hash_bitsel value index jump maxBits numBits =
     bindE (bitsel_loop numBits 0 value index jump maxBits 0) (\<lambda>r. Inr (sint r))"

definition BitSel_clear :: "bitsel \<Rightarrow> bitsel res" where
  "BitSel_clear f = bindE (zero_loop (nat (m_filter_size f)) 0 (m_filter f)) (\<lambda>v. Inr (f\<lparr>m_filter := v\<rparr>))"

text \<open>The constructor on the items of its configuration string, the numbers converted.\<close>

definition BitSel_new :: "int \<Rightarrow> int \<Rightarrow> int \<Rightarrow> string \<Rightarrow> bitsel res" where
  "BitSel_new sz hashes skip kind =
     bindE (if kind = ''Regular'' then Inr False else if kind = ''Parallel'' then Inr True else Inl Panic) (\<lambda>par.
     bindE (floorLog2_int sz) (\<lambda>bits. bindE (cdiv sz hashes) (\<lambda>psz. bindE (floorLog2_int psz) (\<lambda>pbits.
     BitSel_clear \<lparr>m_filter = replicate (nat sz) 0, m_filter_size = sz, m_filter_size_bits = bits,
       m_num_hashes = hashes, m_par_filter_size = psz, m_par_filter_size_bits = pbits,
       isParallel = par, m_skip_bits = skip\<rparr>))))"

definition BitSel_merge :: "bitsel \<Rightarrow> bitsel \<Rightarrow> bitsel res" where
  "BitSel_merge other f =
     bindE (or_loop (nat (m_filter_size f)) 0 (m_filter other) (m_filter f)) (\<lambda>v. Inr (f\<lparr>m_filter := v\<rparr>))"

definition BitSel_get_index :: "u32 \<Rightarrow> bitsel \<Rightarrow> addr \<Rightarrow> int \<Rightarrow> int res" where
  "BitSel_get_index bsb f addr i =
     bindE (makeLineAddress bsb addr) (\<lambda>l.
     if m_skip_bits f < 0 \<or> 64 \<le> m_skip_bits f then Inl BadShift
     else bindE (hash_bitsel (drop_bit (nat (m_skip_bits f)) l) i (m_num_hashes f) 30 (m_filter_size_bits f))
       (\<lambda>y. place f y i))"

definition BitSel_set :: "u32 \<Rightarrow> addr \<Rightarrow> bitsel \<Rightarrow> bitsel res" where
  "BitSel_set bsb addr f =
     bindE (set_loop (BitSel_get_index bsb f addr) (nat (m_num_hashes f)) 0 (m_filter f)) (\<lambda>v.
     Inr (f\<lparr>m_filter := v\<rparr>))"

definition BitSel_unset :: "addr \<Rightarrow> bitsel \<Rightarrow> bitsel res" where
  "BitSel_unset addr f = Inl AssertFail"

definition BitSel_isSet :: "u32 \<Rightarrow> addr \<Rightarrow> bitsel \<Rightarrow> bool res" where
  "BitSel_isSet bsb addr f =
     test_loop (BitSel_get_index bsb f addr) (nat (m_num_hashes f)) 0 (m_filter f) True"

definition BitSel_getCount :: "u32 \<Rightarrow> addr \<Rightarrow> bitsel \<Rightarrow> int res" where
  "BitSel_getCount bsb addr f = bindE (BitSel_isSet bsb addr f) (\<lambda>b. Inr (if b then 1 else 0))"

definition BitSel_getTotalCount :: "bitsel \<Rightarrow> int res" where
  "BitSel_getTotalCount f = total_loop (nat (m_filter_size f)) 0 (m_filter f) 0"

section \<open>Filters with several indices\<close>

locale hashed_filter =
  fixes vec :: "'s \<Rightarrow> int list"
    and upd :: "int list \<Rightarrow> 's \<Rightarrow> 's"
    and inv :: "'s \<Rightarrow> bool"
    and hashes :: "'s \<Rightarrow> nat"
    and idx :: "'s \<Rightarrow> addr \<Rightarrow> int \<Rightarrow> int res"
  assumes idx_ok: "\<lbrakk>inv f; i < hashes f\<rbrakk> \<Longrightarrow> \<exists>k. idx f a (int i) = Inr (int k) \<and> k < length (vec f)"
    and vec_upd [simp]: "vec (upd v f) = v"
    and idx_upd [simp]: "idx (upd v f) = idx f"
    and hashes_upd [simp]: "hashes (upd v f) = hashes f"
    and inv_upd: "\<lbrakk>inv f; length v = length (vec f)\<rbrakk> \<Longrightarrow> inv (upd v f)"
begin

definition slot :: "'s \<Rightarrow> addr \<Rightarrow> nat \<Rightarrow> nat" where
  "slot f a i = nat (case idx f a (int i) of Inl e \<Rightarrow> 0 | Inr k \<Rightarrow> k)"

definition holds :: "'s \<Rightarrow> addr \<Rightarrow> bool" where
  "holds f a \<longleftrightarrow> (\<forall>i < hashes f. vec f ! slot f a i \<noteq> 0)"

lemma slot_ok:
  "\<lbrakk>inv f; i < hashes f\<rbrakk> \<Longrightarrow> idx f a (int i) = Inr (int (slot f a i)) \<and> slot f a i < length (vec f)"
  using idx_ok [of f i a] by (auto simp: slot_def)

lemma store:
  assumes "inv f"
  shows "\<exists>g. bindE (set_loop (idx f a) (hashes f) 0 (vec f)) (\<lambda>v. Inr (upd v f)) = Inr g \<and> inv g \<and>
    holds g a \<and> (\<forall>b. holds f b \<longrightarrow> holds g b)"
proof -
  obtain w where w: "set_loop (idx f a) (hashes f) 0 (vec f) = Inr w" "length w = length (vec f)"
    "\<forall>k < length (vec f). w ! k = (if k \<in> slot f a ` {0..<hashes f} then 1 else vec f ! k)"
    using set_loop_eq [of 0 "hashes f" "idx f a" "slot f a" "vec f"] slot_ok [OF assms] by auto
  have "slot (upd w f) b = slot f b" for b by (simp add: slot_def fun_eq_iff)
  then have "holds (upd w f) a" "holds f b \<longrightarrow> holds (upd w f) b" for b
    using w(3) slot_ok [OF assms] by (auto simp: holds_def)
  with w assms show ?thesis by (simp add: inv_upd)
qed

lemma query:
  assumes "inv f"
  shows "bindE (test_loop (idx f a) (hashes f) 0 (vec f) True) (\<lambda>b. Inr (b, f)) = Inr (holds f a, f)"
  using test_loop_eq [of 0 "hashes f" "idx f a" "slot f a" "vec f" True] slot_ok [OF assms]
  by (simp add: holds_def)

end

sublocale hashed_filter \<subseteq> bloom_filter inv holds
  "\<lambda>a f. bindE (set_loop (idx f a) (hashes f) 0 (vec f)) (\<lambda>v. Inr (upd v f))"
  "\<lambda>a f. bindE (test_loop (idx f a) (hashes f) 0 (vec f) True) (\<lambda>b. Inr (b, f))"
  by unfold_locales (blast intro: store, simp add: query)

section \<open>Indices\<close>

definition hashed_inv :: "'a hashed_scheme \<Rightarrow> bool" where
  "hashed_inv f \<longleftrightarrow> sized f \<and> 0 < m_num_hashes f \<and> m_num_hashes f \<le> m_filter_size f \<and>
     m_par_filter_size f = m_filter_size f div m_num_hashes f"

lemma place_ok:
  assumes "hashed_inv f" "0 \<le> y" "i < nat (m_num_hashes f)"
  shows "\<exists>k. place f y (int i) = Inr (int k) \<and> k < length (m_filter f)"
proof -
  let ?m = "m_filter_size f" and ?n = "m_num_hashes f" and ?p = "m_par_filter_size f"
  have i: "0 < ?n" "?n \<le> ?m" "?p = ?m div ?n" "length (m_filter f) = nat ?m"
    using assms(1) by (auto simp: hashed_inv_def sized_def)
  have p: "0 < ?p" "?n * ?p \<le> ?m"
  proof -
    show "0 < ?p" using i by (simp add: pos_imp_zdiv_pos_iff)
    show "?n * ?p \<le> ?m" using mult_div_mod_eq [of ?n ?m] pos_mod_sign [OF i(1), of ?m] unfolding i(3) by linarith
  qed
  have m: "0 < ?m" using i by linarith
  have "0 \<le> y mod ?p + int i * ?p" using p(1) by simp
  moreover have "y mod ?p + int i * ?p < ?m"
  proof -
    have "y mod ?p < ?p" using p(1) by simp
    moreover have "(int i + 1) * ?p \<le> ?n * ?p" using assms(3) p(1) by (intro mult_right_mono) auto
    ultimately show ?thesis using p(2) by (simp add: distrib_right)
  qed
  moreover have "0 \<le> y mod ?m" "y mod ?m < ?m" using m by simp_all
  ultimately show ?thesis
    using assms(2) p(1) m i(4)
    by (intro exI [of _ "nat (if isParallel f then y mod ?p + int i * ?p else y mod ?m)"])
      (auto simp: place_def crem_def smod_nonneg)
qed

lemma H3_table: "length H3 = 64 \<and> list_all (\<lambda>r. length r = 16 \<and> list_all (\<lambda>x. x < 2 ^ 30) r) H3"
  by code_simp

lemma H3_entry:
  assumes "i < 64" "k < 16"
  shows "\<exists>h. bindE (rd H3 (int i)) (\<lambda>row. bindE (rd row (int k)) (\<lambda>h. Inr (r XOR h))) = Inr (r XOR h) \<and>
    unat h < 2 ^ 30"
proof -
  have row: "length (H3 ! i) = 16" "list_all (\<lambda>x. x < 2 ^ 30) (H3 ! i)"
    using H3_table assms(1) by (simp_all add: list_all_length)
  then have "unat (H3 ! i ! k) < 2 ^ 30"
    using assms(2) by (simp add: list_all_length word_less_nat_alt)
  with row assms H3_table show ?thesis
    by (intro exI [of _ "H3 ! i ! k"]) (simp add: rd_of_nat)
qed

lemma h3_loop_ok:
  "\<lbrakk>i + n \<le> 64; k < 16; unat r < 2 ^ 30\<rbrakk> \<Longrightarrow>
     \<exists>q. h3_loop n i val (int k) r = Inr q \<and> unat q < 2 ^ 30"
proof (induction n arbitrary: i val r)
  case (Suc n)
  obtain h where h: "bindE (rd H3 (int i)) (\<lambda>row. bindE (rd row (int k)) (\<lambda>h. Inr (r XOR h))) = Inr (r XOR h)"
    "unat h < 2 ^ 30"
    using H3_entry [of i k r] Suc.prems by auto
  have "unat (r XOR h) < 2 ^ 30" using Suc.prems(3) h(2) by (rule xor_below)
  with Suc h show ?case by simp
qed simp

lemma makeLineAddress_ok: "\<exists>x. makeLineAddress bsb a = Inr x"
  by (auto simp: makeLineAddress_def maskLowOrderBits_def shl_def ADDRESS_WIDTH_def not_le
      word_less_nat_alt word_le_nat_alt)

definition H3_inv :: "h3 \<Rightarrow> bool" where
  "H3_inv f \<longleftrightarrow> hashed_inv f \<and> m_num_hashes f \<le> 16"

lemma H3_index:
  assumes "H3_inv f" "i < nat (m_num_hashes f)"
  shows "\<exists>k. H3_get_index bsb f a (int i) = Inr (int k) \<and> k < length (m_filter f)"
proof -
  obtain x where x: "makeLineAddress bsb a = Inr x" using makeLineAddress_ok by blast
  obtain q where q: "h3_loop 64 0 x (int i) 0 = Inr q" "unat q < 2 ^ 30"
  proof -
    have "i < 16" using assms unfolding H3_inv_def by linarith
    then show thesis using h3_loop_ok [of 0 64 i 0 x] that by auto
  qed
  have "0 \<le> sint q" using sint_small [of q] q(2) by simp
  then show ?thesis
    using place_ok [of f "sint q" i] assms x q(1) by (simp add: H3_get_index_def hash_H3_def H3_inv_def)
qed

lemma index_upd [simp]:
  "H3_get_index bsb (h\<lparr>m_filter := v\<rparr>) = H3_get_index bsb h"
  "BitSel_get_index bsb (f\<lparr>m_filter := v\<rparr>) = BitSel_get_index bsb f"
  by (auto simp: H3_get_index_def BitSel_get_index_def place_def fun_eq_iff cong: if_cong)

interpretation h3f: hashed_filter m_filter "\<lambda>v f. f\<lparr>m_filter := v\<rparr>" H3_inv "\<lambda>f. nat (m_num_hashes f)"
  "H3_get_index bsb" for bsb
  by unfold_locales
    (erule (1) H3_index, simp, simp, simp,
     simp add: H3_inv_def hashed_inv_def sized_def)

lemma bitsel_loop_ok:
  "\<lbrakk>i + n \<le> 30; 0 \<le> index; 0 \<le> jump; unat r < 2 ^ i\<rbrakk> \<Longrightarrow>
     \<exists>q. bitsel_loop n i v index jump 30 r = Inr q \<and> unat q < 2 ^ (i + n)"
proof (induction n arbitrary: i r)
  case (Suc n)
  define b where "b = (index + jump * int i) mod 30"
  define s where "s = (if v AND push_bit (nat b) 1 \<noteq> 0 then r + ucast (push_bit i 1 :: u64) else r)"
  have b: "crem (index + jump * int i) 30 = Inr b" "0 \<le> b" "b < 64"
    using Suc.prems(2,3) by (simp_all add: crem_def smod_nonneg b_def pos_mod_bound [THEN less_trans])
  have "unat (ucast (push_bit i 1 :: u64) :: u32) = 2 ^ i"
  proof -
    have "(2 :: nat) ^ i < 2 ^ 32" using Suc.prems(1) by (intro power_strict_increasing) simp_all
    moreover have "(ucast (push_bit i 1 :: u64) :: u32) = of_nat (2 ^ i)"
      by (rule bit_word_eqI) (use Suc.prems(1) in \<open>auto simp: bit_simps\<close>)
    ultimately show ?thesis by (simp only: unat_of_nat) simp
  qed
  moreover have "(2 :: nat) ^ i + 2 ^ i \<le> 2 ^ 30"
    using power_increasing [of "Suc i" 30 "2 :: nat"] Suc.prems(1) by simp
  ultimately have "unat s < 2 ^ Suc i" using Suc.prems(4) by (simp add: s_def unat_word_ariths)
  with Suc.IH [of "Suc i" s] Suc.prems b show ?case by (simp add: s_def)
qed simp

definition BitSel_inv :: "bitsel \<Rightarrow> bool" where
  "BitSel_inv f \<longleftrightarrow> hashed_inv f \<and> 0 \<le> m_skip_bits f \<and> m_skip_bits f < 64"

lemma BitSel_index:
  assumes "BitSel_inv f" "i < nat (m_num_hashes f)"
  shows "\<exists>k. BitSel_get_index bsb f a (int i) = Inr (int k) \<and> k < length (m_filter f)"
proof -
  obtain x where x: "makeLineAddress bsb a = Inr x" using makeLineAddress_ok by blast
  have j: "0 \<le> m_num_hashes f" "m_filter_size_bits f \<le> 30" "hashed_inv f"
    using assms(1) by (auto simp: BitSel_inv_def hashed_inv_def sized_def)
  obtain q where q: "bitsel_loop (m_filter_size_bits f) 0 (drop_bit (nat (m_skip_bits f)) x) (int i)
      (m_num_hashes f) 30 0 = Inr q" "unat q < 2 ^ m_filter_size_bits f"
    using bitsel_loop_ok [of 0 "m_filter_size_bits f" "int i" "m_num_hashes f" 0] j by auto
  have "(2 :: nat) ^ m_filter_size_bits f \<le> 2 ^ 30" using j(2) by (intro power_increasing) simp_all
  then have "0 \<le> sint q" using sint_small [of q] q(2) by simp
  then have "\<exists>k. place f (sint q) (int i) = Inr (int k) \<and> k < length (m_filter f)"
    using place_ok [of f "sint q" i] j assms(2) by simp
  then show ?thesis
    using assms x q(1) by (simp add: BitSel_get_index_def hash_bitsel_def BitSel_inv_def)
qed

interpretation bitsel: hashed_filter m_filter "\<lambda>v f. f\<lparr>m_filter := v\<rparr>" BitSel_inv
  "\<lambda>f. nat (m_num_hashes f)" "BitSel_get_index bsb" for bsb
  by unfold_locales
    (erule (1) BitSel_index, simp, simp, simp,
     simp add: BitSel_inv_def hashed_inv_def sized_def)


definition demo_h3 :: h3 where
  "demo_h3 = \<lparr>m_filter = replicate 64 0, m_filter_size = 64, m_filter_size_bits = 6, m_num_hashes = 4,
     m_par_filter_size = 16, m_par_filter_size_bits = 4, isParallel = True,
     primes_list = [], mults_list = [], adds_list = []\<rparr>"

definition demo_bitsel :: bitsel where
  "demo_bitsel = \<lparr>m_filter = replicate 64 0, m_filter_size = 64, m_filter_size_bits = 6, m_num_hashes = 4,
     m_par_filter_size = 16, m_par_filter_size_bits = 4, isParallel = False, m_skip_bits = 6\<rparr>"


end
