(* ===== verification/Branch_Pred.thy ===== *)
theory Branch_Pred
  imports Ruby_Address
begin

text \<open>
  Branch predictors of the simulated core (\<open>cpu/pred/sat_counter.hh\<close>, \<open>2bit_local.cc\<close>, \<open>bi_mode.cc\<close>,
  \<open>tournament.cc\<close>). \<open>unsigned\<close> is a 32-bit word, a counter an 8-bit word. A lookup returns the
  prediction, the history object handed to the later \<open>update\<close> or \<open>squash\<close>, and the new state.
\<close>

section \<open>SatCounter\<close>

record sat_counter =
  initialVal :: u8
  maxVal :: u8
  ctr :: u8

text \<open>The default constructor leaves \<open>maxVal\<close> indeterminate: \<open>junk\<close> is what it holds.\<close>

definition SatCounter_default :: "u8 \<Rightarrow> sat_counter" where
  "SatCounter_default junk = \<lparr>initialVal = 0, maxVal = junk, ctr = 0\<rparr>"

definition max_of_bits :: "u32 \<Rightarrow> u8 res" where
  "max_of_bits bits = (if bits \<ge> 31 then Inl BadShift else Inr (ucast (push_bit (unat bits) 1 - 1 :: u32)))"

definition SatCounter_bits :: "u32 \<Rightarrow> sat_counter res" where
  "SatCounter_bits bits = bindE (max_of_bits bits) (\<lambda>m. Inr \<lparr>initialVal = 0, maxVal = m, ctr = 0\<rparr>)"

definition SatCounter_new :: "u32 \<Rightarrow> u8 \<Rightarrow> sat_counter res" where
  "SatCounter_new bits initial_val =
     bindE (max_of_bits bits) (\<lambda>m.
     if initial_val > m then Inl Panic
     else Inr \<lparr>initialVal = initial_val, maxVal = m, ctr = initial_val\<rparr>)"

definition setBits :: "u32 \<Rightarrow> sat_counter \<Rightarrow> sat_counter res" where
  "setBits bits c = bindE (max_of_bits bits) (\<lambda>m. Inr (c\<lparr>maxVal := m\<rparr>))"

definition ctr_reset :: "sat_counter \<Rightarrow> sat_counter" where
  "ctr_reset c = c\<lparr>ctr := initialVal c\<rparr>"

definition increment :: "sat_counter \<Rightarrow> sat_counter" where
  "increment c = (if ctr c < maxVal c then c\<lparr>ctr := ctr c + 1\<rparr> else c)"

definition decrement :: "sat_counter \<Rightarrow> sat_counter" where
  "decrement c = (if ctr c > 0 then c\<lparr>ctr := ctr c - 1\<rparr> else c)"

definition read_ctr :: "sat_counter \<Rightarrow> u8" where
  "read_ctr c = ctr c"

text \<open>Loops over a vector of counters, and the update of one counter.\<close>

fun setBits_all :: "u32 \<Rightarrow> sat_counter list \<Rightarrow> sat_counter list res" where
  "setBits_all bits [] = Inr []"
| "setBits_all bits (c # cs) =
     bindE (setBits bits c) (\<lambda>c. bindE (setBits_all bits cs) (\<lambda>cs. Inr (c # cs)))"

definition change :: "(sat_counter \<Rightarrow> sat_counter) \<Rightarrow> sat_counter list \<Rightarrow> u32 \<Rightarrow> sat_counter list res" where
  "change f cs i = bindE (rd cs (uint i)) (\<lambda>c. wr cs (uint i) (f c))"

definition train :: "bool \<Rightarrow> sat_counter \<Rightarrow> sat_counter" where
  "train taken = (if taken then increment else decrement)"

definition value_at :: "sat_counter list \<Rightarrow> u32 \<Rightarrow> u8 res" where
  "value_at cs i = bindE (rd cs (uint i)) (\<lambda>c. Inr (read_ctr c))"

section \<open>LocalBP\<close>

record local_bp =
  lb_ctrs :: "sat_counter list"
  lb_predictorSize :: u32
  lb_predictorSets :: u32
  lb_ctrBits :: u32
  lb_indexMask :: u32
  lb_shift :: u32

definition LocalBP_new :: "u8 \<Rightarrow> u32 \<Rightarrow> u32 \<Rightarrow> u32 \<Rightarrow> local_bp res" where
  "LocalBP_new junk predictorSize ctrBits shift =
     (if \<not> isPowerOf2 predictorSize then Inl Panic
      else if ctrBits = 0 then Inl DivByZero
      else let sets = predictorSize div ctrBits
      in if \<not> isPowerOf2 sets then Inl Panic
      else bindE (setBits_all ctrBits (replicate (unat sets) (SatCounter_default junk))) (\<lambda>cs.
        Inr \<lparr>lb_ctrs = cs, lb_predictorSize = predictorSize, lb_predictorSets = sets,
          lb_ctrBits = ctrBits, lb_indexMask = sets - 1, lb_shift = shift\<rparr>))"

definition LocalBP_reset :: "local_bp \<Rightarrow> local_bp" where
  "LocalBP_reset p =
     p\<lparr>lb_ctrs := map ctr_reset (take (unat (lb_predictorSets p)) (lb_ctrs p)) @
        drop (unat (lb_predictorSets p)) (lb_ctrs p)\<rparr>"

definition getLocalIndex :: "local_bp \<Rightarrow> addr \<Rightarrow> u32 res" where
  "getLocalIndex p branch_addr =
     bindE (shr branch_addr (lb_shift p)) (\<lambda>a. Inr (ucast (a AND ucast (lb_indexMask p))))"

definition getPrediction :: "local_bp \<Rightarrow> u8 \<Rightarrow> bool res" where
  "getPrediction p cnt =
     (let n = lb_ctrBits p - 1
      in if n \<ge> 32 then Inl BadShift else Inr (drop_bit (unat n) (ucast cnt :: u32) \<noteq> 0))"

definition LocalBP_lookup :: "addr \<Rightarrow> local_bp \<Rightarrow> bool res" where
  "LocalBP_lookup branch_addr p =
     bindE (getLocalIndex p branch_addr) (\<lambda>i. bindE (value_at (lb_ctrs p) i) (getPrediction p))"

text \<open>The history of this predictor is always null.\<close>

definition LocalBP_update :: "addr \<Rightarrow> bool \<Rightarrow> bool \<Rightarrow> local_bp \<Rightarrow> local_bp res" where
  "LocalBP_update branch_addr taken squashed p =
     (if squashed then Inr p
      else bindE (getLocalIndex p branch_addr) (\<lambda>i.
        bindE (change (train taken) (lb_ctrs p) i) (\<lambda>cs. Inr (p\<lparr>lb_ctrs := cs\<rparr>))))"

section \<open>BiModeBP\<close>

record bi_history =
  bh_globalHistoryReg :: u32
  bh_takenUsed :: bool
  bh_takenPred :: bool
  bh_notTakenPred :: bool
  bh_finalPred :: bool

record bi_mode =
  bm_choice :: "sat_counter list"
  bm_taken :: "sat_counter list"
  bm_notTaken :: "sat_counter list"
  bm_historyReg :: "u32 list"
  bm_historyBits :: nat
  bm_historyRegisterMask :: u32
  bm_choicePredictorSize :: u32
  bm_choiceCtrBits :: u32
  bm_choiceHistoryMask :: u32
  bm_globalPredictorSize :: u32
  bm_globalCtrBits :: u32
  bm_globalHistoryMask :: u32
  bm_choiceThreshold :: u32
  bm_takenThreshold :: u32
  bm_notTakenThreshold :: u32
  bm_shift :: u32

text \<open>\<open>(ULL(1) << (bits - 1)) - 1\<close>, stored as an unsigned.\<close>

definition threshold_of :: "u32 \<Rightarrow> u32 res" where
  "threshold_of bits = bindE (shl 1 (bits - 1)) (\<lambda>t. Inr (ucast (t - 1)))"

definition BiModeBP_new :: "u8 \<Rightarrow> nat \<Rightarrow> u32 \<Rightarrow> u32 \<Rightarrow> u32 \<Rightarrow> u32 \<Rightarrow> u32 \<Rightarrow> bi_mode res" where
  "BiModeBP_new junk numThreads choiceSize choiceBits globalSize globalBits shift =
     bindE (ceilLog2_u32 globalSize) (\<lambda>hbits.
     if \<not> isPowerOf2 choiceSize then Inl Panic
     else if \<not> isPowerOf2 globalSize then Inl Panic
     else
       bindE (setBits_all choiceBits (replicate (unat choiceSize) (SatCounter_default junk))) (\<lambda>cs.
       bindE (setBits_all globalBits (replicate (unat globalSize) (SatCounter_default junk))) (\<lambda>gs.
       bindE (threshold_of choiceBits) (\<lambda>t.
       Inr \<lparr>bm_choice = cs, bm_taken = gs, bm_notTaken = gs, bm_historyReg = replicate numThreads 0,
         bm_historyBits = hbits, bm_historyRegisterMask = mask hbits,
         bm_choicePredictorSize = choiceSize, bm_choiceCtrBits = choiceBits,
         bm_choiceHistoryMask = choiceSize - 1, bm_globalPredictorSize = globalSize,
         bm_globalCtrBits = globalBits, bm_globalHistoryMask = globalSize - 1,
         bm_choiceThreshold = t, bm_takenThreshold = t, bm_notTakenThreshold = t, bm_shift = shift\<rparr>))))"

definition BiModeBP_updateGlobalHistReg :: "nat \<Rightarrow> bool \<Rightarrow> bi_mode \<Rightarrow> bi_mode res" where
  "BiModeBP_updateGlobalHistReg tid taken b =
     bindE (rd (bm_historyReg b) (int tid)) (\<lambda>g.
     let g = (if taken then push_bit 1 g OR 1 else push_bit 1 g)
     in bindE (wr (bm_historyReg b) (int tid) (g AND bm_historyRegisterMask b)) (\<lambda>v.
     Inr (b\<lparr>bm_historyReg := v\<rparr>)))"

definition BiModeBP_uncondBranch :: "nat \<Rightarrow> bi_mode \<Rightarrow> (bi_history \<times> bi_mode) res" where
  "BiModeBP_uncondBranch tid b =
     bindE (rd (bm_historyReg b) (int tid)) (\<lambda>g.
     let h = \<lparr>bh_globalHistoryReg = g, bh_takenUsed = True, bh_takenPred = True, bh_notTakenPred = True,
           bh_finalPred = True\<rparr>
     in bindE (BiModeBP_updateGlobalHistReg tid True b) (\<lambda>b. Inr (h, b)))"

definition BiModeBP_squash :: "nat \<Rightarrow> bi_history \<Rightarrow> bi_mode \<Rightarrow> bi_mode res" where
  "BiModeBP_squash tid h b =
     bindE (wr (bm_historyReg b) (int tid) (bh_globalHistoryReg h)) (\<lambda>v. Inr (b\<lparr>bm_historyReg := v\<rparr>))"

definition BiModeBP_choiceIdx :: "addr \<Rightarrow> bi_mode \<Rightarrow> u32 res" where
  "BiModeBP_choiceIdx branchAddr b =
     bindE (shr branchAddr (bm_shift b)) (\<lambda>a. Inr (ucast (a AND ucast (bm_choiceHistoryMask b))))"

definition BiModeBP_globalIdx :: "addr \<Rightarrow> u32 \<Rightarrow> bi_mode \<Rightarrow> u32 res" where
  "BiModeBP_globalIdx branchAddr g b =
     bindE (shr branchAddr (bm_shift b)) (\<lambda>a.
     Inr (ucast ((a XOR ucast g) AND ucast (bm_globalHistoryMask b))))"

definition BiModeBP_lookup :: "nat \<Rightarrow> addr \<Rightarrow> bi_mode \<Rightarrow> (bool \<times> bi_history \<times> bi_mode) res" where
  "BiModeBP_lookup tid branchAddr b =
     bindE (BiModeBP_choiceIdx branchAddr b) (\<lambda>ci.
     bindE (rd (bm_historyReg b) (int tid)) (\<lambda>g.
     bindE (BiModeBP_globalIdx branchAddr g b) (\<lambda>gi.
     bindE (assertE (ci < bm_choicePredictorSize b)) (\<lambda>_.
     bindE (assertE (gi < bm_globalPredictorSize b)) (\<lambda>_.
     bindE (value_at (bm_choice b) ci) (\<lambda>c.
     bindE (value_at (bm_taken b) gi) (\<lambda>t.
     bindE (value_at (bm_notTaken b) gi) (\<lambda>n.
     let choicePrediction = ucast c > bm_choiceThreshold b;
         takenGHBPrediction = ucast t > bm_takenThreshold b;
         notTakenGHBPrediction = ucast n > bm_notTakenThreshold b;
         finalPrediction = (if choicePrediction then takenGHBPrediction else notTakenGHBPrediction);
         h = \<lparr>bh_globalHistoryReg = g, bh_takenUsed = choicePrediction, bh_takenPred = takenGHBPrediction,
              bh_notTakenPred = notTakenGHBPrediction, bh_finalPred = finalPrediction\<rparr>
     in bindE (BiModeBP_updateGlobalHistReg tid finalPrediction b) (\<lambda>b.
     Inr (finalPrediction, h, b))))))))))"

definition BiModeBP_btbUpdate :: "nat \<Rightarrow> bi_mode \<Rightarrow> bi_mode res" where
  "BiModeBP_btbUpdate tid b =
     bindE (rd (bm_historyReg b) (int tid)) (\<lambda>g.
     bindE (wr (bm_historyReg b) (int tid) (g AND (bm_historyRegisterMask b AND NOT 1))) (\<lambda>v.
     Inr (b\<lparr>bm_historyReg := v\<rparr>)))"

definition BiModeBP_update :: "nat \<Rightarrow> addr \<Rightarrow> bool \<Rightarrow> bi_history \<Rightarrow> bool \<Rightarrow> bi_mode \<Rightarrow> bi_mode res" where
  "BiModeBP_update tid branchAddr taken h squashed b =
     (if squashed
      then bindE (wr (bm_historyReg b) (int tid) (push_bit 1 (bh_globalHistoryReg h) OR of_bool taken)) (\<lambda>v.
        Inr (b\<lparr>bm_historyReg := v\<rparr>))
      else
        bindE (BiModeBP_choiceIdx branchAddr b) (\<lambda>ci.
        bindE (BiModeBP_globalIdx branchAddr (bh_globalHistoryReg h) b) (\<lambda>gi.
        bindE (assertE (ci < bm_choicePredictorSize b)) (\<lambda>_.
        bindE (assertE (gi < bm_globalPredictorSize b)) (\<lambda>_.
        bindE (if bh_takenUsed h
               then bindE (change (train taken) (bm_taken b) gi) (\<lambda>v. Inr (b\<lparr>bm_taken := v\<rparr>))
               else bindE (change (train taken) (bm_notTaken b) gi) (\<lambda>v. Inr (b\<lparr>bm_notTaken := v\<rparr>))) (\<lambda>b.
        if bh_finalPred h = taken \<and> bh_finalPred h \<noteq> bh_takenUsed h then Inr b
        else bindE (change (train taken) (bm_choice b) ci) (\<lambda>v. Inr (b\<lparr>bm_choice := v\<rparr>))))))))"

definition BiModeBP_getGHR :: "bi_history \<Rightarrow> u32" where
  "BiModeBP_getGHR h = bh_globalHistoryReg h"

section \<open>TournamentBP\<close>

record tn_history =
  th_globalHistory :: u32
  th_localHistoryIdx :: u32
  th_localHistory :: u32
  th_localPredTaken :: bool
  th_globalPredTaken :: bool
  th_globalUsed :: bool

definition invalidPredictorIndex :: u32 where
  "invalidPredictorIndex = - 1"

record tournament =
  tn_localCtrs :: "sat_counter list"
  tn_localPredictorSize :: u32
  tn_localPredictorMask :: u32
  tn_localCtrBits :: u32
  tn_localHistoryTable :: "u32 list"
  tn_localHistoryTableSize :: u32
  tn_localHistoryBits :: nat
  tn_globalCtrs :: "sat_counter list"
  tn_globalPredictorSize :: u32
  tn_globalCtrBits :: u32
  tn_globalHistory :: "u32 list"
  tn_globalHistoryBits :: nat
  tn_globalHistoryMask :: u32
  tn_choiceHistoryMask :: u32
  tn_historyRegisterMask :: u32
  tn_choiceCtrs :: "sat_counter list"
  tn_choicePredictorSize :: u32
  tn_choiceCtrBits :: u32
  tn_localThreshold :: u32
  tn_globalThreshold :: u32
  tn_choiceThreshold :: u32
  tn_shift :: u32

definition TournamentBP_new :: "u8 \<Rightarrow> nat \<Rightarrow> u32 \<Rightarrow> u32 \<Rightarrow> u32 \<Rightarrow> u32 \<Rightarrow> u32 \<Rightarrow> u32 \<Rightarrow> u32 \<Rightarrow> u32 \<Rightarrow> tournament res" where
  "TournamentBP_new junk numThreads localSize localBits tableSize globalSize globalBits choiceSize choiceBits shift =
     bindE (ceilLog2_u32 localSize) (\<lambda>lhb.
     bindE (ceilLog2_u32 globalSize) (\<lambda>gl.
     bindE (ceilLog2_u32 choiceSize) (\<lambda>cl.
     let ghb = (if gl > cl then gl else cl)
     in if \<not> isPowerOf2 localSize then Inl Panic
     else if \<not> isPowerOf2 globalSize then Inl Panic
     else bindE (setBits_all localBits (replicate (unat localSize) (SatCounter_default junk))) (\<lambda>ls.
     if \<not> isPowerOf2 tableSize then Inl Panic
     else bindE (setBits_all globalBits (replicate (unat globalSize) (SatCounter_default junk))) (\<lambda>gs.
     if \<not> isPowerOf2 choiceSize then Inl Panic
     else bindE (setBits_all choiceBits (replicate (unat choiceSize) (SatCounter_default junk))) (\<lambda>cs.
     if globalSize - 1 > mask ghb then Inl Panic
     else if choiceSize - 1 > mask ghb then Inl Panic
     else
       bindE (threshold_of localBits) (\<lambda>lt.
       bindE (threshold_of globalBits) (\<lambda>gt.
       bindE (threshold_of choiceBits) (\<lambda>ct.
       Inr \<lparr>tn_localCtrs = ls, tn_localPredictorSize = localSize, tn_localPredictorMask = mask lhb,
         tn_localCtrBits = localBits, tn_localHistoryTable = replicate (unat tableSize) 0,
         tn_localHistoryTableSize = tableSize, tn_localHistoryBits = lhb, tn_globalCtrs = gs,
         tn_globalPredictorSize = globalSize, tn_globalCtrBits = globalBits,
         tn_globalHistory = replicate numThreads 0, tn_globalHistoryBits = ghb,
         tn_globalHistoryMask = globalSize - 1, tn_choiceHistoryMask = choiceSize - 1,
         tn_historyRegisterMask = mask ghb, tn_choiceCtrs = cs, tn_choicePredictorSize = choiceSize,
         tn_choiceCtrBits = choiceBits, tn_localThreshold = lt, tn_globalThreshold = gt,
         tn_choiceThreshold = ct, tn_shift = shift\<rparr>)))))))))"

definition calcLocHistIdx :: "addr \<Rightarrow> tournament \<Rightarrow> u32 res" where
  "calcLocHistIdx branch_addr p =
     bindE (shr branch_addr (tn_shift p)) (\<lambda>a. Inr (ucast (a AND ucast (tn_localHistoryTableSize p - 1))))"

definition updateGlobalHistTaken :: "nat \<Rightarrow> tournament \<Rightarrow> tournament res" where
  "updateGlobalHistTaken tid p =
     bindE (rd (tn_globalHistory p) (int tid)) (\<lambda>g.
     bindE (wr (tn_globalHistory p) (int tid) ((push_bit 1 g OR 1) AND tn_historyRegisterMask p)) (\<lambda>v.
     Inr (p\<lparr>tn_globalHistory := v\<rparr>)))"

definition updateGlobalHistNotTaken :: "nat \<Rightarrow> tournament \<Rightarrow> tournament res" where
  "updateGlobalHistNotTaken tid p =
     bindE (rd (tn_globalHistory p) (int tid)) (\<lambda>g.
     bindE (wr (tn_globalHistory p) (int tid) (push_bit 1 g AND tn_historyRegisterMask p)) (\<lambda>v.
     Inr (p\<lparr>tn_globalHistory := v\<rparr>)))"

definition updateLocalHistTaken :: "u32 \<Rightarrow> tournament \<Rightarrow> tournament res" where
  "updateLocalHistTaken i p =
     bindE (rd (tn_localHistoryTable p) (uint i)) (\<lambda>x.
     bindE (wr (tn_localHistoryTable p) (uint i) (push_bit 1 x OR 1)) (\<lambda>v.
     Inr (p\<lparr>tn_localHistoryTable := v\<rparr>)))"

definition updateLocalHistNotTaken :: "u32 \<Rightarrow> tournament \<Rightarrow> tournament res" where
  "updateLocalHistNotTaken i p =
     bindE (rd (tn_localHistoryTable p) (uint i)) (\<lambda>x.
     bindE (wr (tn_localHistoryTable p) (uint i) (push_bit 1 x)) (\<lambda>v.
     Inr (p\<lparr>tn_localHistoryTable := v\<rparr>)))"

definition TournamentBP_btbUpdate :: "nat \<Rightarrow> addr \<Rightarrow> tournament \<Rightarrow> tournament res" where
  "TournamentBP_btbUpdate tid branch_addr p =
     bindE (calcLocHistIdx branch_addr p) (\<lambda>i.
     bindE (rd (tn_globalHistory p) (int tid)) (\<lambda>g.
     bindE (wr (tn_globalHistory p) (int tid) (g AND (tn_historyRegisterMask p AND NOT 1))) (\<lambda>v.
     bindE (rd (tn_localHistoryTable p) (uint i)) (\<lambda>x.
     bindE (wr (tn_localHistoryTable p) (uint i) (x AND (tn_localPredictorMask p AND NOT 1))) (\<lambda>w.
     Inr (p\<lparr>tn_globalHistory := v, tn_localHistoryTable := w\<rparr>))))))"

definition TournamentBP_lookup :: "nat \<Rightarrow> addr \<Rightarrow> tournament \<Rightarrow> (bool \<times> tn_history \<times> tournament) res" where
  "TournamentBP_lookup tid branch_addr p =
     bindE (calcLocHistIdx branch_addr p) (\<lambda>i.
     bindE (rd (tn_localHistoryTable p) (uint i)) (\<lambda>x.
     let local_predictor_idx = x AND tn_localPredictorMask p
     in bindE (value_at (tn_localCtrs p) local_predictor_idx) (\<lambda>l.
     let local_prediction = (ucast l > tn_localThreshold p)
     in bindE (rd (tn_globalHistory p) (int tid)) (\<lambda>g.
     bindE (value_at (tn_globalCtrs p) (g AND tn_globalHistoryMask p)) (\<lambda>gc.
     let global_prediction = (tn_globalThreshold p < ucast gc)
     in bindE (value_at (tn_choiceCtrs p) (g AND tn_choiceHistoryMask p)) (\<lambda>cc.
     let choice_prediction = (tn_choiceThreshold p < ucast cc);
         h = \<lparr>th_globalHistory = g, th_localHistoryIdx = i, th_localHistory = local_predictor_idx,
              th_localPredTaken = local_prediction, th_globalPredTaken = global_prediction,
              th_globalUsed = choice_prediction\<rparr>
     in bindE (assertE (i < tn_localHistoryTableSize p)) (\<lambda>_.
     if (if choice_prediction then global_prediction else local_prediction)
     then bindE (updateGlobalHistTaken tid p) (\<lambda>p. bindE (updateLocalHistTaken i p) (\<lambda>p. Inr (True, h, p)))
     else bindE (updateGlobalHistNotTaken tid p) (\<lambda>p.
       bindE (updateLocalHistNotTaken i p) (\<lambda>p. Inr (False, h, p))))))))))"

definition TournamentBP_uncondBranch :: "nat \<Rightarrow> tournament \<Rightarrow> (tn_history \<times> tournament) res" where
  "TournamentBP_uncondBranch tid p =
     bindE (rd (tn_globalHistory p) (int tid)) (\<lambda>g.
     let h = \<lparr>th_globalHistory = g, th_localHistoryIdx = invalidPredictorIndex,
           th_localHistory = invalidPredictorIndex, th_localPredTaken = True,
           th_globalPredTaken = True, th_globalUsed = True\<rparr>
     in bindE (updateGlobalHistTaken tid p) (\<lambda>p. Inr (h, p)))"

definition TournamentBP_update :: "nat \<Rightarrow> addr \<Rightarrow> bool \<Rightarrow> tn_history \<Rightarrow> bool \<Rightarrow> tournament \<Rightarrow> tournament res" where
  "TournamentBP_update tid branch_addr taken h squashed p =
     bindE (calcLocHistIdx branch_addr p) (\<lambda>i.
     bindE (assertE (i < tn_localHistoryTableSize p)) (\<lambda>_.
     let old_local_pred_valid = (th_localHistory h \<noteq> invalidPredictorIndex)
     in if squashed
     then bindE (wr (tn_globalHistory p) (int tid)
           ((push_bit 1 (th_globalHistory h) OR of_bool taken) AND tn_historyRegisterMask p)) (\<lambda>v.
       let p = p\<lparr>tn_globalHistory := v\<rparr>
       in if old_local_pred_valid
          then bindE (wr (tn_localHistoryTable p) (uint i) (push_bit 1 (th_localHistory h) OR of_bool taken)) (\<lambda>w.
            Inr (p\<lparr>tn_localHistoryTable := w\<rparr>))
          else Inr p)
     else
       let old_local_pred_index = th_localHistory h AND tn_localPredictorMask p
       in bindE (assertE (old_local_pred_index < tn_localPredictorSize p)) (\<lambda>_.
       bindE (if th_localPredTaken h \<noteq> th_globalPredTaken h \<and> old_local_pred_valid
              then let ci = th_globalHistory h AND tn_choiceHistoryMask p
                in if th_localPredTaken h = taken then change decrement (tn_choiceCtrs p) ci
                   else if th_globalPredTaken h = taken then change increment (tn_choiceCtrs p) ci
                   else Inr (tn_choiceCtrs p)
              else Inr (tn_choiceCtrs p)) (\<lambda>cs.
       bindE (change (train taken) (tn_globalCtrs p) (th_globalHistory h AND tn_globalHistoryMask p)) (\<lambda>gs.
       bindE (if old_local_pred_valid then change (train taken) (tn_localCtrs p) old_local_pred_index
              else Inr (tn_localCtrs p)) (\<lambda>ls.
       Inr (p\<lparr>tn_choiceCtrs := cs, tn_globalCtrs := gs, tn_localCtrs := ls\<rparr>)))))))"

definition TournamentBP_squash :: "nat \<Rightarrow> tn_history \<Rightarrow> tournament \<Rightarrow> tournament res" where
  "TournamentBP_squash tid h p =
     bindE (wr (tn_globalHistory p) (int tid) (th_globalHistory h)) (\<lambda>v.
     let p = p\<lparr>tn_globalHistory := v\<rparr>
     in if th_localHistoryIdx h \<noteq> invalidPredictorIndex
        then bindE (wr (tn_localHistoryTable p) (uint (th_localHistoryIdx h)) (th_localHistory h)) (\<lambda>w.
          Inr (p\<lparr>tn_localHistoryTable := w\<rparr>))
        else Inr p)"

definition TournamentBP_getGHR :: "tn_history \<Rightarrow> u32" where
  "TournamentBP_getGHR h = th_globalHistory h"

section \<open>Learning\<close>

lemma masked_index: "ucast (a AND ucast (m :: u32) :: u64) = (ucast a AND m :: u32)"
  by (rule bit_word_eqI) (auto simp: bit_simps)

lemma unat_and_le: "unat (a AND b) \<le> unat (b :: 'a::len word)"
  by (metis and_le_nat unsigned_and_eq)

lemma unat_pred: "0 < w \<Longrightarrow> unat (w - 1) = unat w - 1" for w :: "'a::len word"
  by (simp add: unat_sub word_le_nat_alt word_gt_0 unat_gt_0 Suc_le_eq)

lemma unat_widen: "unat (ucast (c :: u8) :: u32) = unat c"
proof -
  have "unat c < 2 ^ LENGTH(8)" by (rule unsigned_less)
  then show ?thesis by (simp add: unsigned_ucast_eq take_bit_nat_eq_self)
qed

text \<open>Counters of \<open>b\<close> bits.\<close>

definition ctr_ok :: "nat \<Rightarrow> sat_counter \<Rightarrow> bool" where
  "ctr_ok b c \<longleftrightarrow> unat (maxVal c) = 2 ^ b - 1 \<and> ctr c \<le> maxVal c"

lemma train_ok: "ctr_ok b c \<Longrightarrow> ctr_ok b (train taken c)"
proof -
  assume c: "ctr_ok b c"
  have "ctr c < maxVal c \<Longrightarrow> ctr c + 1 \<le> maxVal c" by (rule inc_le)
  moreover have "ctr c > 0 \<Longrightarrow> ctr c - 1 \<le> ctr c" by (simp add: word_le_nat_alt unat_pred)
  ultimately show ?thesis using c
    by (auto simp: ctr_ok_def train_def increment_def decrement_def intro: order_trans)
qed

lemma train_value:
  assumes "ctr_ok b c"
  shows "unat (ctr (train True c)) = min (2 ^ b - 1) (unat (ctr c) + 1)"
    and "unat (ctr (train False c)) = unat (ctr c) - 1"
proof -
  have m: "unat (maxVal c) = 2 ^ b - 1" "unat (ctr c) \<le> unat (maxVal c)" "unat (maxVal c) < 256"
  proof -
    have "unat (maxVal c) < 2 ^ LENGTH(8)" by (rule unsigned_less)
    then show "unat (maxVal c) < 256" by simp
  qed (use assms in \<open>auto simp: ctr_ok_def word_le_nat_alt\<close>)
  show "unat (ctr (train True c)) = min (2 ^ b - 1) (unat (ctr c) + 1)"
    using m by (auto simp: train_def increment_def word_less_nat_alt unat_word_ariths)
  show "unat (ctr (train False c)) = unat (ctr c) - 1"
    by (auto simp: train_def decrement_def unat_pred word_gt_0)
qed

definition LocalBP_inv :: "local_bp \<Rightarrow> bool" where
  "LocalBP_inv p \<longleftrightarrow> lb_shift p < 64 \<and> 1 \<le> lb_ctrBits p \<and> lb_ctrBits p \<le> 8 \<and>
     unat (lb_indexMask p) < length (lb_ctrs p) \<and>
     (\<forall>c \<in> set (lb_ctrs p). ctr_ok (unat (lb_ctrBits p)) c)"

fun LocalBP_updates :: "addr \<Rightarrow> bool \<Rightarrow> nat \<Rightarrow> local_bp \<Rightarrow> local_bp res" where
  "LocalBP_updates a taken 0 p = Inr p"
| "LocalBP_updates a taken (Suc n) p = bindE (LocalBP_update a taken False p) (LocalBP_updates a taken n)"

definition local_slot :: "local_bp \<Rightarrow> addr \<Rightarrow> nat" where
  "local_slot p a = unat (ucast (drop_bit (unat (lb_shift p)) a) AND lb_indexMask p)"

lemma local_slot_upd [simp]: "local_slot (p\<lparr>lb_ctrs := v\<rparr>) = local_slot p"
  by (simp add: local_slot_def fun_eq_iff)

lemma local_slot_ok:
  assumes "LocalBP_inv p"
  shows "\<exists>i. getLocalIndex p a = Inr i \<and> uint i = int (local_slot p a)" "local_slot p a < length (lb_ctrs p)"
proof -
  have "lb_shift p < 64" using assms by (simp add: LocalBP_inv_def)
  then show "\<exists>i. getLocalIndex p a = Inr i \<and> uint i = int (local_slot p a)"
    by (simp add: getLocalIndex_def shr_small masked_index local_slot_def)
  show "local_slot p a < length (lb_ctrs p)"
    using assms unat_and_le [of "ucast (drop_bit (unat (lb_shift p)) a)" "lb_indexMask p"]
    by (simp add: local_slot_def LocalBP_inv_def)
qed

lemma LocalBP_update_eq:
  assumes "LocalBP_inv p"
  shows "LocalBP_update a taken False p =
      Inr (p\<lparr>lb_ctrs := (lb_ctrs p)[local_slot p a := train taken (lb_ctrs p ! local_slot p a)]\<rparr>)"
    and "LocalBP_inv (p\<lparr>lb_ctrs := (lb_ctrs p)[local_slot p a := train taken (lb_ctrs p ! local_slot p a)]\<rparr>)"
proof -
  note s = local_slot_ok [OF assms, of a]
  show "LocalBP_update a taken False p =
      Inr (p\<lparr>lb_ctrs := (lb_ctrs p)[local_slot p a := train taken (lb_ctrs p ! local_slot p a)]\<rparr>)"
    using s by (auto simp: LocalBP_update_def change_def rd_of_nat wr_of_nat)
  have "ctr_ok (unat (lb_ctrBits p)) (train taken (lb_ctrs p ! local_slot p a))"
    using assms s(2) by (intro train_ok) (simp add: LocalBP_inv_def)
  then show "LocalBP_inv (p\<lparr>lb_ctrs := (lb_ctrs p)[local_slot p a := train taken (lb_ctrs p ! local_slot p a)]\<rparr>)"
    using assms set_update_subset_insert [of "lb_ctrs p" "local_slot p a" "train taken (lb_ctrs p ! local_slot p a)"]
    by (auto simp: LocalBP_inv_def)
qed

lemma LocalBP_lookup_eq:
  assumes "LocalBP_inv p"
  shows "LocalBP_lookup a p =
    Inr (2 ^ (unat (lb_ctrBits p) - 1) \<le> unat (ctr (lb_ctrs p ! local_slot p a)))"
proof -
  note s = local_slot_ok [OF assms, of a]
  let ?c = "ctr (lb_ctrs p ! local_slot p a)"
  have b: "1 \<le> lb_ctrBits p" "lb_ctrBits p \<le> 8" using assms by (auto simp: LocalBP_inv_def)
  have n: "unat (lb_ctrBits p - 1) = unat (lb_ctrBits p) - 1" using b(1) by (simp add: unat_sub)
  have lt: "\<not> lb_ctrBits p - 1 \<ge> 32" using b n by (simp add: word_le_nat_alt)
  have "unat (drop_bit (unat (lb_ctrBits p) - 1) (ucast ?c :: u32)) = unat ?c div 2 ^ (unat (lb_ctrBits p) - 1)"
    by (simp only: unat_drop_bit unat_widen)
  then have "drop_bit (unat (lb_ctrBits p) - 1) (ucast ?c :: u32) \<noteq> 0 \<longleftrightarrow>
      2 ^ (unat (lb_ctrBits p) - 1) \<le> unat ?c"
    by (metis div_eq_0_iff not_le power_eq_0_iff unat_0 unat_eq_zero zero_neq_numeral)
  with s lt show ?thesis
    by (auto simp: LocalBP_lookup_def value_at_def rd_of_nat read_ctr_def getPrediction_def Let_def n)
qed

lemma LocalBP_updates_eq:
  assumes "LocalBP_inv p"
  shows "\<exists>q. LocalBP_updates a taken k p = Inr q \<and> LocalBP_inv q \<and> local_slot q = local_slot p \<and>
    lb_ctrBits q = lb_ctrBits p \<and>
    unat (ctr (lb_ctrs q ! local_slot p a)) =
      (if taken then min (2 ^ unat (lb_ctrBits p) - 1) (unat (ctr (lb_ctrs p ! local_slot p a)) + k)
       else unat (ctr (lb_ctrs p ! local_slot p a)) - k)"
  using assms
proof (induction k arbitrary: p)
  case 0
  have "ctr_ok (unat (lb_ctrBits p)) (lb_ctrs p ! local_slot p a)"
    using 0 local_slot_ok(2) [OF 0, of a] by (simp add: LocalBP_inv_def)
  then show ?case using 0 by (auto simp: ctr_ok_def word_le_nat_alt)
next
  case (Suc k)
  let ?i = "local_slot p a"
  let ?p = "p\<lparr>lb_ctrs := (lb_ctrs p)[?i := train taken (lb_ctrs p ! ?i)]\<rparr>"
  note i = local_slot_ok(2) [OF Suc.prems, of a]
  have c: "ctr_ok (unat (lb_ctrBits p)) (lb_ctrs p ! ?i)" using Suc.prems i by (simp add: LocalBP_inv_def)
  obtain q where q: "LocalBP_updates a taken k ?p = Inr q" "LocalBP_inv q" "local_slot q = local_slot p"
    "lb_ctrBits q = lb_ctrBits p"
    "unat (ctr (lb_ctrs q ! ?i)) =
      (if taken then min (2 ^ unat (lb_ctrBits p) - 1) (unat (ctr (train taken (lb_ctrs p ! ?i))) + k)
       else unat (ctr (train taken (lb_ctrs p ! ?i))) - k)"
    using Suc.IH [OF LocalBP_update_eq(2) [OF Suc.prems, of a taken]] i by (auto cong: if_cong)
  have mm: "min m (min m (x + 1) + k) = min m (x + Suc k)" for m x :: nat by (auto simp: min_def)
  have "unat (ctr (lb_ctrs q ! ?i)) =
      (if taken then min (2 ^ unat (lb_ctrBits p) - 1) (unat (ctr (lb_ctrs p ! ?i)) + Suc k)
       else unat (ctr (lb_ctrs p ! ?i)) - Suc k)"
    using q(5) train_value [OF c] by (cases taken) (simp_all only: mm if_True if_False diff_diff_left plus_1_eq_Suc)
  with q LocalBP_update_eq(1) [OF Suc.prems, of a taken] show ?case by auto
qed

text \<open>
  The local predictor learns. After \<open>2 ^ (b - 1)\<close> or more consecutive updates of a branch with
  the same outcome, \<open>b\<close> being the width of its counters, it predicts that outcome, whatever it
  held before.
\<close>

theorem LocalBP_learns:
  assumes "LocalBP_inv p" "2 ^ (unat (lb_ctrBits p) - 1) \<le> k"
  shows "\<exists>q. LocalBP_updates a taken k p = Inr q \<and> LocalBP_lookup a q = Inr taken"
proof -
  obtain q where q: "LocalBP_updates a taken k p = Inr q" "LocalBP_inv q" "local_slot q = local_slot p"
    "lb_ctrBits q = lb_ctrBits p"
    "unat (ctr (lb_ctrs q ! local_slot p a)) =
      (if taken then min (2 ^ unat (lb_ctrBits p) - 1) (unat (ctr (lb_ctrs p ! local_slot p a)) + k)
       else unat (ctr (lb_ctrs p ! local_slot p a)) - k)"
    using LocalBP_updates_eq [OF assms(1)] by blast
  have "1 \<le> unat (lb_ctrBits p)" using assms(1) by (simp add: LocalBP_inv_def word_le_nat_alt)
  then obtain n where n: "unat (lb_ctrBits p) = Suc n" by (cases "unat (lb_ctrBits p)") auto
  have "ctr_ok (unat (lb_ctrBits p)) (lb_ctrs p ! local_slot p a)"
    using assms(1) local_slot_ok(2) [OF assms(1), of a] by (simp add: LocalBP_inv_def)
  then have "unat (ctr (lb_ctrs p ! local_slot p a)) \<le> 2 * 2 ^ n - 1"
    by (simp add: ctr_ok_def n word_le_nat_alt)
  moreover have "1 \<le> (2 :: nat) ^ n" "2 ^ n \<le> k" using assms(2) n by simp_all
  ultimately have "unat (ctr (lb_ctrs p ! local_slot p a)) - k < 2 ^ n" by linarith
  then have "(2 ^ n \<le> unat (ctr (lb_ctrs q ! local_slot p a))) = taken"
    using q(5) assms(2) by (cases taken) (auto simp: n)
  then show ?thesis using q LocalBP_lookup_eq [OF q(2), of a] by (simp add: n)
qed

definition demo_local :: local_bp where
  "demo_local = \<lparr>lb_ctrs = replicate 4 \<lparr>initialVal = 0, maxVal = 3, ctr = 0\<rparr>, lb_predictorSize = 8,
     lb_predictorSets = 4, lb_ctrBits = 2, lb_indexMask = 3, lb_shift = 2\<rparr>"

theorem LocalBP_learns_witness:
  "\<exists>q. LocalBP_updates 4096 True 2 demo_local = Inr q \<and> LocalBP_lookup 4096 q = Inr True"
  by (rule LocalBP_learns) (simp_all add: demo_local_def LocalBP_inv_def ctr_ok_def)

end
