(* ===== verification/Speculation.thy ===== *)
theory Speculation
  imports Branch_Pred
begin

text \<open>
  Speculative history of the branch predictors. A core predicts branches ahead of their
  resolution and, on a wrong path, squashes them youngest first. The contract is a locale, met by
  the bi-mode and the tournament predictor of \<open>cpu/pred\<close>.
\<close>

datatype branch = Cond addr | Uncond addr

fun predict_all :: "(branch \<Rightarrow> 's \<Rightarrow> (bool \<times> 'h \<times> 's) res) \<Rightarrow> branch list \<Rightarrow> 's \<Rightarrow> ('h list \<times> 's) res" where
  "predict_all predict [] s = Inr ([], s)"
| "predict_all predict (b # bs) s =
     bindE (predict b s) (\<lambda>(p, h, s). bindE (predict_all predict bs s) (\<lambda>(hs, s). Inr (h # hs, s)))"

text \<open>Squash in reverse order of prediction; the histories come oldest first.\<close>

fun squash_all :: "('h \<Rightarrow> 's \<Rightarrow> 's res) \<Rightarrow> 'h list \<Rightarrow> 's \<Rightarrow> 's res" where
  "squash_all undo [] s = Inr s"
| "squash_all undo (h # hs) s = bindE (squash_all undo hs s) (undo h)"

locale speculative_predictor =
  fixes inv :: "'s \<Rightarrow> bool"
    and eqv :: "'s \<Rightarrow> 's \<Rightarrow> bool"
    and predict :: "branch \<Rightarrow> 's \<Rightarrow> (bool \<times> 'h \<times> 's) res"
    and undo :: "'h \<Rightarrow> 's \<Rightarrow> 's res"
  assumes eqv_refl: "eqv s s"
    and predict_total: "inv s \<Longrightarrow> \<exists>p h t. predict b s = Inr (p, h, t) \<and> inv t"
    and undo_predict: "\<lbrakk>inv s; predict b s = Inr (p, h, t); inv u; eqv t u\<rbrakk> \<Longrightarrow>
      \<exists>v. undo h u = Inr v \<and> inv v \<and> eqv s v"
    and eqv_predict: "\<lbrakk>inv s; inv u; eqv s u; predict b s = Inr (p, h, t)\<rbrakk> \<Longrightarrow>
      \<exists>h' t'. predict b u = Inr (p, h', t')"
begin

lemma squash_restores:
  "inv s \<Longrightarrow> \<exists>hs t u. predict_all predict bs s = Inr (hs, t) \<and> squash_all undo hs t = Inr u \<and>
     inv u \<and> eqv s u"
proof (induction bs arbitrary: s)
  case Nil
  then show ?case by (simp add: eqv_refl)
next
  case (Cons b bs)
  obtain p h s1 where s1: "predict b s = Inr (p, h, s1)" "inv s1"
    using predict_total [OF Cons.prems] by blast
  obtain hs t u where u: "predict_all predict bs s1 = Inr (hs, t)" "squash_all undo hs t = Inr u"
    "inv u" "eqv s1 u"
    using Cons.IH [OF s1(2)] by blast
  obtain v where "undo h u = Inr v" "inv v" "eqv s v"
    using undo_predict [OF Cons.prems s1(1) u(3,4)] by blast
  with s1(1) u(1,2) show ?case by simp
qed

lemma wrong_path_invisible:
  assumes "inv s" "predict b s = Inr (p, h, t)"
  shows "\<exists>hs w u h' t'. predict_all predict bs s = Inr (hs, w) \<and> squash_all undo hs w = Inr u \<and>
    predict b u = Inr (p, h', t')"
proof -
  obtain hs w u where u: "predict_all predict bs s = Inr (hs, w)" "squash_all undo hs w = Inr u"
    "inv u" "eqv s u"
    using squash_restores [OF assms(1)] by blast
  with eqv_predict [OF assms(1) u(3,4) assms(2)] show ?thesis by blast
qed

end

section \<open>The bi-mode predictor\<close>

definition BiModeBP_predict :: "nat \<Rightarrow> branch \<Rightarrow> bi_mode \<Rightarrow> (bool \<times> bi_history \<times> bi_mode) res" where
  "BiModeBP_predict tid b s =
     (case b of Cond a \<Rightarrow> BiModeBP_lookup tid a s
      | Uncond a \<Rightarrow> bindE (BiModeBP_uncondBranch tid s) (\<lambda>(h, s). Inr (True, h, s)))"

definition bi_inv :: "nat \<Rightarrow> bi_mode \<Rightarrow> bool" where
  "bi_inv tid b \<longleftrightarrow> tid < length (bm_historyReg b) \<and> bm_shift b < 64 \<and>
     unat (bm_choiceHistoryMask b) < length (bm_choice b) \<and>
     unat (bm_globalHistoryMask b) < length (bm_taken b) \<and>
     unat (bm_globalHistoryMask b) < length (bm_notTaken b) \<and>
     bm_choiceHistoryMask b < bm_choicePredictorSize b \<and>
     bm_globalHistoryMask b < bm_globalPredictorSize b"

lemma value_at_mask:
  "unat m < length cs \<Longrightarrow> \<exists>v. value_at cs (ucast (a AND ucast (m :: u32) :: u64)) = Inr v"
  "unat m < length cs \<Longrightarrow> \<exists>v. value_at cs (x AND m) = Inr v"
proof -
  have r: "\<exists>v. value_at cs (x AND m) = Inr v" if "unat m < length cs" for x :: u32
  proof -
    have "unat (x AND m) < length cs" using that unat_and_le [of x m] by simp
    then show ?thesis by (simp add: value_at_def uint_nat rd_of_nat del: of_nat_unat)
  qed
  then show "unat m < length cs \<Longrightarrow> \<exists>v. value_at cs (ucast (a AND ucast m :: u64)) = Inr v"
    "unat m < length cs \<Longrightarrow> \<exists>v. value_at cs (x AND m) = Inr v"
    by (simp_all add: masked_index)
qed

lemma masked_below: "m < n \<Longrightarrow> ucast (a AND ucast (m :: u32) :: u64) < n"
  using unat_and_le [of "ucast a" m] by (simp add: masked_index word_less_nat_alt)

lemma BiModeBP_predict_eq:
  assumes "bi_inv tid s"
  shows "\<exists>p h g. BiModeBP_predict tid b s = Inr (p, h, s\<lparr>bm_historyReg := (bm_historyReg s)[tid := g]\<rparr>) \<and>
    bh_globalHistoryReg h = bm_historyReg s ! tid"
proof -
  have i: "tid < length (bm_historyReg s)" "bm_shift s < 64"
    "unat (bm_choiceHistoryMask s) < length (bm_choice s)"
    "unat (bm_globalHistoryMask s) < length (bm_taken s)"
    "unat (bm_globalHistoryMask s) < length (bm_notTaken s)"
    "bm_choiceHistoryMask s < bm_choicePredictorSize s" "bm_globalHistoryMask s < bm_globalPredictorSize s"
    using assms by (simp_all add: bi_inv_def)
  have upd: "\<exists>g. BiModeBP_updateGlobalHistReg tid t s = Inr (s\<lparr>bm_historyReg := (bm_historyReg s)[tid := g]\<rparr>)" for t
    using i(1) by (auto simp: BiModeBP_updateGlobalHistReg_def rd_of_nat wr_of_nat Let_def)
  show ?thesis
  proof (cases b)
    case (Uncond a)
    with upd [of True] i(1) show ?thesis
      by (auto simp: BiModeBP_predict_def BiModeBP_uncondBranch_def rd_of_nat Let_def)
  next
    case (Cond a)
    let ?a = "drop_bit (unat (bm_shift s)) a" and ?g = "bm_historyReg s ! tid"
    obtain c where c: "value_at (bm_choice s) (ucast (?a AND ucast (bm_choiceHistoryMask s))) = Inr c"
      using value_at_mask(1) [OF i(3)] by blast
    obtain t where t: "value_at (bm_taken s) (ucast ((?a XOR ucast ?g) AND ucast (bm_globalHistoryMask s))) = Inr t"
      using value_at_mask(1) [OF i(4)] by blast
    obtain n where n: "value_at (bm_notTaken s) (ucast ((?a XOR ucast ?g) AND ucast (bm_globalHistoryMask s))) = Inr n"
      using value_at_mask(1) [OF i(5)] by blast
    show ?thesis
      using upd [of "if ucast c > bm_choiceThreshold s then ucast t > bm_takenThreshold s
          else ucast n > bm_notTakenThreshold s"]
      unfolding BiModeBP_predict_def Cond branch.case BiModeBP_lookup_def BiModeBP_choiceIdx_def
        BiModeBP_globalIdx_def shr_small [OF i(2)] Let_def
      using i(1) c t n masked_below [OF i(6)] masked_below [OF i(7)] by (auto simp: rd_of_nat)
  qed
qed

interpretation bimode: speculative_predictor "bi_inv tid" "(=)" "BiModeBP_predict tid" "BiModeBP_squash tid" for tid
proof unfold_locales
  fix s b assume "bi_inv tid s"
  from BiModeBP_predict_eq [OF this, of b] this
  show "\<exists>p h t. BiModeBP_predict tid b s = Inr (p, h, t) \<and> bi_inv tid t"
    by (fastforce simp: bi_inv_def)
next
  fix s b p h t u
  assume a: "bi_inv tid s" "BiModeBP_predict tid b s = Inr (p, h, t)" "bi_inv tid u" "t = u"
  then show "\<exists>v. BiModeBP_squash tid h u = Inr v \<and> bi_inv tid v \<and> s = v"
    using BiModeBP_predict_eq [OF a(1), of b] by (auto simp: BiModeBP_squash_def wr_of_nat bi_inv_def)
qed auto

section \<open>The tournament predictor\<close>

definition TournamentBP_predict :: "nat \<Rightarrow> branch \<Rightarrow> tournament \<Rightarrow> (bool \<times> tn_history \<times> tournament) res" where
  "TournamentBP_predict tid b s =
     (case b of Cond a \<Rightarrow> TournamentBP_lookup tid a s
      | Uncond a \<Rightarrow> bindE (TournamentBP_uncondBranch tid s) (\<lambda>(h, s). Inr (True, h, s)))"

definition tn_inv :: "nat \<Rightarrow> tournament \<Rightarrow> bool" where
  "tn_inv tid s \<longleftrightarrow> tid < length (tn_globalHistory s) \<and> tn_shift s < 64 \<and>
     unat (tn_localPredictorMask s) < length (tn_localCtrs s) \<and>
     unat (tn_globalHistoryMask s) < length (tn_globalCtrs s) \<and>
     unat (tn_choiceHistoryMask s) < length (tn_choiceCtrs s) \<and>
     0 < tn_localHistoryTableSize s \<and>
     length (tn_localHistoryTable s) = unat (tn_localHistoryTableSize s)"

text \<open>
  Local histories are stored unmasked and restored masked, so a squash restores them only up to
  the bits a lookup uses.
\<close>

definition tn_eqv :: "tournament \<Rightarrow> tournament \<Rightarrow> bool" where
  "tn_eqv s u \<longleftrightarrow> (\<exists>L. u = s\<lparr>tn_localHistoryTable := L\<rparr> \<and> length L = length (tn_localHistoryTable s) \<and>
     (\<forall>j < length L. L ! j AND tn_localPredictorMask s =
        tn_localHistoryTable s ! j AND tn_localPredictorMask s))"

definition tn_index :: "tournament \<Rightarrow> addr \<Rightarrow> u32" where
  "tn_index s a = ucast (drop_bit (unat (tn_shift s)) a) AND (tn_localHistoryTableSize s - 1)"

lemma tn_index_ok:
  assumes "tn_inv tid s"
  shows "calcLocHistIdx a s = Inr (tn_index s a)" "tn_index s a < tn_localHistoryTableSize s"
    "tn_index s a \<noteq> invalidPredictorIndex" "unat (tn_index s a) < length (tn_localHistoryTable s)"
proof -
  have i: "tn_shift s < 64" "0 < tn_localHistoryTableSize s"
    "length (tn_localHistoryTable s) = unat (tn_localHistoryTableSize s)"
    using assms by (simp_all add: tn_inv_def)
  show "calcLocHistIdx a s = Inr (tn_index s a)"
    by (simp add: calcLocHistIdx_def shr_small [OF i(1)] masked_index tn_index_def)
  have "unat (tn_index s a) \<le> unat (tn_localHistoryTableSize s - 1)"
    unfolding tn_index_def by (rule unat_and_le)
  also have "\<dots> < unat (tn_localHistoryTableSize s)"
    using i(2) by (simp add: unat_pred word_gt_0 unat_gt_0)
  finally have lt: "unat (tn_index s a) < unat (tn_localHistoryTableSize s)" .
  then show "tn_index s a < tn_localHistoryTableSize s" by (simp add: word_less_nat_alt)
  then show "tn_index s a \<noteq> invalidPredictorIndex"
    using word_order.extremum [of "tn_localHistoryTableSize s"]
    by (auto simp: invalidPredictorIndex_def simp flip: not_le)
  from lt i(3) show "unat (tn_index s a) < length (tn_localHistoryTable s)" by simp
qed

lemma rd_uint: "unat i < length xs \<Longrightarrow> rd xs (uint i) = Inr (xs ! unat i)"
  using rd_of_nat [of "unat i" xs] by simp

lemma wr_uint: "unat i < length xs \<Longrightarrow> wr xs (uint i) v = Inr (xs[unat i := v])"
  using wr_of_nat [of "unat i" xs v] by simp

text \<open>The prediction as a function of the masked local history.\<close>

definition tn_choose :: "nat \<Rightarrow> tournament \<Rightarrow> u32 \<Rightarrow> bool" where
  "tn_choose tid s l =
     (let g = tn_globalHistory s ! tid;
          val = (\<lambda>cs i. ucast (ctr (cs ! unat (i :: u32))) :: u32)
      in if tn_choiceThreshold s < val (tn_choiceCtrs s) (g AND tn_choiceHistoryMask s)
         then tn_globalThreshold s < val (tn_globalCtrs s) (g AND tn_globalHistoryMask s)
         else tn_localThreshold s < val (tn_localCtrs s) l)"

lemma value_at_and: "unat m < length cs \<Longrightarrow> value_at cs (x AND m) = Inr (ctr (cs ! unat (x AND m)))"
  using unat_and_le [of x m] by (simp add: value_at_def read_ctr_def uint_nat rd_of_nat del: of_nat_unat)

lemma TournamentBP_lookup_eq:
  assumes "tn_inv tid s"
  shows "\<exists>h g x. let i = tn_index s a; l = tn_localHistoryTable s ! unat i AND tn_localPredictorMask s in
    TournamentBP_lookup tid a s =
      Inr (tn_choose tid s l, h, s\<lparr>tn_globalHistory := (tn_globalHistory s)[tid := g],
        tn_localHistoryTable := (tn_localHistoryTable s)[unat i := x]\<rparr>) \<and>
    th_globalHistory h = tn_globalHistory s ! tid \<and> th_localHistoryIdx h = i \<and> th_localHistory h = l"
proof -
  note i = tn_index_ok [OF assms, of a]
  have j: "tid < length (tn_globalHistory s)"
    "unat (tn_localPredictorMask s) < length (tn_localCtrs s)"
    "unat (tn_globalHistoryMask s) < length (tn_globalCtrs s)"
    "unat (tn_choiceHistoryMask s) < length (tn_choiceCtrs s)"
    using assms by (simp_all add: tn_inv_def)
  show ?thesis
    unfolding TournamentBP_lookup_def Let_def i(1) tn_choose_def
    using i(2,4) j
    by (auto simp: rd_of_nat wr_of_nat rd_uint wr_uint value_at_and updateGlobalHistTaken_def
        updateGlobalHistNotTaken_def updateLocalHistTaken_def updateLocalHistNotTaken_def)
qed

lemma TournamentBP_uncond_eq:
  assumes "tn_inv tid s"
  shows "\<exists>h g. TournamentBP_uncondBranch tid s =
      Inr (h, s\<lparr>tn_globalHistory := (tn_globalHistory s)[tid := g]\<rparr>) \<and>
    th_globalHistory h = tn_globalHistory s ! tid \<and> th_localHistoryIdx h = invalidPredictorIndex"
  using assms
  by (auto simp: TournamentBP_uncondBranch_def updateGlobalHistTaken_def tn_inv_def rd_of_nat wr_of_nat Let_def)

lemma tn_inv_upd:
  "tn_inv tid s \<Longrightarrow> length v = length (tn_globalHistory s) \<Longrightarrow> length w = length (tn_localHistoryTable s) \<Longrightarrow>
     tn_inv tid (s\<lparr>tn_globalHistory := v, tn_localHistoryTable := w\<rparr>)"
  "tn_inv tid s \<Longrightarrow> length v = length (tn_globalHistory s) \<Longrightarrow> tn_inv tid (s\<lparr>tn_globalHistory := v\<rparr>)"
  "tn_inv tid s \<Longrightarrow> length w = length (tn_localHistoryTable s) \<Longrightarrow> tn_inv tid (s\<lparr>tn_localHistoryTable := w\<rparr>)"
  by (simp_all add: tn_inv_def)

lemma tn_total:
  assumes "tn_inv tid s"
  shows "\<exists>p h t. TournamentBP_predict tid b s = Inr (p, h, t) \<and> tn_inv tid t"
proof (cases b)
  case (Cond a)
  with TournamentBP_lookup_eq [OF assms, of a] assms show ?thesis
    by (fastforce simp: TournamentBP_predict_def Let_def intro!: tn_inv_upd)
next
  case (Uncond a)
  with TournamentBP_uncond_eq [OF assms] assms show ?thesis
    by (fastforce simp: TournamentBP_predict_def intro!: tn_inv_upd)
qed

lemma tn_undo:
  assumes s: "tn_inv tid s" and p: "TournamentBP_predict tid b s = Inr (p, h, t)" and u: "tn_inv tid u" "tn_eqv t u"
  shows "\<exists>v. TournamentBP_squash tid h u = Inr v \<and> tn_inv tid v \<and> tn_eqv s v"
proof -
  have tid: "tid < length (tn_globalHistory s)" using s by (simp add: tn_inv_def)
  show ?thesis
  proof (cases b)
    case (Uncond a)
    obtain g where t: "t = s\<lparr>tn_globalHistory := (tn_globalHistory s)[tid := g]\<rparr>"
      and h: "th_globalHistory h = tn_globalHistory s ! tid" "th_localHistoryIdx h = invalidPredictorIndex"
      using TournamentBP_uncond_eq [OF s] p Uncond by (auto simp: TournamentBP_predict_def)
    obtain L where L: "u = t\<lparr>tn_localHistoryTable := L\<rparr>" "length L = length (tn_localHistoryTable s)"
      "\<forall>j < length L. L ! j AND tn_localPredictorMask s = tn_localHistoryTable s ! j AND tn_localPredictorMask s"
      using u(2) by (auto simp: tn_eqv_def t)
    have "TournamentBP_squash tid h u = Inr (s\<lparr>tn_localHistoryTable := L\<rparr>)"
      using tid by (simp add: TournamentBP_squash_def h L(1) t wr_of_nat)
    with L s show ?thesis by (auto simp: tn_eqv_def intro!: tn_inv_upd)
  next
    case (Cond a)
    let ?i = "tn_index s a" and ?m = "tn_localPredictorMask s"
    obtain g x where t: "t = s\<lparr>tn_globalHistory := (tn_globalHistory s)[tid := g],
        tn_localHistoryTable := (tn_localHistoryTable s)[unat ?i := x]\<rparr>"
      and h: "th_globalHistory h = tn_globalHistory s ! tid" "th_localHistoryIdx h = ?i"
        "th_localHistory h = tn_localHistoryTable s ! unat ?i AND ?m"
      using TournamentBP_lookup_eq [OF s, of a] p Cond by (auto simp: TournamentBP_predict_def Let_def)
    note i = tn_index_ok [OF s, of a]
    obtain L where L: "u = t\<lparr>tn_localHistoryTable := L\<rparr>" "length L = length (tn_localHistoryTable s)"
      "\<forall>j < length L. L ! j AND ?m = (tn_localHistoryTable s)[unat ?i := x] ! j AND ?m"
      using u(2) by (auto simp: tn_eqv_def t)
    let ?L = "L[unat ?i := tn_localHistoryTable s ! unat ?i AND ?m]"
    have "TournamentBP_squash tid h u = Inr (s\<lparr>tn_localHistoryTable := ?L\<rparr>)"
      using tid i(3,4) L(2) by (simp add: TournamentBP_squash_def h L(1) t wr_of_nat wr_uint)
    moreover have "?L ! j AND ?m = tn_localHistoryTable s ! j AND ?m" if "j < length L" for j
      using L(2,3) that by (cases "j = unat ?i") (auto simp: and.assoc)
    ultimately show ?thesis using L(2) s by (auto simp: tn_eqv_def intro!: tn_inv_upd)
  qed
qed

lemma tn_same:
  assumes s: "tn_inv tid s" "tn_inv tid u" "tn_eqv s u" and p: "TournamentBP_predict tid b s = Inr (p, h, t)"
  shows "\<exists>h' t'. TournamentBP_predict tid b u = Inr (p, h', t')"
proof (cases b)
  case (Uncond a)
  then show ?thesis
    using p TournamentBP_uncond_eq [OF s(1)] TournamentBP_uncond_eq [OF s(2)]
    by (auto simp: TournamentBP_predict_def)
next
  case (Cond a)
  obtain L where L: "u = s\<lparr>tn_localHistoryTable := L\<rparr>" "length L = length (tn_localHistoryTable s)"
    "\<forall>j < length L. L ! j AND tn_localPredictorMask s = tn_localHistoryTable s ! j AND tn_localPredictorMask s"
    using s(3) by (auto simp: tn_eqv_def)
  have "tn_index u a = tn_index s a" "tn_choose tid u = tn_choose tid s"
    by (simp_all add: L(1) tn_index_def tn_choose_def fun_eq_iff)
  moreover have "tn_localHistoryTable u ! unat (tn_index s a) AND tn_localPredictorMask u =
      tn_localHistoryTable s ! unat (tn_index s a) AND tn_localPredictorMask s"
    using L tn_index_ok(4) [OF s(1), of a] by simp
  ultimately show ?thesis
    using p TournamentBP_lookup_eq [OF s(1), of a] TournamentBP_lookup_eq [OF s(2), of a] Cond
    by (auto simp: TournamentBP_predict_def Let_def)
qed

lemma tn_eqv_refl: "tn_eqv s s"
  by (auto simp: tn_eqv_def intro!: exI [of _ "tn_localHistoryTable s"])

interpretation tournament: speculative_predictor "tn_inv tid" tn_eqv "TournamentBP_predict tid"
  "TournamentBP_squash tid" for tid
  by unfold_locales (rule tn_eqv_refl, erule tn_total, erule (3) tn_undo, erule (3) tn_same)

text \<open>
  C18: a wrong path leaves no trace in the predictions. After any branches are predicted and squashed
  youngest first, the bi-mode predictor is in exactly the state before, and the tournament predictor
  makes the same next prediction; nothing faults on the way.
\<close>

theorem wrong_path_squashed:
  assumes "bi_inv tid s" "tn_inv tid q"
  shows "(\<exists>hs t. predict_all (BiModeBP_predict tid) bs s = Inr (hs, t) \<and>
      squash_all (BiModeBP_squash tid) hs t = Inr s) \<and>
    (\<exists>hs t u p h h' v v'. predict_all (TournamentBP_predict tid) bs q = Inr (hs, t) \<and>
      squash_all (TournamentBP_squash tid) hs t = Inr u \<and>
      TournamentBP_predict tid b q = Inr (p, h, v) \<and> TournamentBP_predict tid b u = Inr (p, h', v'))"
proof
  show "\<exists>hs t. predict_all (BiModeBP_predict tid) bs s = Inr (hs, t) \<and>
      squash_all (BiModeBP_squash tid) hs t = Inr s"
    using bimode.squash_restores [OF assms(1)] by blast
  obtain p h v where "TournamentBP_predict tid b q = Inr (p, h, v)"
    using tn_total [OF assms(2)] by blast
  with tournament.wrong_path_invisible [OF assms(2) this, of bs]
  show "\<exists>hs t u p h h' v v'. predict_all (TournamentBP_predict tid) bs q = Inr (hs, t) \<and>
      squash_all (TournamentBP_squash tid) hs t = Inr u \<and>
      TournamentBP_predict tid b q = Inr (p, h, v) \<and> TournamentBP_predict tid b u = Inr (p, h', v')"
    by blast
qed

definition demo_ctrs :: "sat_counter list" where
  "demo_ctrs = replicate 4 \<lparr>initialVal = 0, maxVal = 3, ctr = 2\<rparr>"

definition demo_bimode :: bi_mode where
  "demo_bimode = \<lparr>bm_choice = demo_ctrs, bm_taken = demo_ctrs, bm_notTaken = demo_ctrs, bm_historyReg = [0],
     bm_historyBits = 2, bm_historyRegisterMask = 3, bm_choicePredictorSize = 4, bm_choiceCtrBits = 2,
     bm_choiceHistoryMask = 3, bm_globalPredictorSize = 4, bm_globalCtrBits = 2, bm_globalHistoryMask = 3,
     bm_choiceThreshold = 1, bm_takenThreshold = 1, bm_notTakenThreshold = 1, bm_shift = 2\<rparr>"

definition demo_tournament :: tournament where
  "demo_tournament = \<lparr>tn_localCtrs = demo_ctrs, tn_localPredictorSize = 4, tn_localPredictorMask = 3,
     tn_localCtrBits = 2, tn_localHistoryTable = [0, 7, 0, 0], tn_localHistoryTableSize = 4,
     tn_localHistoryBits = 2, tn_globalCtrs = demo_ctrs, tn_globalPredictorSize = 4, tn_globalCtrBits = 2,
     tn_globalHistory = [0], tn_globalHistoryBits = 2, tn_globalHistoryMask = 3, tn_choiceHistoryMask = 3,
     tn_historyRegisterMask = 3, tn_choiceCtrs = demo_ctrs, tn_choicePredictorSize = 4, tn_choiceCtrBits = 2,
     tn_localThreshold = 1, tn_globalThreshold = 1, tn_choiceThreshold = 1, tn_shift = 2\<rparr>"

theorem wrong_path_squashed_witness:
  "(\<exists>hs t. predict_all (BiModeBP_predict 0) [Cond 4, Uncond 8, Cond 4] demo_bimode = Inr (hs, t) \<and>
      squash_all (BiModeBP_squash 0) hs t = Inr demo_bimode) \<and>
    (\<exists>hs t u p h h' v v'. predict_all (TournamentBP_predict 0) [Cond 4, Uncond 8, Cond 4] demo_tournament = Inr (hs, t) \<and>
      squash_all (TournamentBP_squash 0) hs t = Inr u \<and>
      TournamentBP_predict 0 (Cond 4) demo_tournament = Inr (p, h, v) \<and>
      TournamentBP_predict 0 (Cond 4) u = Inr (p, h', v'))"
  by (rule wrong_path_squashed)
    (simp_all add: bi_inv_def tn_inv_def demo_bimode_def demo_tournament_def demo_ctrs_def)

end
