(* ===== verification/Branch_Targets.thy ===== *)
theory Branch_Targets
  imports Ruby_Address
begin

text \<open>
  Where branches go: the return address stack (\<open>cpu/pred/ras.cc\<close>, \<open>ras.hh\<close>) and the branch target
  buffer (\<open>cpu/pred/btb.cc\<close>). The program counter state \<open>PCState\<close> of the instruction set is a type
  parameter; its \<open>set(0)\<close> and its conversion of 0 are arguments where they are used.
\<close>

section \<open>ReturnAddrStack\<close>

record 'pc ras =
  addrStack :: "'pc list"
  numEntries :: u32
  usedEntries :: u32
  tos :: u32

definition ras_reset :: "('pc \<Rightarrow> 'pc) \<Rightarrow> 'pc ras \<Rightarrow> 'pc ras" where
  "ras_reset set0 r = r\<lparr>usedEntries := 0, tos := 0,
     addrStack := map set0 (take (unat (numEntries r)) (addrStack r)) @ drop (unat (numEntries r)) (addrStack r)\<rparr>"

definition ras_init :: "('pc \<Rightarrow> 'pc) \<Rightarrow> 'pc \<Rightarrow> u32 \<Rightarrow> 'pc ras" where
  "ras_init set0 fresh n =
     ras_reset set0 \<lparr>addrStack = replicate (unat n) fresh, numEntries = n, usedEntries = 0, tos = 0\<rparr>"

definition incrTos :: "'pc ras \<Rightarrow> 'pc ras" where
  "incrTos r = (let t = tos r + 1 in r\<lparr>tos := (if t = numEntries r then 0 else t)\<rparr>)"

definition decrTos :: "'pc ras \<Rightarrow> 'pc ras" where
  "decrTos r = r\<lparr>tos := (if tos r = 0 then numEntries r - 1 else tos r - 1)\<rparr>"

definition ras_push :: "'pc \<Rightarrow> 'pc ras \<Rightarrow> 'pc ras res" where
  "ras_push return_addr r =
     (let r = incrTos r
      in bindE (wr (addrStack r) (uint (tos r)) return_addr) (\<lambda>v.
      let r = r\<lparr>addrStack := v\<rparr>
      in Inr (if usedEntries r \<noteq> numEntries r then r\<lparr>usedEntries := usedEntries r + 1\<rparr> else r)))"

definition ras_pop :: "'pc ras \<Rightarrow> 'pc ras" where
  "ras_pop r =
     (let r = (if usedEntries r > 0 then r\<lparr>usedEntries := usedEntries r - 1\<rparr> else r) in decrTos r)"

definition ras_restore :: "u32 \<Rightarrow> 'pc \<Rightarrow> 'pc ras \<Rightarrow> 'pc ras res" where
  "ras_restore top_entry_idx restored r =
     (let r = r\<lparr>tos := top_entry_idx\<rparr>
      in bindE (wr (addrStack r) (uint (tos r)) restored) (\<lambda>v. Inr (r\<lparr>addrStack := v\<rparr>)))"

definition ras_top :: "'pc ras \<Rightarrow> 'pc res" where
  "ras_top r = rd (addrStack r) (uint (tos r))"

definition ras_topIdx :: "'pc ras \<Rightarrow> u32" where
  "ras_topIdx r = tos r"

definition ras_empty :: "'pc ras \<Rightarrow> bool" where
  "ras_empty r \<longleftrightarrow> usedEntries r = 0"

definition ras_full :: "'pc ras \<Rightarrow> bool" where
  "ras_full r \<longleftrightarrow> usedEntries r = numEntries r"

section \<open>DefaultBTB\<close>

record 'pc btb_entry =
  btb_tag :: addr
  btb_target :: 'pc
  btb_tid :: int
  btb_valid :: bool

record 'pc btb =
  entries :: "'pc btb_entry list"
  btb_numEntries :: u32
  idxMask :: u32
  tagBits :: u32
  tagMask :: u32
  instShiftAmt :: u32
  tagShiftAmt :: u32
  log2NumThreads :: u32

definition btb_reset :: "'pc btb \<Rightarrow> 'pc btb" where
  "btb_reset b = b\<lparr>entries :=
     map (\<lambda>e. e\<lparr>btb_valid := False\<rparr>) (take (unat (btb_numEntries b)) (entries b)) @
     drop (unat (btb_numEntries b)) (entries b)\<rparr>"

text \<open>\<open>nul\<close> is \<open>PCState(0)\<close> and \<open>junk\<close> the uninitialised thread id of an entry.\<close>

definition btb_new :: "'pc \<Rightarrow> int \<Rightarrow> u32 \<Rightarrow> u32 \<Rightarrow> u32 \<Rightarrow> u32 \<Rightarrow> 'pc btb res" where
  "btb_new nul junk n tbits shift threads =
     bindE (floorLog2_u32 threads) (\<lambda>lt.
     if \<not> isPowerOf2 n then Inl Panic
     else if tbits \<ge> 31 then Inl BadShift
     else bindE (floorLog2_u32 n) (\<lambda>ln.
       Inr \<lparr>entries = replicate (unat n) \<lparr>btb_tag = 0, btb_target = nul, btb_tid = junk, btb_valid = False\<rparr>,
         btb_numEntries = n, idxMask = n - 1, tagBits = tbits, tagMask = push_bit (unat tbits) 1 - 1,
         instShiftAmt = shift, tagShiftAmt = shift + of_nat ln, log2NumThreads = of_nat lt\<rparr>))"

text \<open>\<open>tid << n\<close> on an \<open>int\<close>; the result takes part in 64-bit arithmetic.\<close>

definition shl_int :: "int \<Rightarrow> u32 \<Rightarrow> u64 res" where
  "shl_int x n =
     (if n \<ge> 32 \<or> x < 0 \<or> x * 2 ^ unat n \<ge> 2 ^ 31 then Inl BadShift else Inr (of_int (x * 2 ^ unat n)))"

definition btb_getIndex :: "'pc btb \<Rightarrow> addr \<Rightarrow> int \<Rightarrow> u32 res" where
  "btb_getIndex b instPC tid =
     bindE (shr instPC (instShiftAmt b)) (\<lambda>a.
     bindE (shl_int tid (tagShiftAmt b - instShiftAmt b - log2NumThreads b)) (\<lambda>t.
     Inr (ucast ((a XOR t) AND ucast (idxMask b)))))"

definition btb_getTag :: "'pc btb \<Rightarrow> addr \<Rightarrow> addr res" where
  "btb_getTag b instPC = bindE (shr instPC (tagShiftAmt b)) (\<lambda>a. Inr (a AND ucast (tagMask b)))"

definition btb_hit :: "'pc btb \<Rightarrow> addr \<Rightarrow> int \<Rightarrow> 'pc option res" where
  "btb_hit b instPC tid =
     bindE (btb_getIndex b instPC tid) (\<lambda>i.
     bindE (btb_getTag b instPC) (\<lambda>inst_tag.
     bindE (assertE (i < btb_numEntries b)) (\<lambda>_.
     bindE (rd (entries b) (uint i)) (\<lambda>e.
     Inr (if btb_valid e \<and> inst_tag = btb_tag e \<and> btb_tid e = tid then Some (btb_target e) else None)))))"

definition btb_is_valid :: "'pc btb \<Rightarrow> addr \<Rightarrow> int \<Rightarrow> bool res" where
  "btb_is_valid b instPC tid = bindE (btb_hit b instPC tid) (\<lambda>h. Inr (h \<noteq> None))"

definition btb_lookup :: "'pc \<Rightarrow> 'pc btb \<Rightarrow> addr \<Rightarrow> int \<Rightarrow> 'pc res" where
  "btb_lookup nul b instPC tid =
     bindE (btb_hit b instPC tid) (\<lambda>h. Inr (case h of None \<Rightarrow> nul | Some t \<Rightarrow> t))"

definition btb_update :: "addr \<Rightarrow> 'pc \<Rightarrow> int \<Rightarrow> 'pc btb \<Rightarrow> 'pc btb res" where
  "btb_update instPC target tid b =
     bindE (btb_getIndex b instPC tid) (\<lambda>i.
     bindE (assertE (i < btb_numEntries b)) (\<lambda>_.
     bindE (btb_getTag b instPC) (\<lambda>t.
     bindE (wr (entries b) (uint i) \<lparr>btb_tag = t, btb_target = target, btb_tid = tid, btb_valid = True\<rparr>) (\<lambda>v.
     Inr (b\<lparr>entries := v\<rparr>)))))"

section \<open>Last in, first out\<close>

definition ras_inv :: "'pc ras \<Rightarrow> bool" where
  "ras_inv r \<longleftrightarrow> tos r < numEntries r \<and> usedEntries r \<le> numEntries r \<and>
     length (addrStack r) = unat (numEntries r)"

fun push_all :: "'pc list \<Rightarrow> 'pc ras \<Rightarrow> 'pc ras res" where
  "push_all [] r = Inr r"
| "push_all (x # xs) r = bindE (ras_push x r) (push_all xs)"

text \<open>Read the top and pop, \<open>n\<close> times.\<close>

fun pop_all :: "nat \<Rightarrow> 'pc ras \<Rightarrow> ('pc list \<times> 'pc ras) res" where
  "pop_all 0 r = Inr ([], r)"
| "pop_all (Suc n) r =
     bindE (ras_top r) (\<lambda>x. bindE (pop_all n (ras_pop r)) (\<lambda>(xs, r). Inr (x # xs, r)))"

lemma push_all_snoc: "push_all (xs @ [x]) r = bindE (push_all xs r) (ras_push x)"
  by (induction xs arbitrary: r) (auto simp: bindE_def split: sum.splits)

lemma incr_mod:
  assumes "t < n"
  shows "unat (if t + 1 = n then 0 else t + 1 :: u32) = (unat t + 1) mod unat n"
proof -
  have lt: "unat t < unat n" using assms by (simp add: word_less_nat_alt)
  have "unat n < 2 ^ LENGTH(32)" by (rule unsigned_less)
  with lt have s: "unat (t + 1) = unat t + 1" by (simp add: unat_word_ariths)
  then have "t + 1 = n \<longleftrightarrow> unat t + 1 = unat n" by (metis word_unat_eq_iff)
  with s lt show ?thesis by auto
qed

lemma decr_mod:
  assumes "t < n" "unat t = (s + 1) mod unat n" "s < unat n"
  shows "unat (if t = 0 then n - 1 else t - 1 :: u32) = s"
proof -
  have n: "0 < n" using assms(1) by (metis not_less_iff_gr_or_eq word_gt_0 word_not_simps(1))
  have p: "unat (w - 1) = unat w - 1" if "0 < w" for w :: u32
    using that by (simp add: unat_sub word_le_nat_alt word_gt_0 unat_gt_0 Suc_le_eq)
  show ?thesis
  proof (cases "s + 1 = unat n")
    case True
    then have "t = 0" using assms(2) by (simp add: unat_eq_zero)
    with True p [OF n] show ?thesis by simp
  next
    case False
    then have "unat t = s + 1" using assms(2,3) by simp
    then have "0 < t" by (simp add: word_gt_0 unat_gt_0 [symmetric])
    with p [OF this] \<open>unat t = s + 1\<close> show ?thesis by (simp add: word_gt_0)
  qed
qed

lemma push_step:
  assumes "ras_inv r"
  shows "\<exists>q. ras_push x r = Inr q \<and> ras_inv q \<and> numEntries q = numEntries r \<and>
    unat (tos q) = (unat (tos r) + 1) mod unat (numEntries r) \<and>
    addrStack q = (addrStack r)[unat (tos q) := x]"
proof -
  let ?t = "if tos r + 1 = numEntries r then 0 else tos r + 1"
  have i: "tos r < numEntries r" "usedEntries r \<le> numEntries r"
    "length (addrStack r) = unat (numEntries r)"
    using assms by (simp_all add: ras_inv_def)
  have t: "unat ?t = (unat (tos r) + 1) mod unat (numEntries r)" using i(1) by (rule incr_mod)
  have "0 < unat (numEntries r)" using i(1) by (simp add: word_less_nat_alt)
  then have lt: "unat ?t < unat (numEntries r)" unfolding t by simp
  have "wr (addrStack r) (uint ?t) x = Inr ((addrStack r)[unat ?t := x])"
    using wr_of_nat [of "unat ?t" "addrStack r" x] lt i(3) by simp
  moreover have "usedEntries r + 1 \<le> numEntries r" if "usedEntries r \<noteq> numEntries r"
    using that i(2) by (intro inc_le) simp
  ultimately show ?thesis
    using i lt t by (auto simp: ras_push_def incrTos_def Let_def ras_inv_def word_less_nat_alt)
qed

text \<open>Pushed values lie in consecutive slots of the ring.\<close>

lemma ring_slots:
  fixes n :: nat
  assumes "i < n" "j < n" "(t + i) mod n = (t + j) mod n"
  shows "i = j"
proof -
  have "int (t + i) mod int n = int (t + j) mod int n" using assms(3) by (metis zmod_int)
  then have "int n dvd int i - int j" by (simp add: mod_eq_dvd_iff)
  then have "int i - int j \<noteq> 0 \<Longrightarrow> int n \<le> \<bar>int i - int j\<bar>"
    using dvd_imp_le_int [of "int i - int j" "int n"] by simp
  with assms(1,2) show ?thesis by linarith
qed

lemma push_all_slots:
  assumes "ras_inv r" "length xs \<le> unat (numEntries r)"
  shows "\<exists>q. push_all xs r = Inr q \<and> ras_inv q \<and> numEntries q = numEntries r \<and>
    unat (tos q) = (unat (tos r) + length xs) mod unat (numEntries r) \<and>
    (\<forall>i < length xs. addrStack q ! ((unat (tos r) + Suc i) mod unat (numEntries r)) = xs ! i)"
  using assms
proof (induction xs rule: rev_induct)
  case Nil
  then show ?case by (simp add: ras_inv_def word_less_nat_alt)
next
  case (snoc x xs)
  let ?n = "unat (numEntries r)" and ?t = "unat (tos r)"
  obtain q where q: "push_all xs r = Inr q" "ras_inv q" "numEntries q = numEntries r"
    "unat (tos q) = (?t + length xs) mod ?n"
    "\<forall>i < length xs. addrStack q ! ((?t + Suc i) mod ?n) = xs ! i"
    using snoc by auto
  obtain p where p: "ras_push x q = Inr p" "ras_inv p" "numEntries p = numEntries r"
    "unat (tos p) = (?t + Suc (length xs)) mod ?n" "addrStack p = (addrStack q)[unat (tos p) := x]"
    using push_step [OF q(2), of x] q(3,4) by (auto simp: mod_Suc_eq)
  have len: "length (addrStack q) = ?n" using q(2,3) by (simp add: ras_inv_def)
  have "addrStack p ! ((?t + Suc i) mod ?n) = (xs @ [x]) ! i" if "i < Suc (length xs)" for i
  proof (cases "i = length xs")
    case True
    then show ?thesis using p(4,5) len snoc.prems(2) by (simp add: nth_append)
  next
    case False
    with that have lt: "i < length xs" by simp
    have "(?t + Suc i) mod ?n \<noteq> (?t + Suc (length xs)) mod ?n"
      using ring_slots [of i ?n "length xs" "Suc ?t"] lt snoc.prems(2) by auto
    with lt q(5) p(4,5) show ?thesis by (simp add: nth_append)
  qed
  with q(1) p show ?case by (auto simp: push_all_snoc)
qed

lemma pop_step:
  assumes "ras_inv r" "unat (tos r) = (s + 1) mod unat (numEntries r)" "s < unat (numEntries r)"
  shows "ras_inv (ras_pop r)" "unat (tos (ras_pop r)) = s" "numEntries (ras_pop r) = numEntries r"
    "addrStack (ras_pop r) = addrStack r"
proof -
  have t: "tos (ras_pop r) = (if tos r = 0 then numEntries r - 1 else tos r - 1)"
    by (simp add: ras_pop_def decrTos_def Let_def)
  show n: "numEntries (ras_pop r) = numEntries r" "addrStack (ras_pop r) = addrStack r"
    by (simp_all add: ras_pop_def decrTos_def Let_def)
  show s: "unat (tos (ras_pop r)) = s"
    unfolding t by (rule decr_mod) (use assms in \<open>simp_all add: ras_inv_def\<close>)
  have "usedEntries r - 1 \<le> usedEntries r" if "0 < usedEntries r"
    using that by (simp add: word_le_nat_alt unat_sub word_gt_0 unat_gt_0 Suc_le_eq)
  then have "usedEntries (ras_pop r) \<le> numEntries r"
    using assms(1) by (auto simp: ras_pop_def decrTos_def Let_def ras_inv_def intro: order_trans)
  then show "ras_inv (ras_pop r)"
    using assms(1,3) n s by (simp add: ras_inv_def word_less_nat_alt)
qed

lemma pop_all_slots:
  assumes "ras_inv r" "unat (tos r) = (t + n) mod unat (numEntries r)" "t < unat (numEntries r)"
  shows "\<exists>q. pop_all n r =
      Inr (rev (map (\<lambda>i. addrStack r ! ((t + Suc i) mod unat (numEntries r))) [0..<n]), q) \<and>
    ras_inv q \<and> unat (tos q) = t"
  using assms
proof (induction n arbitrary: r)
  case (Suc n)
  let ?N = "unat (numEntries r)" and ?s = "(t + n) mod unat (numEntries r)"
  have s: "?s < ?N" using Suc.prems(3) by simp
  have "unat (tos r) = (?s + 1) mod ?N" using Suc.prems(2) by (simp add: mod_Suc_eq)
  note p = pop_step [OF Suc.prems(1) this s]
  obtain q where q: "pop_all n (ras_pop r) =
      Inr (rev (map (\<lambda>i. addrStack r ! ((t + Suc i) mod ?N)) [0..<n]), q)" "ras_inv q" "unat (tos q) = t"
    using Suc.IH [OF p(1)] p Suc.prems(3) by auto
  have "unat (tos r) < length (addrStack r)"
    using Suc.prems(1) by (simp add: ras_inv_def word_less_nat_alt)
  then have "ras_top r = Inr (addrStack r ! unat (tos r))"
    using rd_of_nat [of "unat (tos r)" "addrStack r"] by (simp add: ras_top_def)
  with q Suc.prems(2) show ?case by simp
qed simp

text \<open>
  C30: the return address stack is last in, first out for as many pushes as it has entries: reading
  and popping returns the pushed addresses in reverse order, and the top is where it was.
\<close>

theorem ras_lifo:
  assumes "ras_inv r" "length xs \<le> unat (numEntries r)"
  shows "\<exists>q p. push_all xs r = Inr q \<and> pop_all (length xs) q = Inr (rev xs, p) \<and> tos p = tos r"
proof -
  obtain q where q: "push_all xs r = Inr q" "ras_inv q" "numEntries q = numEntries r"
    "unat (tos q) = (unat (tos r) + length xs) mod unat (numEntries r)"
    "\<forall>i < length xs. addrStack q ! ((unat (tos r) + Suc i) mod unat (numEntries r)) = xs ! i"
    using push_all_slots [OF assms] by blast
  have t: "unat (tos r) < unat (numEntries r)" using assms(1) by (simp add: ras_inv_def word_less_nat_alt)
  have "map (\<lambda>i. addrStack q ! ((unat (tos r) + Suc i) mod unat (numEntries r))) [0..<length xs] = xs"
    using q(5) by (intro nth_equalityI) simp_all
  with pop_all_slots [OF q(2), of "unat (tos r)" "length xs"] q(3,4) t
  obtain p where "pop_all (length xs) q = Inr (rev xs, p)" "unat (tos p) = unat (tos r)" by auto
  with q(1) show ?thesis by (auto simp: word_unat_eq_iff)
qed

theorem ras_lifo_witness:
  "\<exists>q p. push_all [10, 20, 30 :: nat] (ras_init (\<lambda>_. 0) 0 4) = Inr q \<and>
     pop_all (length [10, 20, 30 :: nat]) q = Inr (rev [10, 20, 30], p) \<and>
     tos p = tos (ras_init (\<lambda>_. 0) (0 :: nat) 4)"
  by (rule ras_lifo) (simp_all add: ras_init_def ras_reset_def ras_inv_def)

section \<open>The branch target buffer as a map\<close>

definition btb_inv :: "'pc btb \<Rightarrow> bool" where
  "btb_inv b \<longleftrightarrow> instShiftAmt b < 64 \<and> tagShiftAmt b < 64 \<and> idxMask b < btb_numEntries b \<and>
     length (entries b) = unat (btb_numEntries b) \<and>
     tagShiftAmt b - instShiftAmt b - log2NumThreads b < 16"

text \<open>Thread ids of a machine with up to 32768 threads.\<close>

definition tid_ok :: "int \<Rightarrow> bool" where
  "tid_ok tid \<longleftrightarrow> 0 \<le> tid \<and> tid < 2 ^ 15"

lemma btb_fields_ok:
  assumes "btb_inv b" "tid_ok tid"
  shows "\<exists>i t. btb_getIndex b pc tid = Inr i \<and> btb_getTag b pc = Inr t \<and> i < btb_numEntries b"
proof -
  let ?k = "tagShiftAmt b - instShiftAmt b - log2NumThreads b"
  have k: "unat ?k \<le> 15" using assms(1) by (simp add: btb_inv_def word_less_nat_alt)
  have "tid * 2 ^ unat ?k \<le> tid * 2 ^ 15"
    using assms(2) k by (intro mult_left_mono power_increasing) (simp_all add: tid_ok_def)
  also have "\<dots> < 2 ^ 31" using assms(2) by (simp add: tid_ok_def)
  finally have "\<exists>t. shl_int tid ?k = Inr t"
    using k assms(2) by (simp add: shl_int_def tid_ok_def word_le_nat_alt)
  moreover have "ucast ((a XOR t) AND ucast (idxMask b) :: u64) < btb_numEntries b" for a t
  proof -
    have "(ucast ((a XOR t) AND ucast (idxMask b) :: u64) :: u32) = ucast (a XOR t) AND idxMask b"
      by (rule bit_word_eqI) (auto simp: bit_simps)
    moreover have "unat (ucast (a XOR t) AND idxMask b) \<le> unat (idxMask b)"
      by (metis and_le_nat unsigned_and_eq)
    ultimately show ?thesis using assms(1) by (simp add: btb_inv_def word_less_nat_alt)
  qed
  ultimately show ?thesis
    using assms(1) by (auto simp: btb_getIndex_def btb_getTag_def btb_inv_def shr_small)
qed

lemma btb_hit_entry:
  assumes "btb_getIndex b pc tid = Inr j" "btb_getTag b pc = Inr u" "j < btb_numEntries b"
    "length (entries b) = unat (btb_numEntries b)"
  shows "btb_hit b pc tid = Inr (let e = entries b ! unat j in
    if btb_valid e \<and> u = btb_tag e \<and> btb_tid e = tid then Some (btb_target e) else None)"
  using assms rd_of_nat [of "unat j" "entries b"] by (simp add: btb_hit_def Let_def word_less_nat_alt)

text \<open>
  C29: the branch target buffer after an update. A branch with another index is looked up as before;
  one with the same index finds the new target when its tag and thread agree and nothing otherwise,
  since the update replaced the entry.
\<close>

theorem btb_lookup_update:
  assumes "btb_inv b" "tid_ok tid" "tid_ok tid'"
  shows "\<exists>b'. btb_update pc target tid b = Inr b' \<and> btb_inv b' \<and>
    btb_lookup nul b' pc' tid' =
      (if btb_getIndex b pc' tid' = btb_getIndex b pc tid
       then Inr (if btb_getTag b pc' = btb_getTag b pc \<and> tid' = tid then target else nul)
       else btb_lookup nul b pc' tid')"
proof -
  obtain i t where i: "btb_getIndex b pc tid = Inr i" "btb_getTag b pc = Inr t" "i < btb_numEntries b"
    using btb_fields_ok [OF assms(1,2)] by blast
  obtain j u where j: "btb_getIndex b pc' tid' = Inr j" "btb_getTag b pc' = Inr u" "j < btb_numEntries b"
    using btb_fields_ok [OF assms(1,3)] by blast
  let ?e = "\<lparr>btb_tag = t, btb_target = target, btb_tid = tid, btb_valid = True\<rparr>"
  let ?b = "b\<lparr>entries := (entries b)[unat i := ?e]\<rparr>"
  have len: "unat i < length (entries b)" "unat j < length (entries b)"
    using i(3) j(3) assms(1) by (simp_all add: btb_inv_def word_less_nat_alt)
  have w: "wr (entries b) (uint i) ?e = Inr ((entries b)[unat i := ?e])"
    using wr_of_nat [OF len(1), of ?e] by simp
  have "btb_update pc target tid b = Inr ?b" using i w by (simp add: btb_update_def)
  moreover have "btb_inv ?b" using assms(1) by (simp add: btb_inv_def)
  moreover have ij: "btb_getIndex ?b = btb_getIndex b" "btb_getTag ?b = btb_getTag b"
    by (simp_all add: btb_getIndex_def btb_getTag_def fun_eq_iff)
  have "btb_lookup nul ?b pc' tid' =
      (if j = i then Inr (if u = t \<and> tid' = tid then target else nul) else btb_lookup nul b pc' tid')"
  proof -
    have lb: "length (entries b) = unat (btb_numEntries b)" using assms(1) by (simp add: btb_inv_def)
    note h = btb_hit_entry [of ?b pc' tid' j u, unfolded ij, simplified, OF j lb]
      and hb = btb_hit_entry [OF j lb]
    show ?thesis
    proof (cases "j = i")
      case True
      then show ?thesis using h len by (simp add: btb_lookup_def Let_def)
    next
      case False
      then have "unat i \<noteq> unat j" by (simp add: word_unat_eq_iff)
      with False show ?thesis using h hb by (simp add: btb_lookup_def Let_def)
    qed
  qed
  ultimately show ?thesis using i(1,2) j(1,2) by (intro exI [of _ ?b]) simp
qed

definition demo_btb :: "nat btb" where
  "demo_btb = \<lparr>entries = replicate 4 \<lparr>btb_tag = 0, btb_target = 0, btb_tid = 0, btb_valid = False\<rparr>,
     btb_numEntries = 4, idxMask = 3, tagBits = 16, tagMask = 65535, instShiftAmt = 2, tagShiftAmt = 4,
     log2NumThreads = 0\<rparr>"

theorem btb_lookup_update_witness:
  "\<exists>b'. btb_update 4096 77 0 demo_btb = Inr b' \<and> btb_inv b' \<and>
    btb_lookup 0 b' 4096 0 =
      (if btb_getIndex demo_btb 4096 0 = btb_getIndex demo_btb 4096 0
       then Inr (if btb_getTag demo_btb 4096 = btb_getTag demo_btb 4096 \<and> (0 :: int) = 0 then 77 else 0)
       else btb_lookup 0 demo_btb 4096 0)"
  by (rule btb_lookup_update) (simp_all add: demo_btb_def btb_inv_def tid_ok_def)

end
