(* ===== verification/Register_File.thy ===== *)
theory Register_File
  imports Guardian_Prelude
begin

text \<open>
  Physical registers of the out-of-order core: the register classes (\<open>cpu/reg_class.hh\<close>), the
  physical register file (\<open>cpu/o3/regfile.hh\<close>, \<open>regfile.cc\<close>), the free lists (\<open>free_list.hh\<close>,
  \<open>free_list.cc\<close>) and the scoreboard (\<open>scoreboard.hh\<close>, \<open>scoreboard.cc\<close>). Register numbers are natural
  numbers: \<open>PhysRegIndex\<close> is a \<open>short\<close> and \<open>RegIndex\<close> a \<open>uint16_t\<close>, so the model is that of machines
  whose register numbers, misc registers included, stay below \<open>2 ^ 15\<close>.
\<close>

section \<open>Register classes\<close>

text \<open>The constants of the instruction set the simulator is built for.\<close>

record isa =
  NumIntRegs :: nat
  NumFloatRegs :: nat
  NumCCRegs :: nat
  NumMiscRegs :: nat
  ZeroReg :: nat
  FP_Reg_Base :: nat
  CC_Reg_Base :: nat
  Misc_Reg_Base :: nat
  Max_Reg_Index :: nat
  is_alpha :: bool

datatype RegClass = IntRegClass | FloatRegClass | CCRegClass | MiscRegClass

definition regIdxToClass :: "isa \<Rightarrow> nat \<Rightarrow> (RegClass \<times> nat) res" where
  "regIdxToClass I reg_idx =
     bindE (assertE (reg_idx < Max_Reg_Index I)) (\<lambda>_.
     let (cl, offset) =
       (if reg_idx < FP_Reg_Base I then (IntRegClass, 0)
        else if reg_idx < CC_Reg_Base I then (FloatRegClass, FP_Reg_Base I)
        else if reg_idx < Misc_Reg_Base I then (CCRegClass, CC_Reg_Base I)
        else (MiscRegClass, Misc_Reg_Base I))
     in Inr (cl, reg_idx - offset))"

section \<open>PhysRegFile\<close>

text \<open>A floating-point register is the bit pattern of the union's \<open>q\<close> member.\<close>

record phys_reg_file =
  intRegFile :: "u64 list"
  floatRegFile :: "u32 list"
  ccRegFile :: "u64 list"
  baseFloatRegIndex :: nat
  baseCCRegIndex :: nat
  totalNumRegs :: nat

definition PhysRegFile_new :: "nat \<Rightarrow> nat \<Rightarrow> nat \<Rightarrow> phys_reg_file" where
  "PhysRegFile_new numPhysicalIntRegs numPhysicalFloatRegs numPhysicalCCRegs =
     \<lparr>intRegFile = replicate numPhysicalIntRegs 0, floatRegFile = replicate numPhysicalFloatRegs 0,
      ccRegFile = replicate numPhysicalCCRegs 0, baseFloatRegIndex = numPhysicalIntRegs,
      baseCCRegIndex = numPhysicalIntRegs + numPhysicalFloatRegs,
      totalNumRegs = numPhysicalIntRegs + numPhysicalFloatRegs + numPhysicalCCRegs\<rparr>"

definition numIntPhysRegs :: "phys_reg_file \<Rightarrow> nat" where
  "numIntPhysRegs f = baseFloatRegIndex f"

definition numFloatPhysRegs :: "phys_reg_file \<Rightarrow> nat" where
  "numFloatPhysRegs f = baseCCRegIndex f - baseFloatRegIndex f"

definition numCCPhysRegs :: "phys_reg_file \<Rightarrow> nat" where
  "numCCPhysRegs f = totalNumRegs f - baseCCRegIndex f"

definition isIntPhysReg :: "phys_reg_file \<Rightarrow> nat \<Rightarrow> bool" where
  "isIntPhysReg f reg_idx \<longleftrightarrow> 0 \<le> reg_idx \<and> reg_idx < baseFloatRegIndex f"

definition isFloatPhysReg :: "phys_reg_file \<Rightarrow> nat \<Rightarrow> bool" where
  "isFloatPhysReg f reg_idx \<longleftrightarrow> baseFloatRegIndex f \<le> reg_idx \<and> reg_idx < baseCCRegIndex f"

definition isCCPhysReg :: "phys_reg_file \<Rightarrow> nat \<Rightarrow> bool" where
  "isCCPhysReg f reg_idx \<longleftrightarrow> baseCCRegIndex f \<le> reg_idx \<and> reg_idx < totalNumRegs f"

definition readIntReg :: "nat \<Rightarrow> phys_reg_file \<Rightarrow> u64 res" where
  "readIntReg reg_idx f =
     bindE (assertE (isIntPhysReg f reg_idx)) (\<lambda>_. rd (intRegFile f) (int reg_idx))"

definition readFloatRegBits :: "nat \<Rightarrow> phys_reg_file \<Rightarrow> u32 res" where
  "readFloatRegBits reg_idx f =
     bindE (assertE (isFloatPhysReg f reg_idx)) (\<lambda>_.
     rd (floatRegFile f) (int (reg_idx - baseFloatRegIndex f)))"

definition readCCReg :: "nat \<Rightarrow> phys_reg_file \<Rightarrow> u64 res" where
  "readCCReg reg_idx f =
     bindE (assertE (isCCPhysReg f reg_idx)) (\<lambda>_.
     rd (ccRegFile f) (int (reg_idx - baseCCRegIndex f)))"

definition setIntReg :: "isa \<Rightarrow> nat \<Rightarrow> u64 \<Rightarrow> phys_reg_file \<Rightarrow> phys_reg_file res" where
  "setIntReg I reg_idx val f =
     bindE (assertE (isIntPhysReg f reg_idx)) (\<lambda>_.
     if reg_idx \<noteq> ZeroReg I
     then bindE (wr (intRegFile f) (int reg_idx) val) (\<lambda>v. Inr (f\<lparr>intRegFile := v\<rparr>))
     else Inr f)"

definition setFloatRegBits :: "nat \<Rightarrow> u32 \<Rightarrow> phys_reg_file \<Rightarrow> phys_reg_file res" where
  "setFloatRegBits reg_idx val f =
     bindE (assertE (isFloatPhysReg f reg_idx)) (\<lambda>_.
     bindE (wr (floatRegFile f) (int (reg_idx - baseFloatRegIndex f)) val) (\<lambda>v.
     Inr (f\<lparr>floatRegFile := v\<rparr>)))"

definition setCCReg :: "nat \<Rightarrow> u64 \<Rightarrow> phys_reg_file \<Rightarrow> phys_reg_file res" where
  "setCCReg reg_idx val f =
     bindE (assertE (isCCPhysReg f reg_idx)) (\<lambda>_.
     bindE (wr (ccRegFile f) (int (reg_idx - baseCCRegIndex f)) val) (\<lambda>v.
     Inr (f\<lparr>ccRegFile := v\<rparr>)))"

section \<open>Free lists\<close>

definition SimpleFreeList_addReg :: "nat \<Rightarrow> nat list \<Rightarrow> nat list" where
  "SimpleFreeList_addReg reg freeRegs = freeRegs @ [reg]"

definition SimpleFreeList_getReg :: "nat list \<Rightarrow> (nat \<times> nat list) res" where
  "SimpleFreeList_getReg freeRegs = (case freeRegs of [] \<Rightarrow> Inl AssertFail | r # rs \<Rightarrow> Inr (r, rs))"

definition numFreeRegs :: "nat list \<Rightarrow> nat" where
  "numFreeRegs freeRegs = length freeRegs"

definition hasFreeRegs :: "nat list \<Rightarrow> bool" where
  "hasFreeRegs freeRegs \<longleftrightarrow> freeRegs \<noteq> []"

record free_list =
  intList :: "nat list"
  floatList :: "nat list"
  ccList :: "nat list"

definition getIntReg :: "free_list \<Rightarrow> (nat \<times> free_list) res" where
  "getIntReg l = bindE (SimpleFreeList_getReg (intList l)) (\<lambda>(r, rs). Inr (r, l\<lparr>intList := rs\<rparr>))"

definition getFloatReg :: "free_list \<Rightarrow> (nat \<times> free_list) res" where
  "getFloatReg l = bindE (SimpleFreeList_getReg (floatList l)) (\<lambda>(r, rs). Inr (r, l\<lparr>floatList := rs\<rparr>))"

definition getCCReg :: "free_list \<Rightarrow> (nat \<times> free_list) res" where
  "getCCReg l = bindE (SimpleFreeList_getReg (ccList l)) (\<lambda>(r, rs). Inr (r, l\<lparr>ccList := rs\<rparr>))"

definition addIntReg :: "nat \<Rightarrow> free_list \<Rightarrow> free_list" where
  "addIntReg freed_reg l = l\<lparr>intList := SimpleFreeList_addReg freed_reg (intList l)\<rparr>"

definition addFloatReg :: "nat \<Rightarrow> free_list \<Rightarrow> free_list" where
  "addFloatReg freed_reg l = l\<lparr>floatList := SimpleFreeList_addReg freed_reg (floatList l)\<rparr>"

definition addCCReg :: "nat \<Rightarrow> free_list \<Rightarrow> free_list" where
  "addCCReg freed_reg l = l\<lparr>ccList := SimpleFreeList_addReg freed_reg (ccList l)\<rparr>"

definition UnifiedFreeList_addReg :: "phys_reg_file \<Rightarrow> nat \<Rightarrow> free_list \<Rightarrow> free_list res" where
  "UnifiedFreeList_addReg f freed_reg l =
     (if isIntPhysReg f freed_reg then Inr (addIntReg freed_reg l)
      else if isFloatPhysReg f freed_reg then Inr (addFloatReg freed_reg l)
      else bindE (assertE (isCCPhysReg f freed_reg)) (\<lambda>_. Inr (addCCReg freed_reg l)))"

text \<open>The loops of \<open>initFreeList\<close>: add the registers from \<open>reg_idx\<close> below a bound.\<close>

function add_below :: "(nat \<Rightarrow> free_list \<Rightarrow> free_list) \<Rightarrow> nat \<Rightarrow> nat \<Rightarrow> free_list \<Rightarrow> nat \<times> free_list" where
  "add_below add bound reg_idx l =
     (if reg_idx < bound then add_below add bound (reg_idx + 1) (add reg_idx l) else (reg_idx, l))"
  by pat_completeness auto
termination by (relation "measure (\<lambda>(_, b, r, _). b - r)") auto

declare add_below.simps [simp del]

definition initFreeList :: "phys_reg_file \<Rightarrow> free_list \<Rightarrow> free_list" where
  "initFreeList f l =
     (let (r, l) = add_below addIntReg (baseFloatRegIndex f) 0 l;
          (r, l) = add_below addFloatReg (baseCCRegIndex f) r l;
          (r, l) = add_below addCCReg (totalNumRegs f) r l
      in l)"

definition UnifiedFreeList_new :: "phys_reg_file \<Rightarrow> free_list" where
  "UnifiedFreeList_new f = initFreeList f \<lparr>intList = [], floatList = [], ccList = []\<rparr>"

section \<open>Scoreboard\<close>

record scoreboard =
  regScoreBoard :: "bool list"
  numPhysRegs :: nat
  numTotalRegs :: nat
  zeroRegIdx :: nat
  fpZeroRegIdx :: nat

definition Scoreboard_new :: "nat \<Rightarrow> nat \<Rightarrow> nat \<Rightarrow> nat \<Rightarrow> scoreboard" where
  "Scoreboard_new numPhysicalRegs numMiscRegs zeroReg fpZeroReg =
     \<lparr>regScoreBoard = replicate numPhysicalRegs True, numPhysRegs = numPhysicalRegs,
      numTotalRegs = numPhysicalRegs + numMiscRegs, zeroRegIdx = zeroReg, fpZeroRegIdx = fpZeroReg\<rparr>"

definition isZeroReg :: "isa \<Rightarrow> scoreboard \<Rightarrow> nat \<Rightarrow> bool" where
  "isZeroReg I s idx \<longleftrightarrow> idx = zeroRegIdx s \<or> is_alpha I \<and> idx = fpZeroRegIdx s"

definition Scoreboard_getReg :: "isa \<Rightarrow> nat \<Rightarrow> scoreboard \<Rightarrow> bool res" where
  "Scoreboard_getReg I reg_idx s =
     bindE (assertE (reg_idx < numTotalRegs s)) (\<lambda>_.
     if reg_idx \<ge> numPhysRegs s then Inr True
     else bindE (rd (regScoreBoard s) (int reg_idx)) (\<lambda>ready.
       bindE (if isZeroReg I s reg_idx then assertE ready else Inr ()) (\<lambda>_. Inr ready)))"

definition Scoreboard_setReg :: "nat \<Rightarrow> scoreboard \<Rightarrow> scoreboard res" where
  "Scoreboard_setReg reg_idx s =
     bindE (assertE (reg_idx < numTotalRegs s)) (\<lambda>_.
     if reg_idx \<ge> numPhysRegs s then Inr s
     else bindE (wr (regScoreBoard s) (int reg_idx) True) (\<lambda>v. Inr (s\<lparr>regScoreBoard := v\<rparr>)))"

definition Scoreboard_unsetReg :: "isa \<Rightarrow> nat \<Rightarrow> scoreboard \<Rightarrow> scoreboard res" where
  "Scoreboard_unsetReg I reg_idx s =
     bindE (assertE (reg_idx < numTotalRegs s)) (\<lambda>_.
     if reg_idx \<ge> numPhysRegs s then Inr s
     else if isZeroReg I s reg_idx then Inr s
     else bindE (wr (regScoreBoard s) (int reg_idx) False) (\<lambda>v. Inr (s\<lparr>regScoreBoard := v\<rparr>)))"

section \<open>The classes seen uniformly\<close>

text \<open>Physical registers of a class, and the free list of a class.\<close>

definition phys_in :: "phys_reg_file \<Rightarrow> RegClass \<Rightarrow> nat \<Rightarrow> bool" where
  "phys_in f c p \<longleftrightarrow> (case c of IntRegClass \<Rightarrow> isIntPhysReg f p | FloatRegClass \<Rightarrow> isFloatPhysReg f p
     | CCRegClass \<Rightarrow> isCCPhysReg f p | MiscRegClass \<Rightarrow> totalNumRegs f \<le> p)"

definition list_of :: "RegClass \<Rightarrow> free_list \<Rightarrow> nat list" where
  "list_of c l = (case c of IntRegClass \<Rightarrow> intList l | FloatRegClass \<Rightarrow> floatList l
     | CCRegClass \<Rightarrow> ccList l | MiscRegClass \<Rightarrow> [])"

definition set_list :: "RegClass \<Rightarrow> nat list \<Rightarrow> free_list \<Rightarrow> free_list" where
  "set_list c xs l = (case c of IntRegClass \<Rightarrow> l\<lparr>intList := xs\<rparr> | FloatRegClass \<Rightarrow> l\<lparr>floatList := xs\<rparr>
     | CCRegClass \<Rightarrow> l\<lparr>ccList := xs\<rparr> | MiscRegClass \<Rightarrow> l)"

lemma list_of_set_list [simp]:
  "c \<noteq> MiscRegClass \<Longrightarrow> list_of d (set_list c xs l) = (if d = c then xs else list_of d l)"
  by (cases c; cases d) (simp_all add: list_of_def set_list_def)

definition rf_ok :: "phys_reg_file \<Rightarrow> bool" where
  "rf_ok f \<longleftrightarrow> baseFloatRegIndex f \<le> baseCCRegIndex f \<and> baseCCRegIndex f \<le> totalNumRegs f \<and>
     length (intRegFile f) = baseFloatRegIndex f \<and>
     length (floatRegFile f) = baseCCRegIndex f - baseFloatRegIndex f \<and>
     length (ccRegFile f) = totalNumRegs f - baseCCRegIndex f"

lemma rf_ok_new: "rf_ok (PhysRegFile_new i f c)"
  by (simp add: rf_ok_def PhysRegFile_new_def)

lemmas class_defs = phys_in_def isIntPhysReg_def isFloatPhysReg_def isCCPhysReg_def

lemma phys_in_unique: "\<lbrakk>rf_ok f; phys_in f c p; phys_in f d p\<rbrakk> \<Longrightarrow> c = d"
  by (cases c; cases d) (auto simp: class_defs rf_ok_def)

text \<open>Freeing a register of a class appends it to the list of the class.\<close>

lemma addReg_class:
  assumes "rf_ok f" "phys_in f c p" "c \<noteq> MiscRegClass"
  shows "UnifiedFreeList_addReg f p l = Inr (set_list c (list_of c l @ [p]) l)"
  using assms
  by (cases c) (auto simp: UnifiedFreeList_addReg_def addIntReg_def addFloatReg_def addCCReg_def
      SimpleFreeList_addReg_def set_list_def list_of_def class_defs rf_ok_def)

section \<open>The initial free lists\<close>

text \<open>The registers of a class in the order in which the free list is filled.\<close>

definition class_regs :: "phys_reg_file \<Rightarrow> RegClass \<Rightarrow> nat list" where
  "class_regs f c = (case c of IntRegClass \<Rightarrow> [0..<baseFloatRegIndex f]
     | FloatRegClass \<Rightarrow> [baseFloatRegIndex f..<baseCCRegIndex f]
     | CCRegClass \<Rightarrow> [baseCCRegIndex f..<totalNumRegs f] | MiscRegClass \<Rightarrow> [])"

lemma add_below_closed:
  assumes "\<And>r l. add r l = set_list c (list_of c l @ [r]) l" "c \<noteq> MiscRegClass"
  shows "add_below add b r l = (max r b, set_list c (list_of c l @ [r..<b]) l)"
proof (induction "b - r" arbitrary: r l)
  case 0
  then show ?case using assms(2) by (subst add_below.simps) (auto simp: max_def set_list_def list_of_def split: RegClass.splits)
next
  case (Suc n)
  then have "r < b" "n = b - (r + 1)" by auto
  have twice: "set_list c ys (set_list c xs l) = set_list c ys l" for xs ys
    by (cases c) (simp_all add: set_list_def)
  have "add_below add b r l = add_below add b (r + 1) (add r l)"
    using \<open>r < b\<close> by (subst add_below.simps) simp
  also have "\<dots> = (max (r + 1) b, set_list c (list_of c l @ [r] @ [r + 1..<b]) l)"
    using Suc.hyps(1) [OF \<open>n = b - (r + 1)\<close>] assms by (simp add: twice)
  also have "[r] @ [r + 1..<b] = [r..<b]" using \<open>r < b\<close> by (simp add: upt_conv_Cons)
  finally show ?case using \<open>r < b\<close> by simp
qed

lemma UnifiedFreeList_new_classes:
  assumes "rf_ok f"
  shows "list_of c (UnifiedFreeList_new f) = class_regs f c"
proof -
  have a: "addIntReg r l = set_list IntRegClass (list_of IntRegClass l @ [r]) l"
    "addFloatReg r l = set_list FloatRegClass (list_of FloatRegClass l @ [r]) l"
    "addCCReg r l = set_list CCRegClass (list_of CCRegClass l @ [r]) l" for r l
    by (simp_all add: addIntReg_def addFloatReg_def addCCReg_def SimpleFreeList_addReg_def
        set_list_def list_of_def)
  show ?thesis
    unfolding UnifiedFreeList_new_def initFreeList_def Let_def
    using assms
    by (simp add: add_below_closed [OF a(1)] add_below_closed [OF a(2)] add_below_closed [OF a(3)]
        max_absorb2 rf_ok_def)
      (cases c; simp add: list_of_def class_regs_def)
qed

end
