(* ===== verification/Rename_Map.thy ===== *)
theory Rename_Map
  imports Register_File
begin

text \<open>
  Register renaming of the out-of-order core: the rename maps (\<open>cpu/o3/rename_map.hh\<close>,
  \<open>rename_map.cc\<close>), the part of the rename stage that renames, undoes and retires mappings
  (\<open>rename_impl.hh\<close>), the commit stage's update of its map (\<open>commit_impl.hh\<close>) and the initial
  mapping and architectural register access of the core (\<open>cpu.cc\<close>). The flattening of register
  numbers by the thread context is an argument. Statistics and probe notifications are left out.
\<close>

section \<open>SimpleRenameMap\<close>

record simple_map =
  arch_map :: "nat list"
  zeroReg :: nat

definition SimpleRenameMap_init :: "nat \<Rightarrow> nat \<Rightarrow> simple_map" where
  "SimpleRenameMap_init n zero = \<lparr>arch_map = replicate n 0, zeroReg = zero\<rparr>"

definition SimpleRenameMap_rename ::
  "nat \<Rightarrow> simple_map \<Rightarrow> nat list \<Rightarrow> ((nat \<times> nat) \<times> simple_map \<times> nat list) res" where
  "SimpleRenameMap_rename arch_reg m freeList =
     bindE (rd (arch_map m) (int arch_reg)) (\<lambda>prev_reg.
     if arch_reg \<noteq> zeroReg m
     then bindE (SimpleFreeList_getReg freeList) (\<lambda>(renamed_reg, freeList).
       bindE (wr (arch_map m) (int arch_reg) renamed_reg) (\<lambda>v.
       Inr ((renamed_reg, prev_reg), m\<lparr>arch_map := v\<rparr>, freeList)))
     else bindE (assertE (prev_reg = zeroReg m)) (\<lambda>_. Inr ((zeroReg m, prev_reg), m, freeList)))"

definition SimpleRenameMap_lookup :: "nat \<Rightarrow> simple_map \<Rightarrow> nat res" where
  "SimpleRenameMap_lookup arch_reg m =
     bindE (assertE (arch_reg < length (arch_map m))) (\<lambda>_. rd (arch_map m) (int arch_reg))"

definition SimpleRenameMap_setEntry :: "nat \<Rightarrow> nat \<Rightarrow> simple_map \<Rightarrow> simple_map res" where
  "SimpleRenameMap_setEntry arch_reg phys_reg m =
     bindE (wr (arch_map m) (int arch_reg) phys_reg) (\<lambda>v. Inr (m\<lparr>arch_map := v\<rparr>))"

section \<open>UnifiedRenameMap\<close>

record rename_map =
  intMap :: simple_map
  floatMap :: simple_map
  ccMap :: simple_map

definition UnifiedRenameMap_init :: "isa \<Rightarrow> nat \<Rightarrow> nat \<Rightarrow> rename_map" where
  "UnifiedRenameMap_init I intZeroReg floatZeroReg =
     \<lparr>intMap = SimpleRenameMap_init (NumIntRegs I) intZeroReg,
      floatMap = SimpleRenameMap_init (NumFloatRegs I) floatZeroReg,
      ccMap = SimpleRenameMap_init (NumCCRegs I) 65535\<rparr>"

type_synonym rename_result = "((nat \<times> nat) \<times> rename_map \<times> free_list) res"

definition renameInt :: "phys_reg_file \<Rightarrow> nat \<Rightarrow> rename_map \<Rightarrow> free_list \<Rightarrow> rename_result" where
  "renameInt f rel_arch_reg m l =
     bindE (SimpleRenameMap_rename rel_arch_reg (intMap m) (intList l)) (\<lambda>(info, s, xs).
     bindE (assertE (isIntPhysReg f (fst info))) (\<lambda>_.
     Inr (info, m\<lparr>intMap := s\<rparr>, l\<lparr>intList := xs\<rparr>)))"

definition renameFloat :: "phys_reg_file \<Rightarrow> nat \<Rightarrow> rename_map \<Rightarrow> free_list \<Rightarrow> rename_result" where
  "renameFloat f rel_arch_reg m l =
     bindE (SimpleRenameMap_rename rel_arch_reg (floatMap m) (floatList l)) (\<lambda>(info, s, xs).
     bindE (assertE (isFloatPhysReg f (fst info))) (\<lambda>_.
     Inr (info, m\<lparr>floatMap := s\<rparr>, l\<lparr>floatList := xs\<rparr>)))"

definition renameCC :: "phys_reg_file \<Rightarrow> nat \<Rightarrow> rename_map \<Rightarrow> free_list \<Rightarrow> rename_result" where
  "renameCC f rel_arch_reg m l =
     bindE (SimpleRenameMap_rename rel_arch_reg (ccMap m) (ccList l)) (\<lambda>(info, s, xs).
     bindE (assertE (isCCPhysReg f (fst info))) (\<lambda>_.
     Inr (info, m\<lparr>ccMap := s\<rparr>, l\<lparr>ccList := xs\<rparr>)))"

definition lookupMisc :: "phys_reg_file \<Rightarrow> nat \<Rightarrow> nat" where
  "lookupMisc f rel_arch_reg = rel_arch_reg + totalNumRegs f"

definition renameMisc :: "phys_reg_file \<Rightarrow> nat \<Rightarrow> nat \<times> nat" where
  "renameMisc f rel_arch_reg = (let phys_reg = lookupMisc f rel_arch_reg in (phys_reg, phys_reg))"

definition UnifiedRenameMap_rename ::
  "isa \<Rightarrow> phys_reg_file \<Rightarrow> nat \<Rightarrow> rename_map \<Rightarrow> free_list \<Rightarrow> rename_result" where
  "UnifiedRenameMap_rename I f arch_reg m l =
     bindE (regIdxToClass I arch_reg) (\<lambda>(c, rel_arch_reg).
     case c of IntRegClass \<Rightarrow> renameInt f rel_arch_reg m l
     | FloatRegClass \<Rightarrow> renameFloat f rel_arch_reg m l
     | CCRegClass \<Rightarrow> renameCC f rel_arch_reg m l
     | MiscRegClass \<Rightarrow> Inr (renameMisc f rel_arch_reg, m, l))"

definition lookupInt :: "phys_reg_file \<Rightarrow> nat \<Rightarrow> rename_map \<Rightarrow> nat res" where
  "lookupInt f rel_arch_reg m =
     bindE (SimpleRenameMap_lookup rel_arch_reg (intMap m)) (\<lambda>phys_reg.
     bindE (assertE (isIntPhysReg f phys_reg)) (\<lambda>_. Inr phys_reg))"

definition lookupFloat :: "phys_reg_file \<Rightarrow> nat \<Rightarrow> rename_map \<Rightarrow> nat res" where
  "lookupFloat f rel_arch_reg m =
     bindE (SimpleRenameMap_lookup rel_arch_reg (floatMap m)) (\<lambda>phys_reg.
     bindE (assertE (isFloatPhysReg f phys_reg)) (\<lambda>_. Inr phys_reg))"

definition lookupCC :: "phys_reg_file \<Rightarrow> nat \<Rightarrow> rename_map \<Rightarrow> nat res" where
  "lookupCC f rel_arch_reg m =
     bindE (SimpleRenameMap_lookup rel_arch_reg (ccMap m)) (\<lambda>phys_reg.
     bindE (assertE (isCCPhysReg f phys_reg)) (\<lambda>_. Inr phys_reg))"

definition UnifiedRenameMap_lookup :: "isa \<Rightarrow> phys_reg_file \<Rightarrow> nat \<Rightarrow> rename_map \<Rightarrow> nat res" where
  "UnifiedRenameMap_lookup I f arch_reg m =
     bindE (regIdxToClass I arch_reg) (\<lambda>(c, rel_arch_reg).
     case c of IntRegClass \<Rightarrow> lookupInt f rel_arch_reg m
     | FloatRegClass \<Rightarrow> lookupFloat f rel_arch_reg m
     | CCRegClass \<Rightarrow> lookupCC f rel_arch_reg m
     | MiscRegClass \<Rightarrow> Inr (lookupMisc f rel_arch_reg))"

definition setIntEntry :: "phys_reg_file \<Rightarrow> nat \<Rightarrow> nat \<Rightarrow> rename_map \<Rightarrow> rename_map res" where
  "setIntEntry f arch_reg phys_reg m =
     bindE (assertE (isIntPhysReg f phys_reg)) (\<lambda>_.
     bindE (SimpleRenameMap_setEntry arch_reg phys_reg (intMap m)) (\<lambda>s. Inr (m\<lparr>intMap := s\<rparr>)))"

definition setFloatEntry :: "phys_reg_file \<Rightarrow> nat \<Rightarrow> nat \<Rightarrow> rename_map \<Rightarrow> rename_map res" where
  "setFloatEntry f arch_reg phys_reg m =
     bindE (assertE (isFloatPhysReg f phys_reg)) (\<lambda>_.
     bindE (SimpleRenameMap_setEntry arch_reg phys_reg (floatMap m)) (\<lambda>s. Inr (m\<lparr>floatMap := s\<rparr>)))"

definition setCCEntry :: "phys_reg_file \<Rightarrow> nat \<Rightarrow> nat \<Rightarrow> rename_map \<Rightarrow> rename_map res" where
  "setCCEntry f arch_reg phys_reg m =
     bindE (assertE (isCCPhysReg f phys_reg)) (\<lambda>_.
     bindE (SimpleRenameMap_setEntry arch_reg phys_reg (ccMap m)) (\<lambda>s. Inr (m\<lparr>ccMap := s\<rparr>)))"

definition UnifiedRenameMap_setEntry ::
  "isa \<Rightarrow> phys_reg_file \<Rightarrow> nat \<Rightarrow> nat \<Rightarrow> rename_map \<Rightarrow> rename_map res" where
  "UnifiedRenameMap_setEntry I f arch_reg phys_reg m =
     bindE (regIdxToClass I arch_reg) (\<lambda>(c, rel_arch_reg).
     case c of IntRegClass \<Rightarrow> setIntEntry f rel_arch_reg phys_reg m
     | FloatRegClass \<Rightarrow> setFloatEntry f rel_arch_reg phys_reg m
     | CCRegClass \<Rightarrow> setCCEntry f rel_arch_reg phys_reg m
     | MiscRegClass \<Rightarrow> bindE (assertE (phys_reg = lookupMisc f rel_arch_reg)) (\<lambda>_. Inr m))"

definition numFreeEntries :: "free_list \<Rightarrow> nat" where
  "numFreeEntries l = min (numFreeRegs (intList l)) (numFreeRegs (floatList l))"

definition canRename :: "nat \<Rightarrow> nat \<Rightarrow> nat \<Rightarrow> free_list \<Rightarrow> bool" where
  "canRename intRegs floatRegs ccRegs l \<longleftrightarrow>
     intRegs \<le> numFreeRegs (intList l) \<and> floatRegs \<le> numFreeRegs (floatList l) \<and>
     ccRegs \<le> numFreeRegs (ccList l)"

section \<open>The rename stage\<close>

record RenameHistory =
  instSeqNum :: nat
  archReg :: nat
  newPhysReg :: nat
  prevPhysReg :: nat

text \<open>The register fields of a dynamic instruction; the last five are filled in by renaming.\<close>

record reg_inst =
  seqNum :: nat
  srcRegIdx :: "nat list"
  destRegIdx :: "nat list"
  renamedSrcRegIdx :: "nat list"
  readySrcRegIdx :: "bool list"
  flattenedDestRegIdx :: "nat list"
  renamedDestRegIdx :: "nat list"
  prevDestRegIdx :: "nat list"

text \<open>Register state of the core: one rename map, commit map and history buffer per thread.\<close>

record o3_regs =
  regFile :: phys_reg_file
  freeList :: free_list
  scoreBoard :: scoreboard
  renameMap :: "rename_map list"
  commitRenameMap :: "rename_map list"
  historyBuffer :: "RenameHistory list list"

type_synonym flattening = "RegClass \<Rightarrow> nat \<Rightarrow> nat"

fun renameSrcRegs :: "isa \<Rightarrow> flattening \<Rightarrow> nat \<Rightarrow> o3_regs \<Rightarrow> nat list \<Rightarrow> reg_inst \<Rightarrow> reg_inst res" where
  "renameSrcRegs I flat tid g [] inst = Inr inst"
| "renameSrcRegs I flat tid g (src_reg # srcs) inst =
     bindE (rd (renameMap g) (int tid)) (\<lambda>m.
     bindE (regIdxToClass I src_reg) (\<lambda>(c, rel_src_reg).
     bindE (case c of
         IntRegClass \<Rightarrow> lookupInt (regFile g) (flat c rel_src_reg) m
       | FloatRegClass \<Rightarrow> lookupFloat (regFile g) (flat c rel_src_reg) m
       | CCRegClass \<Rightarrow> lookupCC (regFile g) (flat c rel_src_reg) m
       | MiscRegClass \<Rightarrow> Inr (lookupMisc (regFile g) rel_src_reg)) (\<lambda>renamed_reg.
     bindE (Scoreboard_getReg I renamed_reg (scoreBoard g)) (\<lambda>ready.
     renameSrcRegs I flat tid g srcs
       (inst\<lparr>renamedSrcRegIdx := renamedSrcRegIdx inst @ [renamed_reg],
             readySrcRegIdx := readySrcRegIdx inst @ [ready]\<rparr>)))))"

definition renameDestReg ::
  "isa \<Rightarrow> flattening \<Rightarrow> nat \<Rightarrow> nat \<Rightarrow> reg_inst \<Rightarrow> o3_regs \<Rightarrow> (reg_inst \<times> o3_regs) res" where
  "renameDestReg I flat tid dest_reg inst g =
     bindE (rd (renameMap g) (int tid)) (\<lambda>m.
     bindE (regIdxToClass I dest_reg) (\<lambda>(c, rel_dest_reg).
     let flat_rel = (case c of MiscRegClass \<Rightarrow> rel_dest_reg | _ \<Rightarrow> flat c rel_dest_reg)
     in bindE (case c of
         IntRegClass \<Rightarrow> renameInt (regFile g) flat_rel m (freeList g)
       | FloatRegClass \<Rightarrow> renameFloat (regFile g) flat_rel m (freeList g)
       | CCRegClass \<Rightarrow> renameCC (regFile g) flat_rel m (freeList g)
       | MiscRegClass \<Rightarrow> Inr (renameMisc (regFile g) flat_rel, m, freeList g)) (\<lambda>((new, prev), m, l).
     let flat_uni = (case c of
         IntRegClass \<Rightarrow> flat_rel
       | FloatRegClass \<Rightarrow> flat_rel + FP_Reg_Base I
       | CCRegClass \<Rightarrow> flat_rel + CC_Reg_Base I
       | MiscRegClass \<Rightarrow> flat_rel + Misc_Reg_Base I)
     in bindE (Scoreboard_unsetReg I new (scoreBoard g)) (\<lambda>s.
     bindE (rd (historyBuffer g) (int tid)) (\<lambda>hb.
     let h = \<lparr>instSeqNum = seqNum inst, archReg = flat_uni, newPhysReg = new, prevPhysReg = prev\<rparr>
     in Inr (inst\<lparr>flattenedDestRegIdx := flattenedDestRegIdx inst @ [flat_uni],
                  renamedDestRegIdx := renamedDestRegIdx inst @ [new],
                  prevDestRegIdx := prevDestRegIdx inst @ [prev]\<rparr>,
             g\<lparr>renameMap := (renameMap g)[tid := m], freeList := l, scoreBoard := s,
               historyBuffer := (historyBuffer g)[tid := h # hb]\<rparr>))))))"

fun renameDestRegs ::
  "isa \<Rightarrow> flattening \<Rightarrow> nat \<Rightarrow> nat list \<Rightarrow> reg_inst \<Rightarrow> o3_regs \<Rightarrow> (reg_inst \<times> o3_regs) res" where
  "renameDestRegs I flat tid [] inst g = Inr (inst, g)"
| "renameDestRegs I flat tid (dest_reg # dests) inst g =
     bindE (renameDestReg I flat tid dest_reg inst g) (\<lambda>(inst, g). renameDestRegs I flat tid dests inst g)"

text \<open>The loop of \<open>doSquash\<close> over the history, youngest first: the map, the free list, what is left.\<close>

fun squash_loop ::
  "isa \<Rightarrow> phys_reg_file \<Rightarrow> nat \<Rightarrow> RenameHistory list \<Rightarrow> rename_map \<Rightarrow> free_list \<Rightarrow>
   (RenameHistory list \<times> rename_map \<times> free_list) res" where
  "squash_loop I f squashed_seq_num [] m l = Inr ([], m, l)"
| "squash_loop I f squashed_seq_num (h # hs) m l =
     (if instSeqNum h > squashed_seq_num
      then bindE (if newPhysReg h \<noteq> prevPhysReg h
             then bindE (UnifiedRenameMap_setEntry I f (archReg h) (prevPhysReg h) m) (\<lambda>m.
               bindE (UnifiedFreeList_addReg f (newPhysReg h) l) (\<lambda>l. Inr (m, l)))
             else Inr (m, l)) (\<lambda>(m, l). squash_loop I f squashed_seq_num hs m l)
      else Inr (h # hs, m, l))"

definition doSquash :: "isa \<Rightarrow> nat \<Rightarrow> nat \<Rightarrow> o3_regs \<Rightarrow> o3_regs res" where
  "doSquash I squashed_seq_num tid g =
     bindE (rd (historyBuffer g) (int tid)) (\<lambda>hb.
     if hb = [] then Inr g
     else bindE (rd (renameMap g) (int tid)) (\<lambda>m.
       bindE (squash_loop I (regFile g) squashed_seq_num hb m (freeList g)) (\<lambda>(hb, m, l).
       Inr (g\<lparr>renameMap := (renameMap g)[tid := m], freeList := l,
              historyBuffer := (historyBuffer g)[tid := hb]\<rparr>))))"

text \<open>The loop of \<open>removeFromHistory\<close>; the history comes oldest first.\<close>

fun retire_loop ::
  "phys_reg_file \<Rightarrow> nat \<Rightarrow> RenameHistory list \<Rightarrow> free_list \<Rightarrow> (RenameHistory list \<times> free_list) res" where
  "retire_loop f inst_seq_num [] l = Inr ([], l)"
| "retire_loop f inst_seq_num (h # hs) l =
     (if instSeqNum h \<le> inst_seq_num
      then bindE (if newPhysReg h \<noteq> prevPhysReg h then UnifiedFreeList_addReg f (prevPhysReg h) l else Inr l)
             (\<lambda>l. retire_loop f inst_seq_num hs l)
      else Inr (h # hs, l))"

definition removeFromHistory :: "nat \<Rightarrow> nat \<Rightarrow> o3_regs \<Rightarrow> o3_regs res" where
  "removeFromHistory inst_seq_num tid g =
     bindE (rd (historyBuffer g) (int tid)) (\<lambda>hb.
     bindE (retire_loop (regFile g) inst_seq_num (rev hb) (freeList g)) (\<lambda>(hb, l).
     Inr (g\<lparr>freeList := l, historyBuffer := (historyBuffer g)[tid := rev hb]\<rparr>)))"

section \<open>Commit\<close>

fun commit_dests ::
  "isa \<Rightarrow> phys_reg_file \<Rightarrow> nat list \<Rightarrow> nat list \<Rightarrow> rename_map \<Rightarrow> rename_map res" where
  "commit_dests I f (a # as) (p # ps) m =
     bindE (UnifiedRenameMap_setEntry I f a p m) (commit_dests I f as ps)"
| "commit_dests I f _ _ m = Inr m"

definition updateCommitMap :: "isa \<Rightarrow> nat \<Rightarrow> reg_inst \<Rightarrow> o3_regs \<Rightarrow> o3_regs res" where
  "updateCommitMap I tid head_inst g =
     bindE (rd (commitRenameMap g) (int tid)) (\<lambda>m.
     bindE (commit_dests I (regFile g) (flattenedDestRegIdx head_inst) (renamedDestRegIdx head_inst) m) (\<lambda>m.
     Inr (g\<lparr>commitRenameMap := (commitRenameMap g)[tid := m]\<rparr>)))"

section \<open>The core\<close>

text \<open>The loop of the constructor that binds the registers of one class of a thread.\<close>

fun bind_regs ::
  "(free_list \<Rightarrow> (nat \<times> free_list) res) \<Rightarrow> (nat \<Rightarrow> nat \<Rightarrow> rename_map \<Rightarrow> rename_map res) \<Rightarrow> nat \<Rightarrow>
   nat list \<Rightarrow> o3_regs \<Rightarrow> o3_regs res" where
  "bind_regs get put tid [] g = Inr g"
| "bind_regs get put tid (ridx # rs) g =
     bindE (get (freeList g)) (\<lambda>(phys_reg, l).
     bindE (rd (renameMap g) (int tid)) (\<lambda>m.
     bindE (put ridx phys_reg m) (\<lambda>m.
     bindE (rd (commitRenameMap g) (int tid)) (\<lambda>c.
     bindE (put ridx phys_reg c) (\<lambda>c.
     bind_regs get put tid rs
       (g\<lparr>freeList := l, renameMap := (renameMap g)[tid := m],
          commitRenameMap := (commitRenameMap g)[tid := c]\<rparr>))))))"

definition bind_thread :: "isa \<Rightarrow> nat \<Rightarrow> o3_regs \<Rightarrow> o3_regs res" where
  "bind_thread I tid g =
     bindE (bind_regs getIntReg (setIntEntry (regFile g)) tid [0..<NumIntRegs I] g) (\<lambda>g.
     bindE (bind_regs getFloatReg (setFloatEntry (regFile g)) tid [0..<NumFloatRegs I] g) (\<lambda>g.
     bind_regs getCCReg (setCCEntry (regFile g)) tid [0..<NumCCRegs I] g))"

fun bind_threads :: "isa \<Rightarrow> nat list \<Rightarrow> o3_regs \<Rightarrow> o3_regs res" where
  "bind_threads I [] g = Inr g"
| "bind_threads I (tid # tids) g = bindE (bind_thread I tid g) (bind_threads I tids)"

definition FullO3CPU_new :: "isa \<Rightarrow> nat \<Rightarrow> nat \<Rightarrow> nat \<Rightarrow> nat \<Rightarrow> nat \<Rightarrow> o3_regs res" where
  "FullO3CPU_new I numPhysIntRegs numPhysFloatRegs numPhysCCRegs numThreads active_threads =
     (let f = PhysRegFile_new numPhysIntRegs numPhysFloatRegs numPhysCCRegs;
          invalidFPReg = NumFloatRegs I + 1;
          fpZeroReg = (if is_alpha I then ZeroReg I else invalidFPReg);
          m = UnifiedRenameMap_init I (ZeroReg I) fpZeroReg
      in bindE (assertE (numPhysIntRegs \<ge> numThreads * NumIntRegs I)) (\<lambda>_.
         bindE (assertE (numPhysFloatRegs \<ge> numThreads * NumFloatRegs I)) (\<lambda>_.
         bindE (assertE (numPhysCCRegs \<ge> numThreads * NumCCRegs I)) (\<lambda>_.
         bind_threads I [0..<active_threads]
           \<lparr>regFile = f, freeList = UnifiedFreeList_new f,
            scoreBoard = Scoreboard_new (totalNumRegs f) (NumMiscRegs I) (ZeroReg I) (ZeroReg I),
            renameMap = replicate numThreads m, commitRenameMap = replicate numThreads m,
            historyBuffer = replicate numThreads []\<rparr>))))"

definition readArchIntReg :: "nat \<Rightarrow> nat \<Rightarrow> o3_regs \<Rightarrow> u64 res" where
  "readArchIntReg reg_idx tid g =
     bindE (rd (commitRenameMap g) (int tid)) (\<lambda>m.
     bindE (lookupInt (regFile g) reg_idx m) (\<lambda>p. readIntReg p (regFile g)))"

definition readArchFloatRegInt :: "nat \<Rightarrow> nat \<Rightarrow> o3_regs \<Rightarrow> u64 res" where
  "readArchFloatRegInt reg_idx tid g =
     bindE (rd (commitRenameMap g) (int tid)) (\<lambda>m.
     bindE (lookupFloat (regFile g) reg_idx m) (\<lambda>p.
     bindE (readFloatRegBits p (regFile g)) (\<lambda>v. Inr (ucast v))))"

definition readArchCCReg :: "nat \<Rightarrow> nat \<Rightarrow> o3_regs \<Rightarrow> u64 res" where
  "readArchCCReg reg_idx tid g =
     bindE (rd (commitRenameMap g) (int tid)) (\<lambda>m.
     bindE (lookupCC (regFile g) reg_idx m) (\<lambda>p. readCCReg p (regFile g)))"

definition setArchIntReg :: "isa \<Rightarrow> nat \<Rightarrow> u64 \<Rightarrow> nat \<Rightarrow> o3_regs \<Rightarrow> o3_regs res" where
  "setArchIntReg I reg_idx val tid g =
     bindE (rd (commitRenameMap g) (int tid)) (\<lambda>m.
     bindE (lookupInt (regFile g) reg_idx m) (\<lambda>p.
     bindE (setIntReg I p val (regFile g)) (\<lambda>f. Inr (g\<lparr>regFile := f\<rparr>))))"

definition setArchFloatRegInt :: "nat \<Rightarrow> u64 \<Rightarrow> nat \<Rightarrow> o3_regs \<Rightarrow> o3_regs res" where
  "setArchFloatRegInt reg_idx val tid g =
     bindE (rd (commitRenameMap g) (int tid)) (\<lambda>m.
     bindE (lookupFloat (regFile g) reg_idx m) (\<lambda>p.
     bindE (setFloatRegBits p (ucast val) (regFile g)) (\<lambda>f. Inr (g\<lparr>regFile := f\<rparr>))))"

definition setArchCCReg :: "nat \<Rightarrow> u64 \<Rightarrow> nat \<Rightarrow> o3_regs \<Rightarrow> o3_regs res" where
  "setArchCCReg reg_idx val tid g =
     bindE (rd (commitRenameMap g) (int tid)) (\<lambda>m.
     bindE (lookupCC (regFile g) reg_idx m) (\<lambda>p.
     bindE (setCCReg p val (regFile g)) (\<lambda>f. Inr (g\<lparr>regFile := f\<rparr>))))"

end
