(* ===== verification/Rename_History.thy ===== *)
theory Rename_History
  imports Rename_Map
begin

text \<open>
  What renaming, undoing and retiring do to the maps and the free lists of one thread. The three
  classes of renamed registers are seen uniformly, the history of a thread is linked to its map,
  and every operation is shown to keep the registers a thread and the free lists hold together.
\<close>

section \<open>Uniform view of the rename maps\<close>

definition isa_ok :: "isa \<Rightarrow> bool" where
  "isa_ok I \<longleftrightarrow> NumIntRegs I \<le> FP_Reg_Base I \<and> CC_Reg_Base I = FP_Reg_Base I + NumFloatRegs I \<and>
     Misc_Reg_Base I = CC_Reg_Base I + NumCCRegs I \<and> Max_Reg_Index I = Misc_Reg_Base I + NumMiscRegs I \<and>
     ZeroReg I < NumIntRegs I \<and> NumCCRegs I \<le> 65535 \<and> \<not> is_alpha I"

definition num_regs :: "isa \<Rightarrow> RegClass \<Rightarrow> nat" where
  "num_regs I c = (case c of IntRegClass \<Rightarrow> NumIntRegs I | FloatRegClass \<Rightarrow> NumFloatRegs I
     | CCRegClass \<Rightarrow> NumCCRegs I | MiscRegClass \<Rightarrow> NumMiscRegs I)"

definition uni :: "isa \<Rightarrow> RegClass \<Rightarrow> nat \<Rightarrow> nat" where
  "uni I c r = (case c of IntRegClass \<Rightarrow> r | FloatRegClass \<Rightarrow> r + FP_Reg_Base I
     | CCRegClass \<Rightarrow> r + CC_Reg_Base I | MiscRegClass \<Rightarrow> r + Misc_Reg_Base I)"

lemma regIdxToClass_uni:
  "\<lbrakk>isa_ok I; r < num_regs I c\<rbrakk> \<Longrightarrow> regIdxToClass I (uni I c r) = Inr (c, r)"
  by (cases c) (auto simp: regIdxToClass_def uni_def num_regs_def isa_ok_def Let_def)

definition arch_of :: "RegClass \<Rightarrow> rename_map \<Rightarrow> nat list" where
  "arch_of c m = (case c of IntRegClass \<Rightarrow> arch_map (intMap m) | FloatRegClass \<Rightarrow> arch_map (floatMap m)
     | CCRegClass \<Rightarrow> arch_map (ccMap m) | MiscRegClass \<Rightarrow> [])"

definition set_map :: "RegClass \<Rightarrow> nat list \<Rightarrow> rename_map \<Rightarrow> rename_map" where
  "set_map c xs m = (case c of IntRegClass \<Rightarrow> m\<lparr>intMap := (intMap m)\<lparr>arch_map := xs\<rparr>\<rparr>
     | FloatRegClass \<Rightarrow> m\<lparr>floatMap := (floatMap m)\<lparr>arch_map := xs\<rparr>\<rparr>
     | CCRegClass \<Rightarrow> m\<lparr>ccMap := (ccMap m)\<lparr>arch_map := xs\<rparr>\<rparr> | MiscRegClass \<Rightarrow> m)"

definition zero_of :: "RegClass \<Rightarrow> rename_map \<Rightarrow> nat" where
  "zero_of c m = (case c of IntRegClass \<Rightarrow> zeroReg (intMap m) | FloatRegClass \<Rightarrow> zeroReg (floatMap m)
     | CCRegClass \<Rightarrow> zeroReg (ccMap m) | MiscRegClass \<Rightarrow> 0)"

lemma arch_of_set_map [simp]:
  "c \<noteq> MiscRegClass \<Longrightarrow> arch_of d (set_map c xs m) = (if d = c then xs else arch_of d m)"
  "zero_of d (set_map c xs m) = zero_of d m"
  by (cases c; cases d; simp add: arch_of_def set_map_def zero_of_def)+

lemma set_map_twice [simp]:
  "set_map c ys (set_map c xs m) = set_map c ys m" "set_map c (arch_of c m) m = m"
  by (cases c; simp add: arch_of_def set_map_def)+

abbreviation upd :: "RegClass \<Rightarrow> nat \<Rightarrow> nat \<Rightarrow> rename_map \<Rightarrow> rename_map" where
  "upd c r p m \<equiv> set_map c ((arch_of c m)[r := p]) m"

definition sized :: "isa \<Rightarrow> rename_map \<Rightarrow> bool" where
  "sized I m \<longleftrightarrow> (\<forall>c. c \<noteq> MiscRegClass \<longrightarrow> length (arch_of c m) = num_regs I c) \<and>
     zero_of IntRegClass m = ZeroReg I \<and> zero_of FloatRegClass m = NumFloatRegs I + 1 \<and>
     zero_of CCRegClass m = 65535"

lemma sized_upd [simp]: "sized I m \<Longrightarrow> sized I (upd c r p m)"
  by (cases "c = MiscRegClass") (auto simp: sized_def, simp_all add: set_map_def arch_of_def)

lemma setEntry_upd:
  assumes "isa_ok I" "sized I m" "c \<noteq> MiscRegClass" "r < num_regs I c" "phys_in f c p"
  shows "UnifiedRenameMap_setEntry I f (uni I c r) p m = Inr (upd c r p m)"
proof -
  have "r < length (arch_of c m)" using assms(2-4) by (simp add: sized_def)
  then show ?thesis
    using assms(3,5) regIdxToClass_uni [OF assms(1,4)]
    by (cases c) (auto simp: UnifiedRenameMap_setEntry_def setIntEntry_def setFloatEntry_def setCCEntry_def
        SimpleRenameMap_setEntry_def wr_of_nat phys_in_def arch_of_def set_map_def)
qed

lemma setEntry_misc:
  assumes "isa_ok I" "r < NumMiscRegs I"
  shows "UnifiedRenameMap_setEntry I f (uni I MiscRegClass r) (lookupMisc f r) m = Inr m"
  using regIdxToClass_uni [of I r MiscRegClass] assms
  by (simp add: UnifiedRenameMap_setEntry_def num_regs_def)

section \<open>History entries\<close>

text \<open>The class of an architectural register in the unified numbering, and its number there.\<close>

definition reg_of :: "isa \<Rightarrow> nat \<Rightarrow> RegClass \<times> nat" where
  "reg_of I a = (case regIdxToClass I a of Inr x \<Rightarrow> x | Inl _ \<Rightarrow> (MiscRegClass, 0))"

lemma reg_of_uni [simp]: "\<lbrakk>isa_ok I; r < num_regs I c\<rbrakk> \<Longrightarrow> reg_of I (uni I c r) = (c, r)"
  by (simp add: reg_of_def regIdxToClass_uni)

text \<open>
  An entry names registers of one class. Misc registers and the zero register keep their mapping.
\<close>

definition entry_ok :: "isa \<Rightarrow> phys_reg_file \<Rightarrow> RenameHistory \<Rightarrow> bool" where
  "entry_ok I f h \<longleftrightarrow> (\<exists>c r. archReg h = uni I c r \<and> r < num_regs I c \<and>
     (if c = MiscRegClass then newPhysReg h = lookupMisc f r \<and> prevPhysReg h = lookupMisc f r
      else phys_in f c (newPhysReg h) \<and> phys_in f c (prevPhysReg h)) \<and>
     (c = IntRegClass \<and> r = ZeroReg I \<longrightarrow> newPhysReg h = ZeroReg I \<and> prevPhysReg h = ZeroReg I))"

lemma entry_okE:
  assumes "entry_ok I f h" "isa_ok I"
  obtains c r where "archReg h = uni I c r" "r < num_regs I c" "reg_of I (archReg h) = (c, r)"
    "c \<noteq> MiscRegClass \<Longrightarrow> phys_in f c (newPhysReg h) \<and> phys_in f c (prevPhysReg h)"
    "c = MiscRegClass \<Longrightarrow> newPhysReg h = lookupMisc f r \<and> prevPhysReg h = lookupMisc f r"
    "c = IntRegClass \<and> r = ZeroReg I \<Longrightarrow> newPhysReg h = ZeroReg I \<and> prevPhysReg h = ZeroReg I"
proof -
  obtain c r where "archReg h = uni I c r" "r < num_regs I c"
    "if c = MiscRegClass then newPhysReg h = lookupMisc f r \<and> prevPhysReg h = lookupMisc f r
     else phys_in f c (newPhysReg h) \<and> phys_in f c (prevPhysReg h)"
    "c = IntRegClass \<and> r = ZeroReg I \<longrightarrow> newPhysReg h = ZeroReg I \<and> prevPhysReg h = ZeroReg I"
    using assms(1) unfolding entry_ok_def by blast
  with assms(2) show thesis by (intro that [of c r]) auto
qed

definition undo1 :: "isa \<Rightarrow> RenameHistory \<Rightarrow> rename_map \<Rightarrow> rename_map" where
  "undo1 I h m = (case reg_of I (archReg h) of (c, r) \<Rightarrow> upd c r (prevPhysReg h) m)"

definition redo1 :: "isa \<Rightarrow> RenameHistory \<Rightarrow> rename_map \<Rightarrow> rename_map" where
  "redo1 I h m = (case reg_of I (archReg h) of (c, r) \<Rightarrow> upd c r (newPhysReg h) m)"

definition linked :: "isa \<Rightarrow> RenameHistory \<Rightarrow> rename_map \<Rightarrow> bool" where
  "linked I h m \<longleftrightarrow> (case reg_of I (archReg h) of (c, r) \<Rightarrow>
     c \<noteq> MiscRegClass \<longrightarrow> arch_of c m ! r = newPhysReg h)"

text \<open>Undo entries youngest first, redo them oldest first.\<close>

fun undo :: "isa \<Rightarrow> RenameHistory list \<Rightarrow> rename_map \<Rightarrow> rename_map" where
  "undo I [] m = m"
| "undo I (h # hs) m = undo I hs (undo1 I h m)"

fun redo :: "isa \<Rightarrow> RenameHistory list \<Rightarrow> rename_map \<Rightarrow> rename_map" where
  "redo I [] m = m"
| "redo I (h # hs) m = redo I hs (redo1 I h m)"

fun hist_ok :: "isa \<Rightarrow> phys_reg_file \<Rightarrow> RenameHistory list \<Rightarrow> rename_map \<Rightarrow> bool" where
  "hist_ok I f [] m \<longleftrightarrow> True"
| "hist_ok I f (h # hs) m \<longleftrightarrow> entry_ok I f h \<and> linked I h m \<and> hist_ok I f hs (undo1 I h m)"

lemma undo_append: "undo I (xs @ ys) m = undo I ys (undo I xs m)"
  by (induction xs arbitrary: m) simp_all

lemma hist_ok_append: "hist_ok I f (xs @ ys) m \<longleftrightarrow> hist_ok I f xs m \<and> hist_ok I f ys (undo I xs m)"
  by (induction xs arbitrary: m) auto

lemma hist_ok_entry: "\<lbrakk>hist_ok I f hs m; h \<in> set hs\<rbrakk> \<Longrightarrow> entry_ok I f h"
  by (induction hs arbitrary: m) auto

lemma sized_undo [simp]: "sized I m \<Longrightarrow> sized I (undo I hs m)"
  by (induction hs arbitrary: m) (simp_all add: undo1_def split: prod.splits)

lemma sized_redo1 [simp]: "sized I m \<Longrightarrow> sized I (redo1 I h m)"
  by (simp add: redo1_def split: prod.splits)

lemma set_map_misc [simp]: "set_map MiscRegClass xs m = m"
  by (simp add: set_map_def)

lemma redo1_undo1:
  assumes "linked I h m"
  shows "redo1 I h (undo1 I h m) = m"
proof -
  obtain c r where c: "reg_of I (archReg h) = (c, r)" by fastforce
  show ?thesis
  proof (cases "c = MiscRegClass")
    case False
    with assms c have "(arch_of c m)[r := newPhysReg h] = arch_of c m"
      by (metis (mono_tags, lifting) linked_def list_update_id prod.case)
    with False c show ?thesis by (simp add: redo1_def undo1_def)
  qed (use c in \<open>simp add: redo1_def undo1_def\<close>)
qed

lemma redo_undo: "hist_ok I f (rev hs) m \<Longrightarrow> redo I hs (undo I (rev hs) m) = m"
proof (induction hs)
  case (Cons h hs)
  then show ?case by (simp add: undo_append hist_ok_append redo1_undo1)
qed simp

section \<open>Registers held\<close>

text \<open>The previous mappings of a class that a history keeps.\<close>

definition prevs :: "isa \<Rightarrow> RegClass \<Rightarrow> RenameHistory list \<Rightarrow> nat list" where
  "prevs I c hs = map prevPhysReg
     (filter (\<lambda>h. newPhysReg h \<noteq> prevPhysReg h \<and> fst (reg_of I (archReg h)) = c) hs)"

definition own :: "isa \<Rightarrow> RegClass \<Rightarrow> rename_map \<Rightarrow> RenameHistory list \<Rightarrow> nat multiset" where
  "own I c m hs = mset (arch_of c m) + mset (prevs I c hs)"

lemma prevs_Cons:
  "prevs I c (h # hs) = (if newPhysReg h \<noteq> prevPhysReg h \<and> fst (reg_of I (archReg h)) = c
     then prevPhysReg h # prevs I c hs else prevs I c hs)"
  by (simp add: prevs_def)

lemma mset_upd:
  "r < length xs \<Longrightarrow> add_mset (xs ! r) (mset (xs[r := p])) = add_mset p (mset xs)"
  by (simp add: mset_update)

text \<open>Undoing an entry gives up the register it allocated and nothing else.\<close>

lemma undo1_own:
  assumes "isa_ok I" "sized I m" "entry_ok I f h" "linked I h m" "c \<noteq> MiscRegClass"
  shows "own I c m (h # hs) = own I c (undo1 I h m) hs +
    (if newPhysReg h \<noteq> prevPhysReg h \<and> fst (reg_of I (archReg h)) = c then {#newPhysReg h#} else {#})"
proof -
  obtain d r where d: "archReg h = uni I d r" "r < num_regs I d" and reg: "reg_of I (archReg h) = (d, r)"
    using entry_okE [OF assms(3,1)] by blast
  show ?thesis
  proof (cases "d = MiscRegClass")
    case True
    with reg assms(5) show ?thesis by (auto simp: own_def undo1_def prevs_Cons)
  next
    case False
    then have r: "r < length (arch_of d m)" "arch_of d m ! r = newPhysReg h"
      using assms(2,4) d(2) reg by (simp_all add: sized_def linked_def)
    show ?thesis
    proof (cases "c = d")
      case True
      with r mset_upd [OF r(1), of "prevPhysReg h"] reg False show ?thesis
        by (auto simp: own_def undo1_def prevs_Cons)
    next
      case no: False
      then show ?thesis using reg False by (auto simp: own_def undo1_def prevs_Cons)
    qed
  qed
qed

lemma undo_own_subset:
  assumes "isa_ok I" "sized I m" "hist_ok I f (xs @ ys) m" "c \<noteq> MiscRegClass"
  shows "own I c (undo I xs m) ys \<subseteq># own I c m (xs @ ys)"
  using assms(2,3)
proof (induction xs arbitrary: m)
  case (Cons h xs)
  then have h: "entry_ok I f h" "linked I h m" "hist_ok I f (xs @ ys) (undo1 I h m)" by auto
  have "sized I (undo1 I h m)" using Cons.prems(1) sized_undo [of I m "[h]"] by simp
  from Cons.IH [OF this h(3)]
  have "own I c (undo I (h # xs) m) ys \<subseteq># own I c (undo1 I h m) (xs @ ys)" by simp
  also have "\<dots> \<subseteq># own I c m ((h # xs) @ ys)"
    using undo1_own [OF assms(1) Cons.prems(1) h(1,2) assms(4), of "xs @ ys"] by simp
  finally show ?case .
qed simp

section \<open>Squashing and retiring\<close>

lemma squash_loop_ok:
  assumes "isa_ok I" "rf_ok f" "sized I m" "hist_ok I f hs m"
  shows "\<exists>l'. squash_loop I f s hs m l =
      Inr (dropWhile (\<lambda>h. instSeqNum h > s) hs, undo I (takeWhile (\<lambda>h. instSeqNum h > s) hs) m, l') \<and>
    (\<forall>c. c \<noteq> MiscRegClass \<longrightarrow> mset (list_of c l') +
       own I c (undo I (takeWhile (\<lambda>h. instSeqNum h > s) hs) m) (dropWhile (\<lambda>h. instSeqNum h > s) hs) =
       mset (list_of c l) + own I c m hs)"
  using assms(3,4)
proof (induction hs arbitrary: m l)
  case (Cons h hs)
  show ?case
  proof (cases "instSeqNum h > s")
    case True
    from Cons.prems have h: "entry_ok I f h" "linked I h m" "hist_ok I f hs (undo1 I h m)" by auto
    obtain d r where d: "archReg h = uni I d r" "r < num_regs I d"
      "d \<noteq> MiscRegClass \<Longrightarrow> phys_in f d (newPhysReg h) \<and> phys_in f d (prevPhysReg h)"
      "d = MiscRegClass \<Longrightarrow> newPhysReg h = prevPhysReg h" and reg: "reg_of I (archReg h) = (d, r)"
      using entry_okE [OF h(1) assms(1)] by metis
    have sz: "sized I (undo1 I h m)" using Cons.prems(1) sized_undo [of I m "[h]"] by simp
    define l1 where "l1 = (if newPhysReg h \<noteq> prevPhysReg h then set_list d (list_of d l @ [newPhysReg h]) l else l)"
    have step: "(if newPhysReg h \<noteq> prevPhysReg h
             then bindE (UnifiedRenameMap_setEntry I f (archReg h) (prevPhysReg h) m) (\<lambda>m.
               bindE (UnifiedFreeList_addReg f (newPhysReg h) l) (\<lambda>l. Inr (m, l)))
             else Inr (m, l)) = Inr (undo1 I h m, l1)"
    proof (cases "newPhysReg h = prevPhysReg h")
      case same: True
      have "redo1 I h (undo1 I h m) = m" by (rule redo1_undo1 [OF h(2)])
      moreover have "redo1 I h (undo1 I h m) = undo1 I h m"
        using same reg by (cases "d = MiscRegClass") (simp_all add: redo1_def undo1_def)
      ultimately show ?thesis using same by (simp add: l1_def)
    next
      case False
      with d have "d \<noteq> MiscRegClass" by auto
      with False d reg show ?thesis
        using setEntry_upd [OF assms(1) Cons.prems(1), of d r f "prevPhysReg h"] addReg_class [OF assms(2), of d]
        by (simp add: undo1_def l1_def)
    qed
    have own1: "mset (list_of c l1) + own I c (undo1 I h m) hs = mset (list_of c l) + own I c m (h # hs)"
      if "c \<noteq> MiscRegClass" for c
      using undo1_own [OF assms(1) Cons.prems(1) h(1,2) that, of hs] d(4) that reg
      by (cases "newPhysReg h = prevPhysReg h"; cases "d = MiscRegClass") (auto simp: l1_def)
    obtain l' where l': "squash_loop I f s hs (undo1 I h m) l1 =
        Inr (dropWhile (\<lambda>h. instSeqNum h > s) hs, undo I (takeWhile (\<lambda>h. instSeqNum h > s) hs) (undo1 I h m), l')"
      "\<forall>c. c \<noteq> MiscRegClass \<longrightarrow> mset (list_of c l') +
       own I c (undo I (takeWhile (\<lambda>h. instSeqNum h > s) hs) (undo1 I h m)) (dropWhile (\<lambda>h. instSeqNum h > s) hs) =
       mset (list_of c l1) + own I c (undo1 I h m) hs"
      using Cons.IH [OF sz h(3), of l1] by blast
    have "squash_loop I f s (h # hs) m l = squash_loop I f s hs (undo1 I h m) l1"
      using True unfolding squash_loop.simps step by simp
    with l' own1 True show ?thesis by (intro exI [of _ l']) simp
  qed simp
qed simp

lemma retire_loop_ok:
  assumes "isa_ok I" "rf_ok f" "\<And>h. h \<in> set hs \<Longrightarrow> entry_ok I f h"
  shows "\<exists>l'. retire_loop f s hs l = Inr (dropWhile (\<lambda>h. instSeqNum h \<le> s) hs, l') \<and>
    (\<forall>c. c \<noteq> MiscRegClass \<longrightarrow> mset (list_of c l') + mset (prevs I c (dropWhile (\<lambda>h. instSeqNum h \<le> s) hs)) =
       mset (list_of c l) + mset (prevs I c hs))"
  using assms(3)
proof (induction hs arbitrary: l)
  case (Cons h hs)
  show ?case
  proof (cases "instSeqNum h \<le> s")
    case True
    obtain d r where d: "archReg h = uni I d r" "r < num_regs I d"
      "d \<noteq> MiscRegClass \<Longrightarrow> phys_in f d (prevPhysReg h)"
      "d = MiscRegClass \<Longrightarrow> newPhysReg h = prevPhysReg h" and reg: "reg_of I (archReg h) = (d, r)"
      using entry_okE [OF Cons.prems [of h] assms(1)] by (metis list.set_intros(1))
    define l1 where "l1 = (if newPhysReg h \<noteq> prevPhysReg h then set_list d (list_of d l @ [prevPhysReg h]) l else l)"
    have step: "(if newPhysReg h \<noteq> prevPhysReg h then UnifiedFreeList_addReg f (prevPhysReg h) l else Inr l) = Inr l1"
      using d addReg_class [OF assms(2), of d] by (auto simp: l1_def)
    have one: "mset (list_of c l1) + mset (prevs I c hs) = mset (list_of c l) + mset (prevs I c (h # hs))"
      if "c \<noteq> MiscRegClass" for c
      using d(4) that reg
      by (cases "newPhysReg h = prevPhysReg h"; cases "d = MiscRegClass") (auto simp: l1_def prevs_Cons)
    obtain l' where l': "retire_loop f s hs l1 = Inr (dropWhile (\<lambda>h. instSeqNum h \<le> s) hs, l')"
      "\<forall>c. c \<noteq> MiscRegClass \<longrightarrow> mset (list_of c l') + mset (prevs I c (dropWhile (\<lambda>h. instSeqNum h \<le> s) hs)) =
       mset (list_of c l1) + mset (prevs I c hs)"
      using Cons.IH [of l1] Cons.prems by auto
    have "retire_loop f s (h # hs) l = retire_loop f s hs l1"
      using True unfolding retire_loop.simps step by simp
    with l' one True show ?thesis by (intro exI [of _ l']) simp
  qed simp
qed simp

end
