(* ===== verification/Renaming.thy ===== *)
theory Renaming
  imports Rename_History
begin

text \<open>
  The operations of the rename and commit stages on the register state of the core, whose threads
  share the free lists. The invariant says that every physical register is in exactly one place:
  a free list, a rename map, or the history of a thread as a previous mapping. Every operation
  succeeds under it and keeps it.
\<close>

section \<open>Renaming one register\<close>

definition rename_class ::
  "RegClass \<Rightarrow> phys_reg_file \<Rightarrow> nat \<Rightarrow> rename_map \<Rightarrow> free_list \<Rightarrow> rename_result" where
  "rename_class c f r m l = (case c of IntRegClass \<Rightarrow> renameInt f r m l | FloatRegClass \<Rightarrow> renameFloat f r m l
     | CCRegClass \<Rightarrow> renameCC f r m l | MiscRegClass \<Rightarrow> Inr (renameMisc f r, m, l))"

definition lookup_class :: "RegClass \<Rightarrow> phys_reg_file \<Rightarrow> nat \<Rightarrow> rename_map \<Rightarrow> nat res" where
  "lookup_class c f r m = (case c of IntRegClass \<Rightarrow> lookupInt f r m | FloatRegClass \<Rightarrow> lookupFloat f r m
     | CCRegClass \<Rightarrow> lookupCC f r m | MiscRegClass \<Rightarrow> Inr (lookupMisc f r))"

lemma lookup_class_ok:
  assumes "sized I m" "c \<noteq> MiscRegClass" "r < num_regs I c" "\<And>p. p \<in> set (arch_of c m) \<Longrightarrow> phys_in f c p"
  shows "lookup_class c f r m = Inr (arch_of c m ! r)"
proof -
  have r: "r < length (arch_of c m)" using assms(1-3) by (simp add: sized_def)
  then have "phys_in f c (arch_of c m ! r)" using assms(4) nth_mem by blast
  with r assms(2) show ?thesis
    by (cases c) (simp_all add: lookup_class_def lookupInt_def lookupFloat_def lookupCC_def
        SimpleRenameMap_lookup_def rd_of_nat arch_of_def phys_in_def)
qed

lemma rename_class_ok:
  assumes "sized I m" "c \<noteq> MiscRegClass" "r < num_regs I c" "c = IntRegClass \<longrightarrow> r \<noteq> ZeroReg I"
    "isa_ok I" "list_of c l = p # ps" "phys_in f c p"
  shows "rename_class c f r m l = Inr ((p, arch_of c m ! r), upd c r p m, set_list c ps l)"
proof -
  have r: "r < length (arch_of c m)" using assms(1-3) by (simp add: sized_def)
  have "r \<noteq> zero_of c m" using assms(1-5) by (cases c) (auto simp: sized_def num_regs_def isa_ok_def)
  with r assms(2,6,7) show ?thesis
    by (cases c) (simp_all add: rename_class_def renameInt_def renameFloat_def renameCC_def
        SimpleRenameMap_rename_def SimpleFreeList_getReg_def rd_of_nat wr_of_nat arch_of_def set_map_def
        list_of_def set_list_def phys_in_def zero_of_def)
qed

lemma rename_zero_ok:
  assumes "sized I m" "isa_ok I" "arch_of IntRegClass m ! ZeroReg I = ZeroReg I" "phys_in f IntRegClass (ZeroReg I)"
  shows "rename_class IntRegClass f (ZeroReg I) m l = Inr ((ZeroReg I, ZeroReg I), m, l)"
proof -
  have z: "ZeroReg I < length (arch_of IntRegClass m)" "zero_of IntRegClass m = ZeroReg I"
    using assms(1,2) by (simp_all add: sized_def num_regs_def isa_ok_def)
  with assms(3,4) show ?thesis
    by (simp add: rename_class_def renameInt_def SimpleRenameMap_rename_def rd_of_nat arch_of_def
        phys_in_def zero_of_def)
qed

text \<open>One destination register, on a thread that shares the free lists with others.\<close>

definition sb_ok :: "isa \<Rightarrow> phys_reg_file \<Rightarrow> scoreboard \<Rightarrow> bool" where
  "sb_ok I f s \<longleftrightarrow> numPhysRegs s = totalNumRegs f \<and> numTotalRegs s = totalNumRegs f + NumMiscRegs I \<and>
     length (regScoreBoard s) = totalNumRegs f \<and> zeroRegIdx s = ZeroReg I \<and>
     (ZeroReg I < totalNumRegs f \<longrightarrow> regScoreBoard s ! ZeroReg I)"

lemma unsetReg_ok:
  assumes "sb_ok I f s" "p < totalNumRegs f + NumMiscRegs I" "isa_ok I"
  shows "\<exists>s'. Scoreboard_unsetReg I p s = Inr s' \<and> sb_ok I f s'"
  using assms by (auto simp: Scoreboard_unsetReg_def sb_ok_def isZeroReg_def isa_ok_def wr_of_nat)

lemma getReg_ok:
  assumes "sb_ok I f s" "p < totalNumRegs f + NumMiscRegs I" "isa_ok I"
  shows "\<exists>b. Scoreboard_getReg I p s = Inr b"
  using assms by (auto simp: Scoreboard_getReg_def sb_ok_def isZeroReg_def isa_ok_def rd_of_nat)

lemma phys_in_below: "\<lbrakk>rf_ok f; phys_in f c p; c \<noteq> MiscRegClass\<rbrakk> \<Longrightarrow> p < totalNumRegs f"
  by (cases c) (auto simp: class_defs rf_ok_def)

text \<open>What renaming a destination does to the map, the lists and the history of its thread.\<close>

definition renames :: "isa \<Rightarrow> phys_reg_file \<Rightarrow> RegClass \<Rightarrow> rename_map \<Rightarrow> free_list \<Rightarrow> RenameHistory \<Rightarrow>
    rename_map \<Rightarrow> free_list \<Rightarrow> bool" where
  "renames I f c m l h m' l' \<longleftrightarrow> sized I m' \<and> entry_ok I f h \<and> linked I h m' \<and> undo1 I h m' = m \<and>
     (\<forall>d hs. d \<noteq> MiscRegClass \<longrightarrow> mset (list_of d l') + own I d m' (h # hs) = mset (list_of d l) + own I d m hs) \<and>
     (\<forall>d. length (list_of d l) \<le> length (list_of d l') + (if d = c then 1 else 0))"

lemma rename_class_renames:
  assumes "isa_ok I" "rf_ok f" "sized I m" "r < num_regs I c"
    "c \<noteq> MiscRegClass \<Longrightarrow> list_of c l \<noteq> []"
    "\<And>d p. p \<in> set (arch_of d m) \<Longrightarrow> phys_in f d p"
    "\<And>d p. p \<in> set (list_of d l) \<Longrightarrow> phys_in f d p \<and> p \<notin> set (arch_of d m)"
    "c = IntRegClass \<and> r = ZeroReg I \<Longrightarrow> arch_of IntRegClass m ! ZeroReg I = ZeroReg I"
  shows "\<exists>p q m' l'. rename_class c f r m l = Inr ((p, q), m', l') \<and> p < totalNumRegs f + NumMiscRegs I \<and>
    renames I f c m l \<lparr>instSeqNum = n, archReg = uni I c r, newPhysReg = p, prevPhysReg = q\<rparr> m' l'"
proof -
  have reg: "reg_of I (uni I c r) = (c, r)" using assms(1,4) by simp
  consider (misc) "c = MiscRegClass" | (zero) "c = IntRegClass" "r = ZeroReg I"
    | (real) "c \<noteq> MiscRegClass" "c = IntRegClass \<longrightarrow> r \<noteq> ZeroReg I" by blast
  then show ?thesis
  proof cases
    case misc
    then show ?thesis using assms(1,3,4) reg
      by (auto simp: rename_class_def renameMisc_def Let_def renames_def entry_ok_def linked_def undo1_def
          own_def prevs_Cons lookupMisc_def num_regs_def)
  next
    case zero
    have "ZeroReg I \<in> set (arch_of IntRegClass m)"
      using assms(1,3,8) zero by (metis isa_ok_def nth_mem num_regs_def RegClass.distinct(5) RegClass.simps(13) sized_def)
    then have z: "phys_in f IntRegClass (ZeroReg I)" by (rule assms(6))
    have idm: "(arch_of IntRegClass m)[ZeroReg I := ZeroReg I] = arch_of IntRegClass m"
      using assms(8) zero by (metis list_update_id)
    show ?thesis
      using rename_zero_ok [OF assms(3,1) assms(8) z] phys_in_below [OF assms(2) z] zero z reg assms(1,3,4) idm
      by (auto simp: renames_def entry_ok_def linked_def undo1_def own_def prevs_Cons assms(8))
  next
    case real
    obtain p ps where l: "list_of c l = p # ps" using assms(5) [OF real(1)] by (cases "list_of c l") auto
    then have p: "phys_in f c p" "p \<notin> set (arch_of c m)" using assms(7) [of p c] by auto
    have r: "r < length (arch_of c m)" using assms(3,4) real by (simp add: sized_def)
    let ?q = "arch_of c m ! r"
    have q: "phys_in f c ?q" "p \<noteq> ?q" using assms(6) r p(2) nth_mem by blast+
    have "renames I f c m l \<lparr>instSeqNum = n, archReg = uni I c r, newPhysReg = p, prevPhysReg = ?q\<rparr>
        (upd c r p m) (set_list c ps l)"
      using assms(3,4) reg real p(1) q r l mset_upd [OF r, of p]
      by (auto simp: renames_def entry_ok_def linked_def undo1_def own_def prevs_Cons)
    with rename_class_ok [OF assms(3) real(1) assms(4) real(2) assms(1) l p(1)]
      phys_in_below [OF assms(2) p(1) real(1)]
    show ?thesis by fastforce
  qed
qed

text \<open>No entry changes the mapping of the zero register.\<close>

lemma zero_kept:
  assumes "isa_ok I" "entry_ok I f h" "linked I h m" "arch_of IntRegClass (undo1 I h m) ! ZeroReg I = ZeroReg I"
  shows "arch_of IntRegClass m ! ZeroReg I = ZeroReg I"
proof -
  obtain c r where c: "reg_of I (archReg h) = (c, r)"
    "c = IntRegClass \<and> r = ZeroReg I \<Longrightarrow> newPhysReg h = ZeroReg I"
    using entry_okE [OF assms(2,1)] by metis
  show ?thesis
  proof (cases "c = IntRegClass \<and> r = ZeroReg I")
    case True
    with assms(3) c show ?thesis by (simp add: linked_def)
  next
    case False
    with assms(4) c(1) show ?thesis
      by (cases "c = MiscRegClass"; cases "c = IntRegClass") (simp_all add: undo1_def)
  qed
qed

section \<open>Every register in one place\<close>

lemma sum_update:
  assumes "t < n" "length xs = n" "length ys = n"
  shows "(\<Sum>i<n. F (xs[t := x] ! i) (ys[t := y] ! i)) + F (xs ! t) (ys ! t) =
    (\<Sum>i<n. F (xs ! i) (ys ! i)) + (F x y :: 'a :: comm_monoid_add)"
proof -
  have "(\<Sum>i \<in> {..<n} - {t}. F (xs[t := x] ! i) (ys[t := y] ! i)) = (\<Sum>i \<in> {..<n} - {t}. F (xs ! i) (ys ! i))"
    by (rule sum.cong) auto
  then show ?thesis
    using assms sum.remove [of "{..<n}" t "\<lambda>i. F (xs[t := x] ! i) (ys[t := y] ! i)"]
      sum.remove [of "{..<n}" t "\<lambda>i. F (xs ! i) (ys ! i)"]
    by (simp add: ac_simps)
qed

lemma share_once:
  assumes "A + (\<Sum>i<n. F i) = mset xs" "distinct xs" "t < (n :: nat)"
  shows "x \<in># A \<Longrightarrow> x \<in> set xs \<and> x \<notin># F t" "x \<in># F t \<Longrightarrow> x \<in> set xs" "count (F t) x \<le> 1"
    "\<lbrakk>u < n; u \<noteq> t; x \<in># F t\<rbrakk> \<Longrightarrow> x \<notin># F u"
proof -
  have c: "count A x + (\<Sum>i<n. count (F i) x) = count (mset xs) x"
    using arg_cong [OF assms(1), of "\<lambda>M. count M x"] by (simp add: count_sum)
  have one: "count (mset xs) x \<le> 1" using assms(2) by (simp add: distinct_count_atmost_1)
  have t: "(\<Sum>i<n. count (F i) x) = count (F t) x + (\<Sum>i \<in> {..<n} - {t}. count (F i) x)"
    using assms(3) by (intro sum.remove) auto
  show "count (F t) x \<le> 1" using c one t by simp
  have pos: "x \<in> set xs \<longleftrightarrow> 0 < count (mset xs) x" by (metis count_greater_zero_iff set_mset_mset)
  show "x \<in># A \<Longrightarrow> x \<in> set xs \<and> x \<notin># F t"
    using c one t unfolding pos count_greater_zero_iff [symmetric] by linarith
  show "x \<in># F t \<Longrightarrow> x \<in> set xs"
    using c t unfolding pos count_greater_zero_iff [symmetric] by linarith
  show "x \<notin># F u" if "u < n" "u \<noteq> t" "x \<in># F t"
  proof -
    have "(\<Sum>i \<in> {..<n} - {t}. count (F i) x) = count (F u) x + (\<Sum>i \<in> {..<n} - {t} - {u}. count (F i) x)"
      using that by (intro sum.remove) auto
    with c one t that(3) show ?thesis unfolding count_greater_zero_iff [symmetric] by linarith
  qed
qed

lemma class_regs_phys: "p \<in> set (class_regs f c) \<Longrightarrow> phys_in f c p"
  by (cases c) (simp_all add: class_regs_def class_defs)

lemma distinct_class_regs [simp]: "distinct (class_regs f c)"
  by (cases c) (simp_all add: class_regs_def)

definition threads :: "o3_regs \<Rightarrow> nat" where
  "threads g = length (renameMap g)"

definition rinv :: "isa \<Rightarrow> o3_regs \<Rightarrow> bool" where
  "rinv I g \<longleftrightarrow> isa_ok I \<and> rf_ok (regFile g) \<and> sb_ok I (regFile g) (scoreBoard g) \<and>
     length (commitRenameMap g) = threads g \<and> length (historyBuffer g) = threads g \<and>
     (\<forall>t < threads g. sized I (renameMap g ! t) \<and> hist_ok I (regFile g) (historyBuffer g ! t) (renameMap g ! t)) \<and>
     (0 < threads g \<longrightarrow> arch_of IntRegClass (renameMap g ! 0) ! ZeroReg I = ZeroReg I) \<and>
     (\<forall>c. c \<noteq> MiscRegClass \<longrightarrow> mset (list_of c (freeList g)) +
        (\<Sum>t<threads g. own I c (renameMap g ! t) (historyBuffer g ! t)) = mset (class_regs (regFile g) c))"

lemma rinv_once:
  assumes "rinv I g" "t < threads g"
  shows "p \<in> set (list_of c (freeList g)) \<Longrightarrow>
      phys_in (regFile g) c p \<and> p \<notin># own I c (renameMap g ! t) (historyBuffer g ! t)"
    "p \<in># own I c (renameMap g ! t) (historyBuffer g ! t) \<Longrightarrow> c \<noteq> MiscRegClass \<Longrightarrow> phys_in (regFile g) c p"
    "c \<noteq> MiscRegClass \<Longrightarrow> count (own I c (renameMap g ! t) (historyBuffer g ! t)) p \<le> 1"
    "\<lbrakk>c \<noteq> MiscRegClass; u < threads g; u \<noteq> t; p \<in># own I c (renameMap g ! t) (historyBuffer g ! t)\<rbrakk> \<Longrightarrow>
      p \<notin># own I c (renameMap g ! u) (historyBuffer g ! u)"
proof -
  have m: "c \<noteq> MiscRegClass \<Longrightarrow> mset (list_of c (freeList g)) +
        (\<Sum>t<threads g. own I c (renameMap g ! t) (historyBuffer g ! t)) = mset (class_regs (regFile g) c)"
    using assms(1) by (simp add: rinv_def)
  note s = share_once [OF m distinct_class_regs assms(2)]
  show "p \<in> set (list_of c (freeList g)) \<Longrightarrow>
      phys_in (regFile g) c p \<and> p \<notin># own I c (renameMap g ! t) (historyBuffer g ! t)"
    using s(1) [of p] class_regs_phys by (cases "c = MiscRegClass") (auto simp: list_of_def)
  show "p \<in># own I c (renameMap g ! t) (historyBuffer g ! t) \<Longrightarrow> c \<noteq> MiscRegClass \<Longrightarrow> phys_in (regFile g) c p"
    using s(2) [of p] class_regs_phys by auto
  show "c \<noteq> MiscRegClass \<Longrightarrow> count (own I c (renameMap g ! t) (historyBuffer g ! t)) p \<le> 1"
    by (rule s(3))
  show "\<lbrakk>c \<noteq> MiscRegClass; u < threads g; u \<noteq> t; p \<in># own I c (renameMap g ! t) (historyBuffer g ! t)\<rbrakk> \<Longrightarrow>
      p \<notin># own I c (renameMap g ! u) (historyBuffer g ! u)"
    by (rule s(4))
qed

lemma map_typed:
  assumes "rinv I g" "t < threads g" "p \<in> set (arch_of c (renameMap g ! t))"
  shows "phys_in (regFile g) c p"
proof (cases "c = MiscRegClass")
  case False
  with assms(3) show ?thesis by (intro rinv_once(2) [OF assms(1,2)]) (simp_all add: own_def)
qed (use assms(3) in \<open>simp add: arch_of_def\<close>)

text \<open>A change of one thread that moves registers between the thread and the free lists.\<close>

lemma rinv_thread:
  assumes "rinv I g" "t < threads g" "sized I m" "hist_ok I (regFile g) hs m" "sb_ok I (regFile g) s"
    "\<And>c. c \<noteq> MiscRegClass \<Longrightarrow> mset (list_of c l) + own I c m hs =
       mset (list_of c (freeList g)) + own I c (renameMap g ! t) (historyBuffer g ! t)"
    "t = 0 \<Longrightarrow> arch_of IntRegClass m ! ZeroReg I = ZeroReg I"
  shows "rinv I (g\<lparr>renameMap := (renameMap g)[t := m], freeList := l, scoreBoard := s,
    historyBuffer := (historyBuffer g)[t := hs]\<rparr>)"
proof -
  have len: "length (renameMap g) = threads g" "length (historyBuffer g) = threads g"
    using assms(1) by (simp_all add: rinv_def threads_def)
  have "mset (list_of c l) + (\<Sum>i<threads g. own I c ((renameMap g)[t := m] ! i) ((historyBuffer g)[t := hs] ! i)) =
      mset (class_regs (regFile g) c)" if c: "c \<noteq> MiscRegClass" for c
  proof -
    let ?o = "own I c (renameMap g ! t) (historyBuffer g ! t)"
    have "mset (list_of c l) + (\<Sum>i<threads g. own I c ((renameMap g)[t := m] ! i) ((historyBuffer g)[t := hs] ! i)) + ?o
        = (mset (list_of c l) + own I c m hs) + (\<Sum>i<threads g. own I c (renameMap g ! i) (historyBuffer g ! i))"
      using sum_update [OF assms(2) len, of "own I c" m hs] by (simp add: ac_simps)
    also have "\<dots> = mset (class_regs (regFile g) c) + ?o"
      using assms(1) c unfolding assms(6) [OF c] by (simp add: rinv_def ac_simps)
    finally show ?thesis by simp
  qed
  moreover have "arch_of IntRegClass ((renameMap g)[t := m] ! 0) ! ZeroReg I = ZeroReg I" if "0 < threads g"
    using assms(1,7) that len(1) by (cases "t = 0") (simp_all add: rinv_def)
  moreover have "sized I ((renameMap g)[t := m] ! u) \<and>
      hist_ok I (regFile g) ((historyBuffer g)[t := hs] ! u) ((renameMap g)[t := m] ! u)" if "u < threads g" for u
    using assms(1-4) len that by (cases "u = t") (simp_all add: rinv_def)
  moreover have "threads (g\<lparr>renameMap := (renameMap g)[t := m], freeList := l, scoreBoard := s,
      historyBuffer := (historyBuffer g)[t := hs]\<rparr>) = threads g" by (simp add: threads_def)
  ultimately show ?thesis using assms(1,5) unfolding rinv_def by simp
qed

section \<open>Renaming an instruction\<close>

text \<open>The register an operand names after flattening.\<close>

definition flat_reg :: "isa \<Rightarrow> flattening \<Rightarrow> nat \<Rightarrow> RegClass \<times> nat" where
  "flat_reg I flat a = (case reg_of I a of (c, r) \<Rightarrow> (c, if c = MiscRegClass then r else flat c r))"

definition operand_ok :: "isa \<Rightarrow> flattening \<Rightarrow> nat \<Rightarrow> bool" where
  "operand_ok I flat a \<longleftrightarrow> a < Max_Reg_Index I \<and>
     (case flat_reg I flat a of (c, r) \<Rightarrow> r < num_regs I c)"

text \<open>Destinations: the zero register of a thread other than 0 is not physical register 0 (see below).\<close>

definition dest_ok :: "isa \<Rightarrow> flattening \<Rightarrow> nat \<Rightarrow> nat \<Rightarrow> bool" where
  "dest_ok I flat t a \<longleftrightarrow> operand_ok I flat a \<and> (t \<noteq> 0 \<longrightarrow> flat_reg I flat a \<noteq> (IntRegClass, ZeroReg I))"

lemma regIdxToClass_reg_of: "a < Max_Reg_Index I \<Longrightarrow> regIdxToClass I a = Inr (reg_of I a)"
  by (simp add: reg_of_def regIdxToClass_def Let_def)

definition record_dest :: "RenameHistory \<Rightarrow> reg_inst \<Rightarrow> reg_inst" where
  "record_dest h inst = inst\<lparr>flattenedDestRegIdx := flattenedDestRegIdx inst @ [archReg h],
     renamedDestRegIdx := renamedDestRegIdx inst @ [newPhysReg h],
     prevDestRegIdx := prevDestRegIdx inst @ [prevPhysReg h]\<rparr>"

lemma renameDestReg_class:
  assumes "t < threads g" "a < Max_Reg_Index I" "flat_reg I flat a = (c, r)"
    "rename_class c (regFile g) r (renameMap g ! t) (freeList g) = Inr ((new, prev), m, l)"
    "Scoreboard_unsetReg I new (scoreBoard g) = Inr s" "length (historyBuffer g) = threads g"
  shows "renameDestReg I flat t a inst g =
    (let h = \<lparr>instSeqNum = seqNum inst, archReg = uni I c r, newPhysReg = new, prevPhysReg = prev\<rparr>
     in Inr (record_dest h inst, g\<lparr>renameMap := (renameMap g)[t := m], freeList := l, scoreBoard := s,
       historyBuffer := (historyBuffer g)[t := h # historyBuffer g ! t]\<rparr>))"
proof -
  obtain x where x: "reg_of I a = (c, x)" "r = (if c = MiscRegClass then x else flat c x)"
    using assms(3) by (auto simp: flat_reg_def split: prod.splits)
  have "rd (renameMap g) (int t) = Inr (renameMap g ! t)" "rd (historyBuffer g) (int t) = Inr (historyBuffer g ! t)"
    using assms(1,6) by (simp_all add: rd_of_nat threads_def)
  with assms(2,4,5) x show ?thesis
    by (cases c) (simp_all add: renameDestReg_def regIdxToClass_reg_of rename_class_def record_dest_def uni_def Let_def)
qed

definition num_dest :: "isa \<Rightarrow> RegClass \<Rightarrow> nat list \<Rightarrow> nat" where
  "num_dest I c ds = length (filter (\<lambda>d. fst (reg_of I d) = c) ds)"

text \<open>The state after history entries \<open>hs\<close>, youngest first, have been added to a thread.\<close>

definition extends :: "isa \<Rightarrow> nat \<Rightarrow> RenameHistory list \<Rightarrow> o3_regs \<Rightarrow> o3_regs \<Rightarrow> bool" where
  "extends I t hs g g' \<longleftrightarrow> rinv I g' \<and> regFile g' = regFile g \<and> commitRenameMap g' = commitRenameMap g \<and>
     threads g' = threads g \<and> historyBuffer g' = (historyBuffer g)[t := hs @ historyBuffer g ! t] \<and>
     (\<forall>u. u \<noteq> t \<longrightarrow> renameMap g' ! u = renameMap g ! u) \<and> undo I hs (renameMap g' ! t) = renameMap g ! t"

lemma renameDestReg_ok:
  assumes "rinv I g" "t < threads g" "dest_ok I flat t a"
    "fst (reg_of I a) \<noteq> MiscRegClass \<Longrightarrow> list_of (fst (reg_of I a)) (freeList g) \<noteq> []"
  shows "\<exists>h g'. renameDestReg I flat t a inst g = Inr (record_dest h inst, g') \<and> instSeqNum h = seqNum inst \<and>
    extends I t [h] g g' \<and> (\<forall>d. length (list_of d (freeList g)) \<le>
      length (list_of d (freeList g')) + (if d = fst (reg_of I a) then 1 else 0))"
proof -
  have inv: "isa_ok I" "rf_ok (regFile g)" "sb_ok I (regFile g) (scoreBoard g)" "sized I (renameMap g ! t)"
    "hist_ok I (regFile g) (historyBuffer g ! t) (renameMap g ! t)" "length (historyBuffer g) = threads g"
    "t = 0 \<Longrightarrow> arch_of IntRegClass (renameMap g ! t) ! ZeroReg I = ZeroReg I"
    using assms(1,2) by (simp_all add: rinv_def)
  obtain c r where cr: "flat_reg I flat a = (c, r)" "r < num_regs I c" "a < Max_Reg_Index I"
    "c = IntRegClass \<and> r = ZeroReg I \<Longrightarrow> t = 0"
    using assms(3) by (auto simp: dest_ok_def operand_ok_def split: prod.splits)
  then have c: "c = fst (reg_of I a)" by (auto simp: flat_reg_def split: prod.splits)
  have free: "p \<in> set (list_of d (freeList g)) \<Longrightarrow> phys_in (regFile g) d p \<and> p \<notin> set (arch_of d (renameMap g ! t))"
    for d p using rinv_once(1) [OF assms(1,2), of p d] by (simp add: own_def)
  obtain p q m l where rn: "rename_class c (regFile g) r (renameMap g ! t) (freeList g) = Inr ((p, q), m, l)"
    "p < totalNumRegs (regFile g) + NumMiscRegs I" and h: "renames I (regFile g) c (renameMap g ! t) (freeList g)
      \<lparr>instSeqNum = seqNum inst, archReg = uni I c r, newPhysReg = p, prevPhysReg = q\<rparr> m l"
  proof -
    have "\<exists>p q m l. rename_class c (regFile g) r (renameMap g ! t) (freeList g) = Inr ((p, q), m, l) \<and>
      p < totalNumRegs (regFile g) + NumMiscRegs I \<and> renames I (regFile g) c (renameMap g ! t) (freeList g)
      \<lparr>instSeqNum = seqNum inst, archReg = uni I c r, newPhysReg = p, prevPhysReg = q\<rparr> m l"
      using assms(4) c free inv(7) cr(4) map_typed [OF assms(1,2)]
      by (intro rename_class_renames [OF inv(1,2,4) cr(2)]) simp_all
    then show thesis using that by blast
  qed
  obtain s where s: "Scoreboard_unsetReg I p (scoreBoard g) = Inr s" "sb_ok I (regFile g) s"
    using unsetReg_ok [OF inv(3) rn(2) inv(1)] by blast
  let ?h = "\<lparr>instSeqNum = seqNum inst, archReg = uni I c r, newPhysReg = p, prevPhysReg = q\<rparr>"
  let ?g = "g\<lparr>renameMap := (renameMap g)[t := m], freeList := l, scoreBoard := s,
       historyBuffer := (historyBuffer g)[t := ?h # historyBuffer g ! t]\<rparr>"
  have z: "arch_of IntRegClass m ! ZeroReg I = ZeroReg I" if "t = 0"
    by (rule zero_kept [OF inv(1), of "regFile g" ?h]) (use h inv(7) [OF that] in \<open>simp_all add: renames_def\<close>)
  have "rinv I ?g"
    using h inv(5) z by (intro rinv_thread [OF assms(1,2) _ _ s(2)]) (simp_all add: renames_def)
  then have "extends I t [?h] g ?g"
    using h assms(2) by (simp add: extends_def threads_def renames_def)
  moreover have "renameDestReg I flat t a inst g = Inr (record_dest ?h inst, ?g)"
    using renameDestReg_class [OF assms(2) cr(3,1) rn(1) s(1) inv(6)] by (simp add: Let_def)
  ultimately show ?thesis
    using h c by (intro exI [of _ ?h] exI [of _ ?g]) (simp add: renames_def)
qed

lemma extends_trans:
  assumes "t < threads g" "length (historyBuffer g) = threads g" "extends I t xs g g1" "extends I t ys g1 g2"
  shows "extends I t (ys @ xs) g g2"
proof -
  have "historyBuffer g1 ! t = xs @ historyBuffer g ! t" using assms(1-3) by (simp add: extends_def)
  with assms(3,4) show ?thesis by (simp add: extends_def undo_append)
qed

text \<open>All destinations of an instruction; \<open>es\<close> are the entries in the order of the operands.\<close>

definition record_dests :: "RenameHistory list \<Rightarrow> reg_inst \<Rightarrow> reg_inst" where
  "record_dests es inst = inst\<lparr>flattenedDestRegIdx := flattenedDestRegIdx inst @ map archReg es,
     renamedDestRegIdx := renamedDestRegIdx inst @ map newPhysReg es,
     prevDestRegIdx := prevDestRegIdx inst @ map prevPhysReg es\<rparr>"

lemma renameDestRegs_ok:
  assumes "rinv I g" "t < threads g" "\<And>a. a \<in> set ds \<Longrightarrow> dest_ok I flat t a"
    "\<And>c. c \<noteq> MiscRegClass \<Longrightarrow> num_dest I c ds \<le> length (list_of c (freeList g))"
  shows "\<exists>es g'. renameDestRegs I flat t ds inst g = Inr (record_dests es inst, g') \<and>
    (\<forall>h \<in> set es. instSeqNum h = seqNum inst) \<and> extends I t (rev es) g g'"
  using assms
proof (induction ds arbitrary: inst g)
  case Nil
  then show ?case by (intro exI [of _ "[]"] exI [of _ g]) (simp add: record_dests_def extends_def)
next
  case (Cons a ds)
  have len: "length (historyBuffer g) = threads g" using Cons.prems(1) by (simp add: rinv_def)
  have "fst (reg_of I a) \<noteq> MiscRegClass \<Longrightarrow> list_of (fst (reg_of I a)) (freeList g) \<noteq> []"
    using Cons.prems(4) [of "fst (reg_of I a)"] by (auto simp: num_dest_def)
  then obtain h g1 where h: "renameDestReg I flat t a inst g = Inr (record_dest h inst, g1)"
    "instSeqNum h = seqNum inst" "extends I t [h] g g1"
    "\<forall>d. length (list_of d (freeList g)) \<le> length (list_of d (freeList g1)) + (if d = fst (reg_of I a) then 1 else 0)"
    using renameDestReg_ok [OF Cons.prems(1,2) Cons.prems(3) [of a], of inst] by auto
  have "num_dest I c ds \<le> length (list_of c (freeList g1))" if "c \<noteq> MiscRegClass" for c
    using Cons.prems(4) [OF that] h(4) [rule_format, of c] by (auto simp: num_dest_def split: if_splits)
  then obtain es g2 where es: "renameDestRegs I flat t ds (record_dest h inst) g1 =
      Inr (record_dests es (record_dest h inst), g2)"
    "\<forall>h' \<in> set es. instSeqNum h' = seqNum (record_dest h inst)" "extends I t (rev es) g1 g2"
    using Cons.IH [of g1 "record_dest h inst"] Cons.prems(2,3) h(3) by (auto simp: extends_def)
  have "record_dests es (record_dest h inst) = record_dests (h # es) inst" "seqNum (record_dest h inst) = seqNum inst"
    by (simp_all add: record_dests_def record_dest_def)
  with h(1,2) es extends_trans [OF Cons.prems(2) len h(3) es(3)] show ?case
    by (intro exI [of _ "h # es"] exI [of _ g2]) simp
qed

lemma renameSrcRegs_ok:
  assumes "rinv I g" "t < threads g" "\<And>a. a \<in> set srcs \<Longrightarrow> operand_ok I flat a"
  shows "\<exists>ps bs. renameSrcRegs I flat t g srcs inst = Inr (inst\<lparr>renamedSrcRegIdx := renamedSrcRegIdx inst @ ps,
      readySrcRegIdx := readySrcRegIdx inst @ bs\<rparr>) \<and>
    (\<forall>p \<in> set ps. totalNumRegs (regFile g) \<le> p \<or> (\<exists>c. c \<noteq> MiscRegClass \<and> p \<in> set (arch_of c (renameMap g ! t))))"
  using assms(3)
proof (induction srcs arbitrary: inst)
  case (Cons a srcs)
  have inv: "isa_ok I" "rf_ok (regFile g)" "sb_ok I (regFile g) (scoreBoard g)" "sized I (renameMap g ! t)"
    using assms(1,2) by (simp_all add: rinv_def)
  obtain c x where x: "reg_of I a = (c, x)" by fastforce
  define r where "r = (if c = MiscRegClass then x else flat c x)"
  have r: "a < Max_Reg_Index I" "r < num_regs I c"
    using Cons.prems [of a] x by (auto simp: operand_ok_def flat_reg_def r_def)
  define p where "p = (if c = MiscRegClass then lookupMisc (regFile g) r else arch_of c (renameMap g ! t) ! r)"
  have p: "lookup_class c (regFile g) r (renameMap g ! t) = Inr p"
    using lookup_class_ok [OF inv(4) _ r(2) map_typed [OF assms(1,2)]] by (auto simp: p_def lookup_class_def)
  have mem: "c \<noteq> MiscRegClass \<Longrightarrow> p \<in> set (arch_of c (renameMap g ! t))"
    using r(2) inv(4) by (auto simp: p_def sized_def)
  have "p < totalNumRegs (regFile g) + NumMiscRegs I"
  proof (cases "c = MiscRegClass")
    case True
    with r(2) show ?thesis by (simp add: p_def lookupMisc_def num_regs_def)
  next
    case False
    with phys_in_below [OF inv(2) map_typed [OF assms(1,2) mem]] show ?thesis by simp
  qed
  then obtain b where b: "Scoreboard_getReg I p (scoreBoard g) = Inr b" using getReg_ok [OF inv(3) _ inv(1)] by blast
  have step: "renameSrcRegs I flat t g (a # srcs) inst = renameSrcRegs I flat t g srcs
      (inst\<lparr>renamedSrcRegIdx := renamedSrcRegIdx inst @ [p], readySrcRegIdx := readySrcRegIdx inst @ [b]\<rparr>)"
    using p b x r(1) assms(2)
    by (cases c) (simp_all add: regIdxToClass_reg_of rd_of_nat threads_def lookup_class_def r_def)
  obtain ps bs where ps: "renameSrcRegs I flat t g srcs
      (inst\<lparr>renamedSrcRegIdx := renamedSrcRegIdx inst @ [p], readySrcRegIdx := readySrcRegIdx inst @ [b]\<rparr>) =
      Inr (inst\<lparr>renamedSrcRegIdx := renamedSrcRegIdx inst @ p # ps, readySrcRegIdx := readySrcRegIdx inst @ b # bs\<rparr>)"
    "\<forall>p \<in> set ps. totalNumRegs (regFile g) \<le> p \<or> (\<exists>c. c \<noteq> MiscRegClass \<and> p \<in> set (arch_of c (renameMap g ! t)))"
    using Cons.IH [of "inst\<lparr>renamedSrcRegIdx := renamedSrcRegIdx inst @ [p], readySrcRegIdx := readySrcRegIdx inst @ [b]\<rparr>"]
      Cons.prems by auto
  have "totalNumRegs (regFile g) \<le> p \<or> (\<exists>c. c \<noteq> MiscRegClass \<and> p \<in> set (arch_of c (renameMap g ! t)))"
    using mem by (cases "c = MiscRegClass") (auto simp: p_def lookupMisc_def)
  with ps step show ?case by (intro exI [of _ "p # ps"] exI [of _ "b # bs"]) simp
qed (intro exI [of _ "[]"], simp)

section \<open>Squash, retirement and commit\<close>

lemma zero_undo:
  assumes "isa_ok I" "hist_ok I f hs m" "arch_of IntRegClass m ! ZeroReg I = ZeroReg I"
  shows "arch_of IntRegClass (undo I hs m) ! ZeroReg I = ZeroReg I"
  using assms(2,3)
proof (induction hs arbitrary: m)
  case (Cons h hs)
  then obtain c r where c: "reg_of I (archReg h) = (c, r)"
    "c = IntRegClass \<and> r = ZeroReg I \<Longrightarrow> prevPhysReg h = ZeroReg I" "hist_ok I f hs (undo1 I h m)"
    using entry_okE [OF _ assms(1), of f h] by (metis hist_ok.simps(2))
  have "arch_of IntRegClass (undo1 I h m) ! ZeroReg I = ZeroReg I"
  proof (cases "c = IntRegClass \<and> r = ZeroReg I")
    case True
    with c Cons.prems(2) show ?thesis
      by (simp add: undo1_def) (metis list_update_id)
  next
    case False
    with c Cons.prems(2) show ?thesis
      by (cases "c = MiscRegClass"; cases "c = IntRegClass") (simp_all add: undo1_def)
  qed
  with Cons.IH [OF c(3)] show ?case by simp
qed simp

lemma doSquash_ok:
  assumes "rinv I g" "t < threads g"
  defines "hb \<equiv> historyBuffer g ! t"
  shows "\<exists>g'. doSquash I s t g = Inr g' \<and> rinv I g' \<and> regFile g' = regFile g \<and>
    commitRenameMap g' = commitRenameMap g \<and> threads g' = threads g \<and>
    historyBuffer g' = (historyBuffer g)[t := dropWhile (\<lambda>h. instSeqNum h > s) hb] \<and>
    renameMap g' = (renameMap g)[t := undo I (takeWhile (\<lambda>h. instSeqNum h > s) hb) (renameMap g ! t)]"
proof -
  let ?P = "\<lambda>h. instSeqNum h > s" and ?m = "renameMap g ! t"
  have inv: "isa_ok I" "rf_ok (regFile g)" "sb_ok I (regFile g) (scoreBoard g)" "sized I ?m"
    "hist_ok I (regFile g) hb ?m" "length (historyBuffer g) = threads g"
    "t = 0 \<Longrightarrow> arch_of IntRegClass ?m ! ZeroReg I = ZeroReg I"
    using assms(1,2) by (simp_all add: rinv_def hb_def)
  have hk: "hist_ok I (regFile g) (takeWhile ?P hb) ?m"
    "hist_ok I (regFile g) (dropWhile ?P hb) (undo I (takeWhile ?P hb) ?m)"
    using inv(5) hist_ok_append [of I "regFile g" "takeWhile ?P hb" "dropWhile ?P hb" ?m] by simp_all
  obtain l where l: "squash_loop I (regFile g) s hb ?m (freeList g) =
      Inr (dropWhile ?P hb, undo I (takeWhile ?P hb) ?m, l)"
    "\<And>c. c \<noteq> MiscRegClass \<Longrightarrow> mset (list_of c l) + own I c (undo I (takeWhile ?P hb) ?m) (dropWhile ?P hb) =
       mset (list_of c (freeList g)) + own I c ?m hb"
    using squash_loop_ok [OF inv(1,2,4,5), of s "freeList g"] by blast
  let ?g = "g\<lparr>renameMap := (renameMap g)[t := undo I (takeWhile ?P hb) ?m], freeList := l,
      scoreBoard := scoreBoard g, historyBuffer := (historyBuffer g)[t := dropWhile ?P hb]\<rparr>"
  have "rinv I ?g"
    using inv(4) hk zero_undo [OF inv(1) hk(1) inv(7)] l(2)
    by (intro rinv_thread [OF assms(1,2) _ _ inv(3)]) (simp_all add: hb_def)
  moreover have "\<exists>g'. doSquash I s t g = Inr g' \<and> g' = ?g"
  proof (cases "hb = []")
    case True
    then have "l = freeList g" using l(1) by simp
    with True assms(2) inv(6) show ?thesis
      by (simp add: doSquash_def rd_of_nat hb_def threads_def)
        (metis (no_types, lifting) list_update_id o3_regs.surjective o3_regs.update_convs(2-4,6))
  next
    case False
    with l(1) assms(2) inv(6) show ?thesis by (simp add: doSquash_def rd_of_nat hb_def threads_def)
  qed
  ultimately show ?thesis by (auto simp: threads_def)
qed

lemma hist_ok_butlast: "hist_ok I f hs m \<Longrightarrow> hist_ok I f (rev (dropWhile P (rev hs))) m"
  by (metis hist_ok_append rev_append rev_rev_ident takeWhile_dropWhile_id)

lemma prevs_rev: "mset (prevs I c (rev hs)) = mset (prevs I c hs)"
  by (simp add: prevs_def rev_filter [symmetric] rev_map)

lemma removeFromHistory_ok:
  assumes "rinv I g" "t < threads g"
  shows "\<exists>g'. removeFromHistory s t g = Inr g' \<and> rinv I g' \<and> regFile g' = regFile g \<and>
    commitRenameMap g' = commitRenameMap g \<and> threads g' = threads g \<and> renameMap g' = renameMap g \<and>
    historyBuffer g' = (historyBuffer g)[t := rev (dropWhile (\<lambda>h. instSeqNum h \<le> s) (rev (historyBuffer g ! t)))]"
proof -
  let ?hb = "historyBuffer g ! t" and ?m = "renameMap g ! t"
  let ?hs = "dropWhile (\<lambda>h. instSeqNum h \<le> s) (rev ?hb)"
  have inv: "isa_ok I" "rf_ok (regFile g)" "sb_ok I (regFile g) (scoreBoard g)" "sized I ?m"
    "hist_ok I (regFile g) ?hb ?m" "length (historyBuffer g) = threads g"
    "t = 0 \<Longrightarrow> arch_of IntRegClass ?m ! ZeroReg I = ZeroReg I"
    using assms(1,2) by (simp_all add: rinv_def)
  have "\<And>h. h \<in> set (rev ?hb) \<Longrightarrow> entry_ok I (regFile g) h" using hist_ok_entry [OF inv(5)] by simp
  then obtain l where l: "retire_loop (regFile g) s (rev ?hb) (freeList g) = Inr (?hs, l)"
    "\<And>c. c \<noteq> MiscRegClass \<Longrightarrow> mset (list_of c l) + mset (prevs I c ?hs) = mset (list_of c (freeList g)) + mset (prevs I c ?hb)"
    using retire_loop_ok [OF inv(1,2), of "rev ?hb" s "freeList g"] by (auto simp: prevs_rev)
  let ?g = "g\<lparr>renameMap := (renameMap g)[t := ?m], freeList := l, scoreBoard := scoreBoard g,
    historyBuffer := (historyBuffer g)[t := rev ?hs]\<rparr>"
  have "rinv I ?g"
    using inv l(2) hist_ok_butlast [OF inv(5)]
    by (intro rinv_thread [OF assms(1,2) inv(4) _ inv(3)]) (simp_all add: own_def prevs_rev)
  moreover have "removeFromHistory s t g = Inr ?g"
    using l(1) assms(2) inv(6) by (simp add: removeFromHistory_def rd_of_nat)
  ultimately show ?thesis by (intro exI [of _ ?g]) (simp add: threads_def)
qed

lemma commit_dests_ok:
  assumes "isa_ok I" "\<And>h. h \<in> set es \<Longrightarrow> entry_ok I f h" "sized I m"
  shows "commit_dests I f (map archReg es) (map newPhysReg es) m = Inr (redo I es m)"
  using assms(2,3)
proof (induction es arbitrary: m)
  case (Cons h es)
  obtain c r where c: "archReg h = uni I c r" "r < num_regs I c" "reg_of I (archReg h) = (c, r)"
    "c \<noteq> MiscRegClass \<Longrightarrow> phys_in f c (newPhysReg h)" "c = MiscRegClass \<Longrightarrow> newPhysReg h = lookupMisc f r"
    using entry_okE [OF Cons.prems(1) [of h] assms(1)] by (metis list.set_intros(1))
  have "UnifiedRenameMap_setEntry I f (archReg h) (newPhysReg h) m = Inr (redo1 I h m)"
  proof (cases "c = MiscRegClass")
    case True
    with c setEntry_misc [OF assms(1), of r f m] show ?thesis by (simp add: redo1_def num_regs_def)
  next
    case False
    with c setEntry_upd [OF assms(1) Cons.prems(2) False c(2)] show ?thesis by (simp add: redo1_def)
  qed
  with Cons show ?case by simp
qed simp

end
