(* ===== verification/Rename_Pipeline.thy ===== *)
theory Rename_Pipeline
  imports Renaming
begin

text \<open>
  Renaming in the running core. Instructions are renamed, commit in order, retire their old
  mappings and are squashed, in any interleaving and for any number of threads. The invariant ties
  the history of a thread to the instructions in flight and the commit map to the rename map.
\<close>

section \<open>The pipeline\<close>

text \<open>
  The register state with the instructions of every thread that are renamed and not committed,
  oldest first, and the sequence number of the last committed one.
\<close>

record pipeline =
  regs :: o3_regs
  in_flight :: "reg_inst list list"
  doneSeqNum :: "nat list"

definition entries_of :: "reg_inst \<Rightarrow> RenameHistory list" where
  "entries_of i = map (\<lambda>(a, n, p). \<lparr>instSeqNum = seqNum i, archReg = a, newPhysReg = n, prevPhysReg = p\<rparr>)
     (zip (flattenedDestRegIdx i) (zip (renamedDestRegIdx i) (prevDestRegIdx i)))"

text \<open>An instruction as it comes from decode.\<close>

definition fresh_inst :: "reg_inst \<Rightarrow> bool" where
  "fresh_inst i \<longleftrightarrow> renamedSrcRegIdx i = [] \<and> readySrcRegIdx i = [] \<and> flattenedDestRegIdx i = [] \<and>
     renamedDestRegIdx i = [] \<and> prevDestRegIdx i = []"

definition operands_ok :: "isa \<Rightarrow> flattening \<Rightarrow> nat \<Rightarrow> reg_inst \<Rightarrow> bool" where
  "operands_ok I flat t i \<longleftrightarrow> fresh_inst i \<and> list_all (operand_ok I flat) (srcRegIdx i) \<and>
     list_all (dest_ok I flat t) (destRegIdx i)"

definition rename_inst :: "isa \<Rightarrow> flattening \<Rightarrow> nat \<Rightarrow> reg_inst \<Rightarrow> o3_regs \<Rightarrow> (reg_inst \<times> o3_regs) res" where
  "rename_inst I flat t i g =
     bindE (renameSrcRegs I flat t g (srcRegIdx i) i) (\<lambda>i. renameDestRegs I flat t (destRegIdx i) i g)"

text \<open>
  Steps of the pipeline. An instruction is renamed when \<open>canRename\<close> allows it; the oldest one
  commits; mappings are retired up to an instruction that has committed; instructions younger
  than one that is not older than the last committed are squashed; a result is written back.
\<close>

inductive pipe_step :: "isa \<Rightarrow> pipeline \<Rightarrow> pipeline \<Rightarrow> bool" for I where
  Rename: "\<lbrakk>t < threads (regs s); operands_ok I flat t i; doneSeqNum s ! t < seqNum i;
    \<forall>j \<in> set (in_flight s ! t). seqNum j < seqNum i;
    canRename (num_dest I IntRegClass (destRegIdx i)) (num_dest I FloatRegClass (destRegIdx i))
      (num_dest I CCRegClass (destRegIdx i)) (freeList (regs s));
    rename_inst I flat t i (regs s) = Inr (i', g)\<rbrakk> \<Longrightarrow>
    pipe_step I s (s\<lparr>regs := g, in_flight := (in_flight s)[t := in_flight s ! t @ [i']]\<rparr>)"
| Commit: "\<lbrakk>t < threads (regs s); in_flight s ! t = i # is; updateCommitMap I t i (regs s) = Inr g\<rbrakk> \<Longrightarrow>
    pipe_step I s (s\<lparr>regs := g, in_flight := (in_flight s)[t := is],
      doneSeqNum := (doneSeqNum s)[t := seqNum i]\<rparr>)"
| Retire: "\<lbrakk>t < threads (regs s); n \<le> doneSeqNum s ! t; removeFromHistory n t (regs s) = Inr g\<rbrakk> \<Longrightarrow>
    pipe_step I s (s\<lparr>regs := g\<rparr>)"
| Squash: "\<lbrakk>t < threads (regs s); doneSeqNum s ! t \<le> n; doSquash I n t (regs s) = Inr g\<rbrakk> \<Longrightarrow>
    pipe_step I s (s\<lparr>regs := g, in_flight := (in_flight s)[t := filter (\<lambda>j. seqNum j \<le> n) (in_flight s ! t)]\<rparr>)"
| Writeback: "Scoreboard_setReg p (scoreBoard (regs s)) = Inr b \<Longrightarrow>
    pipe_step I s (s\<lparr>regs := (regs s)\<lparr>scoreBoard := b\<rparr>\<rparr>)"

text \<open>The entries of the instructions in flight, youngest first.\<close>

abbreviation pending :: "reg_inst list \<Rightarrow> RenameHistory list" where
  "pending is \<equiv> rev (concat (map entries_of is))"

definition thread_inv :: "isa \<Rightarrow> o3_regs \<Rightarrow> nat \<Rightarrow> reg_inst list \<Rightarrow> nat \<Rightarrow> bool" where
  "thread_inv I g t is n \<longleftrightarrow>
     (\<exists>D. historyBuffer g ! t = pending is @ D \<and> (\<forall>h \<in> set D. instSeqNum h \<le> n)) \<and>
     sorted_wrt (<) (n # map seqNum is) \<and>
     (\<forall>i \<in> set is. length (renamedDestRegIdx i) = length (flattenedDestRegIdx i) \<and>
        length (prevDestRegIdx i) = length (flattenedDestRegIdx i)) \<and>
     commitRenameMap g ! t = undo I (pending is) (renameMap g ! t) \<and>
     (\<forall>k < length is. \<forall>p \<in> set (renamedSrcRegIdx (is ! k)). totalNumRegs (regFile g) \<le> p \<or>
        (\<exists>c. c \<noteq> MiscRegClass \<and> p \<in> set (arch_of c (undo I (pending (drop k is)) (renameMap g ! t)))))"

definition pipe_inv :: "isa \<Rightarrow> pipeline \<Rightarrow> bool" where
  "pipe_inv I s \<longleftrightarrow> rinv I (regs s) \<and> length (in_flight s) = threads (regs s) \<and>
     length (doneSeqNum s) = threads (regs s) \<and>
     (\<forall>t < threads (regs s). thread_inv I (regs s) t (in_flight s ! t) (doneSeqNum s ! t))"

lemma entries_of_seq: "h \<in> set (entries_of i) \<Longrightarrow> instSeqNum h = seqNum i"
  by (auto simp: entries_of_def)

lemma entries_of_record: "\<lbrakk>fresh_inst i; \<forall>h \<in> set es. instSeqNum h = seqNum i\<rbrakk> \<Longrightarrow>
    entries_of (record_dests es i) = es"
  by (induction es) (auto simp: entries_of_def record_dests_def fresh_inst_def)

lemma entries_of_fields:
  assumes "length (renamedDestRegIdx i) = length (flattenedDestRegIdx i)"
    "length (prevDestRegIdx i) = length (flattenedDestRegIdx i)"
  shows "map archReg (entries_of i) = flattenedDestRegIdx i" "map newPhysReg (entries_of i) = renamedDestRegIdx i"
  using assms by (simp_all add: entries_of_def list_eq_iff_nth_eq)

text \<open>Threads that a step does not name are as before.\<close>

lemma thread_inv_other:
  assumes "thread_inv I g u is n" "regFile g' = regFile g" "historyBuffer g' ! u = historyBuffer g ! u"
    "renameMap g' ! u = renameMap g ! u" "commitRenameMap g' ! u = commitRenameMap g ! u"
  shows "thread_inv I g' u is n"
  using assms by (simp add: thread_inv_def)

lemma pipe_inv_thread:
  assumes "pipe_inv I s" "t < threads (regs s)" "rinv I g" "regFile g = regFile (regs s)" "threads g = threads (regs s)"
    "\<And>u. u \<noteq> t \<Longrightarrow> historyBuffer g ! u = historyBuffer (regs s) ! u \<and> renameMap g ! u = renameMap (regs s) ! u \<and>
       commitRenameMap g ! u = commitRenameMap (regs s) ! u"
    "thread_inv I g t is n"
  shows "pipe_inv I (s\<lparr>regs := g, in_flight := (in_flight s)[t := is], doneSeqNum := (doneSeqNum s)[t := n]\<rparr>)"
proof -
  have "thread_inv I g u ((in_flight s)[t := is] ! u) ((doneSeqNum s)[t := n] ! u)" if u: "u < threads (regs s)" for u
  proof (cases "u = t")
    case True
    with assms(1,2,7) show ?thesis by (simp add: pipe_inv_def)
  next
    case False
    with assms(1,4,6) u show ?thesis
      using thread_inv_other [of I "regs s" u "in_flight s ! u" "doneSeqNum s ! u" g] by (simp add: pipe_inv_def)
  qed
  with assms(1-5) show ?thesis by (simp add: pipe_inv_def)
qed

lemma rename_inst_ok:
  assumes "rinv I g" "t < threads g" "operands_ok I flat t i"
    "canRename (num_dest I IntRegClass (destRegIdx i)) (num_dest I FloatRegClass (destRegIdx i))
      (num_dest I CCRegClass (destRegIdx i)) (freeList g)"
  shows "\<exists>i' g'. rename_inst I flat t i g = Inr (i', g') \<and> seqNum i' = seqNum i \<and>
    extends I t (rev (entries_of i')) g g' \<and>
    length (renamedDestRegIdx i') = length (flattenedDestRegIdx i') \<and>
    length (prevDestRegIdx i') = length (flattenedDestRegIdx i') \<and>
    (\<forall>p \<in> set (renamedSrcRegIdx i'). totalNumRegs (regFile g) \<le> p \<or>
       (\<exists>c. c \<noteq> MiscRegClass \<and> p \<in> set (arch_of c (renameMap g ! t))))"
proof -
  have ops: "\<And>a. a \<in> set (srcRegIdx i) \<Longrightarrow> operand_ok I flat a" "\<And>a. a \<in> set (destRegIdx i) \<Longrightarrow> dest_ok I flat t a"
    and fr: "fresh_inst i"
    using assms(3) by (auto simp: operands_ok_def list_all_iff)
  obtain ps bs where src: "renameSrcRegs I flat t g (srcRegIdx i) i =
      Inr (i\<lparr>renamedSrcRegIdx := renamedSrcRegIdx i @ ps, readySrcRegIdx := readySrcRegIdx i @ bs\<rparr>)"
    "\<forall>p \<in> set ps. totalNumRegs (regFile g) \<le> p \<or> (\<exists>c. c \<noteq> MiscRegClass \<and> p \<in> set (arch_of c (renameMap g ! t)))"
    using renameSrcRegs_ok [OF assms(1,2) ops(1)] by blast
  define j where "j = i\<lparr>renamedSrcRegIdx := renamedSrcRegIdx i @ ps, readySrcRegIdx := readySrcRegIdx i @ bs\<rparr>"
  have "num_dest I c (destRegIdx i) \<le> length (list_of c (freeList g))" if "c \<noteq> MiscRegClass" for c
    using assms(4) that by (cases c) (simp_all add: canRename_def numFreeRegs_def list_of_def)
  then obtain es g' where es: "renameDestRegs I flat t (destRegIdx i) j g = Inr (record_dests es j, g')"
    "\<forall>h \<in> set es. instSeqNum h = seqNum j" "extends I t (rev es) g g'"
    using renameDestRegs_ok [OF assms(1,2) ops(2), of "destRegIdx i"] by blast
  have j: "destRegIdx j = destRegIdx i" "seqNum j = seqNum i" "renamedSrcRegIdx (record_dests es j) = ps"
    "flattenedDestRegIdx j = []" "renamedDestRegIdx j = []" "prevDestRegIdx j = []"
    using fr by (simp_all add: j_def record_dests_def fresh_inst_def)
  have "entries_of (record_dests es j) = es"
    using es(2) j by (induction es) (auto simp: entries_of_def record_dests_def)
  moreover have "rename_inst I flat t i g = Inr (record_dests es j, g')"
    using src(1) es(1) j(1) by (simp add: rename_inst_def j_def [symmetric])
  ultimately show ?thesis
    using es(3) j src(2) by (intro exI [of _ "record_dests es j"] exI [of _ g']) (auto simp: record_dests_def)
qed

lemma thread_inv_operand:
  assumes "thread_inv I g t is n" "k < length is" "p \<in> set (renamedSrcRegIdx (is ! k))" "p < totalNumRegs (regFile g)"
  shows "\<exists>c. c \<noteq> MiscRegClass \<and> p \<in> set (arch_of c (undo I (pending (drop k is)) (renameMap g ! t)))"
proof -
  have "totalNumRegs (regFile g) \<le> p \<or>
      (\<exists>c. c \<noteq> MiscRegClass \<and> p \<in> set (arch_of c (undo I (pending (drop k is)) (renameMap g ! t))))"
    using assms(1-3) unfolding thread_inv_def by blast
  with assms(4) show ?thesis by simp
qed

lemma thread_invI:
  assumes "historyBuffer g ! t = pending is @ D" "\<forall>h \<in> set D. instSeqNum h \<le> n"
    "sorted_wrt (<) (n # map seqNum is)"
    "\<And>i. i \<in> set is \<Longrightarrow> length (renamedDestRegIdx i) = length (flattenedDestRegIdx i) \<and>
        length (prevDestRegIdx i) = length (flattenedDestRegIdx i)"
    "commitRenameMap g ! t = undo I (pending is) (renameMap g ! t)"
    "\<And>k p. \<lbrakk>k < length is; p \<in> set (renamedSrcRegIdx (is ! k)); p < totalNumRegs (regFile g)\<rbrakk> \<Longrightarrow>
        \<exists>c. c \<noteq> MiscRegClass \<and> p \<in> set (arch_of c (undo I (pending (drop k is)) (renameMap g ! t)))"
  shows "thread_inv I g t is n"
proof -
  have "totalNumRegs (regFile g) \<le> p \<or>
      (\<exists>c. c \<noteq> MiscRegClass \<and> p \<in> set (arch_of c (undo I (pending (drop k is)) (renameMap g ! t))))"
    if "k < length is" "p \<in> set (renamedSrcRegIdx (is ! k))" for k p
    using assms(6) [OF that] by (meson not_le)
  with assms(1-5) show ?thesis unfolding thread_inv_def by blast
qed

lemma thread_inv_facts:
  assumes "thread_inv I g t is n"
  shows "sorted_wrt (<) (n # map seqNum is)"
    "\<And>i. i \<in> set is \<Longrightarrow> length (renamedDestRegIdx i) = length (flattenedDestRegIdx i) \<and>
        length (prevDestRegIdx i) = length (flattenedDestRegIdx i)"
    "commitRenameMap g ! t = undo I (pending is) (renameMap g ! t)"
  using assms unfolding thread_inv_def by blast+

lemma thread_inv_rename:
  assumes "thread_inv I g t is n" "t < threads g" "length (historyBuffer g) = threads g" "extends I t (rev (entries_of i)) g g'"
    "n < seqNum i" "\<forall>j \<in> set is. seqNum j < seqNum i"
    "length (renamedDestRegIdx i) = length (flattenedDestRegIdx i)"
    "length (prevDestRegIdx i) = length (flattenedDestRegIdx i)"
    "\<forall>p \<in> set (renamedSrcRegIdx i). totalNumRegs (regFile g) \<le> p \<or>
       (\<exists>c. c \<noteq> MiscRegClass \<and> p \<in> set (arch_of c (renameMap g ! t)))"
  shows "thread_inv I g' t (is @ [i]) n"
proof -
  have e: "regFile g' = regFile g" "commitRenameMap g' = commitRenameMap g"
    "historyBuffer g' ! t = rev (entries_of i) @ historyBuffer g ! t"
    "undo I (rev (entries_of i)) (renameMap g' ! t) = renameMap g ! t"
    using assms(2-4) by (simp_all add: extends_def)
  have u: "undo I (pending (drop k (is @ [i]))) (renameMap g' ! t) = undo I (pending (drop k is)) (renameMap g ! t)"
    if "k \<le> length is" for k using e(4) that by (simp add: undo_append)
  obtain D where D: "historyBuffer g ! t = pending is @ D" "\<forall>h \<in> set D. instSeqNum h \<le> n"
    using assms(1) by (auto simp: thread_inv_def)
  note fs = thread_inv_facts [OF assms(1)]
  show ?thesis
  proof (rule thread_invI)
    show "historyBuffer g' ! t = pending (is @ [i]) @ D" "\<forall>h \<in> set D. instSeqNum h \<le> n"
      using D e(3) by simp_all
    show "sorted_wrt (<) (n # map seqNum (is @ [i]))" using fs(1) assms(5,6) by (auto simp: sorted_wrt_append)
    show "commitRenameMap g' ! t = undo I (pending (is @ [i])) (renameMap g' ! t)"
      using fs(3) u [of 0] e(2) by simp
    show "length (renamedDestRegIdx j) = length (flattenedDestRegIdx j) \<and>
        length (prevDestRegIdx j) = length (flattenedDestRegIdx j)" if "j \<in> set (is @ [i])" for j
      using that fs(2) assms(7,8) by auto
    fix k p assume that: "k < length (is @ [i])" "p \<in> set (renamedSrcRegIdx ((is @ [i]) ! k))" "p < totalNumRegs (regFile g')"
    show "\<exists>c. c \<noteq> MiscRegClass \<and> p \<in> set (arch_of c (undo I (pending (drop k (is @ [i]))) (renameMap g' ! t)))"
    proof (cases "k = length is")
      case True
      with that e(1) assms(9) have "\<exists>c. c \<noteq> MiscRegClass \<and> p \<in> set (arch_of c (renameMap g ! t))" by fastforce
      with u [of k] True show ?thesis by simp
    next
      case False
      with that e(1) have k: "k < length is" "p \<in> set (renamedSrcRegIdx (is ! k))" "p < totalNumRegs (regFile g)"
        by (simp_all add: nth_append)
      with thread_inv_operand [OF assms(1) k] u [of k] show ?thesis by simp
    qed
  qed
qed

lemma thread_inv_commit:
  assumes "rinv I g" "t < threads g" "thread_inv I g t (i # is) n"
  shows "\<exists>g'. updateCommitMap I t i g = Inr g' \<and> rinv I g' \<and> thread_inv I g' t is (seqNum i) \<and>
    regFile g' = regFile g \<and> threads g' = threads g \<and> historyBuffer g' = historyBuffer g \<and>
    renameMap g' = renameMap g \<and> (\<forall>u. u \<noteq> t \<longrightarrow> commitRenameMap g' ! u = commitRenameMap g ! u)"
proof -
  let ?m = "renameMap g ! t" and ?f = "regFile g" and ?c = "commitRenameMap g ! t"
  have inv: "isa_ok I" "sized I ?m" "hist_ok I ?f (historyBuffer g ! t) ?m" "length (commitRenameMap g) = threads g"
    using assms(1,2) by (simp_all add: rinv_def)
  obtain D where D: "historyBuffer g ! t = pending (i # is) @ D" "\<forall>h \<in> set D. instSeqNum h \<le> n"
    using assms(3) by (auto simp: thread_inv_def)
  note fs = thread_inv_facts [OF assms(3)]
  have c: "?c = undo I (rev (entries_of i)) (undo I (pending is) ?m)"
    using assms(3) by (simp add: thread_inv_def undo_append)
  have hk: "hist_ok I ?f (rev (entries_of i)) (undo I (pending is) ?m)"
    using inv(3) D(1) by (simp add: hist_ok_append)
  have "sized I ?c" using inv(2) c by simp
  moreover have "\<And>h. h \<in> set (entries_of i) \<Longrightarrow> entry_ok I ?f h" using hist_ok_entry [OF hk] by simp
  ultimately have "commit_dests I ?f (flattenedDestRegIdx i) (renamedDestRegIdx i) ?c = Inr (undo I (pending is) ?m)"
    using commit_dests_ok [OF inv(1), of "entries_of i" ?f ?c] redo_undo [OF hk] c assms(3)
    by (simp add: thread_inv_def entries_of_fields)
  then have "updateCommitMap I t i g = Inr (g\<lparr>commitRenameMap := (commitRenameMap g)[t := undo I (pending is) ?m]\<rparr>)"
    (is "_ = Inr ?g") using assms(2) inv(4) by (simp add: updateCommitMap_def rd_of_nat)
  moreover have th: "threads ?g = threads g" by (simp add: threads_def)
  moreover have "rinv I ?g" using assms(1) by (simp add: rinv_def th)
  moreover have "thread_inv I ?g t is (seqNum i)"
  proof (rule thread_invI)
    show "historyBuffer ?g ! t = pending is @ (rev (entries_of i) @ D)" using D(1) by simp
    show "\<forall>h \<in> set (rev (entries_of i) @ D). instSeqNum h \<le> seqNum i"
      using D(2) fs(1) entries_of_seq [of _ i] by auto
    show "\<exists>c. c \<noteq> MiscRegClass \<and> p \<in> set (arch_of c (undo I (pending (drop k is)) (renameMap ?g ! t)))"
      if "k < length is" "p \<in> set (renamedSrcRegIdx (is ! k))" "p < totalNumRegs (regFile ?g)" for k p
      using thread_inv_operand [OF assms(3), of "Suc k" p] that by simp
  qed (use fs assms(2) inv(4) in auto)
  ultimately show ?thesis by (intro exI [of _ ?g]) simp
qed

lemma pending_seq: "h \<in> set (pending is) \<Longrightarrow> \<exists>i \<in> set is. instSeqNum h = seqNum i"
  using entries_of_seq by fastforce

lemma thread_inv_retire:
  assumes "thread_inv I g t is n" "k \<le> n" "regFile g' = regFile g" "commitRenameMap g' = commitRenameMap g"
    "renameMap g' = renameMap g"
    "historyBuffer g' ! t = rev (dropWhile (\<lambda>h. instSeqNum h \<le> k) (rev (historyBuffer g ! t)))"
  shows "thread_inv I g' t is n"
proof -
  obtain D where D: "historyBuffer g ! t = pending is @ D" "\<forall>h \<in> set D. instSeqNum h \<le> n"
    using assms(1) by (auto simp: thread_inv_def)
  have young: "\<not> instSeqNum h \<le> k" if "h \<in> set (pending is)" for h
    using pending_seq [OF that] assms(1,2) by (auto simp: thread_inv_def)
  define L where "L = concat (map entries_of is)"
  have "dropWhile (\<lambda>h. instSeqNum h \<le> k) L = L"
    unfolding dropWhile_eq_self_iff using young [of "hd L"] hd_in_set [of L] by (auto simp: L_def)
  then have "dropWhile (\<lambda>h. instSeqNum h \<le> k) (rev D @ L) = dropWhile (\<lambda>h. instSeqNum h \<le> k) (rev D) @ L"
    by (cases "\<forall>h \<in> set (rev D). instSeqNum h \<le> k")
      (simp_all add: dropWhile_append dropWhile_append3 dropWhile_eq_Nil_conv [THEN iffD2])
  then have "historyBuffer g' ! t = pending is @ rev (dropWhile (\<lambda>h. instSeqNum h \<le> k) (rev D))"
    using assms(6) D(1) by (simp add: L_def)
  moreover have "\<forall>h \<in> set (rev (dropWhile (\<lambda>h. instSeqNum h \<le> k) (rev D))). instSeqNum h \<le> n"
    using D(2) by (auto dest: set_dropWhileD)
  ultimately show ?thesis
    using thread_inv_facts [OF assms(1)] thread_inv_operand [OF assms(1)] assms(3-5)
    by (intro thread_invI [where D = "rev (dropWhile (\<lambda>h. instSeqNum h \<le> k) (rev D))"]) simp_all
qed

lemma sorted_split:
  "sorted_wrt (<) (map f is) \<Longrightarrow> \<exists>B. is = filter (\<lambda>i. f i \<le> (k :: nat)) is @ B \<and> (\<forall>i \<in> set B. k < f i)"
proof (induction "is")
  case (Cons i "is")
  then obtain B where B: "is = filter (\<lambda>i. f i \<le> k) is @ B" "\<forall>i \<in> set B. k < f i" by auto
  show ?case
  proof (cases "f i \<le> k")
    case True
    with B show ?thesis by auto
  next
    case False
    with Cons.prems have "\<forall>j \<in> set is. k < f j" by auto
    then have "filter (\<lambda>i. f i \<le> k) is = []" by (auto simp: filter_empty_conv)
    with False \<open>\<forall>j \<in> set is. k < f j\<close> show ?thesis by auto
  qed
qed simp

lemma while_split:
  assumes "\<And>x. x \<in> set xs \<Longrightarrow> P x" "\<And>y. y \<in> set ys \<Longrightarrow> \<not> P y"
  shows "takeWhile P (xs @ ys) = xs \<and> dropWhile P (xs @ ys) = ys"
  using assms by (cases ys) (simp_all add: takeWhile_append2 dropWhile_append2)

lemma thread_inv_squash:
  assumes "thread_inv I g t is n" "n \<le> k" "regFile g' = regFile g" "commitRenameMap g' = commitRenameMap g"
    "historyBuffer g' ! t = dropWhile (\<lambda>h. instSeqNum h > k) (historyBuffer g ! t)"
    "renameMap g' ! t = undo I (takeWhile (\<lambda>h. instSeqNum h > k) (historyBuffer g ! t)) (renameMap g ! t)"
  shows "thread_inv I g' t (filter (\<lambda>j. seqNum j \<le> k) is) n"
proof -
  note fs = thread_inv_facts [OF assms(1)]
  obtain D where D: "historyBuffer g ! t = pending is @ D" "\<forall>h \<in> set D. instSeqNum h \<le> n"
    using assms(1) by (auto simp: thread_inv_def)
  define A where "A = filter (\<lambda>j. seqNum j \<le> k) is"
  obtain B where B: "is = A @ B" "\<forall>i \<in> set B. k < seqNum i"
    using sorted_split [of seqNum "is" k] fs(1) by (auto simp: A_def)
  have young: "instSeqNum h > k" if "h \<in> set (pending B)" for h using pending_seq [OF that] B(2) by auto
  have old: "\<not> instSeqNum h > k" if "h \<in> set (pending A @ D)" for h
    using that D(2) assms(2) by (auto simp: A_def dest!: entries_of_seq)
  have w: "takeWhile (\<lambda>h. instSeqNum h > k) (pending B @ pending A @ D) = pending B"
    "dropWhile (\<lambda>h. instSeqNum h > k) (pending B @ pending A @ D) = pending A @ D"
    using while_split [of "pending B" "\<lambda>h. instSeqNum h > k" "pending A @ D"] young old by blast+
  have hb: "historyBuffer g ! t = pending B @ pending A @ D" using D(1) B(1) by simp
  have m: "renameMap g' ! t = undo I (pending B) (renameMap g ! t)" using assms(6) w(1) hb by simp
  have u: "undo I (pending (drop j A)) (renameMap g' ! t) = undo I (pending (drop j is)) (renameMap g ! t)"
    if "j \<le> length A" for j using that B(1) m by (simp add: undo_append)
  show ?thesis unfolding A_def [symmetric]
  proof (rule thread_invI)
    show "historyBuffer g' ! t = pending A @ D" "\<forall>h \<in> set D. instSeqNum h \<le> n" using assms(5) w(2) hb D(2) by simp_all
    show "sorted_wrt (<) (n # map seqNum A)" using fs(1) B(1) by (auto simp: sorted_wrt_append)
    show "commitRenameMap g' ! t = undo I (pending A) (renameMap g' ! t)" using fs(3) u [of 0] assms(4) by simp
    show "length (renamedDestRegIdx j) = length (flattenedDestRegIdx j) \<and>
        length (prevDestRegIdx j) = length (flattenedDestRegIdx j)" if "j \<in> set A" for j
      using that fs(2) B(1) by auto
    fix j p assume j: "j < length A" "p \<in> set (renamedSrcRegIdx (A ! j))" "p < totalNumRegs (regFile g')"
    then have "\<exists>c. c \<noteq> MiscRegClass \<and> p \<in> set (arch_of c (undo I (pending (drop j is)) (renameMap g ! t)))"
      using thread_inv_operand [OF assms(1), of j p] B(1) assms(3) by (simp add: nth_append)
    with u [of j] j(1) show "\<exists>c. c \<noteq> MiscRegClass \<and> p \<in> set (arch_of c (undo I (pending (drop j A)) (renameMap g' ! t)))"
      by simp
  qed
qed

section \<open>The invariant is kept\<close>

lemma pipe_inv_at:
  assumes "pipe_inv I s" "t < threads (regs s)"
  shows "rinv I (regs s)" "thread_inv I (regs s) t (in_flight s ! t) (doneSeqNum s ! t)"
    "length (historyBuffer (regs s)) = threads (regs s)" "length (in_flight s) = threads (regs s)"
    "length (doneSeqNum s) = threads (regs s)"
  using assms by (simp_all add: pipe_inv_def rinv_def)

lemma sb_ok_setReg: "\<lbrakk>sb_ok I f b; Scoreboard_setReg p b = Inr b'\<rbrakk> \<Longrightarrow> sb_ok I f b'"
  by (auto simp: Scoreboard_setReg_def sb_ok_def bindE_Inr_iff wr_Inr_iff nth_list_update split: if_splits)

lemma pipe_step_inv:
  assumes "pipe_step I s s'" "pipe_inv I s"
  shows "pipe_inv I s'"
  using assms(1)
proof cases
  case (Rename t flat i i' g)
  note a = pipe_inv_at [OF assms(2) Rename(2)]
  have r: "seqNum i' = seqNum i" "extends I t (rev (entries_of i')) (regs s) g"
    "length (renamedDestRegIdx i') = length (flattenedDestRegIdx i')"
    "length (prevDestRegIdx i') = length (flattenedDestRegIdx i')"
    "\<forall>p \<in> set (renamedSrcRegIdx i'). totalNumRegs (regFile (regs s)) \<le> p \<or>
       (\<exists>c. c \<noteq> MiscRegClass \<and> p \<in> set (arch_of c (renameMap (regs s) ! t)))"
    using rename_inst_ok [OF a(1) Rename(2,3,6)] Rename(7) by auto
  have "thread_inv I g t (in_flight s ! t @ [i']) (doneSeqNum s ! t)"
    using thread_inv_rename [OF a(2) Rename(2) a(3) r(2)] Rename(4,5) r by simp
  then have "pipe_inv I (s\<lparr>regs := g, in_flight := (in_flight s)[t := in_flight s ! t @ [i']],
      doneSeqNum := (doneSeqNum s)[t := doneSeqNum s ! t]\<rparr>)"
    using r(2) by (intro pipe_inv_thread [OF assms(2) Rename(2)]) (auto simp: extends_def)
  then show ?thesis using Rename(1) by simp
next
  case (Commit t i "is" g)
  note a = pipe_inv_at [OF assms(2) Commit(2)]
  have "rinv I g \<and> thread_inv I g t is (seqNum i) \<and> regFile g = regFile (regs s) \<and> threads g = threads (regs s) \<and>
      historyBuffer g = historyBuffer (regs s) \<and> renameMap g = renameMap (regs s) \<and>
      (\<forall>u. u \<noteq> t \<longrightarrow> commitRenameMap g ! u = commitRenameMap (regs s) ! u)"
    using thread_inv_commit [OF a(1) Commit(2), of i "is"] a(2) Commit(3,4) by auto
  then show ?thesis
    unfolding Commit(1) by (intro pipe_inv_thread [OF assms(2) Commit(2)]) auto
next
  case (Retire t n g)
  note a = pipe_inv_at [OF assms(2) Retire(2)]
  have r: "rinv I g" "regFile g = regFile (regs s)" "commitRenameMap g = commitRenameMap (regs s)"
    "threads g = threads (regs s)" "renameMap g = renameMap (regs s)" "historyBuffer g = (historyBuffer (regs s))
      [t := rev (dropWhile (\<lambda>h. instSeqNum h \<le> n) (rev (historyBuffer (regs s) ! t)))]"
    using removeFromHistory_ok [OF a(1) Retire(2), of n] Retire(4) by auto
  then have "thread_inv I g t (in_flight s ! t) (doneSeqNum s ! t)"
    using a(3) Retire(2) by (intro thread_inv_retire [OF a(2) Retire(3)]) simp_all
  then have "pipe_inv I (s\<lparr>regs := g, in_flight := (in_flight s)[t := in_flight s ! t],
      doneSeqNum := (doneSeqNum s)[t := doneSeqNum s ! t]\<rparr>)"
    using r by (intro pipe_inv_thread [OF assms(2) Retire(2)]) auto
  then show ?thesis using Retire(1) by simp
next
  case (Squash t n g)
  note a = pipe_inv_at [OF assms(2) Squash(2)]
  let ?P = "\<lambda>h. instSeqNum h > n"
  have r: "rinv I g" "regFile g = regFile (regs s)" "commitRenameMap g = commitRenameMap (regs s)"
    "threads g = threads (regs s)"
    "historyBuffer g = (historyBuffer (regs s))[t := dropWhile ?P (historyBuffer (regs s) ! t)]"
    "renameMap g = (renameMap (regs s))[t := undo I (takeWhile ?P (historyBuffer (regs s) ! t)) (renameMap (regs s) ! t)]"
    using doSquash_ok [OF a(1) Squash(2), of n] Squash(4) by auto
  then have "thread_inv I g t (filter (\<lambda>j. seqNum j \<le> n) (in_flight s ! t)) (doneSeqNum s ! t)"
    using a(3) Squash(2) by (intro thread_inv_squash [OF a(2) Squash(3)]) (simp_all add: threads_def)
  then have "pipe_inv I (s\<lparr>regs := g, in_flight := (in_flight s)[t := filter (\<lambda>j. seqNum j \<le> n) (in_flight s ! t)],
      doneSeqNum := (doneSeqNum s)[t := doneSeqNum s ! t]\<rparr>)"
    using r by (intro pipe_inv_thread [OF assms(2) Squash(2)]) auto
  then show ?thesis using Squash(1) by simp
next
  case (Writeback p b)
  have "rinv I (regs s)" using assms(2) by (simp add: pipe_inv_def)
  moreover have th: "threads ((regs s)\<lparr>scoreBoard := b\<rparr>) = threads (regs s)" by (simp add: threads_def)
  ultimately have "rinv I ((regs s)\<lparr>scoreBoard := b\<rparr>)"
    using sb_ok_setReg [OF _ Writeback(2), of I "regFile (regs s)"] by (simp add: rinv_def)
  then show ?thesis
    using assms(2) Writeback(1) th by (auto simp: pipe_inv_def intro: thread_inv_other)
qed

lemma pipe_steps_inv: "\<lbrakk>(pipe_step I)\<^sup>*\<^sup>* s s'; pipe_inv I s\<rbrakk> \<Longrightarrow> pipe_inv I s'"
  by (induction rule: rtranclp_induct) (auto intro: pipe_step_inv)

end
