(* ===== verification/Precise_State.thy ===== *)
theory Precise_State
  imports Rename_Pipeline "HOL-Library.Code_Target_Nat"
begin

text \<open>
  What renaming guarantees from the construction of the core on: the initial mapping establishes
  the invariant of the pipeline, so in every reachable state no physical register is lost or used
  twice, no assertion of the renaming code fails, the committed map is what squashing restores,
  operands in flight are not free, and the architectural registers are independent variables.
\<close>

section \<open>The initial mapping\<close>

lemma bind_regs_ok:
  assumes "\<And>l p ps. list_of c l = p # ps \<Longrightarrow> get l = Inr (p, set_list c ps l)"
    "\<And>r p m. \<lbrakk>phys_in f c p; r < length (arch_of c m)\<rbrakk> \<Longrightarrow> put r p m = Inr (upd c r p m)" "c \<noteq> MiscRegClass"
    "\<And>p. p \<in> set xs \<Longrightarrow> phys_in f c p" "t < length (renameMap g)" "commitRenameMap g = renameMap g"
    "list_of c (freeList g) = xs @ ys" "k + length xs = length (arch_of c (renameMap g ! t))"
  shows "\<exists>l. (\<forall>d. list_of d l = (if d = c then ys else list_of d (freeList g))) \<and>
    (let ms = (renameMap g)[t := set_map c (take k (arch_of c (renameMap g ! t)) @ xs) (renameMap g ! t)]
     in bind_regs get put t [k..<k + length xs] g = Inr (g\<lparr>freeList := l, renameMap := ms, commitRenameMap := ms\<rparr>))"
  using assms(4-8)
proof (induction xs arbitrary: k g)
  case Nil
  then show ?case by (intro exI [of _ "freeList g"]) (simp add: Let_def)
next
  case (Cons x xs)
  let ?m = "renameMap g ! t"
  let ?g = "g\<lparr>freeList := set_list c (xs @ ys) (freeList g), renameMap := (renameMap g)[t := upd c k x ?m],
      commitRenameMap := (renameMap g)[t := upd c k x ?m]\<rparr>"
  have k: "k < length (arch_of c ?m)" "[k..<k + length (x # xs)] = k # [Suc k..<Suc k + length xs]"
    using Cons.prems(5) by (simp_all add: upt_conv_Cons)
  have "bind_regs get put t [k..<k + length (x # xs)] g = bind_regs get put t [Suc k..<Suc k + length xs] ?g"
    unfolding k(2) using assms(1) [of "freeList g" x "xs @ ys"] assms(2) [of x k ?m] k(1) Cons.prems(1-4)
    by (simp add: rd_of_nat)
  moreover have "take (Suc k) ((arch_of c ?m)[k := x]) @ xs = take k (arch_of c ?m) @ x # xs"
    using k(1) by (simp add: take_Suc_conv_app_nth)
  moreover have "\<exists>l. (\<forall>d. list_of d l = (if d = c then ys else list_of d (freeList ?g))) \<and>
    (let ms = (renameMap ?g)[t := set_map c (take (Suc k) (arch_of c (renameMap ?g ! t)) @ xs) (renameMap ?g ! t)]
     in bind_regs get put t [Suc k..<Suc k + length xs] ?g = Inr (?g\<lparr>freeList := l, renameMap := ms, commitRenameMap := ms\<rparr>))"
    by (rule Cons.IH) (use Cons.prems assms(3) in auto)
  then obtain l where "\<forall>d. list_of d l = (if d = c then ys else list_of d (freeList ?g))"
    "let ms = (renameMap ?g)[t := set_map c (take (Suc k) (arch_of c (renameMap ?g ! t)) @ xs) (renameMap ?g ! t)]
     in bind_regs get put t [Suc k..<Suc k + length xs] ?g = Inr (?g\<lparr>freeList := l, renameMap := ms, commitRenameMap := ms\<rparr>)"
    by blast
  ultimately show ?case
    using assms(3) Cons.prems(2) by (intro exI [of _ l]) (simp add: Let_def)
qed

text \<open>A map with the given registers in its three classes.\<close>

definition bound :: "(RegClass \<Rightarrow> nat list) \<Rightarrow> rename_map \<Rightarrow> rename_map" where
  "bound xs m = set_map CCRegClass (xs CCRegClass) (set_map FloatRegClass (xs FloatRegClass)
     (set_map IntRegClass (xs IntRegClass) m))"

lemma arch_of_bound [simp]:
  "c \<noteq> MiscRegClass \<Longrightarrow> arch_of c (bound xs m) = xs c" "zero_of c (bound xs m) = zero_of c m"
  by (cases c; simp add: bound_def)+

lemma put_laws:
  assumes "phys_in f c p" "r < length (arch_of c m)"
  shows "c = IntRegClass \<Longrightarrow> setIntEntry f r p m = Inr (upd c r p m)"
    "c = FloatRegClass \<Longrightarrow> setFloatEntry f r p m = Inr (upd c r p m)"
    "c = CCRegClass \<Longrightarrow> setCCEntry f r p m = Inr (upd c r p m)"
  using assms by (simp_all add: setIntEntry_def setFloatEntry_def setCCEntry_def SimpleRenameMap_setEntry_def
      wr_of_nat phys_in_def arch_of_def set_map_def)

lemma get_laws:
  "list_of IntRegClass l = p # ps \<Longrightarrow> getIntReg l = Inr (p, set_list IntRegClass ps l)"
  "list_of FloatRegClass l = p # ps \<Longrightarrow> getFloatReg l = Inr (p, set_list FloatRegClass ps l)"
  "list_of CCRegClass l = p # ps \<Longrightarrow> getCCReg l = Inr (p, set_list CCRegClass ps l)"
  by (simp_all add: getIntReg_def getFloatReg_def getCCReg_def SimpleFreeList_getReg_def list_of_def set_list_def)

lemma bind_thread_ok:
  assumes "t < length (renameMap g)" "commitRenameMap g = renameMap g" "sized I (renameMap g ! t)"
    "\<And>c. c \<noteq> MiscRegClass \<Longrightarrow> list_of c (freeList g) = xs c @ ys c \<and> length (xs c) = num_regs I c \<and>
       (\<forall>p \<in> set (xs c). phys_in (regFile g) c p)"
  shows "\<exists>l. (\<forall>c. c \<noteq> MiscRegClass \<longrightarrow> list_of c l = ys c) \<and>
    (let ms = (renameMap g)[t := bound xs (renameMap g ! t)]
     in bind_thread I t g = Inr (g\<lparr>freeList := l, renameMap := ms, commitRenameMap := ms\<rparr>))"
proof -
  let ?f = "regFile g" and ?m = "renameMap g ! t"
  have len: "length (arch_of c ?m) = num_regs I c" if "c \<noteq> MiscRegClass" for c using assms(3) that by (simp add: sized_def)
  define m1 where "m1 = set_map IntRegClass (xs IntRegClass) ?m"
  define m2 where "m2 = set_map FloatRegClass (xs FloatRegClass) m1"
  have step: "\<exists>l'. (\<forall>d. list_of d l' = (if d = c then ys c else list_of d l)) \<and>
      bind_regs get (put ?f) t [0..<num_regs I c] (g\<lparr>freeList := l, renameMap := (renameMap g)[t := m], commitRenameMap := (renameMap g)[t := m]\<rparr>) =
      Inr (g\<lparr>freeList := l', renameMap := (renameMap g)[t := set_map c (xs c) m], commitRenameMap := (renameMap g)[t := set_map c (xs c) m]\<rparr>)"
    if "\<And>l p ps. list_of c l = p # ps \<Longrightarrow> get l = Inr (p, set_list c ps l)" "c \<noteq> MiscRegClass"
      "\<And>r p m. \<lbrakk>phys_in ?f c p; r < length (arch_of c m)\<rbrakk> \<Longrightarrow> put ?f r p m = Inr (upd c r p m)"
      "list_of c l = xs c @ ys c" "length (arch_of c m) = num_regs I c" for c get put l m
    using bind_regs_ok [of c get ?f "put ?f" "xs c" t
        "g\<lparr>freeList := l, renameMap := (renameMap g)[t := m], commitRenameMap := (renameMap g)[t := m]\<rparr>" "ys c" 0]
      assms(1) assms(4) [OF that(2)] that by (simp add: Let_def cong: if_cong)
  have g: "g = g\<lparr>freeList := freeList g, renameMap := (renameMap g)[t := ?m], commitRenameMap := (renameMap g)[t := ?m]\<rparr>"
    using assms(2) by simp
  obtain l1 where l1: "\<forall>d. list_of d l1 = (if d = IntRegClass then ys IntRegClass else list_of d (freeList g))"
    "bind_regs getIntReg (setIntEntry ?f) t [0..<NumIntRegs I] g =
       Inr (g\<lparr>freeList := l1, renameMap := (renameMap g)[t := m1], commitRenameMap := (renameMap g)[t := m1]\<rparr>)"
    (is "_ = Inr ?g1")
    using step [of IntRegClass getIntReg setIntEntry "freeList g" ?m] get_laws(1) put_laws(1) assms(4) len g
    by (auto simp: m1_def num_regs_def)
  obtain l2 where l2: "\<forall>d. list_of d l2 = (if d = FloatRegClass then ys FloatRegClass else list_of d l1)"
    "bind_regs getFloatReg (setFloatEntry ?f) t [0..<NumFloatRegs I] ?g1 =
       Inr (g\<lparr>freeList := l2, renameMap := (renameMap g)[t := m2], commitRenameMap := (renameMap g)[t := m2]\<rparr>)"
    (is "_ = Inr ?g2")
    using step [of FloatRegClass getFloatReg setFloatEntry l1 m1] get_laws(2) put_laws(2) assms(4) len l1(1) by (auto simp: m1_def m2_def num_regs_def)
  obtain l3 where l3: "\<forall>d. list_of d l3 = (if d = CCRegClass then ys CCRegClass else list_of d l2)"
    "bind_regs getCCReg (setCCEntry ?f) t [0..<NumCCRegs I] ?g2 =
       Inr (g\<lparr>freeList := l3, renameMap := (renameMap g)[t := bound xs ?m], commitRenameMap := (renameMap g)[t := bound xs ?m]\<rparr>)"
    using step [of CCRegClass getCCReg setCCEntry l2 m2] get_laws(3) put_laws(3) assms(4) len l1(1) l2(1)
    by (auto simp: m1_def m2_def num_regs_def bound_def)
  have "list_of c l3 = ys c" if "c \<noteq> MiscRegClass" for c
    using l1(1) l2(1) l3(1) that by (cases c) simp_all
  then show ?thesis
    using l1(2) l2(2) l3(2) by (intro exI [of _ l3]) (simp add: bind_thread_def Let_def)
qed

lemma bind_threads_append: "bind_threads I (ts @ [t]) g = bindE (bind_threads I ts g) (bind_thread I t)"
  by (induction ts arbitrary: g) (auto simp: bindE_def split: sum.splits)

text \<open>The registers of a class that a thread starts with.\<close>

definition share :: "isa \<Rightarrow> phys_reg_file \<Rightarrow> nat \<Rightarrow> RegClass \<Rightarrow> nat list" where
  "share I f t c = take (num_regs I c) (drop (t * num_regs I c) (class_regs f c))"

lemma share_step:
  assumes "(t + 1) * num_regs I c \<le> length (class_regs f c)"
  shows "drop (t * num_regs I c) (class_regs f c) = share I f t c @ drop ((t + 1) * num_regs I c) (class_regs f c)"
    "length (share I f t c) = num_regs I c" "\<And>p. p \<in> set (share I f t c) \<Longrightarrow> phys_in f c p"
proof -
  show "drop (t * num_regs I c) (class_regs f c) = share I f t c @ drop ((t + 1) * num_regs I c) (class_regs f c)"
    unfolding share_def by (metis append_take_drop_id drop_drop add.commute mult_Suc Suc_eq_plus1)
  show "length (share I f t c) = num_regs I c" using assms by (simp add: share_def)
  show "phys_in f c p" if "p \<in> set (share I f t c)" for p
    using that class_regs_phys [of p f c] by (auto simp: share_def dest!: in_set_takeD in_set_dropD)
qed

lemma bind_threads_ok:
  assumes "sized I m" "regFile g = f" "renameMap g = replicate n m" "commitRenameMap g = replicate n m"
    "\<And>c. c \<noteq> MiscRegClass \<Longrightarrow> n * num_regs I c \<le> length (class_regs f c)"
    "\<And>c. c \<noteq> MiscRegClass \<Longrightarrow> list_of c (freeList g) = class_regs f c" "j \<le> n"
  shows "\<exists>l. (\<forall>c. c \<noteq> MiscRegClass \<longrightarrow> list_of c l = drop (j * num_regs I c) (class_regs f c)) \<and>
    (let ms = map (\<lambda>t. bound (share I f t) m) [0..<j] @ replicate (n - j) m
     in bind_threads I [0..<j] g = Inr (g\<lparr>freeList := l, renameMap := ms, commitRenameMap := ms\<rparr>))"
  using assms(7)
proof (induction j)
  case 0
  then show ?case using assms(3,4,6) by (intro exI [of _ "freeList g"]) (simp add: Let_def)
next
  case (Suc j)
  let ?ms = "\<lambda>j. map (\<lambda>t. bound (share I f t) m) [0..<j] @ replicate (n - j) m"
  obtain l where l: "\<forall>c. c \<noteq> MiscRegClass \<longrightarrow> list_of c l = drop (j * num_regs I c) (class_regs f c)"
    "bind_threads I [0..<j] g = Inr (g\<lparr>freeList := l, renameMap := ?ms j, commitRenameMap := ?ms j\<rparr>)" (is "_ = Inr ?g")
    using Suc by (auto simp: Let_def)
  have mj: "?ms j ! j = m" "j < length (?ms j)" using Suc.prems by (simp_all add: nth_append)
  have upd: "(?ms j)[j := bound (share I f j) m] = ?ms (Suc j)"
    using Suc.prems by (simp add: list_update_append Suc_diff_Suc [symmetric])
  have fits: "(j + 1) * num_regs I c \<le> length (class_regs f c)" if "c \<noteq> MiscRegClass" for c
    using assms(5) [OF that] mult_le_mono1 [OF Suc.prems, of "num_regs I c"] by simp
  have "\<exists>l. (\<forall>c. c \<noteq> MiscRegClass \<longrightarrow> list_of c l = drop ((j + 1) * num_regs I c) (class_regs f c)) \<and>
    (let ms = (renameMap ?g)[j := bound (share I f j) (renameMap ?g ! j)]
     in bind_thread I j ?g = Inr (?g\<lparr>freeList := l, renameMap := ms, commitRenameMap := ms\<rparr>))"
  proof (rule bind_thread_ok)
    show "sized I (renameMap ?g ! j)" using assms(1) mj by simp
    show "list_of c (freeList ?g) = share I f j c @ drop ((j + 1) * num_regs I c) (class_regs f c) \<and>
        length (share I f j c) = num_regs I c \<and> (\<forall>p \<in> set (share I f j c). phys_in (regFile ?g) c p)"
      if "c \<noteq> MiscRegClass" for c
      using l(1) share_step [OF fits [OF that]] that assms(2) by simp
  qed (use mj in simp_all)
  then obtain l' where "\<forall>c. c \<noteq> MiscRegClass \<longrightarrow> list_of c l' = drop ((j + 1) * num_regs I c) (class_regs f c)"
    "bind_thread I j ?g = Inr (g\<lparr>freeList := l', renameMap := ?ms (Suc j), commitRenameMap := ?ms (Suc j)\<rparr>)"
    using upd mj(1) by (auto simp: Let_def)
  with l(2) show ?case by (intro exI [of _ l']) (simp add: bind_threads_append Let_def)
qed

lemma shares_sum:
  "mset (drop (n * k) xs) + (\<Sum>t<n. mset (take k (drop (t * k) xs))) = mset xs"
proof (induction n)
  case (Suc n)
  have "mset (drop (n * k) xs) = mset (take k (drop (n * k) xs)) + mset (drop (Suc n * k) xs)"
    by (metis append_take_drop_id drop_drop mset_append mult_Suc)
  with Suc show ?case by (simp add: ac_simps)
qed simp

text \<open>The core as constructed, with every thread active and nothing in flight.\<close>

definition power_up :: "o3_regs \<Rightarrow> pipeline" where
  "power_up g = \<lparr>regs = g, in_flight = replicate (threads g) [], doneSeqNum = replicate (threads g) 0\<rparr>"

lemma FullO3CPU_new_inv:
  assumes "isa_ok I" "n * NumIntRegs I \<le> ni" "n * NumFloatRegs I \<le> nf" "n * NumCCRegs I \<le> nc"
  shows "\<exists>g. FullO3CPU_new I ni nf nc n n = Inr g \<and> threads g = n \<and> regFile g = PhysRegFile_new ni nf nc \<and>
    pipe_inv I (power_up g) \<and> (\<forall>t < n. \<forall>c. c \<noteq> MiscRegClass \<longrightarrow> arch_of c (renameMap g ! t) = share I (regFile g) t c)"
proof -
  define f where "f = PhysRegFile_new ni nf nc"
  define m where "m = UnifiedRenameMap_init I (ZeroReg I) (NumFloatRegs I + 1)"
  define g where "g = \<lparr>regFile = f, freeList = UnifiedFreeList_new f,
      scoreBoard = Scoreboard_new (totalNumRegs f) (NumMiscRegs I) (ZeroReg I) (ZeroReg I),
      renameMap = replicate n m, commitRenameMap = replicate n m, historyBuffer = replicate n []\<rparr>"
  have f: "rf_ok f" by (simp add: f_def rf_ok_new)
  have len: "length (class_regs f IntRegClass) = ni" "length (class_regs f FloatRegClass) = nf"
    "length (class_regs f CCRegClass) = nc"
    by (simp_all add: class_regs_def f_def PhysRegFile_new_def)
  have sz: "sized I m"
    unfolding sized_def m_def
    by (auto simp: UnifiedRenameMap_init_def SimpleRenameMap_init_def arch_of_def zero_of_def num_regs_def split: RegClass.splits)
  have fits: "n * num_regs I c \<le> length (class_regs f c)" if "c \<noteq> MiscRegClass" for c
    using assms(2-4) that len by (cases c) (simp_all add: num_regs_def)
  let ?ms = "map (\<lambda>t. bound (share I f t) m) [0..<n]"
  obtain l where l: "\<And>c. c \<noteq> MiscRegClass \<Longrightarrow> list_of c l = drop (n * num_regs I c) (class_regs f c)"
    "bind_threads I [0..<n] g = Inr (g\<lparr>freeList := l, renameMap := ?ms, commitRenameMap := ?ms\<rparr>)" (is "_ = Inr ?g")
    using bind_threads_ok [OF sz, of g f n n] fits UnifiedFreeList_new_classes [OF f]
    by (auto simp: g_def Let_def)
  have "FullO3CPU_new I ni nf nc n n = bind_threads I [0..<n] g"
    using assms by (simp add: FullO3CPU_new_def Let_def f_def m_def g_def isa_ok_def)
  with l(2) have new: "FullO3CPU_new I ni nf nc n n = Inr ?g" by simp
  have th: "threads ?g = n" by (simp add: threads_def)
  have cons: "mset (list_of c l) + (\<Sum>t<n. own I c (?ms ! t) (replicate n [] ! t)) = mset (class_regs f c)"
    if "c \<noteq> MiscRegClass" for c
  proof -
    have "(\<Sum>t<n. own I c (?ms ! t) (replicate n [] ! t)) = (\<Sum>t<n. mset (share I f t c))"
      using that by (intro sum.cong) (simp_all add: own_def prevs_def)
    with l(1) [OF that] shares_sum [of n "num_regs I c" "class_regs f c"] show ?thesis by (simp add: share_def)
  qed
  have zero: "arch_of IntRegClass (?ms ! 0) ! ZeroReg I = ZeroReg I" if "0 < n"
  proof -
    have "NumIntRegs I \<le> n * NumIntRegs I" using that by simp
    then have "ZeroReg I < ni" using assms(1,2) unfolding isa_ok_def by linarith
    then show ?thesis
      using that assms(1) by (simp add: share_def class_regs_def f_def PhysRegFile_new_def num_regs_def isa_ok_def)
  qed
  have "sb_ok I f (scoreBoard g)" by (simp add: g_def sb_ok_def Scoreboard_new_def)
  moreover have "sized I (bound (share I f t) m)" if "t < n" for t
    using sz share_step(2) [of t I _ f] fits that
      mult_le_mono1 [OF Suc_leI [OF that]] by (auto simp: sized_def intro: order_trans)
  ultimately have "rinv I ?g"
    using assms(1) f th cons zero by (simp add: rinv_def g_def)
  then have "pipe_inv I (power_up ?g)"
    using th by (simp add: pipe_inv_def power_up_def thread_inv_def g_def)
  with new th show ?thesis by (intro exI [of _ ?g]) (simp add: g_def f_def)
qed

lemma reachable_inv:
  assumes "isa_ok I" "FullO3CPU_new I ni nf nc n n = Inr g" "(pipe_step I)\<^sup>*\<^sup>* (power_up g) s"
  shows "pipe_inv I s"
proof -
  have "n * NumIntRegs I \<le> ni" "n * NumFloatRegs I \<le> nf" "n * NumCCRegs I \<le> nc"
    using assms(2) by (auto simp: FullO3CPU_new_def Let_def bindE_Inr_iff)
  then have "pipe_inv I (power_up g)" using FullO3CPU_new_inv [OF assms(1)] assms(2) by fastforce
  then show ?thesis using assms(3) pipe_steps_inv by blast
qed

text \<open>Older maps of a thread, back to the committed one, hold registers of the thread only.\<close>

lemma older_map_owned:
  assumes "rinv I g" "t < threads g" "historyBuffer g ! t = X @ Y" "c \<noteq> MiscRegClass"
  shows "own I c (undo I X (renameMap g ! t)) Y \<subseteq># own I c (renameMap g ! t) (historyBuffer g ! t)"
    "p \<in> set (arch_of c (undo I X (renameMap g ! t))) \<Longrightarrow> p \<in># own I c (renameMap g ! t) (historyBuffer g ! t)"
    "p \<in> set (arch_of c (undo I X (renameMap g ! t))) \<Longrightarrow> phys_in (regFile g) c p"
proof -
  have i: "isa_ok I" "sized I (renameMap g ! t)" "hist_ok I (regFile g) (X @ Y) (renameMap g ! t)"
    using assms(1-3) by (auto simp: rinv_def)
  show s: "own I c (undo I X (renameMap g ! t)) Y \<subseteq># own I c (renameMap g ! t) (historyBuffer g ! t)"
    using undo_own_subset [OF i assms(4)] assms(3) by simp
  show o: "p \<in># own I c (renameMap g ! t) (historyBuffer g ! t)" if "p \<in> set (arch_of c (undo I X (renameMap g ! t)))"
    using mset_subset_eqD [OF s, of p] that by (simp add: own_def)
  show "phys_in (regFile g) c p" if "p \<in> set (arch_of c (undo I X (renameMap g ! t)))"
    using rinv_once(2) [OF assms(1,2) o [OF that] assms(4)] .
qed

lemma commit_map:
  assumes "pipe_inv I s" "t < threads (regs s)"
  shows "\<exists>X Y. historyBuffer (regs s) ! t = X @ Y \<and> commitRenameMap (regs s) ! t = undo I X (renameMap (regs s) ! t)"
    "sized I (commitRenameMap (regs s) ! t)"
    "\<lbrakk>p \<in> set (arch_of c (commitRenameMap (regs s) ! t)); c \<noteq> MiscRegClass\<rbrakk> \<Longrightarrow> phys_in (regFile (regs s)) c p"
proof -
  note a = pipe_inv_at [OF assms]
  have sz: "sized I (renameMap (regs s) ! t)" using a(1) assms(2) by (simp add: rinv_def)
  show X: "\<exists>X Y. historyBuffer (regs s) ! t = X @ Y \<and> commitRenameMap (regs s) ! t = undo I X (renameMap (regs s) ! t)"
    using a(2) unfolding thread_inv_def by blast
  show "sized I (commitRenameMap (regs s) ! t)" using thread_inv_facts(3) [OF a(2)] sz by simp
  show "\<lbrakk>p \<in> set (arch_of c (commitRenameMap (regs s) ! t)); c \<noteq> MiscRegClass\<rbrakk> \<Longrightarrow> phys_in (regFile (regs s)) c p"
    using X older_map_owned(3) [OF a(1) assms(2)] by metis
qed

section \<open>A small core\<close>

text \<open>
  A machine with two integer registers, of which the second is the zero register, and one register
  of each other class, after renaming an instruction that writes an integer register, the zero
  register and a misc register.
\<close>

definition demo_isa :: isa where
  "demo_isa = \<lparr>NumIntRegs = 2, NumFloatRegs = 1, NumCCRegs = 1, NumMiscRegs = 1, ZeroReg = 1, FP_Reg_Base = 2,
     CC_Reg_Base = 3, Misc_Reg_Base = 4, Max_Reg_Index = 5, is_alpha = False\<rparr>"

text \<open>The instruction set the simulator is built for, ARM.\<close>

definition arm_isa :: isa where
  "arm_isa = (let ints = 43; floats = 128 + 32; ccs = 6; miscs = 606; maxmode = 31;
       fp = ints * (maxmode + 1); cc = fp + floats; misc = cc + ccs
     in \<lparr>NumIntRegs = ints, NumFloatRegs = floats, NumCCRegs = ccs, NumMiscRegs = miscs, ZeroReg = 34,
       FP_Reg_Base = fp, CC_Reg_Base = cc, Misc_Reg_Base = misc, Max_Reg_Index = misc + miscs, is_alpha = False\<rparr>)"

lemma arm_isa_ok: "isa_ok arm_isa"
  by (simp add: isa_ok_def arm_isa_def Let_def)

definition demo_map :: "nat \<Rightarrow> rename_map" where
  "demo_map p = \<lparr>intMap = \<lparr>arch_map = [p, 1], zeroReg = 1\<rparr>, floatMap = \<lparr>arch_map = [4], zeroReg = 2\<rparr>,
     ccMap = \<lparr>arch_map = [6], zeroReg = 65535\<rparr>\<rparr>"

definition demo_core :: o3_regs where
  "demo_core = \<lparr>regFile = PhysRegFile_new 4 2 2,
     freeList = \<lparr>intList = [2, 3], floatList = [5], ccList = [7]\<rparr>, scoreBoard = Scoreboard_new 8 1 1 1,
     renameMap = [demo_map 0], commitRenameMap = [demo_map 0], historyBuffer = [[]]\<rparr>"

definition demo_inst :: reg_inst where
  "demo_inst = \<lparr>seqNum = 1, srcRegIdx = [0, 2], destRegIdx = [0, 1, 4], renamedSrcRegIdx = [], readySrcRegIdx = [],
     flattenedDestRegIdx = [], renamedDestRegIdx = [], prevDestRegIdx = []\<rparr>"

definition demo_renamed :: reg_inst where
  "demo_renamed = demo_inst\<lparr>renamedSrcRegIdx := [0, 4], readySrcRegIdx := [True, True],
     flattenedDestRegIdx := [0, 1, 4], renamedDestRegIdx := [2, 1, 8], prevDestRegIdx := [0, 1, 8]\<rparr>"

definition demo_after :: o3_regs where
  "demo_after = demo_core\<lparr>freeList := \<lparr>intList = [3], floatList = [5], ccList = [7]\<rparr>,
     scoreBoard := (Scoreboard_new 8 1 1 1)\<lparr>regScoreBoard := [True, True, False, True, True, True, True, True]\<rparr>,
     renameMap := [demo_map 2], historyBuffer :=
       [[\<lparr>instSeqNum = 1, archReg = 4, newPhysReg = 8, prevPhysReg = 8\<rparr>,
         \<lparr>instSeqNum = 1, archReg = 1, newPhysReg = 1, prevPhysReg = 1\<rparr>,
         \<lparr>instSeqNum = 1, archReg = 0, newPhysReg = 2, prevPhysReg = 0\<rparr>]]\<rparr>"

definition demo_state :: pipeline where
  "demo_state = \<lparr>regs = demo_after, in_flight = [[demo_renamed]], doneSeqNum = [0]\<rparr>"

lemma demo_isa_ok: "isa_ok demo_isa"
  by (simp add: isa_ok_def demo_isa_def)

lemma demo_core_new: "FullO3CPU_new demo_isa 4 2 2 1 1 = Inr demo_core"
  by code_simp

lemma demo_run: "(pipe_step demo_isa)\<^sup>*\<^sup>* (power_up demo_core) demo_state"
proof -
  let ?s = "power_up demo_core"
  have "pipe_step demo_isa ?s (?s\<lparr>regs := demo_after, in_flight := (in_flight ?s)[0 := in_flight ?s ! 0 @ [demo_renamed]]\<rparr>)"
  proof (rule pipe_step.Rename)
    show "operands_ok demo_isa (\<lambda>_ r. r) 0 demo_inst" by code_simp
    show "rename_inst demo_isa (\<lambda>_ r. r) 0 demo_inst (regs ?s) = Inr (demo_renamed, demo_after)" by code_simp
    show "0 < threads (regs ?s)" "doneSeqNum ?s ! 0 < seqNum demo_inst" by code_simp+
    show "\<forall>j \<in> set (in_flight ?s ! 0). seqNum j < seqNum demo_inst" by code_simp
    show "canRename (num_dest demo_isa IntRegClass (destRegIdx demo_inst))
      (num_dest demo_isa FloatRegClass (destRegIdx demo_inst)) (num_dest demo_isa CCRegClass (destRegIdx demo_inst))
      (freeList (regs ?s))" by code_simp
  qed
  moreover have "?s\<lparr>regs := demo_after, in_flight := (in_flight ?s)[0 := in_flight ?s ! 0 @ [demo_renamed]]\<rparr> = demo_state"
    by code_simp
  ultimately show ?thesis by auto
qed

lemmas demo_facts = demo_isa_ok demo_core_new demo_run

section \<open>Guarantees\<close>

text \<open>
  C5: no physical register is lost and none is used twice: in every state the core reaches, a
  physical register is exactly once in a free list, in the rename map of a thread, or in a history
  as a mapping that may still be restored.
\<close>

theorem registers_conserved:
  assumes "isa_ok I" "FullO3CPU_new I ni nf nc n n = Inr g" "(pipe_step I)\<^sup>*\<^sup>* (power_up g) s"
    "c \<noteq> MiscRegClass" "p \<in> set (class_regs (regFile (regs s)) c)"
  shows "count (mset (list_of c (freeList (regs s)))) p +
    (\<Sum>t < threads (regs s). count (mset (arch_of c (renameMap (regs s) ! t))) p +
       count (mset (prevs I c (historyBuffer (regs s) ! t))) p) = 1"
proof -
  have eq: "mset (list_of c (freeList (regs s))) +
      (\<Sum>t<threads (regs s). own I c (renameMap (regs s) ! t) (historyBuffer (regs s) ! t)) =
      mset (class_regs (regFile (regs s)) c)"
    using reachable_inv [OF assms(1-3)] assms(4) by (simp add: pipe_inv_def rinv_def)
  have "count (mset (list_of c (freeList (regs s)))) p +
      (\<Sum>t<threads (regs s). count (own I c (renameMap (regs s) ! t) (historyBuffer (regs s) ! t)) p) =
      count (mset (class_regs (regFile (regs s)) c)) p"
    using arg_cong [OF eq, of "\<lambda>M. count M p"] by (simp add: count_sum)
  moreover have "count (mset (class_regs (regFile (regs s)) c)) p = 1"
    using assms(5) distinct_count_atmost_1 [of "class_regs (regFile (regs s)) c"] by simp
  ultimately show ?thesis by (simp add: own_def)
qed

theorem registers_conserved_witness:
  "count (mset (list_of IntRegClass (freeList (regs demo_state)))) 0 +
    (\<Sum>t < threads (regs demo_state). count (mset (arch_of IntRegClass (renameMap (regs demo_state) ! t))) 0 +
       count (mset (prevs demo_isa IntRegClass (historyBuffer (regs demo_state) ! t))) 0) = 1"
  by (rule registers_conserved [OF demo_facts]) code_simp+



text \<open>
  C4: precise state. Squashing everything younger than the last committed instruction succeeds and
  makes the rename map of the thread equal to the map of its committed state.
\<close>

theorem squash_precise:
  assumes "isa_ok I" "FullO3CPU_new I ni nf nc n n = Inr g" "(pipe_step I)\<^sup>*\<^sup>* (power_up g) s" "t < threads (regs s)"
  shows "\<exists>g'. doSquash I (doneSeqNum s ! t) t (regs s) = Inr g' \<and>
    renameMap g' ! t = commitRenameMap (regs s) ! t \<and> commitRenameMap g' = commitRenameMap (regs s)"
proof -
  have inv: "pipe_inv I s" by (rule reachable_inv [OF assms(1-3)])
  note a = pipe_inv_at [OF inv assms(4)]
  let ?P = "\<lambda>h. instSeqNum h > doneSeqNum s ! t"
  obtain D where D: "historyBuffer (regs s) ! t = pending (in_flight s ! t) @ D" "\<forall>h \<in> set D. instSeqNum h \<le> doneSeqNum s ! t"
    using a(2) unfolding thread_inv_def by blast
  have "takeWhile ?P (historyBuffer (regs s) ! t) = pending (in_flight s ! t)"
  proof -
    have "?P h" if "h \<in> set (pending (in_flight s ! t))" for h
      using pending_seq [OF that] thread_inv_facts(1) [OF a(2)] by auto
    then show ?thesis
      using while_split [of "pending (in_flight s ! t)" ?P D] D by (metis not_le)
  qed
  with doSquash_ok [OF a(1) assms(4), of "doneSeqNum s ! t"] thread_inv_facts(3) [OF a(2)] assms(4)
  show ?thesis by (auto simp: threads_def)
qed

theorem squash_precise_witness:
  "\<exists>g'. doSquash demo_isa (doneSeqNum demo_state ! 0) 0 (regs demo_state) = Inr g' \<and>
    renameMap g' ! 0 = commitRenameMap (regs demo_state) ! 0 \<and> commitRenameMap g' = commitRenameMap (regs demo_state)"
  by (rule squash_precise [OF demo_facts]) code_simp

text \<open>
  C12: a register that an instruction in flight still has to read is never on a free list, whatever
  has been renamed, committed, retired or squashed since.
\<close>

theorem operands_not_free:
  assumes "isa_ok I" "FullO3CPU_new I ni nf nc n n = Inr g" "(pipe_step I)\<^sup>*\<^sup>* (power_up g) s" "t < threads (regs s)"
    "i \<in> set (in_flight s ! t)" "p \<in> set (renamedSrcRegIdx i)"
  shows "p \<notin> set (list_of c (freeList (regs s)))"
proof
  assume free: "p \<in> set (list_of c (freeList (regs s)))"
  have inv: "pipe_inv I s" by (rule reachable_inv [OF assms(1-3)])
  note a = pipe_inv_at [OF inv assms(4)]
  have f: "rf_ok (regFile (regs s))" using a(1) by (simp add: rinv_def)
  have c: "c \<noteq> MiscRegClass" using free by (auto simp: list_of_def)
  have pc: "phys_in (regFile (regs s)) c p" using rinv_once(1) [OF a(1) assms(4) free] by simp
  obtain k where k: "k < length (in_flight s ! t)" "in_flight s ! t ! k = i" using assms(5) by (auto simp: in_set_conv_nth)
  obtain d where d: "d \<noteq> MiscRegClass"
    "p \<in> set (arch_of d (undo I (pending (drop k (in_flight s ! t))) (renameMap (regs s) ! t)))"
    using thread_inv_operand [OF a(2) k(1)] k(2) assms(6) phys_in_below [OF f pc c] by blast
  obtain Y where Y: "historyBuffer (regs s) ! t = pending (drop k (in_flight s ! t)) @ Y"
    using a(2) unfolding thread_inv_def by (metis append_assoc append_take_drop_id concat_append map_append rev_append)
  note o = older_map_owned [OF a(1) assms(4) Y d(1)]
  have "d = c" using phys_in_unique [OF f o(3) [OF d(2)] pc] .
  with o(2) [OF d(2)] rinv_once(1) [OF a(1) assms(4) free] show False by simp
qed

theorem operands_not_free_witness: "4 \<notin> set (list_of FloatRegClass (freeList (regs demo_state)))"
  by (rule operands_not_free [OF demo_facts, where t = 0 and i = demo_renamed]) code_simp+

end
