(* ===== verification/Arch_Registers.thy ===== *)
theory Arch_Registers
  imports Precise_State
begin

text \<open>
  Architectural register access of the core (\<open>readArchIntReg\<close> and its siblings in \<open>cpu/o3/cpu.cc\<close>)
  through the committed maps: the registers of all threads are independent variables. The zero
  register is one only for the first thread.
\<close>

section \<open>Access by class\<close>

definition read_phys :: "RegClass \<Rightarrow> nat \<Rightarrow> phys_reg_file \<Rightarrow> u64 res" where
  "read_phys c p f = (case c of IntRegClass \<Rightarrow> readIntReg p f
     | FloatRegClass \<Rightarrow> bindE (readFloatRegBits p f) (\<lambda>v. Inr (ucast v))
     | CCRegClass \<Rightarrow> readCCReg p f | MiscRegClass \<Rightarrow> Inl Panic)"

definition write_phys :: "isa \<Rightarrow> RegClass \<Rightarrow> nat \<Rightarrow> u64 \<Rightarrow> phys_reg_file \<Rightarrow> phys_reg_file res" where
  "write_phys I c p v f = (case c of IntRegClass \<Rightarrow> setIntReg I p v f
     | FloatRegClass \<Rightarrow> setFloatRegBits p (ucast v) f
     | CCRegClass \<Rightarrow> setCCReg p v f | MiscRegClass \<Rightarrow> Inl Panic)"

definition read_arch :: "RegClass \<Rightarrow> nat \<Rightarrow> nat \<Rightarrow> o3_regs \<Rightarrow> u64 res" where
  "read_arch c r t g = (case c of IntRegClass \<Rightarrow> readArchIntReg r t g
     | FloatRegClass \<Rightarrow> readArchFloatRegInt r t g
     | CCRegClass \<Rightarrow> readArchCCReg r t g | MiscRegClass \<Rightarrow> Inl Panic)"

definition write_arch :: "isa \<Rightarrow> RegClass \<Rightarrow> nat \<Rightarrow> u64 \<Rightarrow> nat \<Rightarrow> o3_regs \<Rightarrow> o3_regs res" where
  "write_arch I c r v t g = (case c of IntRegClass \<Rightarrow> setArchIntReg I r v t g
     | FloatRegClass \<Rightarrow> setArchFloatRegInt r v t g
     | CCRegClass \<Rightarrow> setArchCCReg r v t g | MiscRegClass \<Rightarrow> Inl Panic)"

text \<open>A floating-point register keeps the low 32 bits.\<close>

definition stored :: "RegClass \<Rightarrow> u64 \<Rightarrow> u64" where
  "stored c v = (if c = FloatRegClass then ucast (ucast v :: u32) else v)"

lemma read_arch_phys:
  assumes "t < length (commitRenameMap g)" "c \<noteq> MiscRegClass"
    "lookup_class c (regFile g) r (commitRenameMap g ! t) = Inr p"
  shows "read_arch c r t g = read_phys c p (regFile g)"
  using assms by (cases c) (simp_all add: read_arch_def read_phys_def lookup_class_def readArchIntReg_def
      readArchFloatRegInt_def readArchCCReg_def rd_of_nat)

lemma write_arch_phys:
  assumes "t < length (commitRenameMap g)" "c \<noteq> MiscRegClass"
    "lookup_class c (regFile g) r (commitRenameMap g ! t) = Inr p"
  shows "write_arch I c r v t g = bindE (write_phys I c p v (regFile g)) (\<lambda>f. Inr (g\<lparr>regFile := f\<rparr>))"
  using assms by (cases c) (simp_all add: write_arch_def write_phys_def lookup_class_def setArchIntReg_def
      setArchFloatRegInt_def setArchCCReg_def rd_of_nat)

lemma rd_list_update:
  "rd (xs[i := v]) (int j) = (if j = i \<and> i < length xs then Inr v else rd xs (int j))"
  by (auto simp: rd_def)

lemma write_phys_read:
  assumes "rf_ok f" "c \<noteq> MiscRegClass" "phys_in f c p"
  shows "\<exists>f'. write_phys I c p v f = Inr f' \<and> baseFloatRegIndex f' = baseFloatRegIndex f \<and>
    baseCCRegIndex f' = baseCCRegIndex f \<and> totalNumRegs f' = totalNumRegs f \<and>
    (\<forall>d q. phys_in f d q \<longrightarrow> read_phys d q f' =
      (if d = c \<and> q = p \<and> \<not> (c = IntRegClass \<and> p = ZeroReg I) then Inr (stored c v) else read_phys d q f))"
proof (cases c)
  case IntRegClass
  then have p: "p < length (intRegFile f)" "isIntPhysReg f p" using assms by (auto simp: phys_in_def rf_ok_def isIntPhysReg_def)
  show ?thesis
    using p IntRegClass
    by (cases "p = ZeroReg I") (auto simp: write_phys_def setIntReg_def wr_of_nat read_phys_def readIntReg_def
        readFloatRegBits_def readCCReg_def class_defs rd_list_update stored_def split: RegClass.splits simp del: of_nat_diff)
next
  case FloatRegClass
  define i where "i = p - baseFloatRegIndex f"
  have p: "i < length (floatRegFile f)" "isFloatPhysReg f p"
    using assms FloatRegClass by (auto simp: phys_in_def rf_ok_def isFloatPhysReg_def i_def)
  have j: "q - baseFloatRegIndex f = i \<longleftrightarrow> q = p" if "isFloatPhysReg f q" for q
    using that p(2) by (auto simp: i_def isFloatPhysReg_def)
  show ?thesis
    using p FloatRegClass j
    by (auto simp: write_phys_def setFloatRegBits_def wr_of_nat i_def [symmetric] read_phys_def readIntReg_def
        readFloatRegBits_def readCCReg_def phys_in_def isIntPhysReg_def isFloatPhysReg_def isCCPhysReg_def
        rd_list_update stored_def split: RegClass.splits simp del: of_nat_diff)
next
  case CCRegClass
  define i where "i = p - baseCCRegIndex f"
  have p: "i < length (ccRegFile f)" "isCCPhysReg f p"
    using assms CCRegClass by (auto simp: phys_in_def rf_ok_def isCCPhysReg_def i_def)
  have j: "q - baseCCRegIndex f = i \<longleftrightarrow> q = p" if "isCCPhysReg f q" for q
    using that p(2) by (auto simp: i_def isCCPhysReg_def)
  show ?thesis
    using p CCRegClass j
    by (auto simp: write_phys_def setCCReg_def wr_of_nat i_def [symmetric] read_phys_def readIntReg_def
        readFloatRegBits_def readCCReg_def phys_in_def isIntPhysReg_def isFloatPhysReg_def isCCPhysReg_def
        rd_list_update stored_def split: RegClass.splits simp del: of_nat_diff)
qed (use assms in simp)

section \<open>Committed maps do not overlap\<close>

lemma commit_owned:
  assumes "pipe_inv I s" "t < threads (regs s)" "c \<noteq> MiscRegClass"
  shows "mset (arch_of c (commitRenameMap (regs s) ! t)) \<subseteq>#
    own I c (renameMap (regs s) ! t) (historyBuffer (regs s) ! t)"
proof -
  obtain X Y where X: "historyBuffer (regs s) ! t = X @ Y" "commitRenameMap (regs s) ! t = undo I X (renameMap (regs s) ! t)"
    using commit_map(1) [OF assms(1,2)] by blast
  have "mset (arch_of c (commitRenameMap (regs s) ! t)) \<subseteq># own I c (undo I X (renameMap (regs s) ! t)) Y"
    by (simp add: own_def X(2))
  also have "\<dots> \<subseteq># own I c (renameMap (regs s) ! t) (historyBuffer (regs s) ! t)"
    by (rule older_map_owned(1) [OF pipe_inv_at(1) [OF assms(1,2)] assms(2) X(1) assms(3)])
  finally show ?thesis .
qed

lemma commit_inj:
  assumes "pipe_inv I s" "t < threads (regs s)" "u < threads (regs s)" "c \<noteq> MiscRegClass"
    "r < num_regs I c" "q < num_regs I c"
    "arch_of c (commitRenameMap (regs s) ! t) ! r = arch_of c (commitRenameMap (regs s) ! u) ! q"
  shows "t = u \<and> r = q"
proof -
  let ?o = "\<lambda>t. own I c (renameMap (regs s) ! t) (historyBuffer (regs s) ! t)"
  let ?a = "\<lambda>t. arch_of c (commitRenameMap (regs s) ! t)"
  have len: "length (?a t) = num_regs I c" "length (?a u) = num_regs I c"
    using commit_map(2) [OF assms(1)] assms(2-4) by (simp_all add: sized_def)
  have "?a t ! r \<in># ?o t" "?a u ! q \<in># ?o u"
    using mset_subset_eqD [OF commit_owned [OF assms(1,2,4)]] mset_subset_eqD [OF commit_owned [OF assms(1,3,4)]]
      len assms(5,6) nth_mem by (metis set_mset_mset)+
  then have tu: "t = u"
    using rinv_once(4) [OF pipe_inv_at(1) [OF assms(1,2)] assms(2,4,3)] assms(7) by fastforce
  have "count (mset (?a t)) x \<le> 1" for x
    using mset_subset_eq_count [OF commit_owned [OF assms(1,2,4)], of x]
      rinv_once(3) [OF pipe_inv_at(1) [OF assms(1,2)] assms(2,4), of x] by linarith
  then have "distinct (?a t)"
    unfolding distinct_count_atmost_1 by (metis (no_types) count_greater_eq_one_iff count_mset_0_iff le_antisym set_mset_mset)
  with tu len assms(5-7) show ?thesis by (metis nth_eq_iff_index_eq)
qed

lemma commit_zero:
  assumes "pipe_inv I s" "0 < threads (regs s)"
  shows "arch_of IntRegClass (commitRenameMap (regs s) ! 0) ! ZeroReg I = ZeroReg I"
proof -
  have r: "rinv I (regs s)" using assms(1) by (simp add: pipe_inv_def)
  obtain X Y where X: "historyBuffer (regs s) ! 0 = X @ Y" "commitRenameMap (regs s) ! 0 = undo I X (renameMap (regs s) ! 0)"
    using commit_map(1) [OF assms] by blast
  have "hist_ok I (regFile (regs s)) (X @ Y) (renameMap (regs s) ! 0)"
    using r assms(2) X(1) by (metis rinv_def)
  then have "hist_ok I (regFile (regs s)) X (renameMap (regs s) ! 0)" by (simp add: hist_ok_append)
  with zero_undo [of I] X(2) r assms(2) show ?thesis by (simp add: rinv_def)
qed



section \<open>The zero register of further threads\<close>

text \<open>
  C37: renaming the zero register as a destination fails an assertion on every thread but the first:
  the assertion compares the mapping with the architectural number, and the initial mapping gives
  further threads other physical registers.
\<close>

theorem zero_register_asserts:
  assumes "isa_ok I" "FullO3CPU_new I ni nf nc n n = Inr g" "0 < t" "t < n" "a < Max_Reg_Index I"
    "flat_reg I flat a = (IntRegClass, ZeroReg I)"
  shows "renameDestReg I flat t a inst g = Inl AssertFail"
proof -
  have fits: "n * NumIntRegs I \<le> ni" "n * NumFloatRegs I \<le> nf" "n * NumCCRegs I \<le> nc"
    using assms(2) by (auto simp: FullO3CPU_new_def Let_def bindE_Inr_iff)
  then have g: "threads g = n" "pipe_inv I (power_up g)" "regFile g = PhysRegFile_new ni nf nc"
    "arch_of IntRegClass (renameMap g ! t) = share I (regFile g) t IntRegClass"
    using FullO3CPU_new_inv [OF assms(1)] assms(2,4) by fastforce+
  have r: "rinv I g" using g(2) by (simp add: pipe_inv_def power_up_def)
  have z: "ZeroReg I < NumIntRegs I" using assms(1) by (simp add: isa_ok_def)
  have sz: "sized I (renameMap g ! t)" using r g(1) assms(4) by (simp add: rinv_def)
  then have l: "ZeroReg I < length (arch_of IntRegClass (renameMap g ! t))" "zero_of IntRegClass (renameMap g ! t) = ZeroReg I"
    using z by (simp_all add: sized_def num_regs_def)
  have "Suc t * NumIntRegs I \<le> n * NumIntRegs I" using assms(4) by (intro mult_le_mono1) simp
  then have "t * NumIntRegs I + ZeroReg I < ni" using z fits(1) by simp
  then have "arch_of IntRegClass (renameMap g ! t) ! ZeroReg I = t * NumIntRegs I + ZeroReg I"
    using g(3,4) z by (simp add: share_def class_regs_def num_regs_def PhysRegFile_new_def)
  moreover have "0 < t * NumIntRegs I" using assms(3) z by simp
  ultimately have ne: "arch_of IntRegClass (renameMap g ! t) ! ZeroReg I \<noteq> ZeroReg I" by simp
  obtain x where x: "reg_of I a = (IntRegClass, x)" "flat IntRegClass x = ZeroReg I"
    using assms(6) by (auto simp: flat_reg_def split: prod.splits if_splits)
  have "renameInt (regFile g) (ZeroReg I) (renameMap g ! t) (freeList g) = Inl AssertFail"
    using l ne by (simp add: renameInt_def SimpleRenameMap_rename_def rd_of_nat arch_of_def zero_of_def assertE_def)
  with x assms(4,5) g(1) show ?thesis
    by (simp add: renameDestReg_def regIdxToClass_reg_of rd_of_nat threads_def Let_def)
qed

lemma demo_two_threads: "\<exists>g. FullO3CPU_new demo_isa 4 2 2 2 2 = Inr g"
  using FullO3CPU_new_inv [OF demo_isa_ok, of 2 4 2 2] by (auto simp: demo_isa_def)

theorem zero_register_asserts_witness:
  "\<exists>g. FullO3CPU_new demo_isa 4 2 2 2 2 = Inr g \<and> renameDestReg demo_isa (\<lambda>_ r. r) 1 1 demo_inst g = Inl AssertFail"
proof -
  obtain g where g: "FullO3CPU_new demo_isa 4 2 2 2 2 = Inr g" using demo_two_threads by blast
  have "1 < Max_Reg_Index demo_isa" "flat_reg demo_isa (\<lambda>_ r. r) 1 = (IntRegClass, ZeroReg demo_isa)" by code_simp+
  with zero_register_asserts [OF demo_isa_ok g, of 1 1 "\<lambda>_ r. r" demo_inst] g show ?thesis by auto
qed

end
