(* ===== verification/Cache_Block.thy ===== *)
theory Cache_Block
  imports Guardian_Prelude
begin

text \<open>
  Cache blocks (\<open>mem/cache/blk.hh\<close>): the status bits, the load-locked reservations of a block and
  the checks of a write against them, with the fields of \<open>Request\<close> (\<open>mem/request.hh\<close>) and \<open>Packet\<close> they
  read. A field of a request with a validity flag is an option, and its accessor asserts the flag.
\<close>

section \<open>Requests and packets\<close>

record request =
  req_paddr :: "u64 option"
  req_size :: "u32 option"
  req_contextId :: "int option"
  req_masterId :: u16
  req_flags :: u32
  req_taskId :: u32
  req_extraData :: "u64 option"

definition invldMasterId :: u16 where
  "invldMasterId = - 1"

definition Unknown_task :: u32 where
  "Unknown_task = 1024"

text \<open>The constructor for a physical request with a context.\<close>

definition Request_phys :: "u64 \<Rightarrow> u32 \<Rightarrow> u32 \<Rightarrow> u16 \<Rightarrow> int \<Rightarrow> request" where
  "Request_phys paddr sz flags mid cid =
     \<lparr>req_paddr = Some paddr, req_size = Some sz, req_contextId = Some cid, req_masterId = mid, req_flags = flags,
      req_taskId = Unknown_task, req_extraData = None\<rparr>"

definition valid_flag :: "'a option \<Rightarrow> 'a res" where
  "valid_flag f = (case f of None \<Rightarrow> Inl AssertFail | Some x \<Rightarrow> Inr x)"

definition getPaddr :: "request \<Rightarrow> u64 res" where
  "getPaddr r = valid_flag (req_paddr r)"

definition getSize :: "request \<Rightarrow> u32 res" where
  "getSize r = valid_flag (req_size r)"

definition contextId :: "request \<Rightarrow> int res" where
  "contextId r = valid_flag (req_contextId r)"

definition setExtraData :: "u64 \<Rightarrow> request \<Rightarrow> request" where
  "setExtraData d r = r\<lparr>req_extraData := Some d\<rparr>"

text \<open>Reading the result of a store conditional that has none gives 1.\<close>

definition getExtraData :: "request \<Rightarrow> u64" where
  "getExtraData r = (case req_extraData r of None \<Rightarrow> 1 | Some d \<Rightarrow> d)"

record packet =
  pkt_req :: request
  pkt_addr :: u64
  pkt_isLLSC :: bool
  pkt_isWrite :: bool

section \<open>Blocks\<close>

definition BlkValid :: u32 where "BlkValid = 0x01"
definition BlkWritable :: u32 where "BlkWritable = 0x02"
definition BlkReadable :: u32 where "BlkReadable = 0x04"
definition BlkDirty :: u32 where "BlkDirty = 0x08"
definition BlkHWPrefetched :: u32 where "BlkHWPrefetched = 0x20"
definition BlkSecure :: u32 where "BlkSecure = 0x40"

lemmas status_bits =
  BlkValid_def BlkWritable_def BlkReadable_def BlkDirty_def BlkHWPrefetched_def BlkSecure_def

record lock =
  lock_contextId :: int
  lowAddr :: u64
  highAddr :: u64

text \<open>The field \<open>data\<close> points into the data array of the tag store: it is an index, or null.\<close>

record cache_blk =
  blk_task_id :: u32
  blk_asid :: int
  blk_tag :: u64
  blk_data :: "nat option"
  blk_size :: u32
  blk_status :: u32
  blk_whenReady :: u64
  blk_set :: int
  blk_way :: int
  blk_isTouched :: bool
  blk_refCount :: u32
  blk_srcMasterId :: int
  blk_tickInserted :: u64
  blk_timestamp :: u64
  blk_lockList :: "lock list"

definition CacheBlk_new :: cache_blk where
  "CacheBlk_new =
     \<lparr>blk_task_id = Unknown_task, blk_asid = - 1, blk_tag = 0, blk_data = None, blk_size = 0,
      blk_status = 0, blk_whenReady = 0, blk_set = - 1, blk_way = - 1, blk_isTouched = False,
      blk_refCount = 0, blk_srcMasterId = int (unat invldMasterId), blk_tickInserted = 0,
      blk_timestamp = 0, blk_lockList = []\<rparr>"

definition isWritable :: "cache_blk \<Rightarrow> bool" where
  "isWritable b = (let needed_bits = BlkWritable OR BlkValid in blk_status b AND needed_bits = needed_bits)"

definition isReadable :: "cache_blk \<Rightarrow> bool" where
  "isReadable b = (let needed_bits = BlkReadable OR BlkValid in blk_status b AND needed_bits = needed_bits)"

definition isValid :: "cache_blk \<Rightarrow> bool" where
  "isValid b = (blk_status b AND BlkValid \<noteq> 0)"

definition CacheBlk_invalidate :: "cache_blk \<Rightarrow> cache_blk" where
  "CacheBlk_invalidate b = b\<lparr>blk_status := 0, blk_isTouched := False, blk_lockList := []\<rparr>"

definition isDirty :: "cache_blk \<Rightarrow> bool" where
  "isDirty b = (blk_status b AND BlkDirty \<noteq> 0)"

definition wasPrefetched :: "cache_blk \<Rightarrow> bool" where
  "wasPrefetched b = (blk_status b AND BlkHWPrefetched \<noteq> 0)"

definition isSecure :: "cache_blk \<Rightarrow> bool" where
  "isSecure b = (blk_status b AND BlkSecure \<noteq> 0)"

text \<open>The letter of the coherence state that \<open>print\<close> shows.\<close>

definition state_letter :: "cache_blk \<Rightarrow> char" where
  "state_letter b =
     (case (isWritable b, isDirty b, isValid b) of
        (True, True, True) \<Rightarrow> CHR ''M''
      | (False, True, True) \<Rightarrow> CHR ''O''
      | (True, False, True) \<Rightarrow> CHR ''E''
      | (False, False, True) \<Rightarrow> CHR ''S''
      | (False, False, False) \<Rightarrow> CHR ''I''
      | _ \<Rightarrow> CHR ''T'')"

section \<open>Load-locked reservations\<close>

definition Lock_matches :: "lock \<Rightarrow> request \<Rightarrow> bool res" where
  "Lock_matches l r =
     bindE (getPaddr r) (\<lambda>req_low.
     bindE (getSize r) (\<lambda>sz.
     let req_high = req_low + ucast sz - 1 in
     bindE (contextId r) (\<lambda>c.
     Inr (lock_contextId l = c \<and> lowAddr l \<le> req_low \<and> req_high \<le> highAddr l))))"

definition Lock_intersects :: "lock \<Rightarrow> request \<Rightarrow> bool res" where
  "Lock_intersects l r =
     bindE (getPaddr r) (\<lambda>req_low.
     bindE (getSize r) (\<lambda>sz.
     let req_high = req_low + ucast sz - 1 in
     Inr (req_low \<le> highAddr l \<and> lowAddr l \<le> req_high)))"

definition Lock_new :: "request \<Rightarrow> lock res" where
  "Lock_new r =
     bindE (contextId r) (\<lambda>c.
     bindE (getPaddr r) (\<lambda>low.
     bindE (getSize r) (\<lambda>sz.
     Inr \<lparr>lock_contextId = c, lowAddr = low, highAddr = low + ucast sz - 1\<rparr>)))"

fun erase_intersecting :: "request \<Rightarrow> lock list \<Rightarrow> lock list res" where
  "erase_intersecting r [] = Inr []"
| "erase_intersecting r (l # ls) =
     bindE (Lock_intersects l r) (\<lambda>hit.
     bindE (erase_intersecting r ls) (\<lambda>ls'. Inr (if hit then ls' else l # ls')))"

definition trackLoadLocked :: "packet \<Rightarrow> cache_blk \<Rightarrow> cache_blk res" where
  "trackLoadLocked pkt b =
     bindE (assertE (pkt_isLLSC pkt)) (\<lambda>_.
     bindE (erase_intersecting (pkt_req pkt) (blk_lockList b)) (\<lambda>ls.
     bindE (Lock_new (pkt_req pkt)) (\<lambda>l.
     Inr (b\<lparr>blk_lockList := l # ls\<rparr>))))"

fun clear_locks :: "request \<Rightarrow> lock list \<Rightarrow> lock list res" where
  "clear_locks r [] = Inr []"
| "clear_locks r (l # ls) =
     bindE (Lock_intersects l r) (\<lambda>hit.
     bindE (if hit then bindE (contextId r) (\<lambda>c. Inr (lock_contextId l \<noteq> c)) else Inr False) (\<lambda>kill.
     bindE (clear_locks r ls) (\<lambda>ls'. Inr (if kill then ls' else l # ls'))))"

definition clearLoadLocks :: "request \<Rightarrow> cache_blk \<Rightarrow> cache_blk res" where
  "clearLoadLocks r b = bindE (clear_locks r (blk_lockList b)) (\<lambda>ls. Inr (b\<lparr>blk_lockList := ls\<rparr>))"

text \<open>The search of a store conditional: the first matching lock is erased.\<close>

fun take_match :: "request \<Rightarrow> lock list \<Rightarrow> (bool \<times> lock list) res" where
  "take_match r [] = Inr (False, [])"
| "take_match r (l # ls) =
     bindE (Lock_matches l r) (\<lambda>hit.
     if hit then Inr (True, ls)
     else bindE (take_match r ls) (\<lambda>(success, ls'). Inr (success, l # ls')))"

definition checkWrite :: "packet \<Rightarrow> cache_blk \<Rightarrow> (bool \<times> packet \<times> cache_blk) res" where
  "checkWrite pkt b =
     bindE (assertE (pkt_isWrite pkt)) (\<lambda>_.
     if \<not> pkt_isLLSC pkt \<and> blk_lockList b = [] then Inr (True, pkt, b)
     else if pkt_isLLSC pkt
     then bindE (take_match (pkt_req pkt) (blk_lockList b)) (\<lambda>(success, ls).
       let r = setExtraData (if success then 1 else 0) (pkt_req pkt) in
       bindE (clearLoadLocks r (b\<lparr>blk_lockList := ls\<rparr>)) (\<lambda>b.
       Inr (success, pkt\<lparr>pkt_req := r\<rparr>, b)))
     else bindE (clearLoadLocks (pkt_req pkt) b) (\<lambda>b. Inr (True, pkt, b)))"

section \<open>Valid requests\<close>

text \<open>
  The first and the last byte of a request. A request is in range when it has all its fields, covers
  at least one byte and does not wrap around the address space.
\<close>

definition rlow :: "request \<Rightarrow> nat" where
  "rlow r = unat (the (req_paddr r))"

definition rend :: "request \<Rightarrow> nat" where
  "rend r = rlow r + unat (the (req_size r))"

definition rctx :: "request \<Rightarrow> int" where
  "rctx r = the (req_contextId r)"

definition in_range :: "request \<Rightarrow> bool" where
  "in_range r \<longleftrightarrow> req_paddr r \<noteq> None \<and> req_size r \<noteq> None \<and> req_contextId r \<noteq> None \<and>
     rlow r < rend r \<and> rend r \<le> 2 ^ 64"

definition overlap :: "request \<Rightarrow> request \<Rightarrow> bool" where
  "overlap r s \<longleftrightarrow> rlow r < rend s \<and> rlow s < rend r"

lemma overlap_iff_bytes:
  "overlap r s \<longleftrightarrow> {rlow r..<rend r} \<inter> {rlow s..<rend s} \<noteq> {}" if "in_range r" "in_range s"
proof
  assume "overlap r s"
  with that have "max (rlow r) (rlow s) \<in> {rlow r..<rend r} \<inter> {rlow s..<rend s}"
    by (auto simp: overlap_def in_range_def)
  then show "{rlow r..<rend r} \<inter> {rlow s..<rend s} \<noteq> {}" by blast
qed (auto simp: overlap_def)

lemma overlap_sym: "overlap r s \<longleftrightarrow> overlap s r"
  by (auto simp: overlap_def)

lemma in_range_high:
  assumes "in_range r"
  obtains p n c where "req_paddr r = Some p" "req_size r = Some n" "req_contextId r = Some c"
    "rlow r = unat p" "rctx r = c" "Suc (unat (p + ucast n - 1)) = rend r"
proof -
  obtain p n c where f: "req_paddr r = Some p" "req_size r = Some n" "req_contextId r = Some c"
    using assms by (auto simp: in_range_def)
  have r: "rlow r = unat p" "rend r = unat p + unat n" by (simp_all add: rlow_def rend_def f)
  with assms have b: "0 < unat n" "unat p + unat n \<le> 2 ^ 64" by (simp_all add: in_range_def)
  have "p + ucast n - 1 = (word_of_nat (unat p + unat n - 1) :: u64)"
  proof -
    have "(word_of_nat (unat p + unat n - 1) :: u64) = word_of_nat (unat p + unat n) - 1"
      using b(1) by (simp add: of_nat_diff)
    also have "\<dots> = p + ucast n - 1" by simp
    finally show ?thesis ..
  qed
  then have "unat (p + ucast n - 1) = unat (word_of_nat (unat p + unat n - 1) :: u64)" by (rule arg_cong)
  also have "\<dots> = unat p + unat n - 1" by (subst unat_of_nat) (use b in simp)
  finally have "unat (p + ucast n - 1) = unat p + unat n - 1" .
  with b(1) r have "Suc (unat (p + ucast n - 1)) = rend r" by simp
  with f r show thesis by (intro that) (simp_all add: rctx_def)
qed

text \<open>A lock as a request would have set it.\<close>

definition lock_of :: "request \<Rightarrow> lock" where
  "lock_of r = \<lparr>lock_contextId = rctx r, lowAddr = the (req_paddr r),
     highAddr = the (req_paddr r) + ucast (the (req_size r)) - 1\<rparr>"

definition lock_hits :: "lock \<Rightarrow> request \<Rightarrow> bool" where
  "lock_hits l r \<longleftrightarrow> rlow r \<le> unat (highAddr l) \<and> unat (lowAddr l) < rend r"

definition lock_covers :: "lock \<Rightarrow> request \<Rightarrow> bool" where
  "lock_covers l r \<longleftrightarrow> lock_contextId l = rctx r \<and> unat (lowAddr l) \<le> rlow r \<and> rend r \<le> Suc (unat (highAddr l))"

lemma lock_in_range:
  assumes "in_range r"
  shows "Lock_new r = Inr (lock_of r)" "Lock_matches l r = Inr (lock_covers l r)"
    "Lock_intersects l r = Inr (lock_hits l r)" "contextId r = Inr (rctx r)"
  by (rule in_range_high [OF assms],
    auto simp: Lock_new_def Lock_matches_def Lock_intersects_def lock_of_def lock_covers_def lock_hits_def
      getPaddr_def getSize_def contextId_def valid_flag_def Let_def word_le_nat_alt)+

lemma lock_of_range:
  assumes "in_range r"
  shows "lock_contextId (lock_of r) = rctx r" "unat (lowAddr (lock_of r)) = rlow r"
    "Suc (unat (highAddr (lock_of r))) = rend r"
  by (rule in_range_high [OF assms], simp add: lock_of_def)+

lemma erase_intersecting_filter:
  "in_range r \<Longrightarrow> erase_intersecting r ls = Inr (filter (\<lambda>l. \<not> lock_hits l r) ls)"
  by (induction ls) (simp_all add: lock_in_range)

lemma clear_locks_filter:
  "in_range r \<Longrightarrow> clear_locks r ls = Inr (filter (\<lambda>l. \<not> (lock_hits l r \<and> lock_contextId l \<noteq> rctx r)) ls)"
  by (induction ls) (simp_all add: lock_in_range)

lemma in_range_setExtraData [simp]:
  "in_range (setExtraData d r) = in_range r" "rlow (setExtraData d r) = rlow r"
  "rend (setExtraData d r) = rend r" "rctx (setExtraData d r) = rctx r"
  by (simp_all add: in_range_def rlow_def rend_def rctx_def setExtraData_def)

lemma lock_hits_setExtraData [simp]: "lock_hits l (setExtraData d r) = lock_hits l r"
  by (simp add: lock_hits_def)

end
