(* ===== verification/Cache_Tags.thy ===== *)
theory Cache_Tags
  imports Cache_Block Int_Math
begin

text \<open>
  The set-associative tag store (\<open>mem/cache/tags/base.hh\<close>, \<open>mem/cache/tags/base.cc\<close>,
  \<open>mem/cache/tags/base_set_assoc.hh\<close>, \<open>mem/cache/tags/base_set_assoc.cc\<close>, \<open>mem/cache/tags/cacheset.hh\<close>) with
  its two replacement policies (\<open>mem/cache/tags/lru.cc\<close>, \<open>mem/cache/tags/random_repl.cc\<close>). A block pointer
  is an index into the array of blocks, and a set is the list of its pointers, whose length is its
  associativity. The current tick, the clock period of the cache and the number of requestors are in
  the environment of an operation. Statistics are counted exactly.
\<close>

section \<open>Sets\<close>

text \<open>\<open>CacheSet::findBlk\<close>: the pointer found, if any, and the way, which is the associativity if none is.\<close>

fun findBlk_loop :: "cache_blk list \<Rightarrow> u64 \<Rightarrow> bool \<Rightarrow> nat \<Rightarrow> nat list \<Rightarrow> nat option \<times> nat" where
  "findBlk_loop bs tag is_secure i [] = (None, i)"
| "findBlk_loop bs tag is_secure i (p # ps) =
     (if blk_tag (bs ! p) = tag \<and> isValid (bs ! p) \<and> isSecure (bs ! p) = is_secure then (Some p, i)
      else findBlk_loop bs tag is_secure (i + 1) ps)"

definition findBlk :: "cache_blk list \<Rightarrow> nat list \<Rightarrow> u64 \<Rightarrow> bool \<Rightarrow> nat option \<times> nat" where
  "findBlk bs ps tag is_secure = findBlk_loop bs tag is_secure 0 ps"

function head_loop :: "nat list \<Rightarrow> nat \<Rightarrow> nat \<Rightarrow> nat \<Rightarrow> nat list res" where
  "head_loop ps i nxt blk =
     (if i < length ps
      then let old = ps ! i; ps = ps[i := nxt] in
           if old \<noteq> blk then head_loop ps (i + 1) old blk else Inr ps
      else Inl AssertFail)"
  by pat_completeness auto
termination by (relation "measure (\<lambda>(ps, i, _). length ps - i)") auto

definition moveToHead :: "nat \<Rightarrow> nat list \<Rightarrow> nat list res" where
  "moveToHead blk ps =
     bindE (rd ps 0) (\<lambda>h. if h = blk then Inr ps else head_loop ps 0 blk blk)"

text \<open>The loop to the tail; its index is one less than the argument.\<close>

fun tail_loop :: "nat list \<Rightarrow> nat \<Rightarrow> nat \<Rightarrow> nat \<Rightarrow> nat list res" where
  "tail_loop ps 0 nxt blk = Inl AssertFail"
| "tail_loop ps (Suc i) nxt blk =
     (let old = ps ! i; ps = ps[i := nxt] in
      if old \<noteq> blk then tail_loop ps i old blk else Inr ps)"

definition moveToTail :: "nat \<Rightarrow> nat list \<Rightarrow> nat list res" where
  "moveToTail blk ps =
     bindE (rd ps (int (length ps) - 1)) (\<lambda>l. if l = blk then Inr ps else tail_loop ps (length ps) blk blk)"

section \<open>The tag store\<close>

record tag_geom =
  blkSize :: u32
  assoc :: u32
  numSets :: u32
  setShift :: nat
  tagShift :: nat
  setMask :: u32
  blkMask :: u32
  lookupLatency :: u64
  accessLatency :: u64
  sequentialAccess :: bool
  warmupBound :: int

record tag_stats =
  warmedUp :: bool
  warmupCycle :: u64
  replacements :: nat
  tagsInUse :: int
  totalRefs :: nat
  sampledRefs :: nat
  occupancies :: "int list"
  tagAccesses :: nat
  dataAccesses :: nat

record tag_store =
  geom :: tag_geom
  allocAssoc :: u32
  sets :: "nat list list"
  blks :: "cache_blk list"
  stats :: tag_stats

record cache_env =
  curTick :: u64
  clockPeriod :: u64
  maxMasters :: nat

record tag_params =
  p_size :: u64
  p_block_size :: int
  p_assoc :: int
  p_tag_latency :: u64
  p_data_latency :: u64
  p_sequential_access :: bool

definition ticksToCycles :: "cache_env \<Rightarrow> u64 \<Rightarrow> u64 res" where
  "ticksToCycles e t = divCeil t (clockPeriod e)"

definition BaseTags_accessLatency :: "tag_params \<Rightarrow> u64" where
  "BaseTags_accessLatency p =
     (if p_sequential_access p then p_tag_latency p + p_data_latency p
      else max (p_tag_latency p) (p_data_latency p))"

definition stats_new :: "nat \<Rightarrow> tag_stats" where
  "stats_new masters =
     \<lparr>warmedUp = False, warmupCycle = 0, replacements = 0, tagsInUse = 0, totalRefs = 0, sampledRefs = 0,
      occupancies = replicate masters 0, tagAccesses = 0, dataAccesses = 0\<rparr>"

text \<open>The block the constructor leaves in way \<open>j\<close> of set \<open>i\<close>.\<close>

definition linked_blk :: "u32 \<Rightarrow> u32 \<Rightarrow> nat \<Rightarrow> nat \<Rightarrow> cache_blk" where
  "linked_blk bsize a i j =
     (CacheBlk_invalidate (CacheBlk_new\<lparr>blk_data := Some (unat (bsize * of_nat (i * unat a + j)))\<rparr>))
       \<lparr>blk_tag := of_nat j, blk_whenReady := 0, blk_isTouched := False, blk_size := bsize,
        blk_set := int i, blk_way := int j\<rparr>"

definition BaseSetAssoc_new :: "tag_params \<Rightarrow> cache_env \<Rightarrow> tag_store res" where
  "BaseSetAssoc_new p e =
     (let bsize = of_int (p_block_size p) :: u32; a = of_int (p_assoc p) :: u32;
          d = of_int (sint (of_int (p_block_size p * p_assoc p) :: u32)) :: u64 in
      if d = 0 then Inl DivByZero else
      let n = ucast (p_size p div d) :: u32 in
      if bsize < 4 \<or> \<not> isPowerOf2 bsize then Inl Panic
      else if n = 0 \<or> \<not> isPowerOf2 n then Inl Panic
      else if a = 0 then Inl Panic
      else
        bindE (floorLog2_u32 bsize) (\<lambda>setshift.
        bindE (floorLog2_u32 n) (\<lambda>l.
        if 2 ^ 32 \<le> unat n * unat a then Inl OutOfBounds else
        Inr \<lparr>geom = \<lparr>blkSize = bsize, assoc = a, numSets = n, setShift = setshift, tagShift = setshift + l,
               setMask = n - 1, blkMask = bsize - 1, lookupLatency = p_tag_latency p,
               accessLatency = BaseTags_accessLatency p, sequentialAccess = p_sequential_access p,
               warmupBound = sint (n * a)\<rparr>,
             allocAssoc = a,
             sets = map (\<lambda>i. map (\<lambda>j. i * unat a + j) [0..<unat a]) [0..<unat n],
             blks = concat (map (\<lambda>i. map (linked_blk bsize a i) [0..<unat a]) [0..<unat n]),
             stats = stats_new (maxMasters e)\<rparr>)))"

section \<open>Address fields\<close>

definition extractTag :: "tag_geom \<Rightarrow> u64 \<Rightarrow> u64" where
  "extractTag G addr = drop_bit (tagShift G) addr"

definition extractSet :: "tag_geom \<Rightarrow> u64 \<Rightarrow> int" where
  "extractSet G addr = int_of_u64 (drop_bit (setShift G) addr AND ucast (setMask G))"

definition blkAlign :: "tag_geom \<Rightarrow> u64 \<Rightarrow> u64" where
  "blkAlign G addr = addr AND NOT (ucast (blkMask G))"

definition extractBlkOffset :: "tag_geom \<Rightarrow> u64 \<Rightarrow> int" where
  "extractBlkOffset G addr = int_of_u64 (addr AND ucast (blkSize G - 1))"

definition regenerateBlkAddr :: "tag_geom \<Rightarrow> u64 \<Rightarrow> u32 \<Rightarrow> u64" where
  "regenerateBlkAddr G tag st = push_bit (tagShift G) tag OR push_bit (setShift G) (ucast st)"

section \<open>Operations shared by the policies\<close>

definition upd_blk :: "nat \<Rightarrow> (cache_blk \<Rightarrow> cache_blk) \<Rightarrow> tag_store \<Rightarrow> tag_store" where
  "upd_blk p f ts = ts\<lparr>blks := (blks ts)[p := f (blks ts ! p)]\<rparr>"

definition upd_stats :: "(tag_stats \<Rightarrow> tag_stats) \<Rightarrow> tag_store \<Rightarrow> tag_store" where
  "upd_stats f ts = ts\<lparr>stats := f (stats ts)\<rparr>"

definition BaseSetAssoc_findBlock :: "u64 \<Rightarrow> bool \<Rightarrow> tag_store \<Rightarrow> nat option res" where
  "BaseSetAssoc_findBlock addr is_secure ts =
     bindE (rd (sets ts) (extractSet (geom ts) addr)) (\<lambda>ps.
     Inr (fst (findBlk (blks ts) ps (extractTag (geom ts) addr) is_secure)))"

definition findBlockBySetAndWay :: "int \<Rightarrow> int \<Rightarrow> tag_store \<Rightarrow> nat res" where
  "findBlockBySetAndWay st way ts = bindE (rd (sets ts) st) (\<lambda>ps. rd ps way)"

definition change_occ :: "int \<Rightarrow> int \<Rightarrow> tag_store \<Rightarrow> tag_store res" where
  "change_occ master d ts =
     bindE (rd (occupancies (stats ts)) master) (\<lambda>n.
     bindE (wr (occupancies (stats ts)) master (n + d)) (\<lambda>occ.
     Inr (upd_stats (\<lambda>s. s\<lparr>occupancies := occ\<rparr>) ts)))"

definition BaseSetAssoc_invalidate :: "cache_env \<Rightarrow> nat option \<Rightarrow> tag_store \<Rightarrow> tag_store res" where
  "BaseSetAssoc_invalidate e blk ts =
     (case blk of None \<Rightarrow> Inl AssertFail | Some p \<Rightarrow>
       bindE (assertE (isValid (blks ts ! p))) (\<lambda>_.
       let ts = upd_stats (\<lambda>s. s\<lparr>tagsInUse := tagsInUse s - 1\<rparr>) ts; src = blk_srcMasterId (blks ts ! p) in
       bindE (assertE (src < int (maxMasters e))) (\<lambda>_.
       bindE (change_occ src (- 1) ts) (\<lambda>ts.
       Inr (upd_blk p (\<lambda>b. b\<lparr>blk_srcMasterId := int (unat invldMasterId), blk_task_id := Unknown_task,
         blk_tickInserted := curTick e\<rparr>) ts)))))"

definition BaseSetAssoc_accessBlock ::
  "cache_env \<Rightarrow> u64 \<Rightarrow> bool \<Rightarrow> tag_store \<Rightarrow> (nat option \<times> u64 \<times> tag_store) res" where
  "BaseSetAssoc_accessBlock e addr is_secure ts =
     bindE (rd (sets ts) (extractSet (geom ts) addr)) (\<lambda>ps.
     let blk = fst (findBlk (blks ts) ps (extractTag (geom ts) addr) is_secure);
         ts = upd_stats (\<lambda>s. s\<lparr>tagAccesses := tagAccesses s + unat (allocAssoc ts),
           dataAccesses := dataAccesses s +
             (if sequentialAccess (geom ts) then (if blk \<noteq> None then 1 else 0) else unat (allocAssoc ts))\<rparr>) ts
     in case blk of
          None \<Rightarrow> Inr (None, lookupLatency (geom ts), ts)
        | Some p \<Rightarrow>
            let ready = blk_whenReady (blks ts ! p); al = accessLatency (geom ts) in
            bindE (if ready > curTick e
              then bindE (ticksToCycles e (ready - curTick e)) (\<lambda>c. Inr (if c > al then c + al else al))
              else Inr al) (\<lambda>lat.
            Inr (Some p, lat, upd_blk p (\<lambda>b. b\<lparr>blk_refCount := blk_refCount b + 1\<rparr>) ts)))"

text \<open>The scan of \<open>BaseSetAssoc::findVictim\<close> over the first \<open>n\<close> ways from \<open>i\<close> on.\<close>

fun victim_scan :: "cache_blk list \<Rightarrow> nat list \<Rightarrow> nat \<Rightarrow> nat \<Rightarrow> nat option \<Rightarrow> nat option res" where
  "victim_scan bs ps i 0 blk = Inr blk"
| "victim_scan bs ps i (Suc n) blk =
     bindE (rd ps (int i)) (\<lambda>p. if \<not> isValid (bs ! p) then Inr (Some p) else victim_scan bs ps (i + 1) n (Some p))"

definition BaseSetAssoc_findVictim :: "u64 \<Rightarrow> tag_store \<Rightarrow> nat option res" where
  "BaseSetAssoc_findVictim addr ts =
     bindE (rd (sets ts) (extractSet (geom ts) addr)) (\<lambda>ps.
     victim_scan (blks ts) ps 0 (unat (allocAssoc ts)) None)"

definition touch :: "cache_env \<Rightarrow> nat \<Rightarrow> tag_store \<Rightarrow> tag_store" where
  "touch e p ts =
     (if \<not> blk_isTouched (blks ts ! p)
      then upd_stats (\<lambda>s. let s = s\<lparr>tagsInUse := tagsInUse s + 1\<rparr> in
             if \<not> warmedUp s \<and> tagsInUse s \<ge> warmupBound (geom ts)
             then s\<lparr>warmedUp := True, warmupCycle := curTick e\<rparr> else s)
           (upd_blk p (\<lambda>b. b\<lparr>blk_isTouched := True\<rparr>) ts)
      else ts)"

text \<open>The part of \<open>insertBlock\<close> that deals with the block that is evicted.\<close>

definition evict :: "cache_env \<Rightarrow> nat \<Rightarrow> tag_store \<Rightarrow> tag_store res" where
  "evict e p ts =
     (if isValid (blks ts ! p)
      then let ts = upd_stats (\<lambda>s. s\<lparr>replacements := replacements s + 1,
                 totalRefs := totalRefs s + unat (blk_refCount (blks ts ! p)), sampledRefs := sampledRefs s + 1\<rparr>) ts;
               ts = upd_blk p (\<lambda>b. b\<lparr>blk_refCount := 0\<rparr>) ts; src = blk_srcMasterId (blks ts ! p) in
           bindE (assertE (src < int (maxMasters e))) (\<lambda>_.
           bindE (change_occ src (- 1) ts) (\<lambda>ts. Inr (upd_blk p CacheBlk_invalidate ts)))
      else Inr ts)"

definition BaseSetAssoc_insertBlock :: "cache_env \<Rightarrow> packet \<Rightarrow> nat \<Rightarrow> tag_store \<Rightarrow> tag_store res" where
  "BaseSetAssoc_insertBlock e pkt p ts =
     (let addr = pkt_addr pkt; master_id = int (unat (req_masterId (pkt_req pkt))); task_id = req_taskId (pkt_req pkt);
          ts = touch e p ts in
      bindE (evict e p ts) (\<lambda>ts.
      let ts = upd_blk p (\<lambda>b. b\<lparr>blk_isTouched := True, blk_tag := extractTag (geom ts) addr\<rparr>) ts in
      bindE (assertE (master_id < int (maxMasters e))) (\<lambda>_.
      bindE (change_occ master_id 1 ts) (\<lambda>ts.
      let ts = upd_blk p (\<lambda>b. b\<lparr>blk_srcMasterId := master_id, blk_task_id := task_id,
            blk_tickInserted := curTick e\<rparr>) ts in
      Inr (upd_stats (\<lambda>s. s\<lparr>tagAccesses := tagAccesses s + 1, dataAccesses := dataAccesses s + 1\<rparr>) ts)))))"

definition setWayAllocationMax :: "int \<Rightarrow> tag_store \<Rightarrow> tag_store res" where
  "setWayAllocationMax ways ts = (if ways < 1 then Inl Panic else Inr (ts\<lparr>allocAssoc := of_int ways\<rparr>))"

definition getWayAllocationMax :: "tag_store \<Rightarrow> int" where
  "getWayAllocationMax ts = sint (allocAssoc ts)"

definition cleanupRefs :: "tag_store \<Rightarrow> tag_store" where
  "cleanupRefs ts = fold (\<lambda>b ts. if isValid b
       then upd_stats (\<lambda>s. s\<lparr>totalRefs := totalRefs s + unat (blk_refCount b), sampledRefs := sampledRefs s + 1\<rparr>) ts
       else ts) (blks ts) ts"

text \<open>\<open>forEachBlk\<close>: the visitor may change the block it is given, and stops the traversal.\<close>

fun forEachBlk :: "(cache_blk \<Rightarrow> bool \<times> cache_blk) \<Rightarrow> cache_blk list \<Rightarrow> cache_blk list" where
  "forEachBlk visitor [] = []"
| "forEachBlk visitor (b # bs) =
     (let (go, b) = visitor b in b # (if go then forEachBlk visitor bs else bs))"

definition NumTaskId :: u32 where
  "NumTaskId = 1025"

text \<open>\<open>computeStats\<close>: blocks per task, and per task and age class; \<open>us\<close> and \<open>ms\<close> are the ticks of a micro- and a millisecond.\<close>

definition age_class :: "u64 \<Rightarrow> u64 \<Rightarrow> u64 \<Rightarrow> nat" where
  "age_class us ms age =
     (if age div us < 10 then 0 else if age div us < 100 then 1
      else if age div ms < 1 then 2 else if age div ms < 10 then 3 else 4)"

fun age_loop :: "u64 \<Rightarrow> u64 \<Rightarrow> u64 \<Rightarrow> cache_blk list \<Rightarrow> nat list \<times> nat list list \<Rightarrow> (nat list \<times> nat list list) res" where
  "age_loop us ms now [] acc = Inr acc"
| "age_loop us ms now (b # bs) (occ, ages) =
     (if isValid b
      then bindE (assertE (blk_task_id b < NumTaskId)) (\<lambda>_.
           bindE (assertE (blk_tickInserted b \<le> now)) (\<lambda>_.
           if us = 0 \<or> ms = 0 then Inl DivByZero else
           let t = unat (blk_task_id b); c = age_class us ms (now - blk_tickInserted b) in
           age_loop us ms now bs (occ[t := occ ! t + 1], ages[t := (ages ! t)[c := ages ! t ! c + 1]])))
      else age_loop us ms now bs (occ, ages))"

definition computeStats :: "u64 \<Rightarrow> u64 \<Rightarrow> cache_env \<Rightarrow> tag_store \<Rightarrow> (nat list \<times> nat list list) res" where
  "computeStats us ms e ts =
     age_loop us ms (curTick e) (blks ts)
       (replicate (unat NumTaskId) 0, replicate (unat NumTaskId) (replicate 5 0))"

section \<open>Least recently used replacement\<close>

definition upd_set :: "int \<Rightarrow> (nat list \<Rightarrow> nat list res) \<Rightarrow> tag_store \<Rightarrow> tag_store res" where
  "upd_set st f ts =
     bindE (rd (sets ts) st) (\<lambda>ps. bindE (f ps) (\<lambda>ps. bindE (wr (sets ts) st ps) (\<lambda>ss. Inr (ts\<lparr>sets := ss\<rparr>))))"

definition LRU_accessBlock ::
  "cache_env \<Rightarrow> u64 \<Rightarrow> bool \<Rightarrow> tag_store \<Rightarrow> (nat option \<times> u64 \<times> tag_store) res" where
  "LRU_accessBlock e addr is_secure ts =
     bindE (BaseSetAssoc_accessBlock e addr is_secure ts) (\<lambda>(blk, lat, ts).
     case blk of
       None \<Rightarrow> Inr (None, lat, ts)
     | Some p \<Rightarrow> bindE (upd_set (blk_set (blks ts ! p)) (moveToHead p) ts) (\<lambda>ts. Inr (Some p, lat, ts)))"

definition LRU_findVictim :: "u64 \<Rightarrow> tag_store \<Rightarrow> nat option res" where
  "LRU_findVictim addr ts =
     bindE (rd (sets ts) (extractSet (geom ts) addr)) (\<lambda>ps.
     let blk = find (\<lambda>p. (of_int (blk_way (blks ts ! p)) :: u32) < allocAssoc ts) (rev ps) in
     bindE (assertE (case blk of None \<Rightarrow> True | Some p \<Rightarrow> (of_int (blk_way (blks ts ! p)) :: u32) < allocAssoc ts)) (\<lambda>_.
     Inr blk))"

definition LRU_insertBlock :: "cache_env \<Rightarrow> packet \<Rightarrow> nat \<Rightarrow> tag_store \<Rightarrow> tag_store res" where
  "LRU_insertBlock e pkt p ts =
     bindE (BaseSetAssoc_insertBlock e pkt p ts) (\<lambda>ts.
     upd_set (extractSet (geom ts) (pkt_addr pkt)) (moveToHead p) ts)"

definition LRU_invalidate :: "cache_env \<Rightarrow> nat option \<Rightarrow> tag_store \<Rightarrow> tag_store res" where
  "LRU_invalidate e blk ts =
     bindE (BaseSetAssoc_invalidate e blk ts) (\<lambda>ts.
     upd_set (blk_set (blks ts ! the blk)) (moveToTail (the blk)) ts)"

section \<open>Random replacement\<close>

text \<open>The index the generator draws is an argument. The search for an allocatable way may not end.\<close>

partial_function (option) random_scan :: "cache_blk list \<Rightarrow> u32 \<Rightarrow> u32 \<Rightarrow> nat list \<Rightarrow> nat \<Rightarrow> (nat \<times> nat) option" where
  "random_scan bs a alloc ps idx =
     (if (of_int (blk_way (bs ! (ps ! idx))) :: u32) \<ge> alloc
      then random_scan bs a alloc ps ((idx + 1) mod unat a)
      else Some (idx, ps ! idx))"

definition RandomRepl_findVictim :: "nat \<Rightarrow> u64 \<Rightarrow> tag_store \<Rightarrow> nat option res" where
  "RandomRepl_findVictim idx addr ts =
     bindE (BaseSetAssoc_findVictim addr ts) (\<lambda>blk.
     case blk of
       None \<Rightarrow> Inr None
     | Some p \<Rightarrow>
         if isValid (blks ts ! p)
         then bindE (rd (sets ts) (extractSet (geom ts) addr)) (\<lambda>ps.
              bindE (rd ps (int idx)) (\<lambda>_.
              case random_scan (blks ts) (assoc (geom ts)) (allocAssoc ts) ps idx of
                None \<Rightarrow> Inl Diverges
              | Some (idx, p) \<Rightarrow>
                  bindE (assertE (idx < unat (assoc (geom ts)))) (\<lambda>_.
                  bindE (assertE ((of_int (blk_way (blks ts ! p)) :: u32) < allocAssoc ts)) (\<lambda>_.
                  Inr (Some p)))))
         else Inr (Some p))"

end
