(* ===== verification/Cache_Geometry.thy ===== *)
theory Cache_Geometry
  imports Cache_Tags
begin

text \<open>
  The address fields of a set-associative tag store and the reordering of a set: the geometry the
  constructor sets up, the round trip of tag and set index with block addresses, and what the two
  swapping loops of a set do.
\<close>

section \<open>Powers of two\<close>

lemma isPowerOf2_exp:
  fixes n :: u32
  assumes "isPowerOf2 n"
  obtains l where "floorLog2_u32 n = Inr l" "n = 2 ^ l" "l < 32" "unat n = 2 ^ l"
proof -
  have n: "n \<noteq> 0" "n AND NOT (n - 1) = n" using assms by (auto simp: isPowerOf2_def leastSigBit_def)
  then obtain l where l: "floorLog2_u32 n = Inr l" "2 ^ l \<le> unat n" "unat n < 2 ^ (l + 1)"
    using floorLog2_u32_bounds [of n] by (auto simp: word_gt_0)
  have l32: "l < 32"
  proof (rule ccontr)
    assume "\<not> l < 32"
    then have "(2 :: nat) ^ 32 \<le> 2 ^ l" by (intro power_increasing) auto
    with l(2) unsigned_less [of n, where 'a = nat] show False by simp
  qed
  have bit_l: "bit w l" if "2 ^ l \<le> unat w" "unat w < 2 ^ (l + 1)" for w :: u32
  proof -
    have "unat w div 2 ^ l = 1"
      using that by (intro div_nat_eqI) auto
    then have "odd (unat w div 2 ^ l)" by simp
    then have "bit (unat w) l" by (simp add: bit_iff_odd)
    then show ?thesis by (simp add: bit_unsigned_iff)
  qed
  have "unat n = 2 ^ l"
  proof (rule ccontr)
    assume "unat n \<noteq> 2 ^ l"
    moreover have "unat (n - 1) = unat n - 1" using n(1) by (simp add: unat_minus_one)
    ultimately have "bit (n - 1) l" "bit n l" using bit_l [of "n - 1"] bit_l [of n] l by auto
    then have "\<not> bit (n AND NOT (n - 1)) l" by (simp add: bit_simps)
    with n(2) \<open>bit n l\<close> show False by simp
  qed
  moreover have "n = word_of_nat (unat n)" by simp
  then have "n = 2 ^ l" unfolding \<open>unat n = 2 ^ l\<close> by simp
  ultimately show thesis using that l(1) l32 by blast
qed

section \<open>Address fields\<close>

definition wf_geom :: "tag_geom \<Rightarrow> bool" where
  "wf_geom G \<longleftrightarrow> setShift G < 32 \<and> blkMask G = mask (setShift G) \<and> unat (blkSize G) = 2 ^ setShift G \<and>
     setShift G \<le> tagShift G \<and> tagShift G - setShift G < 32 \<and>
     setMask G = mask (tagShift G - setShift G) \<and> unat (numSets G) = 2 ^ (tagShift G - setShift G)"

lemma ucast_mask: "n \<le> 32 \<Longrightarrow> (ucast (mask n :: u32) :: u64) = mask n"
  by (rule bit_word_eqI) (auto simp: bit_simps)

definition set_field :: "tag_geom \<Rightarrow> u64 \<Rightarrow> u64" where
  "set_field G addr = drop_bit (setShift G) addr AND mask (tagShift G - setShift G)"

lemma set_field_less:
  assumes "wf_geom G"
  shows "unat (set_field G addr) < 2 ^ (tagShift G - setShift G)"
proof -
  have "set_field G addr = take_bit (tagShift G - setShift G) (drop_bit (setShift G) addr)"
    by (simp add: set_field_def take_bit_eq_mask)
  then have "unat (set_field G addr) = take_bit (tagShift G - setShift G) (unat (drop_bit (setShift G) addr))"
    by (simp only: unsigned_take_bit_eq)
  then show ?thesis by (simp add: take_bit_nat_def)
qed

lemma extractSet_field:
  assumes "wf_geom G"
  shows "extractSet G addr = int (unat (set_field G addr))" "extractSet G addr < int (unat (numSets G))"
    "0 \<le> extractSet G addr"
proof -
  have "2 ^ (tagShift G - setShift G) \<le> (2 :: nat) ^ 31"
    using assms by (intro power_increasing) (auto simp: wf_geom_def)
  then have "unat (set_field G addr) < 2 ^ 31" using set_field_less [OF assms] by (rule less_le_trans [rotated])
  moreover have "extractSet G addr = int_of_u64 (set_field G addr)"
    using assms by (simp add: extractSet_def set_field_def wf_geom_def ucast_mask)
  ultimately show *: "extractSet G addr = int (unat (set_field G addr))" using int_of_u64_small by simp
  show "extractSet G addr < int (unat (numSets G))" "0 \<le> extractSet G addr"
    unfolding * of_nat_less_iff using set_field_less [OF assms, of addr] assms by (simp_all add: wf_geom_def)
qed

lemma ucast_set_field:
  assumes "wf_geom G"
  shows "(ucast (of_int (extractSet G addr) :: u32) :: u64) = set_field G addr"
proof -
  have "(of_int (extractSet G addr) :: u32) = ucast (set_field G addr)"
    by (simp add: extractSet_field [OF assms])
  moreover have "ucast (ucast (set_field G addr) :: u32) = set_field G addr"
    using assms by (intro bit_word_eqI) (auto simp: bit_simps set_field_def wf_geom_def)
  ultimately show ?thesis by simp
qed

lemma regenerate_align:
  assumes "wf_geom G"
  shows "regenerateBlkAddr G (extractTag G addr) (of_int (extractSet G addr)) = blkAlign G addr"
  unfolding regenerateBlkAddr_def ucast_set_field [OF assms]
proof (rule bit_word_eqI, goal_cases)
  case (1 n)
  with assms show ?case
    by (cases "n < tagShift G")
      (auto simp: bit_simps extractTag_def set_field_def blkAlign_def wf_geom_def ucast_mask)
qed

lemma align_fields:
  assumes "wf_geom G"
  shows "extractTag G (blkAlign G addr) = extractTag G addr" "extractSet G (blkAlign G addr) = extractSet G addr"
    "blkAlign G (blkAlign G addr) = blkAlign G addr"
proof -
  note wf = assms [unfolded wf_geom_def]
  have "blkMask G = mask (setShift G)" using wf by simp
  then have al: "blkAlign G a = a AND NOT (mask (setShift G))" for a
    using wf by (simp add: blkAlign_def ucast_mask)
  show "extractTag G (blkAlign G addr) = extractTag G addr"
    unfolding al extractTag_def using wf by (intro bit_word_eqI) (auto simp: bit_simps dest: bit_imp_le_length)
  have "set_field G (blkAlign G addr) = set_field G addr"
    unfolding al set_field_def using wf by (intro bit_word_eqI) (auto simp: bit_simps)
  then show "extractSet G (blkAlign G addr) = extractSet G addr" by (simp add: extractSet_field [OF assms])
  show "blkAlign G (blkAlign G addr) = blkAlign G addr"
    unfolding al by (rule bit_word_eqI) (auto simp: bit_simps)
qed

lemma align_eq_iff:
  assumes "wf_geom G"
  shows "blkAlign G a = blkAlign G b \<longleftrightarrow> extractTag G a = extractTag G b \<and> extractSet G a = extractSet G b"
  using align_fields [OF assms] regenerate_align [OF assms] by metis

section \<open>Reordering a set\<close>

lemma head_loop_split:
  assumes "blk \<in> set qs"
  shows "head_loop (pre @ qs) (length pre) nxt blk = Inr (pre @ nxt # remove1 blk qs)"
  using assms
proof (induction qs arbitrary: pre nxt)
  case (Cons q qs)
  show ?case
  proof (cases "q = blk")
    case False
    with Cons.prems Cons.IH [of "pre @ [nxt]" q] show ?thesis
      by (subst head_loop.simps) (simp add: Let_def list_update_append)
  qed (subst head_loop.simps, simp add: Let_def list_update_append)
qed simp

lemma head_loop_absent:
  "blk \<notin> set qs \<Longrightarrow> head_loop (pre @ qs) (length pre) nxt blk = Inl AssertFail"
proof (induction qs arbitrary: pre nxt)
  case (Cons q qs)
  with Cons.IH [of "pre @ [nxt]" q] show ?case
    by (subst head_loop.simps) (simp add: Let_def list_update_append)
qed (subst head_loop.simps, simp)

lemma moveToHead_eq:
  "ps \<noteq> [] \<Longrightarrow> moveToHead blk ps = (if blk \<in> set ps then Inr (blk # remove1 blk ps) else Inl AssertFail)"
  using head_loop_split [of blk ps "[]" blk] head_loop_absent [of blk ps "[]" blk]
  by (cases ps) (auto simp: moveToHead_def rd_def in_arr_def)

lemma tail_loop_split:
  "tail_loop (qs @ post) (length qs) nxt blk =
     (if blk \<in> set qs then Inr (rev (remove1 blk (rev qs)) @ nxt # post) else Inl AssertFail)"
proof (induction qs arbitrary: post nxt rule: rev_induct)
  case (snoc q qs)
  have "tail_loop (qs @ nxt # post) (length qs) q blk =
     (if blk \<in> set qs then Inr (rev (remove1 blk (rev qs)) @ q # nxt # post) else Inl AssertFail)"
    by (rule snoc.IH)
  then show ?case by (auto simp: Let_def list_update_append)
qed simp

lemma rev_remove1_rev: "distinct ps \<Longrightarrow> rev (remove1 b (rev ps)) = remove1 b ps"
  by (simp add: distinct_remove1_removeAll removeAll_filter_not_eq rev_filter)

lemma moveToTail_eq:
  assumes "ps \<noteq> []" "distinct ps"
  shows "moveToTail blk ps = (if blk \<in> set ps then Inr (remove1 blk ps @ [blk]) else Inl AssertFail)"
proof -
  have last: "rd ps (int (length ps) - 1) = Inr (last ps)"
    using assms(1) by (cases ps rule: rev_cases) (auto simp: rd_def in_arr_def)
  show ?thesis
  proof (cases "last ps = blk")
    case True
    with assms(1) obtain qs where "ps = qs @ [blk]" by (metis append_butlast_last_id)
    with last True assms(2) show ?thesis by (simp add: moveToTail_def remove1_append)
  next
    case False
    with last tail_loop_split [of ps "[]" blk blk] rev_remove1_rev [OF assms(2), of blk] show ?thesis
      by (simp add: moveToTail_def)
  qed
qed

end
