(* ===== verification/Packet_Commands.thy ===== *)
theory Packet_Commands
  imports Cache_Block
begin

text \<open>
  The packets of the memory system (\<open>mem/packet.hh\<close>, \<open>mem/packet.cc\<close>): the commands with the table of their
  attributes and responses, the construction of packets from requests, and the copies between the bytes
  of a packet and those of a block. Bytes are lists; whether two of them share an address is not modelled.
\<close>

section \<open>Commands\<close>

datatype mem_cmd =
  InvalidCmd | ReadReq | ReadResp | ReadRespWithInvalidate | WriteReq | WriteResp | WritebackDirty
    | WritebackClean | CleanEvict | SoftPFReq | HardPFReq | SoftPFResp | HardPFResp | WriteLineReq
    | UpgradeReq | SCUpgradeReq | UpgradeResp | SCUpgradeFailReq | UpgradeFailResp | ReadExReq
    | ReadExResp | ReadCleanReq | ReadSharedReq | LoadLockedReq | StoreCondReq | StoreCondFailReq
    | StoreCondResp | SwapReq | SwapResp | MessageReq | MessageResp | MemFenceReq | MemFenceResp
    | InvalidDestError | BadAddressError | FunctionalReadError | FunctionalWriteError | PrintReq
    | FlushReq | InvalidateReq | InvalidateResp

datatype cmd_attr =
  IsRead | IsWrite | IsUpgrade | IsInvalidate | NeedsWritable | IsRequest | IsResponse
    | NeedsResponse | IsEviction | IsSWPrefetch | IsHWPrefetch | IsLlsc | HasData | IsError
    | IsPrint | IsFlush | FromCache

text \<open>The table of \<open>packet.cc\<close>: the attributes of a command and its response.\<close>

fun commandInfo :: "mem_cmd \<Rightarrow> cmd_attr list \<times> mem_cmd" where
  "commandInfo InvalidCmd = ([], InvalidCmd)"
| "commandInfo ReadReq = ([IsRead, IsRequest, NeedsResponse], ReadResp)"
| "commandInfo ReadResp = ([IsRead, IsResponse, HasData], InvalidCmd)"
| "commandInfo ReadRespWithInvalidate = ([IsRead, IsResponse, HasData, IsInvalidate], InvalidCmd)"
| "commandInfo WriteReq = ([IsWrite, NeedsWritable, IsRequest, NeedsResponse, HasData], WriteResp)"
| "commandInfo WriteResp = ([IsWrite, IsResponse], InvalidCmd)"
| "commandInfo WritebackDirty = ([IsWrite, IsRequest, IsEviction, HasData, FromCache], InvalidCmd)"
| "commandInfo WritebackClean = ([IsWrite, IsRequest, IsEviction, HasData, FromCache], InvalidCmd)"
| "commandInfo CleanEvict = ([IsRequest, IsEviction, FromCache], InvalidCmd)"
| "commandInfo SoftPFReq = ([IsRead, IsRequest, IsSWPrefetch, NeedsResponse], SoftPFResp)"
| "commandInfo HardPFReq = ([IsRead, IsRequest, IsHWPrefetch, NeedsResponse, FromCache], HardPFResp)"
| "commandInfo SoftPFResp = ([IsRead, IsResponse, IsSWPrefetch, HasData], InvalidCmd)"
| "commandInfo HardPFResp = ([IsRead, IsResponse, IsHWPrefetch, HasData], InvalidCmd)"
| "commandInfo WriteLineReq = ([IsWrite, NeedsWritable, IsRequest, NeedsResponse, HasData], WriteResp)"
| "commandInfo UpgradeReq = ([IsInvalidate, NeedsWritable, IsUpgrade, IsRequest, NeedsResponse, FromCache], UpgradeResp)"
| "commandInfo SCUpgradeReq = ([IsInvalidate, NeedsWritable, IsUpgrade, IsLlsc, IsRequest, NeedsResponse, FromCache], UpgradeResp)"
| "commandInfo UpgradeResp = ([IsUpgrade, IsResponse], InvalidCmd)"
| "commandInfo SCUpgradeFailReq = ([IsRead, NeedsWritable, IsInvalidate, IsLlsc, IsRequest, NeedsResponse, FromCache], UpgradeFailResp)"
| "commandInfo UpgradeFailResp = ([IsRead, IsResponse, HasData], InvalidCmd)"
| "commandInfo ReadExReq = ([IsRead, NeedsWritable, IsInvalidate, IsRequest, NeedsResponse, FromCache], ReadExResp)"
| "commandInfo ReadExResp = ([IsRead, IsResponse, HasData], InvalidCmd)"
| "commandInfo ReadCleanReq = ([IsRead, IsRequest, NeedsResponse, FromCache], ReadResp)"
| "commandInfo ReadSharedReq = ([IsRead, IsRequest, NeedsResponse, FromCache], ReadResp)"
| "commandInfo LoadLockedReq = ([IsRead, IsLlsc, IsRequest, NeedsResponse], ReadResp)"
| "commandInfo StoreCondReq = ([IsWrite, NeedsWritable, IsLlsc, IsRequest, NeedsResponse, HasData], StoreCondResp)"
| "commandInfo StoreCondFailReq = ([IsWrite, NeedsWritable, IsLlsc, IsRequest, NeedsResponse, HasData], StoreCondResp)"
| "commandInfo StoreCondResp = ([IsWrite, IsLlsc, IsResponse], InvalidCmd)"
| "commandInfo SwapReq = ([IsRead, IsWrite, NeedsWritable, IsRequest, HasData, NeedsResponse], SwapResp)"
| "commandInfo SwapResp = ([IsRead, IsWrite, IsResponse, HasData], InvalidCmd)"
| "commandInfo MessageReq = ([IsWrite, IsRequest, NeedsResponse, HasData], MessageResp)"
| "commandInfo MessageResp = ([IsWrite, IsResponse], InvalidCmd)"
| "commandInfo MemFenceReq = ([IsRequest, NeedsResponse], MemFenceResp)"
| "commandInfo MemFenceResp = ([IsResponse], InvalidCmd)"
| "commandInfo InvalidDestError = ([IsResponse, IsError], InvalidCmd)"
| "commandInfo BadAddressError = ([IsResponse, IsError], InvalidCmd)"
| "commandInfo FunctionalReadError = ([IsRead, IsResponse, IsError], InvalidCmd)"
| "commandInfo FunctionalWriteError = ([IsWrite, IsResponse, IsError], InvalidCmd)"
| "commandInfo PrintReq = ([IsRequest, IsPrint], InvalidCmd)"
| "commandInfo FlushReq = ([IsRequest, IsFlush, NeedsWritable], InvalidCmd)"
| "commandInfo InvalidateReq = ([IsInvalidate, IsRequest, NeedsWritable, NeedsResponse, FromCache], InvalidateResp)"
| "commandInfo InvalidateResp = ([IsInvalidate, IsResponse], InvalidCmd)"

definition testCmdAttrib :: "mem_cmd \<Rightarrow> cmd_attr \<Rightarrow> bool" where
  "testCmdAttrib c a \<longleftrightarrow> a \<in> set (fst (commandInfo c))"

definition responseCommand :: "mem_cmd \<Rightarrow> mem_cmd" where
  "responseCommand c = snd (commandInfo c)"

abbreviation isRead :: "mem_cmd \<Rightarrow> bool" where
  "isRead c \<equiv> testCmdAttrib c IsRead"

abbreviation isWrite :: "mem_cmd \<Rightarrow> bool" where
  "isWrite c \<equiv> testCmdAttrib c IsWrite"

abbreviation isUpgrade :: "mem_cmd \<Rightarrow> bool" where
  "isUpgrade c \<equiv> testCmdAttrib c IsUpgrade"

abbreviation isRequest :: "mem_cmd \<Rightarrow> bool" where
  "isRequest c \<equiv> testCmdAttrib c IsRequest"

abbreviation isResponse :: "mem_cmd \<Rightarrow> bool" where
  "isResponse c \<equiv> testCmdAttrib c IsResponse"

abbreviation needsWritable :: "mem_cmd \<Rightarrow> bool" where
  "needsWritable c \<equiv> testCmdAttrib c NeedsWritable"

abbreviation needsResponse :: "mem_cmd \<Rightarrow> bool" where
  "needsResponse c \<equiv> testCmdAttrib c NeedsResponse"

abbreviation isInvalidate :: "mem_cmd \<Rightarrow> bool" where
  "isInvalidate c \<equiv> testCmdAttrib c IsInvalidate"

abbreviation isEviction :: "mem_cmd \<Rightarrow> bool" where
  "isEviction c \<equiv> testCmdAttrib c IsEviction"

abbreviation fromCache :: "mem_cmd \<Rightarrow> bool" where
  "fromCache c \<equiv> testCmdAttrib c FromCache"

abbreviation hasData :: "mem_cmd \<Rightarrow> bool" where
  "hasData c \<equiv> testCmdAttrib c HasData"

abbreviation isLLSC :: "mem_cmd \<Rightarrow> bool" where
  "isLLSC c \<equiv> testCmdAttrib c IsLlsc"

abbreviation isError :: "mem_cmd \<Rightarrow> bool" where
  "isError c \<equiv> testCmdAttrib c IsError"

definition isWriteback :: "mem_cmd \<Rightarrow> bool" where
  "isWriteback c \<longleftrightarrow> testCmdAttrib c IsEviction \<and> testCmdAttrib c HasData"

definition isPrefetch :: "mem_cmd \<Rightarrow> bool" where
  "isPrefetch c \<longleftrightarrow> testCmdAttrib c IsSWPrefetch \<or> testCmdAttrib c IsHWPrefetch"

definition hasRespData :: "mem_cmd \<Rightarrow> bool" where
  "hasRespData c = hasData (responseCommand c)"

definition isCleanEviction :: "mem_cmd \<Rightarrow> bool" where
  "isCleanEviction c \<longleftrightarrow> c = CleanEvict \<or> c = WritebackClean"

named_theorems cmd_tests

declare
  testCmdAttrib_def [cmd_tests] responseCommand_def [cmd_tests]
 
 
  isWriteback_def [cmd_tests]
  isPrefetch_def [cmd_tests] hasRespData_def [cmd_tests] isCleanEviction_def [cmd_tests]

section \<open>Flags of a request\<close>

definition flag_set :: "u32 \<Rightarrow> request \<Rightarrow> bool" where
  "flag_set bits r \<longleftrightarrow> req_flags r AND bits \<noteq> 0"

abbreviation UNCACHEABLE :: u32 where "UNCACHEABLE \<equiv> 0x00000400"
abbreviation MEM_SWAP :: u32 where "MEM_SWAP \<equiv> 0x00400000"
abbreviation MEM_SWAP_COND :: u32 where "MEM_SWAP_COND \<equiv> 0x00800000"
abbreviation SECURE :: u32 where "SECURE \<equiv> 0x10000000"
abbreviation ATOMIC_RETURN_OP :: u32 where "ATOMIC_RETURN_OP \<equiv> 0x40000000"
abbreviation ATOMIC_NO_RETURN_OP :: u32 where "ATOMIC_NO_RETURN_OP \<equiv> 0x80000000"
abbreviation LLSC :: u32 where "LLSC \<equiv> 0x00200000"
abbreviation PREFETCH :: u32 where "PREFETCH \<equiv> 0x01000000"
abbreviation INST_FETCH :: u32 where "INST_FETCH \<equiv> 0x00000100"

definition isUncacheable :: "request \<Rightarrow> bool" where
  "isUncacheable r = flag_set UNCACHEABLE r"

definition isInstFetch :: "request \<Rightarrow> bool" where
  "isInstFetch r = flag_set INST_FETCH r"

definition isPrefetch_req :: "request \<Rightarrow> bool" where
  "isPrefetch_req r = flag_set PREFETCH r"

definition isLLSC_req :: "request \<Rightarrow> bool" where
  "isLLSC_req r = flag_set LLSC r"

definition isSwap :: "request \<Rightarrow> bool" where
  "isSwap r = flag_set (MEM_SWAP OR MEM_SWAP_COND) r"

definition isCondSwap :: "request \<Rightarrow> bool" where
  "isCondSwap r = flag_set MEM_SWAP_COND r"

definition isSecure_req :: "request \<Rightarrow> bool" where
  "isSecure_req r = flag_set SECURE r"

definition isAtomic :: "request \<Rightarrow> bool" where
  "isAtomic r \<longleftrightarrow> flag_set ATOMIC_RETURN_OP r \<or> flag_set ATOMIC_NO_RETURN_OP r"

section \<open>Packets\<close>

text \<open>
  A packet with a valid address and size. Without data the pointer to it is null; the four flags are
  those that coherence reads.
\<close>

record mem_packet =
  mp_cmd :: mem_cmd
  mp_req :: request
  mp_addr :: u64
  mp_isSecure :: bool
  mp_size :: u32
  mp_data :: "u8 list option"
  mp_hasSharers :: bool
  mp_cacheResponding :: bool
  mp_responderHadWritable :: bool
  mp_blockCached :: bool
  mp_payloadDelay :: u32

text \<open>
  The constructors. A packet of a request without an address or a size fails an assertion when they are
  read; here it is not constructed.
\<close>

definition Packet_new :: "request \<Rightarrow> mem_cmd \<Rightarrow> mem_packet res" where
  "Packet_new r cmd =
     bindE (getPaddr r) (\<lambda>a. bindE (getSize r) (\<lambda>n.
     Inr \<lparr>mp_cmd = cmd, mp_req = r, mp_addr = a, mp_isSecure = isSecure_req r, mp_size = n, mp_data = None,
       mp_hasSharers = False, mp_cacheResponding = False, mp_responderHadWritable = False, mp_blockCached = False,
       mp_payloadDelay = 0\<rparr>))"

definition Packet_block :: "request \<Rightarrow> mem_cmd \<Rightarrow> u32 \<Rightarrow> mem_packet res" where
  "Packet_block r cmd bsize =
     bindE (getPaddr r) (\<lambda>a.
     Inr \<lparr>mp_cmd = cmd, mp_req = r, mp_addr = a AND NOT (scast (bsize - 1)), mp_isSecure = isSecure_req r,
       mp_size = bsize, mp_data = None, mp_hasSharers = False, mp_cacheResponding = False,
       mp_responderHadWritable = False, mp_blockCached = False, mp_payloadDelay = 0\<rparr>)"

definition makeReadCmd :: "request \<Rightarrow> mem_cmd" where
  "makeReadCmd r = (if isLLSC_req r then LoadLockedReq else if isPrefetch_req r then SoftPFReq else ReadReq)"

definition makeWriteCmd :: "request \<Rightarrow> mem_cmd" where
  "makeWriteCmd r = (if isLLSC_req r then StoreCondReq else if isSwap r then SwapReq else WriteReq)"

definition createRead :: "request \<Rightarrow> mem_packet res" where
  "createRead r = Packet_new r (makeReadCmd r)"

definition createWrite :: "request \<Rightarrow> mem_packet res" where
  "createWrite r = Packet_new r (makeWriteCmd r)"

definition makeResponse :: "mem_packet \<Rightarrow> mem_packet res" where
  "makeResponse p =
     bindE (assertE (needsResponse (mp_cmd p))) (\<lambda>_.
     bindE (assertE (isRequest (mp_cmd p))) (\<lambda>_.
     Inr (p\<lparr>mp_cmd := responseCommand (mp_cmd p)\<rparr>)))"

definition setCacheResponding :: "mem_packet \<Rightarrow> mem_packet res" where
  "setCacheResponding p =
     bindE (assertE (isRequest (mp_cmd p))) (\<lambda>_.
     bindE (assertE (\<not> mp_cacheResponding p)) (\<lambda>_. Inr (p\<lparr>mp_cacheResponding := True\<rparr>)))"

definition setHasSharers :: "mem_packet \<Rightarrow> mem_packet" where
  "setHasSharers p = p\<lparr>mp_hasSharers := True\<rparr>"

definition packet_needsWritable :: "mem_packet \<Rightarrow> bool res" where
  "packet_needsWritable p = bindE (assertE (isRequest (mp_cmd p))) (\<lambda>_. Inr (needsWritable (mp_cmd p)))"

definition packet_getOffset :: "u32 \<Rightarrow> mem_packet \<Rightarrow> u64" where
  "packet_getOffset bsize p = mp_addr p AND ucast (bsize - 1)"

section \<open>Bytes\<close>

text \<open>\<open>memcpy\<close> out of and into an array at an offset.\<close>

definition bytes_read :: "nat \<Rightarrow> nat \<Rightarrow> u8 list \<Rightarrow> u8 list res" where
  "bytes_read off n d = (if off + n \<le> length d then Inr (take n (drop off d)) else Inl OutOfBounds)"

definition bytes_write :: "nat \<Rightarrow> u8 list \<Rightarrow> u8 list \<Rightarrow> u8 list res" where
  "bytes_write off xs d =
     (if off + length xs \<le> length d then Inr (take off d @ xs @ drop (off + length xs) d) else Inl OutOfBounds)"

text \<open>The bytes of an integer on a little-endian host.\<close>

definition le_bytes :: "nat \<Rightarrow> u64 \<Rightarrow> u8 list" where
  "le_bytes n w = map (\<lambda>i. ucast (drop_bit (8 * i) w)) [0..<n]"

definition getPtr :: "mem_packet \<Rightarrow> u8 list res" where
  "getPtr p = valid_flag (mp_data p)"

text \<open>The bytes a new array holds are those of the argument.\<close>

definition allocate_data :: "(nat \<Rightarrow> u8) \<Rightarrow> mem_packet \<Rightarrow> mem_packet res" where
  "allocate_data junk p =
     (if hasData (mp_cmd p) \<or> hasRespData (mp_cmd p)
      then bindE (assertE (mp_data p = None)) (\<lambda>_. Inr (p\<lparr>mp_data := Some (map junk [0..<unat (mp_size p)])\<rparr>))
      else Inr p)"

definition dataStatic :: "u8 list \<Rightarrow> mem_packet \<Rightarrow> mem_packet res" where
  "dataStatic d p = bindE (assertE (mp_data p = None)) (\<lambda>_. Inr (p\<lparr>mp_data := Some d\<rparr>))"

definition setData :: "nat \<Rightarrow> u8 list \<Rightarrow> mem_packet \<Rightarrow> mem_packet res" where
  "setData off d p =
     bindE (getPtr p) (\<lambda>old.
     bindE (bytes_read off (unat (mp_size p)) d) (\<lambda>xs.
     bindE (bytes_write 0 xs old) (\<lambda>new. Inr (p\<lparr>mp_data := Some new\<rparr>))))"

definition setDataFromBlock :: "u8 list \<Rightarrow> u32 \<Rightarrow> mem_packet \<Rightarrow> mem_packet res" where
  "setDataFromBlock d bsize p = setData (unat (packet_getOffset bsize p)) d p"

definition writeData :: "nat \<Rightarrow> mem_packet \<Rightarrow> u8 list \<Rightarrow> u8 list res" where
  "writeData off p d =
     bindE (getPtr p) (\<lambda>src. bindE (bytes_read 0 (unat (mp_size p)) src) (\<lambda>xs. bytes_write off xs d))"

definition writeDataToBlock :: "mem_packet \<Rightarrow> u8 list \<Rightarrow> u32 \<Rightarrow> u8 list res" where
  "writeDataToBlock p d bsize = writeData (unat (packet_getOffset bsize p)) p d"

text \<open>The fields of a packet that the lock list of a block or of a memory reads.\<close>

definition lock_view :: "mem_packet \<Rightarrow> packet" where
  "lock_view p = \<lparr>pkt_req = mp_req p, pkt_addr = mp_addr p, pkt_isLLSC = isLLSC (mp_cmd p), pkt_isWrite = isWrite (mp_cmd p)\<rparr>"

section \<open>The table\<close>

text \<open>
  The table is consistent: no command is a request and a response, a request is answered by a response if
  and only if it needs one, and the response carries data for a read and none for other commands.
\<close>

lemma commands_consistent:
  "\<not> (isRequest c \<and> isResponse c)"
  "isRequest c \<Longrightarrow> needsResponse c \<longleftrightarrow> isResponse (responseCommand c)"
  "isRequest c \<Longrightarrow> needsResponse c \<Longrightarrow> hasRespData c \<longleftrightarrow> isRead c"
  "isEviction c \<Longrightarrow> \<not> needsResponse c"
  by (cases c; simp add: cmd_tests)+

lemma bytes_read_nth:
  assumes "bytes_read off n d = Inr xs"
  shows "length xs = n" "i < n \<Longrightarrow> xs ! i = d ! (off + i)"
  using assms by (auto simp: bytes_read_def split: if_splits)

lemma bytes_write_nth:
  assumes "bytes_write off xs d = Inr d'"
  shows "length d' = length d"
    "i < length d \<Longrightarrow> d' ! i = (if off \<le> i \<and> i < off + length xs then xs ! (i - off) else d ! i)"
  using assms by (auto simp: bytes_write_def nth_append split: if_splits)

end
