(* ===== verification/Cache_Fill.thy ===== *)
theory Cache_Fill
  imports Cache_Geometry Packet_Commands
begin

text \<open>
  Allocation, eviction, filling and flushing of blocks in a cache (\<open>mem/cache/cache.cc\<close>) over the LRU tag
  store, which is the default of its configuration. The data of a block is the list of its bytes; the
  temporary block stands beside the tag store. The miss queue and the write buffer are arguments, as
  what a search in them finds.
\<close>

section \<open>State and packets\<close>

datatype blk_ptr = InTags nat | TempBlk

record cache_state =
  ctags :: tag_store
  cdata :: "u8 list list"
  tempBlock :: cache_blk
  tempData :: "u8 list"
  writebackCount :: nat
  unusedPrefetches :: nat

record cache_cfg =
  cenv :: cache_env
  writebackClean :: bool
  isReadOnly :: bool
  mostly_excl :: bool
  clockEdge :: u64
  fillLatency :: u64

text \<open>A packet to the next level; a clean eviction carries no data.\<close>

record wb_packet =
  wb_cmd :: mem_cmd
  wb_addr :: u64
  wb_secure :: bool
  wb_taskId :: u32
  wb_hasSharers :: bool
  wb_data :: "u8 list option"

record fill_packet = packet +
  pkt_isSecure :: bool
  pkt_isResponse :: bool
  pkt_isWriteLine :: bool
  pkt_isRead :: bool
  pkt_hasData :: bool
  pkt_hasSharers :: bool
  pkt_cacheResponding :: bool
  pkt_data :: "u8 list"
  pkt_payloadDelay :: u64

fun get_cblk :: "blk_ptr \<Rightarrow> cache_state \<Rightarrow> cache_blk" where
  "get_cblk (InTags p) c = blks (ctags c) ! p"
| "get_cblk TempBlk c = tempBlock c"

fun upd_cblk :: "blk_ptr \<Rightarrow> (cache_blk \<Rightarrow> cache_blk) \<Rightarrow> cache_state \<Rightarrow> cache_state" where
  "upd_cblk (InTags p) f c = c\<lparr>ctags := upd_blk p f (ctags c)\<rparr>"
| "upd_cblk TempBlk f c = c\<lparr>tempBlock := f (tempBlock c)\<rparr>"

fun get_data :: "blk_ptr \<Rightarrow> cache_state \<Rightarrow> u8 list" where
  "get_data (InTags p) c = cdata c ! p"
| "get_data TempBlk c = tempData c"

fun set_data :: "blk_ptr \<Rightarrow> u8 list \<Rightarrow> cache_state \<Rightarrow> cache_state" where
  "set_data (InTags p) d c = c\<lparr>cdata := (cdata c)[p := d]\<rparr>"
| "set_data TempBlk d c = c\<lparr>tempData := d\<rparr>"

definition set_status :: "u32 \<Rightarrow> cache_blk \<Rightarrow> cache_blk" where
  "set_status bits b = b\<lparr>blk_status := blk_status b OR bits\<rparr>"

definition clear_status :: "u32 \<Rightarrow> cache_blk \<Rightarrow> cache_blk" where
  "clear_status bits b = b\<lparr>blk_status := blk_status b AND NOT bits\<rparr>"

section \<open>Eviction\<close>

definition blk_address :: "blk_ptr \<Rightarrow> cache_state \<Rightarrow> u64" where
  "blk_address bp c = regenerateBlkAddr (geom (ctags c)) (blk_tag (get_cblk bp c)) (of_int (blk_set (get_cblk bp c)))"

definition release_task :: "u64 \<Rightarrow> cache_blk \<Rightarrow> cache_blk" where
  "release_task now b = b\<lparr>blk_task_id := Unknown_task, blk_tickInserted := now\<rparr>"

definition writebackBlk :: "cache_cfg \<Rightarrow> blk_ptr \<Rightarrow> cache_state \<Rightarrow> (wb_packet \<times> cache_state) res" where
  "writebackBlk cfg bp c =
     bindE (assertE (\<not> isReadOnly cfg \<or> writebackClean cfg)) (\<lambda>_.
     let b = get_cblk bp c in
     bindE (assertE (isValid b \<and> (isDirty b \<or> writebackClean cfg))) (\<lambda>_.
     let c = c\<lparr>writebackCount := writebackCount c + 1\<rparr>;
         pkt = \<lparr>wb_cmd = (if isDirty b then WritebackDirty else WritebackClean), wb_addr = blk_address bp c,
           wb_secure = isSecure b, wb_taskId = blk_task_id b, wb_hasSharers = \<not> isWritable b,
           wb_data = Some (get_data bp c)\<rparr>;
         c = upd_cblk bp (release_task (curTick (cenv cfg))) c;
         c = (if isWritable b then upd_cblk bp (clear_status BlkWritable) c else c)
     in Inr (pkt, upd_cblk bp (clear_status BlkDirty) c)))"

definition cleanEvictBlk :: "cache_cfg \<Rightarrow> blk_ptr \<Rightarrow> cache_state \<Rightarrow> (wb_packet \<times> cache_state) res" where
  "cleanEvictBlk cfg bp c =
     bindE (assertE (\<not> writebackClean cfg)) (\<lambda>_.
     let b = get_cblk bp c in
     bindE (assertE (isValid b \<and> \<not> isDirty b)) (\<lambda>_.
     Inr (\<lparr>wb_cmd = CleanEvict, wb_addr = blk_address bp c, wb_secure = isSecure b, wb_taskId = blk_task_id b,
            wb_hasSharers = False, wb_data = None\<rparr>,
          upd_cblk bp (release_task (curTick (cenv cfg))) c)))"

text \<open>\<open>mshr\<close> is the miss queue: whether an outstanding miss to a line needs a writable copy.\<close>

definition allocateBlock ::
  "cache_cfg \<Rightarrow> (u64 \<Rightarrow> bool \<Rightarrow> bool option) \<Rightarrow> u64 \<Rightarrow> wb_packet list \<Rightarrow> cache_state \<Rightarrow>
   (nat option \<times> wb_packet list \<times> cache_state) res" where
  "allocateBlock cfg mshr addr writebacks c =
     bindE (LRU_findVictim addr (ctags c)) (\<lambda>blk.
     case blk of
       None \<Rightarrow> Inr (None, writebacks, c)
     | Some p \<Rightarrow>
         let b = get_cblk (InTags p) c in
         if isValid b
         then case mshr (blk_address (InTags p) c) (isSecure b) of
                Some writable \<Rightarrow>
                  bindE (assertE (\<not> isWritable b \<or> isDirty b)) (\<lambda>_.
                  bindE (assertE writable) (\<lambda>_. Inr (None, writebacks, c)))
              | None \<Rightarrow>
                  let c = (if wasPrefetched b then c\<lparr>unusedPrefetches := unusedPrefetches c + 1\<rparr> else c) in
                  bindE (if isDirty b \<or> writebackClean cfg then writebackBlk cfg (InTags p) c
                         else cleanEvictBlk cfg (InTags p) c) (\<lambda>(wb, c).
                  Inr (Some p, writebacks @ [wb], c))
         else Inr (Some p, writebacks, c))"

definition invalidateBlock :: "cache_cfg \<Rightarrow> blk_ptr \<Rightarrow> cache_state \<Rightarrow> cache_state res" where
  "invalidateBlock cfg bp c =
     bindE (case bp of
         TempBlk \<Rightarrow> Inr c
       | InTags p \<Rightarrow> bindE (LRU_invalidate (cenv cfg) (Some p) (ctags c)) (\<lambda>ts. Inr (c\<lparr>ctags := ts\<rparr>))) (\<lambda>c.
     Inr (upd_cblk bp CacheBlk_invalidate c))"

definition maintainClusivity :: "cache_cfg \<Rightarrow> bool \<Rightarrow> blk_ptr option \<Rightarrow> cache_state \<Rightarrow> cache_state res" where
  "maintainClusivity cfg from_cache blk c =
     (case blk of
        None \<Rightarrow> Inr c
      | Some bp \<Rightarrow>
          if from_cache \<and> isValid (get_cblk bp c) \<and> \<not> isDirty (get_cblk bp c) \<and> mostly_excl cfg
          then invalidateBlock cfg bp c else Inr c)"

section \<open>Filling\<close>

text \<open>The choice of the block to fill when the line is not present.\<close>

definition fill_target ::
  "cache_cfg \<Rightarrow> (u64 \<Rightarrow> bool \<Rightarrow> bool option) \<Rightarrow> fill_packet \<Rightarrow> wb_packet list \<Rightarrow> bool \<Rightarrow> cache_state \<Rightarrow>
   (blk_ptr \<times> wb_packet list \<times> cache_state) res" where
  "fill_target cfg mshr pkt writebacks allocate c =
     (let addr = pkt_addr pkt; G = geom (ctags c) in
      bindE (assertE (pkt_hasData pkt)) (\<lambda>_.
      bindE (assertE (pkt_isRead pkt \<or> pkt_isWriteLine pkt)) (\<lambda>_.
      bindE (if allocate then allocateBlock cfg mshr addr writebacks c else Inr (None, writebacks, c))
        (\<lambda>(blk, writebacks, c).
      bindE (case blk of
          None \<Rightarrow>
            bindE (assertE (\<not> isValid (tempBlock c))) (\<lambda>_.
            Inr (TempBlk, upd_cblk TempBlk (\<lambda>b. b\<lparr>blk_set := extractSet G addr, blk_tag := extractTag G addr\<rparr>) c))
        | Some p \<Rightarrow>
            bindE (LRU_insertBlock (cenv cfg) (packet.truncate pkt) p (ctags c)) (\<lambda>ts.
            Inr (InTags p, c\<lparr>ctags := ts\<rparr>))) (\<lambda>(bp, c).
      bindE (assertE (\<not> isValid (get_cblk bp c))) (\<lambda>_.
      Inr (bp, writebacks, c)))))))"

definition handleFill ::
  "cache_cfg \<Rightarrow> (u64 \<Rightarrow> bool \<Rightarrow> bool option) \<Rightarrow> (u64 \<Rightarrow> bool \<Rightarrow> bool) \<Rightarrow> fill_packet \<Rightarrow> blk_ptr option \<Rightarrow>
   wb_packet list \<Rightarrow> bool \<Rightarrow> cache_state \<Rightarrow> (blk_ptr \<times> wb_packet list \<times> cache_state) res" where
  "handleFill cfg mshr writeBuffer pkt blk writebacks allocate c =
     (let addr = pkt_addr pkt; is_secure = pkt_isSecure pkt; G = geom (ctags c) in
      bindE (assertE (pkt_isResponse pkt \<or> pkt_isWriteLine pkt)) (\<lambda>_.
      bindE (assertE (addr = blkAlign G addr)) (\<lambda>_.
      bindE (assertE (\<not> writeBuffer addr is_secure)) (\<lambda>_.
      bindE (case blk of
          None \<Rightarrow> fill_target cfg mshr pkt writebacks allocate c
        | Some bp \<Rightarrow>
            bindE (assertE (blk_tag (get_cblk bp c) = extractTag G addr)) (\<lambda>_.
            bindE (assertE (pkt_hasData pkt \<or> isValid (get_cblk bp c))) (\<lambda>_.
            Inr (bp, writebacks, c)))) (\<lambda>(bp, writebacks, c).
      let c = (if is_secure then upd_cblk bp (set_status BlkSecure) c else c);
          c = upd_cblk bp (set_status (BlkValid OR BlkReadable)) c in
      bindE (assertE (pkt_isWriteLine pkt \<longrightarrow> \<not> pkt_hasSharers pkt)) (\<lambda>_.
      bindE (if \<not> pkt_hasSharers pkt
        then let c = upd_cblk bp (set_status BlkWritable) c in
             if pkt_cacheResponding pkt
             then let c = upd_cblk bp (set_status BlkDirty) c in
                  bindE (assertE (\<not> isReadOnly cfg)) (\<lambda>_. Inr c)
             else Inr c
        else Inr c) (\<lambda>c.
      bindE (if pkt_isRead pkt
        then bindE (assertE (pkt_hasData pkt)) (\<lambda>_.
             bindE (assertE (length (pkt_data pkt) = unat (blkSize G))) (\<lambda>_. Inr (set_data bp (pkt_data pkt) c)))
        else Inr c) (\<lambda>c.
      let ready = clockEdge cfg + fillLatency cfg * clockPeriod (cenv cfg) + pkt_payloadDelay pkt in
      Inr (bp, writebacks, upd_cblk bp (\<lambda>b. b\<lparr>blk_whenReady := ready\<rparr>) c)))))))))"

section \<open>Flushing\<close>

text \<open>A functional write: the address, whether it is secure, the task and the bytes.\<close>

record func_write =
  fw_addr :: u64
  fw_secure :: bool
  fw_taskId :: u32
  fw_data :: "u8 list"

definition writebackVisitor :: "nat \<Rightarrow> func_write list \<times> cache_state \<Rightarrow> (func_write list \<times> cache_state) res" where
  "writebackVisitor p s =
     (let (sent, c) = s; b = get_cblk (InTags p) c in
      if isDirty b
      then bindE (assertE (isValid b)) (\<lambda>_.
           Inr (sent @ [\<lparr>fw_addr = blk_address (InTags p) c, fw_secure = False, fw_taskId = blk_task_id b,
                  fw_data = get_data (InTags p) c\<rparr>],
                upd_cblk (InTags p) (clear_status BlkDirty) c))
      else Inr (sent, c))"

definition invalidateVisitor :: "cache_cfg \<Rightarrow> nat \<Rightarrow> cache_state \<Rightarrow> cache_state res" where
  "invalidateVisitor cfg p c =
     (let b = get_cblk (InTags p) c in
      if isValid b
      then bindE (assertE (\<not> isDirty b)) (\<lambda>_.
           bindE (LRU_invalidate (cenv cfg) (Some p) (ctags c)) (\<lambda>ts.
           Inr (upd_cblk (InTags p) CacheBlk_invalidate (c\<lparr>ctags := ts\<rparr>))))
      else Inr c)"

text \<open>\<open>forEachBlk\<close> with a visitor that always goes on.\<close>

fun visit :: "(nat \<Rightarrow> 's \<Rightarrow> 's res) \<Rightarrow> nat list \<Rightarrow> 's \<Rightarrow> 's res" where
  "visit f [] s = Inr s"
| "visit f (p # ps) s = bindE (f p s) (visit f ps)"

definition memWriteback :: "cache_state \<Rightarrow> (func_write list \<times> cache_state) res" where
  "memWriteback c = visit writebackVisitor [0..<length (blks (ctags c))] ([], c)"

definition memInvalidate :: "cache_cfg \<Rightarrow> cache_state \<Rightarrow> cache_state res" where
  "memInvalidate cfg c = visit (invalidateVisitor cfg) [0..<length (blks (ctags c))] c"

text \<open>\<open>Cache::isDirty\<close>: the visitor stops at the first dirty block.\<close>

fun dirty_scan :: "cache_blk list \<Rightarrow> bool" where
  "dirty_scan [] = False"
| "dirty_scan (b # bs) = (if isDirty b then True else dirty_scan bs)"

definition Cache_isDirty :: "cache_state \<Rightarrow> bool" where
  "Cache_isDirty c = dirty_scan (blks (ctags c))"

end
