(* ===== verification/Cache_Invariant.thy ===== *)
theory Cache_Invariant
  imports Cache_Fill
begin

text \<open>
  The invariant of the LRU tag store and the effect of its operations. A set lists its blocks from the
  most to the least recently used with the invalid ones last, a line is held by one block at most, and
  the statistics count the valid blocks.
\<close>

section \<open>The invariant\<close>

abbreviation vld :: "tag_store \<Rightarrow> nat \<Rightarrow> bool" where
  "vld ts p \<equiv> isValid (blks ts ! p)"

text \<open>The line a block holds: its address and whether it is secure.\<close>

definition line :: "tag_geom \<Rightarrow> cache_blk \<Rightarrow> u64 \<times> bool" where
  "line G b = (regenerateBlkAddr G (blk_tag b) (of_int (blk_set b)), isSecure b)"

abbreviation line_at :: "tag_store \<Rightarrow> nat \<Rightarrow> u64 \<times> bool" where
  "line_at ts p \<equiv> line (geom ts) (blks ts ! p)"

definition set_ok :: "tag_store \<Rightarrow> nat \<Rightarrow> bool" where
  "set_ok ts i \<longleftrightarrow> (let ps = sets ts ! i in distinct ps \<and> length ps = unat (assoc (geom ts)) \<and>
     (\<forall>p. p \<in> set ps \<longleftrightarrow> p < length (blks ts) \<and> blk_set (blks ts ! p) = int i) \<and>
     ps = filter (vld ts) ps @ filter (\<lambda>p. \<not> vld ts p) ps)"

definition blk_ok :: "tag_geom \<Rightarrow> cache_blk \<Rightarrow> bool" where
  "blk_ok G b \<longleftrightarrow> 0 \<le> blk_set b \<and> blk_set b < int (unat (numSets G)) \<and>
     (of_int (blk_way b) :: u32) < assoc G \<and>
     (if isValid b then extractTag G (fst (line G b)) = blk_tag b \<and> extractSet G (fst (line G b)) = blk_set b
      else blk_status b = 0 \<and> blk_lockList b = [])"

definition tags_inv :: "tag_store \<Rightarrow> bool" where
  "tags_inv ts \<longleftrightarrow> wf_geom (geom ts) \<and> 0 < unat (assoc (geom ts)) \<and> allocAssoc ts = assoc (geom ts) \<and>
     length (sets ts) = unat (numSets (geom ts)) \<and>
     (\<forall>i < length (sets ts). set_ok ts i) \<and>
     (\<forall>p < length (blks ts). blk_ok (geom ts) (blks ts ! p)) \<and>
     (\<forall>p < length (blks ts). \<forall>q < length (blks ts). vld ts p \<longrightarrow> vld ts q \<longrightarrow> line_at ts p = line_at ts q \<longrightarrow> p = q)"

definition owned :: "int \<Rightarrow> cache_blk \<Rightarrow> bool" where
  "owned m b \<longleftrightarrow> isValid b \<and> blk_srcMasterId b = m"

definition counted :: "cache_env \<Rightarrow> tag_store \<Rightarrow> bool" where
  "counted e ts \<longleftrightarrow>
     (\<forall>b\<in>set (blks ts). blk_isTouched b = isValid b \<and> (isValid b \<longrightarrow> 0 \<le> blk_srcMasterId b \<and> blk_srcMasterId b < int (maxMasters e))) \<and>
     tagsInUse (stats ts) = int (length (filter isValid (blks ts))) \<and>
     length (occupancies (stats ts)) = maxMasters e \<and>
     (\<forall>m < maxMasters e. occupancies (stats ts) ! m = int (length (filter (owned (int m)) (blks ts))))"

lemma tags_invD:
  assumes "tags_inv ts"
  shows "wf_geom (geom ts)" "0 < unat (assoc (geom ts))" "allocAssoc ts = assoc (geom ts)"
    "length (sets ts) = unat (numSets (geom ts))"
    "i < length (sets ts) \<Longrightarrow> set_ok ts i" "p < length (blks ts) \<Longrightarrow> blk_ok (geom ts) (blks ts ! p)"
    "\<lbrakk>p < length (blks ts); q < length (blks ts); vld ts p; vld ts q; line_at ts p = line_at ts q\<rbrakk> \<Longrightarrow> p = q"
  using assms unfolding tags_inv_def by blast+

lemma set_okD:
  assumes "set_ok ts i"
  shows "distinct (sets ts ! i)" "length (sets ts ! i) = unat (assoc (geom ts))"
    "p \<in> set (sets ts ! i) \<longleftrightarrow> p < length (blks ts) \<and> blk_set (blks ts ! p) = int i"
    "sets ts ! i = filter (vld ts) (sets ts ! i) @ filter (\<lambda>p. \<not> vld ts p) (sets ts ! i)"
  using assms unfolding set_ok_def Let_def by blast+

lemma nat_index: "\<lbrakk>0 \<le> x; x < int n\<rbrakk> \<Longrightarrow> nat x < n \<and> x = int (nat x)"
  by auto

text \<open>The set of a block.\<close>

definition home :: "tag_store \<Rightarrow> nat \<Rightarrow> nat" where
  "home ts p = nat (blk_set (blks ts ! p))"

lemma home_facts:
  assumes "tags_inv ts" "p < length (blks ts)"
  shows "home ts p < length (sets ts)" "blk_set (blks ts ! p) = int (home ts p)" "p \<in> set (sets ts ! home ts p)"
proof -
  have "0 \<le> blk_set (blks ts ! p)" "blk_set (blks ts ! p) < int (unat (numSets (geom ts)))"
    using tags_invD(6) [OF assms] unfolding blk_ok_def by blast+
  then show *: "home ts p < length (sets ts)" "blk_set (blks ts ! p) = int (home ts p)"
    unfolding home_def tags_invD(4) [OF assms(1)] using nat_index by blast+
  show "p \<in> set (sets ts ! home ts p)"
    using set_okD(3) [OF tags_invD(5) [OF assms(1) *(1)]] assms(2) *(2) by blast
qed

section \<open>Replacing a block and reordering its set\<close>

definition place :: "nat \<Rightarrow> nat list \<Rightarrow> nat \<Rightarrow> cache_blk \<Rightarrow> tag_stats \<Rightarrow> tag_store \<Rightarrow> tag_store" where
  "place i ps p b s ts = ts\<lparr>sets := (sets ts)[i := ps], blks := (blks ts)[p := b], stats := s\<rparr>"

lemma place_simps [simp]:
  "geom (place i ps p b s ts) = geom ts" "allocAssoc (place i ps p b s ts) = allocAssoc ts"
  "sets (place i ps p b s ts) = (sets ts)[i := ps]" "blks (place i ps p b s ts) = (blks ts)[p := b]"
  "stats (place i ps p b s ts) = s"
  by (simp_all add: place_def)

lemma tags_inv_place:
  assumes inv: "tags_inv ts" and p: "p < length (blks ts)" and i: "i = home ts p"
    and b: "blk_set b = int i" "blk_ok (geom ts) b"
    and ps: "distinct ps" "set ps = set (sets ts ! i)"
    and sorted: "\<And>V. (\<And>q. V q = (if q = p then isValid b else vld ts q)) \<Longrightarrow> ps = filter V ps @ filter (\<lambda>q. \<not> V q) ps"
    and fresh: "\<And>q. \<lbrakk>isValid b; q < length (blks ts); q \<noteq> p; vld ts q\<rbrakk> \<Longrightarrow> line_at ts q \<noteq> line (geom ts) b"
  shows "tags_inv (place i ps p b s ts)"
proof -
  let ?ts = "place i ps p b s ts"
  have v: "vld ?ts q = (if q = p then isValid b else vld ts q)" for q using p by (cases "q = p") auto
  note h = home_facts [OF inv p, folded i]
  have "set_ok ?ts j" if j: "j < length (sets ts)" for j
  proof (cases "j = i")
    case True
    have "length ps = length (sets ts ! i)"
      using ps set_okD(1) [OF tags_invD(5) [OF inv h(1)]] by (metis distinct_card)
    moreover have "q \<in> set ps \<longleftrightarrow> q < length (blks ts) \<and> blk_set (blks ?ts ! q) = int i" for q
      using set_okD(3) [OF tags_invD(5) [OF inv h(1)], of q] p b(1) h(2) ps(2) by (cases "q = p") auto
    ultimately show ?thesis
      using True ps(1) sorted [of "vld ?ts", OF v] set_okD(2) [OF tags_invD(5) [OF inv h(1)]] h(1)
      by (simp add: set_ok_def)
  next
    case False
    note ok = tags_invD(5) [OF inv j]
    have np: "p \<notin> set (sets ts ! j)" using set_okD(3) [OF ok] h(2) False by simp
    have "filter (vld ?ts) (sets ts ! j) = filter (vld ts) (sets ts ! j)"
      "filter (\<lambda>q. \<not> vld ?ts q) (sets ts ! j) = filter (\<lambda>q. \<not> vld ts q) (sets ts ! j)"
      using np unfolding v by (auto intro!: filter_cong)
    moreover have "q \<in> set (sets ts ! j) \<longleftrightarrow> q < length (blks ts) \<and> blk_set (blks ?ts ! q) = int j" for q
      using set_okD(3) [OF ok, of q] p b(1) False np by (cases "q = p") auto
    ultimately show ?thesis
      using False set_okD(1,2,4) [OF ok] by (simp add: set_ok_def)
  qed
  moreover have "blk_ok (geom ts) (blks ?ts ! q)" if "q < length (blks ts)" for q
    using that tags_invD(6) [OF inv that] b(2) by (cases "q = p") auto
  moreover have "q = r" if "q < length (blks ts)" "r < length (blks ts)" "vld ?ts q" "vld ?ts r"
    "line_at ?ts q = line_at ?ts r" for q r
    using that tags_invD(7) [OF inv, of q r] fresh [of q] fresh [of r] by (cases "q = p"; cases "r = p") auto
  ultimately show ?thesis
    using tags_invD(1-4) [OF inv] unfolding tags_inv_def by simp
qed

lemma length_filter_update:
  assumes "p < length xs"
  shows "int (length (filter P (xs[p := v]))) =
    int (length (filter P xs)) + (if P v then 1 else 0) - (if P (xs ! p) then 1 else 0)"
  using assms
proof (induction xs arbitrary: p)
  case (Cons x xs)
  show ?case
  proof (cases p)
    case (Suc k)
    with Cons.prems Cons.IH [of k] show ?thesis by (auto split: if_splits)
  qed simp
qed simp

lemma counted_place:
  assumes "counted e ts" "p < length (blks ts)"
    and "blk_isTouched b = isValid b" "isValid b \<Longrightarrow> 0 \<le> blk_srcMasterId b \<and> blk_srcMasterId b < int (maxMasters e)"
    and "tagsInUse s = tagsInUse (stats ts) + (if isValid b then 1 else 0) - (if vld ts p then 1 else 0)"
    and "length (occupancies s) = maxMasters e"
    and "\<And>m. m < maxMasters e \<Longrightarrow> occupancies s ! m = occupancies (stats ts) ! m +
      (if owned (int m) b then 1 else 0) - (if owned (int m) (blks ts ! p) then 1 else 0)"
  shows "counted e (place i ps p b s ts)"
proof -
  have "set ((blks ts)[p := b]) \<subseteq> insert b (set (blks ts))" by (rule set_update_subset_insert)
  with assms(1,3,4) have "\<forall>c\<in>set ((blks ts)[p := b]). blk_isTouched c = isValid c \<and>
      (isValid c \<longrightarrow> 0 \<le> blk_srcMasterId c \<and> blk_srcMasterId c < int (maxMasters e))"
    unfolding counted_def by blast
  with assms show ?thesis
    unfolding counted_def by (simp add: length_filter_update)
qed

section \<open>Lookups\<close>

definition matches :: "u64 \<Rightarrow> bool \<Rightarrow> cache_blk \<Rightarrow> bool" where
  "matches tag is_secure b \<longleftrightarrow> blk_tag b = tag \<and> isValid b \<and> isSecure b = is_secure"

lemma findBlk_loop_find: "fst (findBlk_loop bs tag is_secure i ps) = find (\<lambda>p. matches tag is_secure (bs ! p)) ps"
  by (induction ps arbitrary: i) (auto simp: matches_def)

lemma findBlk_find: "fst (findBlk bs ps tag is_secure) = find (\<lambda>p. matches tag is_secure (bs ! p)) ps"
  by (simp add: findBlk_def findBlk_loop_find)

text \<open>The index of the set of an address.\<close>

definition set_of :: "tag_store \<Rightarrow> u64 \<Rightarrow> nat" where
  "set_of ts addr = nat (extractSet (geom ts) addr)"

lemma set_of_facts:
  assumes "tags_inv ts"
  shows "set_of ts addr < length (sets ts)" "extractSet (geom ts) addr = int (set_of ts addr)"
    "rd (sets ts) (extractSet (geom ts) addr) = Inr (sets ts ! set_of ts addr)"
proof -
  note f = extractSet_field(2,3) [OF tags_invD(1) [OF assms], of addr]
  then show *: "set_of ts addr < length (sets ts)" "extractSet (geom ts) addr = int (set_of ts addr)"
    unfolding set_of_def tags_invD(4) [OF assms] using nat_index by blast+
  then show "rd (sets ts) (extractSet (geom ts) addr) = Inr (sets ts ! set_of ts addr)" by (simp add: rd_of_nat)
qed

lemma line_aligned:
  assumes "tags_inv ts" "p < length (blks ts)" "vld ts p"
  shows "line_at ts p = (blkAlign (geom ts) addr, is_secure) \<longleftrightarrow>
    p \<in> set (sets ts ! set_of ts addr) \<and> matches (extractTag (geom ts) addr) is_secure (blks ts ! p)"
proof -
  note wf = tags_invD(1) [OF assms(1)]
  have fields: "extractTag (geom ts) (fst (line_at ts p)) = blk_tag (blks ts ! p)"
    "extractSet (geom ts) (fst (line_at ts p)) = blk_set (blks ts ! p)"
    using tags_invD(6) [OF assms(1,2)] assms(3) by (simp_all add: blk_ok_def)
  have in_set: "p \<in> set (sets ts ! set_of ts addr) \<longleftrightarrow> blk_set (blks ts ! p) = extractSet (geom ts) addr"
    using set_okD(3) [OF tags_invD(5) [OF assms(1) set_of_facts(1) [OF assms(1)]]] assms(2)
    by (simp add: set_of_facts(2) [OF assms(1)])
  have "fst (line_at ts p) = blkAlign (geom ts) addr \<longleftrightarrow>
    blk_tag (blks ts ! p) = extractTag (geom ts) addr \<and> blk_set (blks ts ! p) = extractSet (geom ts) addr"
  proof
    assume "fst (line_at ts p) = blkAlign (geom ts) addr"
    with fields align_fields(1,2) [OF wf, of addr] show "blk_tag (blks ts ! p) = extractTag (geom ts) addr \<and>
      blk_set (blks ts ! p) = extractSet (geom ts) addr" by simp
  next
    assume "blk_tag (blks ts ! p) = extractTag (geom ts) addr \<and> blk_set (blks ts ! p) = extractSet (geom ts) addr"
    with regenerate_align [OF wf, of addr] show "fst (line_at ts p) = blkAlign (geom ts) addr" by (simp add: line_def)
  qed
  moreover have "snd (line_at ts p) = isSecure (blks ts ! p)" by (simp add: line_def)
  ultimately show ?thesis using assms(3) in_set by (auto simp: matches_def prod_eq_iff)
qed

text \<open>The block that holds a line, if any.\<close>

definition holds :: "tag_store \<Rightarrow> u64 \<times> bool \<Rightarrow> nat \<Rightarrow> bool" where
  "holds ts k p \<longleftrightarrow> p < length (blks ts) \<and> vld ts p \<and> line_at ts p = k"

lemma find_holds:
  assumes "tags_inv ts"
  shows "find (\<lambda>p. matches (extractTag (geom ts) addr) is_secure (blks ts ! p)) (sets ts ! set_of ts addr) = r \<Longrightarrow>
    (case r of None \<Rightarrow> \<forall>p. \<not> holds ts (blkAlign (geom ts) addr, is_secure) p
     | Some p \<Rightarrow> holds ts (blkAlign (geom ts) addr, is_secure) p \<and> home ts p = set_of ts addr)"
proof -
  assume r: "find (\<lambda>p. matches (extractTag (geom ts) addr) is_secure (blks ts ! p)) (sets ts ! set_of ts addr) = r"
  note mem = set_okD(3) [OF tags_invD(5) [OF assms set_of_facts(1) [OF assms]]]
  show ?thesis
  proof (cases r)
    case None
    then have "\<not> matches (extractTag (geom ts) addr) is_secure (blks ts ! p)" if "p \<in> set (sets ts ! set_of ts addr)" for p
      using r that by (simp add: find_None_iff)
    then show ?thesis using None line_aligned [OF assms] by (auto simp: holds_def)
  next
    case (Some p)
    then have p: "p \<in> set (sets ts ! set_of ts addr)" "matches (extractTag (geom ts) addr) is_secure (blks ts ! p)"
      using r by (auto simp: find_Some_iff)
    with mem have "p < length (blks ts)" "blk_set (blks ts ! p) = int (set_of ts addr)" by blast+
    moreover have "vld ts p" using p(2) by (simp add: matches_def)
    ultimately show ?thesis
      using Some p line_aligned [OF assms, of p addr is_secure] by (simp add: holds_def home_def)
  qed
qed

lemma findBlock_holds:
  assumes "tags_inv ts"
  shows "\<exists>r. BaseSetAssoc_findBlock addr is_secure ts = Inr r \<and>
    (case r of None \<Rightarrow> \<forall>p. \<not> holds ts (blkAlign (geom ts) addr, is_secure) p
     | Some p \<Rightarrow> holds ts (blkAlign (geom ts) addr, is_secure) p \<and> home ts p = set_of ts addr)"
  using find_holds [OF assms refl, of addr is_secure]
  by (simp add: BaseSetAssoc_findBlock_def set_of_facts(3) [OF assms] findBlk_find)

section \<open>Effects of the operations\<close>

lemma upd_set_eq:
  "i < length (sets ts) \<Longrightarrow> f (sets ts ! i) = Inr ps \<Longrightarrow> upd_set (int i) f ts = Inr (ts\<lparr>sets := (sets ts)[i := ps]\<rparr>)"
  by (simp add: upd_set_def rd_of_nat wr_of_nat)

lemma change_occ_eq:
  assumes "0 \<le> m" "m < int (length (occupancies (stats ts)))"
  shows "change_occ m d ts = Inr (upd_stats (\<lambda>s. s\<lparr>occupancies :=
    (occupancies s)[nat m := occupancies s ! nat m + d]\<rparr>) ts)"
  using assms by (simp add: change_occ_def rd_def wr_def in_arr_def upd_stats_def)

text \<open>A hit moves the block to the front of its set and counts the reference; a miss changes statistics only.\<close>

lemma access_effect:
  assumes "tags_inv ts" "clockPeriod e \<noteq> 0"
  shows "\<exists>r lat s. LRU_accessBlock e addr is_secure ts = Inr (r, lat, case r of
        None \<Rightarrow> ts\<lparr>stats := s\<rparr>
      | Some p \<Rightarrow> place (home ts p) (p # remove1 p (sets ts ! home ts p)) p
          ((blks ts ! p)\<lparr>blk_refCount := blk_refCount (blks ts ! p) + 1\<rparr>) s ts) \<and>
    tagsInUse s = tagsInUse (stats ts) \<and> occupancies s = occupancies (stats ts) \<and>
    (case r of None \<Rightarrow> \<forall>p. \<not> holds ts (blkAlign (geom ts) addr, is_secure) p
     | Some p \<Rightarrow> holds ts (blkAlign (geom ts) addr, is_secure) p \<and> home ts p = set_of ts addr)"
proof -
  define r where "r = find (\<lambda>p. matches (extractTag (geom ts) addr) is_secure (blks ts ! p)) (sets ts ! set_of ts addr)"
  have r: "case r of None \<Rightarrow> \<forall>p. \<not> holds ts (blkAlign (geom ts) addr, is_secure) p
     | Some p \<Rightarrow> holds ts (blkAlign (geom ts) addr, is_secure) p \<and> home ts p = set_of ts addr"
    by (rule find_holds [OF assms(1) r_def [symmetric]])
  show ?thesis
  proof (cases r)
    case None
    define s where "s = (stats ts)\<lparr>tagAccesses := tagAccesses (stats ts) + unat (allocAssoc ts),
      dataAccesses := dataAccesses (stats ts) + (if sequentialAccess (geom ts) then 0 else unat (allocAssoc ts))\<rparr>"
    have "LRU_accessBlock e addr is_secure ts = Inr (None, lookupLatency (geom ts), ts\<lparr>stats := s\<rparr>)"
      using None
      by (simp add: LRU_accessBlock_def BaseSetAssoc_accessBlock_def set_of_facts(3) [OF assms(1)] findBlk_find
          r_def [symmetric] upd_stats_def Let_def s_def)
    moreover have "tagsInUse s = tagsInUse (stats ts)" "occupancies s = occupancies (stats ts)"
      by (simp_all add: s_def)
    ultimately show ?thesis using r None by (intro exI [of _ None]) auto
  next
    case (Some p)
    with r have p: "p < length (blks ts)" by (simp add: holds_def)
    note h = home_facts [OF assms(1) p]
    then have mv: "moveToHead p (sets ts ! home ts p) = Inr (p # remove1 p (sets ts ! home ts p))"
      by (subst moveToHead_eq) auto
    define s where "s = (stats ts)\<lparr>tagAccesses := tagAccesses (stats ts) + unat (allocAssoc ts),
      dataAccesses := dataAccesses (stats ts) + (if sequentialAccess (geom ts) then 1 else unat (allocAssoc ts))\<rparr>"
    have "\<exists>lat. BaseSetAssoc_accessBlock e addr is_secure ts = Inr (Some p, lat, ts\<lparr>stats := s,
        blks := (blks ts)[p := (blks ts ! p)\<lparr>blk_refCount := blk_refCount (blks ts ! p) + 1\<rparr>]\<rparr>)"
      using Some assms(2)
      by (simp add: BaseSetAssoc_accessBlock_def set_of_facts(3) [OF assms(1)] findBlk_find r_def [symmetric]
          ticksToCycles_def divCeil_def upd_stats_def upd_blk_def Let_def s_def)
    then obtain lat where "LRU_accessBlock e addr is_secure ts = Inr (Some p, lat,
        place (home ts p) (p # remove1 p (sets ts ! home ts p)) p
          ((blks ts ! p)\<lparr>blk_refCount := blk_refCount (blks ts ! p) + 1\<rparr>) s ts)"
      using h p by (auto simp: LRU_accessBlock_def upd_set_def rd_of_nat wr_of_nat mv place_def)
    moreover have "tagsInUse s = tagsInUse (stats ts)" "occupancies s = occupancies (stats ts)"
      by (simp_all add: s_def)
    ultimately show ?thesis using r Some by (intro exI [of _ "Some p"]) auto
  qed
qed

text \<open>With all ways allocatable the victim is the last block of the set.\<close>

lemma victim_last:
  assumes "tags_inv ts"
  shows "LRU_findVictim addr ts = Inr (Some (last (sets ts ! set_of ts addr)))"
    "last (sets ts ! set_of ts addr) < length (blks ts)"
    "home ts (last (sets ts ! set_of ts addr)) = set_of ts addr"
proof -
  let ?ps = "sets ts ! set_of ts addr"
  note ok = set_okD [OF tags_invD(5) [OF assms set_of_facts(1) [OF assms]]]
  have "?ps \<noteq> []" using ok(2) [of addr] tags_invD(2) [OF assms] by auto
  then have l: "last ?ps \<in> set ?ps" "find Q (rev ?ps) = Some (last ?ps)" if "Q (last ?ps)" for Q
    using that by (auto simp: find_Some_iff rev_nth last_conv_nth intro!: exI [of _ 0])
  have lt: "last ?ps < length (blks ts)" "blk_set (blks ts ! last ?ps) = int (set_of ts addr)"
    using ok(3) l(1) [of "\<lambda>_. True"] by blast+
  then show "last ?ps < length (blks ts)" "home ts (last ?ps) = set_of ts addr" by (simp_all add: home_def)
  have "(of_int (blk_way (blks ts ! last ?ps)) :: u32) < allocAssoc ts"
    using tags_invD(6) [OF assms lt(1)] tags_invD(3) [OF assms] by (simp add: blk_ok_def)
  with l(2) show "LRU_findVictim addr ts = Inr (Some (last ?ps))"
    by (simp add: LRU_findVictim_def set_of_facts(3) [OF assms])
qed

text \<open>Insertion replaces the block and moves it to the front of the set of the address.\<close>

definition inserted :: "cache_env \<Rightarrow> tag_geom \<Rightarrow> packet \<Rightarrow> cache_blk \<Rightarrow> cache_blk" where
  "inserted e G pkt b = (if isValid b then CacheBlk_invalidate (b\<lparr>blk_refCount := 0\<rparr>) else b)
     \<lparr>blk_isTouched := True, blk_tag := extractTag G (pkt_addr pkt),
      blk_srcMasterId := int (unat (req_masterId (pkt_req pkt))), blk_task_id := req_taskId (pkt_req pkt),
      blk_tickInserted := curTick e\<rparr>"

definition moved_occ :: "int \<Rightarrow> cache_blk \<Rightarrow> int list \<Rightarrow> int list" where
  "moved_occ m b occ =
     (let occ = (if isValid b then occ[nat (blk_srcMasterId b) := occ ! nat (blk_srcMasterId b) - 1] else occ)
      in occ[nat m := occ ! nat m + 1])"

lemma touched_id: "blk_isTouched b \<Longrightarrow> b\<lparr>blk_isTouched := True\<rparr> = b"
  by (cases b) simp

lemma touch_eq:
  "\<exists>s. touch e p ts = ts\<lparr>blks := (blks ts)[p := (blks ts ! p)\<lparr>blk_isTouched := True\<rparr>], stats := s\<rparr> \<and>
    occupancies s = occupancies (stats ts) \<and>
    tagsInUse s = tagsInUse (stats ts) + (if blk_isTouched (blks ts ! p) then 0 else 1)"
proof (cases "blk_isTouched (blks ts ! p)")
  case True
  then show ?thesis by (intro exI [of _ "stats ts"]) (simp add: touch_def touched_id)
next
  case False
  then show ?thesis
    by (intro exI [of _ "stats (touch e p ts)"]) (simp add: touch_def upd_stats_def upd_blk_def Let_def)
qed

lemma evict_eq:
  assumes "p < length (blks ts)"
    and "isValid (blks ts ! p) \<Longrightarrow> 0 \<le> blk_srcMasterId (blks ts ! p) \<and> blk_srcMasterId (blks ts ! p) < int (maxMasters e)"
    and "length (occupancies (stats ts)) = maxMasters e"
  shows "\<exists>s. evict e p ts = Inr (ts\<lparr>blks := (blks ts)[p :=
        if isValid (blks ts ! p) then CacheBlk_invalidate ((blks ts ! p)\<lparr>blk_refCount := 0\<rparr>) else blks ts ! p], stats := s\<rparr>) \<and>
    tagsInUse s = tagsInUse (stats ts) \<and>
    occupancies s = (let occ = occupancies (stats ts); src = nat (blk_srcMasterId (blks ts ! p)) in
      if isValid (blks ts ! p) then occ[src := occ ! src - 1] else occ)"
proof (cases "isValid (blks ts ! p)")
  case True
  with assms show ?thesis
    by (intro exI [of _ "stats (projr (evict e p ts))"])
      (simp add: evict_def upd_stats_def upd_blk_def Let_def change_occ_eq)
next
  case False
  then show ?thesis by (intro exI [of _ "stats ts"]) (simp add: evict_def)
qed

lemma insert_effect:
  assumes i: "extractSet (geom ts) (pkt_addr pkt) = int i" "i < length (sets ts)" "p \<in> set (sets ts ! i)"
    and p: "p < length (blks ts)"
    and src: "isValid (blks ts ! p) \<Longrightarrow> 0 \<le> blk_srcMasterId (blks ts ! p) \<and> blk_srcMasterId (blks ts ! p) < int (maxMasters e)"
    and m: "unat (req_masterId (pkt_req pkt)) < maxMasters e" "length (occupancies (stats ts)) = maxMasters e"
  shows "\<exists>s. LRU_insertBlock e pkt p ts = Inr (place i (p # remove1 p (sets ts ! i)) p
      (inserted e (geom ts) pkt (blks ts ! p)) s ts) \<and>
    tagsInUse s = tagsInUse (stats ts) + (if blk_isTouched (blks ts ! p) then 0 else 1) \<and>
    occupancies s = moved_occ (int (unat (req_masterId (pkt_req pkt)))) (blks ts ! p) (occupancies (stats ts))"
proof -
  define mid where "mid = unat (req_masterId (pkt_req pkt))"
  let ?b = "blks ts ! p" and ?m = "int mid"
  obtain s1 where t: "touch e p ts = ts\<lparr>blks := (blks ts)[p := ?b\<lparr>blk_isTouched := True\<rparr>], stats := s1\<rparr>"
    and s1: "occupancies s1 = occupancies (stats ts)"
      "tagsInUse s1 = tagsInUse (stats ts) + (if blk_isTouched ?b then 0 else 1)"
    using touch_eq [of e p ts] by blast
  let ?ts1 = "ts\<lparr>blks := (blks ts)[p := ?b\<lparr>blk_isTouched := True\<rparr>], stats := s1\<rparr>"
  have v: "isValid (?b\<lparr>blk_isTouched := True\<rparr>) = isValid ?b" by (simp add: isValid_def)
  define b2 where "b2 = (if isValid ?b then CacheBlk_invalidate (?b\<lparr>blk_isTouched := True, blk_refCount := 0\<rparr>)
     else ?b\<lparr>blk_isTouched := True\<rparr>)"
  obtain s2 where ev: "evict e p ?ts1 = Inr (ts\<lparr>blks := (blks ts)[p := b2], stats := s2\<rparr>)"
    and s2: "tagsInUse s2 = tagsInUse s1" "occupancies s2 = (let occ = occupancies (stats ts); src = nat (blk_srcMasterId ?b) in
      if isValid ?b then occ[src := occ ! src - 1] else occ)"
    using evict_eq [of p ?ts1 e] p src m(2) s1(1) by (auto simp: v b2_def cong: if_cong)
  have len: "length (occupancies s2) = maxMasters e" using m(2) by (simp add: s2 Let_def)
  have mv: "moveToHead p (sets ts ! i) = Inr (p # remove1 p (sets ts ! i))"
    using i(3) by (subst moveToHead_eq) auto
  have b2: "b2\<lparr>blk_isTouched := True, blk_tag := extractTag (geom ts) (pkt_addr pkt), blk_srcMasterId := ?m,
      blk_task_id := req_taskId (pkt_req pkt), blk_tickInserted := curTick e\<rparr> = inserted e (geom ts) pkt ?b"
    unfolding b2_def inserted_def mid_def by (simp add: CacheBlk_invalidate_def)
  let ?s = "s2\<lparr>occupancies := (occupancies s2)[nat ?m := occupancies s2 ! nat ?m + 1],
    tagAccesses := tagAccesses s2 + 1, dataAccesses := dataAccesses s2 + 1\<rparr>"
  have "BaseSetAssoc_insertBlock e pkt p ts = Inr (ts\<lparr>blks := (blks ts)[p := inserted e (geom ts) pkt ?b], stats := ?s\<rparr>)"
    unfolding BaseSetAssoc_insertBlock_def Let_def t ev b2 [symmetric] mid_def [symmetric]
    using m(1) len p by (simp add: change_occ_eq upd_blk_def upd_stats_def mid_def [symmetric])
  then have "LRU_insertBlock e pkt p ts = Inr (place i (p # remove1 p (sets ts ! i)) p (inserted e (geom ts) pkt ?b) ?s ts)"
    using i by (simp add: LRU_insertBlock_def upd_set_def rd_of_nat wr_of_nat mv place_def)
  moreover have "occupancies ?s = moved_occ ?m ?b (occupancies (stats ts))"
    by (simp add: moved_occ_def s2 Let_def)
  moreover have "tagsInUse ?s = tagsInUse (stats ts) + (if blk_isTouched ?b then 0 else 1)"
    using s1(2) s2(1) by simp
  ultimately show ?thesis unfolding mid_def by blast
qed

text \<open>Invalidation empties the block and moves it to the end of its set.\<close>

lemma invalidate_effect:
  assumes inv: "tags_inv ts" "counted e ts" and p: "p < length (blks ts)" "vld ts p"
  shows "\<exists>s ts1. LRU_invalidate e (Some p) ts = Inr ts1 \<and>
    upd_blk p CacheBlk_invalidate ts1 = place (home ts p) (remove1 p (sets ts ! home ts p) @ [p]) p
      (CacheBlk_invalidate ((blks ts ! p)\<lparr>blk_srcMasterId := int (unat invldMasterId),
         blk_task_id := Unknown_task, blk_tickInserted := curTick e\<rparr>)) s ts \<and>
    tagsInUse s = tagsInUse (stats ts) - 1 \<and>
    occupancies s = (let src = nat (blk_srcMasterId (blks ts ! p)); occ = occupancies (stats ts) in
      occ[src := occ ! src - 1])"
proof -
  let ?b = "blks ts ! p"
  have "?b \<in> set (blks ts)" using p(1) by simp
  with inv(2) p(2) have src: "0 \<le> blk_srcMasterId ?b" "blk_srcMasterId ?b < int (maxMasters e)"
    "length (occupancies (stats ts)) = maxMasters e"
    unfolding counted_def by blast+
  note h = home_facts [OF inv(1) p(1)]
  note ok = set_okD [OF tags_invD(5) [OF inv(1) h(1)]]
  have mv: "moveToTail p (sets ts ! home ts p) = Inr (remove1 p (sets ts ! home ts p) @ [p])"
    using h(3) ok(1) by (subst moveToTail_eq) auto
  define s where "s = (stats ts)\<lparr>tagsInUse := tagsInUse (stats ts) - 1, occupancies := (occupancies (stats ts))
    [nat (blk_srcMasterId ?b) := occupancies (stats ts) ! nat (blk_srcMasterId ?b) - 1]\<rparr>"
  define ts1 where "ts1 = ts\<lparr>stats := s, blks := (blks ts)[p := ?b\<lparr>blk_srcMasterId := int (unat invldMasterId),
     blk_task_id := Unknown_task, blk_tickInserted := curTick e\<rparr>],
     sets := (sets ts)[home ts p := remove1 p (sets ts ! home ts p) @ [p]]\<rparr>"
  have "LRU_invalidate e (Some p) ts = Inr ts1"
    using p src h
    by (simp add: LRU_invalidate_def BaseSetAssoc_invalidate_def upd_stats_def upd_blk_def Let_def change_occ_eq
        upd_set_def rd_of_nat wr_of_nat mv ts1_def s_def)
  moreover have "upd_blk p CacheBlk_invalidate ts1 = place (home ts p) (remove1 p (sets ts ! home ts p) @ [p]) p
      (CacheBlk_invalidate (?b\<lparr>blk_srcMasterId := int (unat invldMasterId),
         blk_task_id := Unknown_task, blk_tickInserted := curTick e\<rparr>)) s ts"
    using p(1) by (simp add: upd_blk_def ts1_def place_def)
  moreover have "tagsInUse s = tagsInUse (stats ts) - 1"
    "occupancies s = (let src = nat (blk_srcMasterId ?b); occ = occupancies (stats ts) in occ[src := occ ! src - 1])"
    by (simp_all add: s_def Let_def)
  ultimately show ?thesis by blast
qed

section \<open>Preservation\<close>

text \<open>Lists with the elements of a property first.\<close>

lemma split_filter_iff:
  "ps = filter V ps @ filter (\<lambda>q. \<not> V q) ps \<longleftrightarrow> (\<exists>vs ws. ps = vs @ ws \<and> (\<forall>v\<in>set vs. V v) \<and> (\<forall>w\<in>set ws. \<not> V w))"
  (is "?l \<longleftrightarrow> ?r")
proof
  assume ?r
  then obtain vs ws where "ps = vs @ ws" "\<forall>v\<in>set vs. V v" "\<forall>w\<in>set ws. \<not> V w" by blast
  then show ?l by (simp add: filter_id_conv filter_empty_conv)
next
  assume ?l
  then show ?r by (intro exI [of _ "filter V ps"] exI [of _ "filter (\<lambda>q. \<not> V q) ps"]) auto
qed

lemma sorted_front:
  assumes "ps = filter V ps @ filter (\<lambda>q. \<not> V q) ps" "distinct ps" "p \<in> set ps" "V' p"
    and "\<And>q. q \<noteq> p \<Longrightarrow> V' q = V q"
  shows "p # remove1 p ps = filter V' (p # remove1 p ps) @ filter (\<lambda>q. \<not> V' q) (p # remove1 p ps)"
proof -
  obtain vs ws where ps: "ps = vs @ ws" "\<forall>v\<in>set vs. V v" "\<forall>w\<in>set ws. \<not> V w"
    using assms(1) unfolding split_filter_iff by blast
  then have "p # remove1 p ps = (p # remove1 p vs) @ remove1 p ws"
    using assms(2) by (auto simp: remove1_append remove1_idem)
  moreover have "V' q = (q = p \<or> V q)" for q using assms(4,5) by (cases "q = p") auto
  then have "\<forall>v\<in>set (p # remove1 p vs). V' v" "\<forall>w\<in>set (remove1 p ws). \<not> V' w"
    using ps assms(2) by (auto simp: set_remove1_eq)
  ultimately show ?thesis unfolding split_filter_iff by blast
qed

lemma sorted_back:
  assumes "ps = filter V ps @ filter (\<lambda>q. \<not> V q) ps" "distinct ps" "p \<in> set ps" "\<not> V' p"
    and "\<And>q. q \<noteq> p \<Longrightarrow> V' q = V q"
  shows "remove1 p ps @ [p] = filter V' (remove1 p ps @ [p]) @ filter (\<lambda>q. \<not> V' q) (remove1 p ps @ [p])"
proof -
  obtain vs ws where ps: "ps = vs @ ws" "\<forall>v\<in>set vs. V v" "\<forall>w\<in>set ws. \<not> V w"
    using assms(1) unfolding split_filter_iff by blast
  then have "remove1 p ps @ [p] = remove1 p vs @ (remove1 p ws @ [p])"
    using assms(2) by (auto simp: remove1_append remove1_idem)
  moreover have "V' q = (q \<noteq> p \<and> V q)" for q using assms(4,5) by (cases "q = p") auto
  then have "\<forall>v\<in>set (remove1 p vs). V' v" "\<forall>w\<in>set (remove1 p ws @ [p]). \<not> V' w"
    using ps assms(2) by (auto simp: set_remove1_eq)
  ultimately show ?thesis unfolding split_filter_iff by blast
qed

lemma tags_inv_front:
  assumes "tags_inv ts" "p < length (blks ts)" "blk_set b = blk_set (blks ts ! p)" "isValid b" "blk_ok (geom ts) b"
    and "\<And>q. \<lbrakk>q < length (blks ts); q \<noteq> p; vld ts q\<rbrakk> \<Longrightarrow> line_at ts q \<noteq> line (geom ts) b"
  shows "tags_inv (place (home ts p) (p # remove1 p (sets ts ! home ts p)) p b s ts)"
proof (rule tags_inv_place [OF assms(1,2) refl])
  note h = home_facts [OF assms(1,2)] and ok = set_okD [OF tags_invD(5) [OF assms(1) home_facts(1) [OF assms(1,2)]]]
  show "blk_set b = int (home ts p)" using assms(3) h(2) by simp
  show "distinct (p # remove1 p (sets ts ! home ts p))" "set (p # remove1 p (sets ts ! home ts p)) = set (sets ts ! home ts p)"
    using ok(1) h(3) by (auto simp: set_remove1_eq)
  show "p # remove1 p (sets ts ! home ts p) = filter V (p # remove1 p (sets ts ! home ts p)) @
      filter (\<lambda>q. \<not> V q) (p # remove1 p (sets ts ! home ts p))"
    if "\<And>q. V q = (if q = p then isValid b else vld ts q)" for V
    by (rule sorted_front [OF ok(4) ok(1) h(3)]) (use that assms(4) in auto)
qed (use assms in auto)

lemma tags_inv_back:
  assumes "tags_inv ts" "p < length (blks ts)" "blk_set b = blk_set (blks ts ! p)" "\<not> isValid b" "blk_ok (geom ts) b"
  shows "tags_inv (place (home ts p) (remove1 p (sets ts ! home ts p) @ [p]) p b s ts)"
proof (rule tags_inv_place [OF assms(1,2) refl])
  note h = home_facts [OF assms(1,2)] and ok = set_okD [OF tags_invD(5) [OF assms(1) home_facts(1) [OF assms(1,2)]]]
  show "blk_set b = int (home ts p)" using assms(3) h(2) by simp
  show "distinct (remove1 p (sets ts ! home ts p) @ [p])" "set (remove1 p (sets ts ! home ts p) @ [p]) = set (sets ts ! home ts p)"
    using ok(1) h(3) by (auto simp: set_remove1_eq)
  show "remove1 p (sets ts ! home ts p) @ [p] = filter V (remove1 p (sets ts ! home ts p) @ [p]) @
      filter (\<lambda>q. \<not> V q) (remove1 p (sets ts ! home ts p) @ [p])"
    if "\<And>q. V q = (if q = p then isValid b else vld ts q)" for V
    by (rule sorted_back [OF ok(4) ok(1) h(3)]) (use that assms(4) in auto)
qed (use assms in auto)

text \<open>A change of a block that leaves its line, its place and its owner.\<close>

definition same_line :: "cache_blk \<Rightarrow> cache_blk \<Rightarrow> bool" where
  "same_line b b' \<longleftrightarrow> isValid b' = isValid b \<and> isSecure b' = isSecure b \<and> blk_tag b' = blk_tag b \<and>
     blk_set b' = blk_set b \<and> blk_way b' = blk_way b \<and> blk_isTouched b' = blk_isTouched b \<and>
     blk_srcMasterId b' = blk_srcMasterId b \<and> (isValid b \<or> blk_lockList b' = blk_lockList b) \<and>
     (blk_status b = 0 \<longrightarrow> blk_status b' = 0)"

lemma same_lineD:
  assumes "same_line b b'"
  shows "line G b' = line G b" "blk_ok G b \<Longrightarrow> blk_ok G b'" "owned m b' = owned m b"
  using assms by (auto simp: same_line_def line_def blk_ok_def owned_def)

lemma inv_access:
  assumes "tags_inv ts" "p < length (blks ts)" "vld ts p" "same_line (blks ts ! p) b"
  shows "tags_inv (place (home ts p) (p # remove1 p (sets ts ! home ts p)) p b s ts)"
proof (rule tags_inv_front [OF assms(1,2)])
  show "line_at ts q \<noteq> line (geom ts) b" if "q < length (blks ts)" "q \<noteq> p" "vld ts q" for q
    using that tags_invD(7) [OF assms(1) that(1) assms(2)] assms(3) same_lineD(1) [OF assms(4)] by metis
qed (use assms same_lineD(2) [OF assms(4)] tags_invD(6) [OF assms(1,2)] in \<open>auto simp: same_line_def\<close>)

lemma counted_same:
  assumes "counted e ts" "p < length (blks ts)" "same_line (blks ts ! p) b"
    "tagsInUse s = tagsInUse (stats ts)" "occupancies s = occupancies (stats ts)"
  shows "counted e (place i ps p b s ts)"
proof -
  have "blks ts ! p \<in> set (blks ts)" using assms(2) by simp
  with assms(1) have "blk_isTouched (blks ts ! p) = isValid (blks ts ! p)" "isValid (blks ts ! p) \<longrightarrow>
      0 \<le> blk_srcMasterId (blks ts ! p) \<and> blk_srcMasterId (blks ts ! p) < int (maxMasters e)"
    "length (occupancies (stats ts)) = maxMasters e"
    unfolding counted_def by blast+
  with assms same_lineD(3) [OF assms(3)] show ?thesis
    by (intro counted_place) (auto simp: same_line_def)
qed

end
