(* ===== verification/Cache_Correct.thy ===== *)
theory Cache_Correct
  imports Cache_Invariant
begin

text \<open>
  Filling, invalidating and flushing a cache: what each does to the lines it holds and to their data,
  the refinement of the tag store by one recency list per set, and that no dirty data is lost.
\<close>

section \<open>Status bits\<close>

lemma status_exp:
  "BlkValid = 2 ^ 0" "BlkWritable = 2 ^ 1" "BlkReadable = 2 ^ 2" "BlkDirty = 2 ^ 3" "BlkHWPrefetched = 2 ^ 5"
  "BlkSecure = 2 ^ 6"
  by (simp_all add: status_bits)

lemma status_bit:
  "isValid b \<longleftrightarrow> bit (blk_status b) 0" "isDirty b \<longleftrightarrow> bit (blk_status b) 3" "isSecure b \<longleftrightarrow> bit (blk_status b) 6"
  "wasPrefetched b \<longleftrightarrow> bit (blk_status b) 5"
  unfolding isValid_def isDirty_def isSecure_def wasPrefetched_def status_exp and_exp_word by simp_all

lemma status_bit2:
  "isWritable b \<longleftrightarrow> bit (blk_status b) 1 \<and> bit (blk_status b) 0"
  "isReadable b \<longleftrightarrow> bit (blk_status b) 2 \<and> bit (blk_status b) 0"
proof -
  have "w AND (2 ^ m OR 2 ^ n) = 2 ^ m OR 2 ^ n \<longleftrightarrow> bit w m \<and> bit w n" if "m < 32" "n < 32" for w :: u32 and m n
  proof
    assume "w AND (2 ^ m OR 2 ^ n) = 2 ^ m OR 2 ^ n"
    then have "bit (w AND (2 ^ m OR 2 ^ n)) k = bit (2 ^ m OR 2 ^ n :: u32) k" for k by simp
    from this [of m] this [of n] show "bit w m \<and> bit w n" using that by (simp add: bit_simps)
  next
    assume "bit w m \<and> bit w n"
    then show "w AND (2 ^ m OR 2 ^ n) = 2 ^ m OR 2 ^ n" by (intro bit_word_eqI) (auto simp: bit_simps)
  qed
  note this [of 1 0] this [of 2 0]
  then show "isWritable b \<longleftrightarrow> bit (blk_status b) 1 \<and> bit (blk_status b) 0"
    "isReadable b \<longleftrightarrow> bit (blk_status b) 2 \<and> bit (blk_status b) 0"
    unfolding isWritable_def isReadable_def Let_def status_exp by simp_all
qed

lemma bit_status_change:
  "bit (blk_status (set_status s b)) n \<longleftrightarrow> bit (blk_status b) n \<or> bit s n"
  "bit (blk_status (clear_status s b)) n \<longleftrightarrow> bit (blk_status b) n \<and> \<not> bit s n"
  using bit_imp_le_length [of "blk_status b" n]
  by (auto simp: set_status_def clear_status_def bit_simps)

lemma bit_exp_u32: "k < 32 \<Longrightarrow> bit (2 ^ k :: u32) n \<longleftrightarrow> n = k"
  by (auto simp: bit_exp_iff)

lemma bit_flags:
  "bit BlkValid n \<longleftrightarrow> n = 0" "bit BlkWritable n \<longleftrightarrow> n = 1" "bit BlkReadable n \<longleftrightarrow> n = 2" "bit BlkDirty n \<longleftrightarrow> n = 3"
  "bit BlkHWPrefetched n \<longleftrightarrow> n = 5" "bit BlkSecure n \<longleftrightarrow> n = 6"
  unfolding status_exp by (rule bit_exp_u32, simp)+

lemmas status_simps = status_bit status_bit2 bit_status_change bit_flags bit_or_iff

lemma status_fields [simp]:
  "blk_tag (set_status s b) = blk_tag b" "blk_set (set_status s b) = blk_set b" "blk_way (set_status s b) = blk_way b"
  "blk_isTouched (set_status s b) = blk_isTouched b" "blk_srcMasterId (set_status s b) = blk_srcMasterId b"
  "blk_lockList (set_status s b) = blk_lockList b"
  "blk_lockList (clear_status s b) = blk_lockList b" "blk_tag (clear_status s b) = blk_tag b" "blk_set (clear_status s b) = blk_set b" "blk_way (clear_status s b) = blk_way b"
  "blk_isTouched (clear_status s b) = blk_isTouched b" "blk_srcMasterId (clear_status s b) = blk_srcMasterId b"
  by (simp_all add: set_status_def clear_status_def)

lemma same_line_trans: "\<lbrakk>same_line a b; same_line b c\<rbrakk> \<Longrightarrow> same_line a c"
  by (auto simp: same_line_def)

lemma same_line_changes:
  "same_line b (clear_status BlkDirty b)" "same_line b (clear_status BlkWritable b)" "same_line b (release_task t b)"
  "same_line b (b\<lparr>blk_refCount := r\<rparr>)" "same_line b b"
  by (auto simp: same_line_def status_simps release_task_def) (simp_all add: clear_status_def)

section \<open>Eviction\<close>

text \<open>What is sent to the next level when block \<open>p\<close> is replaced.\<close>

definition evicted :: "cache_cfg \<Rightarrow> cache_state \<Rightarrow> nat \<Rightarrow> wb_packet list" where
  "evicted cfg c p =
     (let b = blks (ctags c) ! p; sent = isDirty b \<or> writebackClean cfg in
      if isValid b
      then [\<lparr>wb_cmd = (if isDirty b then WritebackDirty else if writebackClean cfg then WritebackClean else CleanEvict),
             wb_addr = fst (line_at (ctags c) p), wb_secure = snd (line_at (ctags c) p), wb_taskId = blk_task_id b,
             wb_hasSharers = sent \<and> \<not> isWritable b, wb_data = (if sent then Some (cdata c ! p) else None)\<rparr>]
      else [])"

lemma allocate_effect:
  assumes inv: "tags_inv (ctags c)" and cfg: "\<not> isReadOnly cfg \<or> writebackClean cfg"
    and p: "p = last (sets (ctags c) ! set_of (ctags c) addr)"
    and mshr: "vld (ctags c) p \<Longrightarrow> mshr (fst (line_at (ctags c) p)) (snd (line_at (ctags c) p)) = None"
  shows "\<exists>b n u. allocateBlock cfg mshr addr wbs c = Inr (Some p, wbs @ evicted cfg c p,
      c\<lparr>ctags := (ctags c)\<lparr>blks := (blks (ctags c))[p := b]\<rparr>, writebackCount := n, unusedPrefetches := u\<rparr>) \<and>
    same_line (blks (ctags c) ! p) b"
proof -
  let ?b = "blks (ctags c) ! p"
  note v = victim_last [OF inv, of addr, folded p]
  have addr: "blk_address (InTags p) c' = fst (line_at (ctags c') p)" for c'
    by (simp add: blk_address_def line_def)
  have sec: "isSecure ?b = snd (line_at (ctags c) p)" by (simp add: line_def)
  have sl: "same_line ?b (clear_status BlkDirty (clear_status BlkWritable (release_task (curTick (cenv cfg)) ?b)))"
    "same_line ?b (clear_status BlkDirty (release_task (curTick (cenv cfg)) ?b))"
    "same_line ?b (release_task (curTick (cenv cfg)) ?b)"
    by (meson same_line_changes same_line_trans)+
  show ?thesis
  proof (cases "isValid ?b")
    case False
    with v(1) same_line_changes(5) [of ?b] show ?thesis
      by (intro exI [of _ ?b] exI [of _ "writebackCount c"] exI [of _ "unusedPrefetches c"])
        (simp add: allocateBlock_def evicted_def)
  next
    case True
    define c1 where "c1 = (if wasPrefetched ?b then c\<lparr>unusedPrefetches := unusedPrefetches c + 1\<rparr> else c)"
    have c1: "ctags c1 = ctags c" "cdata c1 = cdata c" "writebackCount c1 = writebackCount c"
      by (simp_all add: c1_def)
    have al: "allocateBlock cfg mshr addr wbs c =
      bindE (if isDirty ?b \<or> writebackClean cfg then writebackBlk cfg (InTags p) c1 else cleanEvictBlk cfg (InTags p) c1)
        (\<lambda>(wb, c). Inr (Some p, wbs @ [wb], c))"
      using True v(1) mshr by (simp add: allocateBlock_def Let_def c1_def addr sec)
    define b1 where "b1 = (let b = release_task (curTick (cenv cfg)) ?b in
      if isDirty ?b \<or> writebackClean cfg
      then clear_status BlkDirty (if isWritable ?b then clear_status BlkWritable b else b) else b)"
    have "same_line ?b b1" using sl by (simp add: b1_def Let_def)
    moreover have "allocateBlock cfg mshr addr wbs c = Inr (Some p, wbs @ evicted cfg c p,
      c1\<lparr>ctags := (ctags c)\<lparr>blks := (blks (ctags c))[p := b1]\<rparr>,
        writebackCount := (if isDirty ?b \<or> writebackClean cfg then writebackCount c + 1 else writebackCount c)\<rparr>)"
      using True v(2) cfg
      by (auto simp: al writebackBlk_def cleanEvictBlk_def upd_blk_def c1 addr sec b1_def Let_def evicted_def)
    moreover have "c1\<lparr>ctags := t, writebackCount := n\<rparr> =
      c\<lparr>ctags := t, writebackCount := n, unusedPrefetches := unusedPrefetches c1\<rparr>" for t n
      by (simp add: c1_def)
    ultimately show ?thesis by metis
  qed
qed

section \<open>Filling\<close>

definition cache_inv :: "cache_cfg \<Rightarrow> cache_state \<Rightarrow> bool" where
  "cache_inv cfg c \<longleftrightarrow> tags_inv (ctags c) \<and> counted (cenv cfg) (ctags c) \<and> length (cdata c) = length (blks (ctags c))"

text \<open>A packet with the data of a block, as the cache receives it for a line it does not hold.\<close>

definition fill_ok :: "cache_cfg \<Rightarrow> tag_geom \<Rightarrow> fill_packet \<Rightarrow> bool" where
  "fill_ok cfg G pkt \<longleftrightarrow> (pkt_isResponse pkt \<or> pkt_isWriteLine pkt) \<and> pkt_addr pkt = blkAlign G (pkt_addr pkt) \<and>
     pkt_hasData pkt \<and> (pkt_isRead pkt \<or> pkt_isWriteLine pkt) \<and> (pkt_isWriteLine pkt \<longrightarrow> \<not> pkt_hasSharers pkt) \<and>
     (pkt_cacheResponding pkt \<longrightarrow> \<not> pkt_hasSharers pkt \<longrightarrow> \<not> isReadOnly cfg) \<and>
     (pkt_isRead pkt \<longrightarrow> length (pkt_data pkt) = unat (blkSize G)) \<and>
     unat (req_masterId (pkt_req pkt)) < maxMasters (cenv cfg)"

text \<open>The block \<open>b\<close> after the line of the packet has replaced what block \<open>b0\<close> held.\<close>

definition filled :: "tag_geom \<Rightarrow> fill_packet \<Rightarrow> cache_blk \<Rightarrow> cache_blk \<Rightarrow> bool" where
  "filled G pkt b0 b \<longleftrightarrow> isValid b \<and> isReadable b \<and> isSecure b = pkt_isSecure pkt \<and>
     isWritable b = (\<not> pkt_hasSharers pkt) \<and> isDirty b = (\<not> pkt_hasSharers pkt \<and> pkt_cacheResponding pkt) \<and>
     blk_tag b = extractTag G (pkt_addr pkt) \<and> blk_set b = blk_set b0 \<and> blk_way b = blk_way b0 \<and>
     blk_isTouched b \<and> blk_srcMasterId b = int (unat (req_masterId (pkt_req pkt))) \<and> blk_lockList b = []"

definition fill_blk :: "cache_cfg \<Rightarrow> fill_packet \<Rightarrow> cache_blk \<Rightarrow> cache_blk" where
  "fill_blk cfg pkt b =
     (let b = (if pkt_isSecure pkt then set_status BlkSecure b else b);
          b = set_status (BlkValid OR BlkReadable) b;
          b = (if \<not> pkt_hasSharers pkt then set_status BlkWritable b else b);
          b = (if \<not> pkt_hasSharers pkt \<and> pkt_cacheResponding pkt then set_status BlkDirty b else b)
      in b\<lparr>blk_whenReady := clockEdge cfg + fillLatency cfg * clockPeriod (cenv cfg) + pkt_payloadDelay pkt\<rparr>)"

lemma fill_blk_filled:
  assumes "blk_status b = 0" "blk_tag b = extractTag G (pkt_addr pkt)" "blk_set b = blk_set b0" "blk_way b = blk_way b0"
    "blk_isTouched b" "blk_srcMasterId b = int (unat (req_masterId (pkt_req pkt)))" "blk_lockList b = []"
  shows "filled G pkt b0 (fill_blk cfg pkt b)"
  using assms unfolding filled_def fill_blk_def Let_def by (auto simp: status_simps)

lemma fill_target_effect:
  assumes inv: "cache_inv cfg c" and cfg: "\<not> isReadOnly cfg \<or> writebackClean cfg" and pkt: "fill_ok cfg (geom (ctags c)) pkt"
    and p: "p = last (sets (ctags c) ! set_of (ctags c) (pkt_addr pkt))"
    and mshr: "vld (ctags c) p \<Longrightarrow> mshr (fst (line_at (ctags c) p)) (snd (line_at (ctags c) p)) = None"
  shows "\<exists>b s n u. fill_target cfg mshr pkt wbs True c = Inr (InTags p, wbs @ evicted cfg c p,
      c\<lparr>ctags := place (home (ctags c) p) (p # remove1 p (sets (ctags c) ! home (ctags c) p)) p b s (ctags c),
        writebackCount := n, unusedPrefetches := u\<rparr>) \<and>
    blk_status b = 0 \<and> blk_tag b = extractTag (geom (ctags c)) (pkt_addr pkt) \<and>
    blk_set b = blk_set (blks (ctags c) ! p) \<and> blk_way b = blk_way (blks (ctags c) ! p) \<and> blk_isTouched b \<and>
    blk_srcMasterId b = int (unat (req_masterId (pkt_req pkt))) \<and> blk_lockList b = [] \<and>
    tagsInUse s = tagsInUse (stats (ctags c)) + (if vld (ctags c) p then 0 else 1) \<and>
    occupancies s = moved_occ (int (unat (req_masterId (pkt_req pkt)))) (blks (ctags c) ! p) (occupancies (stats (ctags c)))"
proof -
  let ?ts = "ctags c" and ?b = "blks (ctags c) ! p"
  have ti: "tags_inv ?ts" and ct: "counted (cenv cfg) ?ts" using inv by (auto simp: cache_inv_def)
  note v = victim_last [OF ti, of "pkt_addr pkt", folded p] and s = set_of_facts [OF ti, of "pkt_addr pkt"]
  note h = home_facts [OF ti v(2)]
  obtain b1 n u where al: "allocateBlock cfg mshr (pkt_addr pkt) wbs c = Inr (Some p, wbs @ evicted cfg c p,
      c\<lparr>ctags := ?ts\<lparr>blks := (blks ?ts)[p := b1]\<rparr>, writebackCount := n, unusedPrefetches := u\<rparr>)"
    and b1: "same_line ?b b1"
    using allocate_effect [where mshr = mshr, OF ti cfg p mshr] by blast
  let ?ts1 = "?ts\<lparr>blks := (blks ?ts)[p := b1]\<rparr>"
  have "?b \<in> set (blks ?ts)" using v(2) by simp
  with ct have own: "blk_isTouched ?b = isValid ?b" "length (occupancies (stats ?ts)) = maxMasters (cenv cfg)"
    "isValid ?b \<longrightarrow> 0 \<le> blk_srcMasterId ?b \<and> blk_srcMasterId ?b < int (maxMasters (cenv cfg))"
    unfolding counted_def by blast+
  have "\<exists>s. LRU_insertBlock (cenv cfg) (packet.truncate pkt) p ?ts1 = Inr (place (home ?ts p)
      (p # remove1 p (sets ?ts ! home ?ts p)) p (inserted (cenv cfg) (geom ?ts) (packet.truncate pkt) b1) s ?ts1) \<and>
    tagsInUse s = tagsInUse (stats ?ts) + (if blk_isTouched b1 then 0 else 1) \<and>
    occupancies s = moved_occ (int (unat (req_masterId (pkt_req pkt)))) b1 (occupancies (stats ?ts))"
    using insert_effect [of ?ts1 "packet.truncate pkt" "home ?ts p" p "cenv cfg"] v(2,3) h own b1 s pkt
    by (simp add: packet.defs same_line_def fill_ok_def)
  then obtain s where ins: "LRU_insertBlock (cenv cfg) (packet.truncate pkt) p ?ts1 = Inr (place (home ?ts p)
      (p # remove1 p (sets ?ts ! home ?ts p)) p (inserted (cenv cfg) (geom ?ts) (packet.truncate pkt) b1) s ?ts1)"
    and st: "tagsInUse s = tagsInUse (stats ?ts) + (if blk_isTouched b1 then 0 else 1)"
      "occupancies s = moved_occ (int (unat (req_masterId (pkt_req pkt)))) b1 (occupancies (stats ?ts))" by blast
  let ?new = "inserted (cenv cfg) (geom ?ts) (packet.truncate pkt) b1"
  have bok: "\<not> isValid ?b \<longrightarrow> blk_status ?b = 0 \<and> blk_lockList ?b = []"
    using tags_invD(6) [OF ti v(2)] by (simp add: blk_ok_def)
  have new: "blk_status ?new = 0" "blk_tag ?new = extractTag (geom ?ts) (pkt_addr pkt)" "blk_set ?new = blk_set ?b"
    "blk_way ?new = blk_way ?b" "blk_isTouched ?new" "blk_srcMasterId ?new = int (unat (req_masterId (pkt_req pkt)))"
    "blk_lockList ?new = []"
    using b1 bok by (auto simp: inserted_def CacheBlk_invalidate_def packet.defs same_line_def)
  have "place i ps p ?new s ?ts1 = place i ps p ?new s ?ts" for i ps by (simp add: place_def)
  then have "fill_target cfg mshr pkt wbs True c = Inr (InTags p, wbs @ evicted cfg c p,
      c\<lparr>ctags := place (home ?ts p) (p # remove1 p (sets ?ts ! home ?ts p)) p ?new s ?ts,
        writebackCount := n, unusedPrefetches := u\<rparr>)"
    using pkt new(1) v(2) by (simp add: fill_target_def Let_def al ins fill_ok_def isValid_def)
  moreover have "moved_occ m b1 occ = moved_occ m ?b occ" for m occ
    using b1 by (simp add: moved_occ_def same_line_def)
  ultimately show ?thesis
    using new st b1 own(1) by (intro exI [of _ ?new] exI [of _ s] exI [of _ n] exI [of _ u]) (simp add: same_line_def)
qed

end
