(* ===== verification/Cache_Refinement.thy ===== *)
theory Cache_Refinement
  imports Cache_Correct
begin

text \<open>
  The cache keeps its invariant under accesses, fills and invalidations, and behaves as one recency list
  of lines for every set.
\<close>

section \<open>A fill keeps the invariant\<close>

lemma upd_blk_place [simp]:
  "p < length (blks ts) \<Longrightarrow> upd_blk p f (place i ps p b s ts) = place i ps p (f b) s ts"
  by (simp add: upd_blk_def place_def)

lemma fill_effect:
  assumes inv: "cache_inv cfg c" and cfg: "\<not> isReadOnly cfg \<or> writebackClean cfg" and pkt: "fill_ok cfg (geom (ctags c)) pkt"
    and wb: "\<not> wbuf (pkt_addr pkt) (pkt_isSecure pkt)"
    and p: "p = last (sets (ctags c) ! set_of (ctags c) (pkt_addr pkt))"
    and mshr: "vld (ctags c) p \<Longrightarrow> mshr (fst (line_at (ctags c) p)) (snd (line_at (ctags c) p)) = None"
  shows "\<exists>b s n u. handleFill cfg mshr wbuf pkt None wbs True c = Inr (InTags p, wbs @ evicted cfg c p,
      c\<lparr>ctags := place (home (ctags c) p) (p # remove1 p (sets (ctags c) ! home (ctags c) p)) p b s (ctags c),
        cdata := (if pkt_isRead pkt then (cdata c)[p := pkt_data pkt] else cdata c),
        writebackCount := n, unusedPrefetches := u\<rparr>) \<and>
    filled (geom (ctags c)) pkt (blks (ctags c) ! p) b \<and>
    tagsInUse s = tagsInUse (stats (ctags c)) + (if vld (ctags c) p then 0 else 1) \<and>
    occupancies s = moved_occ (int (unat (req_masterId (pkt_req pkt)))) (blks (ctags c) ! p) (occupancies (stats (ctags c)))"
proof -
  let ?ts = "ctags c"
  let ?pl = "\<lambda>b s. place (home ?ts p) (p # remove1 p (sets ?ts ! home ?ts p)) p b s ?ts"
  have lt: "p < length (blks ?ts)"
    using victim_last(2) [of ?ts "pkt_addr pkt"] inv p by (simp add: cache_inv_def)
  obtain b s n u where ft: "fill_target cfg mshr pkt wbs True c = Inr (InTags p, wbs @ evicted cfg c p,
      c\<lparr>ctags := ?pl b s, writebackCount := n, unusedPrefetches := u\<rparr>)"
    and b: "blk_status b = 0" "blk_tag b = extractTag (geom ?ts) (pkt_addr pkt)" "blk_set b = blk_set (blks ?ts ! p)"
      "blk_way b = blk_way (blks ?ts ! p)" "blk_isTouched b" "blk_srcMasterId b = int (unat (req_masterId (pkt_req pkt)))"
      "blk_lockList b = []"
    and st: "tagsInUse s = tagsInUse (stats ?ts) + (if vld ?ts p then 0 else 1)"
      "occupancies s = moved_occ (int (unat (req_masterId (pkt_req pkt)))) (blks ?ts ! p) (occupancies (stats ?ts))"
    using fill_target_effect [where mshr = mshr, OF inv cfg pkt p mshr] by blast
  have "handleFill cfg mshr wbuf pkt None wbs True c = Inr (InTags p, wbs @ evicted cfg c p,
      c\<lparr>ctags := ?pl (fill_blk cfg pkt b) s, cdata := (if pkt_isRead pkt then (cdata c)[p := pkt_data pkt] else cdata c),
        writebackCount := n, unusedPrefetches := u\<rparr>)"
    using pkt wb lt unfolding handleFill_def fill_blk_def fill_ok_def
    by (auto simp: Let_def ft)
  with fill_blk_filled [OF b] st show ?thesis by blast
qed

lemma moved_occ_nth:
  assumes "k < length occ" "m < length occ" "isValid b \<Longrightarrow> 0 \<le> blk_srcMasterId b \<and> blk_srcMasterId b < int (length occ)"
  shows "length (moved_occ (int m) b occ) = length occ"
    "moved_occ (int m) b occ ! k = occ ! k + (if k = m then 1 else 0) - (if owned (int k) b then 1 else 0)"
proof -
  have "nat (blk_srcMasterId b) = k \<longleftrightarrow> blk_srcMasterId b = int k" if "isValid b" using assms(3) [OF that] by auto
  then show "moved_occ (int m) b occ ! k = occ ! k + (if k = m then 1 else 0) - (if owned (int k) b then 1 else 0)"
    using assms by (auto simp: moved_occ_def owned_def nth_list_update)
qed (simp add: moved_occ_def Let_def)

lemma filled_line:
  assumes "tags_inv ts" "p < length (blks ts)" "home ts p = set_of ts (pkt_addr pkt)"
    "filled (geom ts) pkt (blks ts ! p) b" "pkt_addr pkt = blkAlign (geom ts) (pkt_addr pkt)"
  shows "line (geom ts) b = (pkt_addr pkt, pkt_isSecure pkt)" "blk_ok (geom ts) b"
proof -
  note wf = tags_invD(1) [OF assms(1)]
  have s: "blk_set b = extractSet (geom ts) (pkt_addr pkt)"
    using assms(3,4) home_facts(2) [OF assms(1,2)] set_of_facts(2) [OF assms(1)] by (simp add: filled_def)
  have "regenerateBlkAddr (geom ts) (blk_tag b) (of_int (blk_set b)) = pkt_addr pkt"
    unfolding s using regenerate_align [OF wf, of "pkt_addr pkt"] assms(4,5) by (simp add: filled_def)
  then show l: "line (geom ts) b = (pkt_addr pkt, pkt_isSecure pkt)" using assms(4) by (simp add: line_def filled_def)
  show "blk_ok (geom ts) b"
    using tags_invD(6) [OF assms(1,2)] assms(4) s unfolding blk_ok_def l by (simp add: filled_def)
qed

lemma counted_fill:
  assumes ct: "counted e ts" and p: "p < length (blks ts)" and b: "filled G pkt (blks ts ! p) b"
    and m: "unat (req_masterId (pkt_req pkt)) < maxMasters e"
    and s: "tagsInUse s = tagsInUse (stats ts) + (if vld ts p then 0 else 1)"
      "occupancies s = moved_occ (int (unat (req_masterId (pkt_req pkt)))) (blks ts ! p) (occupancies (stats ts))"
  shows "counted e (place i ps p b s ts)"
proof -
  define mid where "mid = unat (req_masterId (pkt_req pkt))"
  have "blks ts ! p \<in> set (blks ts)" using p by simp
  with ct have own: "length (occupancies (stats ts)) = maxMasters e"
    "isValid (blks ts ! p) \<Longrightarrow> 0 \<le> blk_srcMasterId (blks ts ! p) \<and> blk_srcMasterId (blks ts ! p) < int (maxMasters e)"
    unfolding counted_def by blast+
  have b': "isValid b" "blk_isTouched b" "blk_srcMasterId b = int mid" using b by (simp_all add: filled_def mid_def)
  note occ = moved_occ_nth [of _ "occupancies (stats ts)" mid "blks ts ! p", unfolded own(1), OF _ _ own(2)]
  show ?thesis
  proof (rule counted_place [OF ct p])
    show "length (occupancies s) = maxMasters e"
      using occ(1) [of mid] m unfolding s(2) mid_def [symmetric] by simp
    show "occupancies s ! k = occupancies (stats ts) ! k + (if owned (int k) b then 1 else 0) -
        (if owned (int k) (blks ts ! p) then 1 else 0)" if "k < maxMasters e" for k
      using occ(2) [OF that] m b' unfolding s(2) mid_def [symmetric] by (simp add: owned_def)
  qed (use b' m s(1) in \<open>auto simp: mid_def [symmetric]\<close>)
qed

lemma fill_keeps:
  assumes inv: "cache_inv cfg c" and cfg: "\<not> isReadOnly cfg \<or> writebackClean cfg" and pkt: "fill_ok cfg (geom (ctags c)) pkt"
    and p: "p = last (sets (ctags c) ! set_of (ctags c) (pkt_addr pkt))"
    and b: "filled (geom (ctags c)) pkt (blks (ctags c) ! p) b"
    and s: "tagsInUse s = tagsInUse (stats (ctags c)) + (if vld (ctags c) p then 0 else 1)"
      "occupancies s = moved_occ (int (unat (req_masterId (pkt_req pkt)))) (blks (ctags c) ! p) (occupancies (stats (ctags c)))"
    and miss: "\<forall>q. \<not> holds (ctags c) (pkt_addr pkt, pkt_isSecure pkt) q"
  shows "tags_inv (place (home (ctags c) p) (p # remove1 p (sets (ctags c) ! home (ctags c) p)) p b s (ctags c))"
    "counted (cenv cfg) (place (home (ctags c) p) (p # remove1 p (sets (ctags c) ! home (ctags c) p)) p b s (ctags c))"
proof -
  have ti: "tags_inv (ctags c)" "counted (cenv cfg) (ctags c)" using inv by (simp_all add: cache_inv_def)
  note v = victim_last [OF ti(1), of "pkt_addr pkt", folded p]
  have al: "pkt_addr pkt = blkAlign (geom (ctags c)) (pkt_addr pkt)" using pkt by (simp add: fill_ok_def)
  note l = filled_line [OF ti(1) v(2,3) b al]
  show "tags_inv (place (home (ctags c) p) (p # remove1 p (sets (ctags c) ! home (ctags c) p)) p b s (ctags c))"
    using b miss l by (intro tags_inv_front [OF ti(1) v(2)]) (auto simp: filled_def holds_def)
  show "counted (cenv cfg) (place (home (ctags c) p) (p # remove1 p (sets (ctags c) ! home (ctags c) p)) p b s (ctags c))"
    using pkt by (intro counted_fill [OF ti(2) v(2) b _ s]) (simp add: fill_ok_def)
qed

section \<open>Invalidation\<close>

lemma invalidate_keeps:
  assumes inv: "tags_inv ts" "counted e ts" and p: "p < length (blks ts)" "vld ts p"
  shows "\<exists>ts1 b s. LRU_invalidate e (Some p) ts = Inr ts1 \<and>
    upd_blk p CacheBlk_invalidate ts1 = place (home ts p) (remove1 p (sets ts ! home ts p) @ [p]) p b s ts \<and>
    tags_inv (upd_blk p CacheBlk_invalidate ts1) \<and> counted e (upd_blk p CacheBlk_invalidate ts1) \<and>
    blk_status b = 0 \<and> blk_tag b = blk_tag (blks ts ! p) \<and> blk_set b = blk_set (blks ts ! p)"
proof -
  let ?b = "CacheBlk_invalidate ((blks ts ! p)\<lparr>blk_srcMasterId := int (unat invldMasterId),
    blk_task_id := Unknown_task, blk_tickInserted := curTick e\<rparr>)"
  obtain ts1 s where op: "LRU_invalidate e (Some p) ts = Inr ts1"
    "upd_blk p CacheBlk_invalidate ts1 = place (home ts p) (remove1 p (sets ts ! home ts p) @ [p]) p ?b s ts"
    and s: "tagsInUse s = tagsInUse (stats ts) - 1" "occupancies s = (let src = nat (blk_srcMasterId (blks ts ! p));
      occ = occupancies (stats ts) in occ[src := occ ! src - 1])"
    using invalidate_effect [OF assms] by blast
  have b: "\<not> isValid ?b" "blk_status ?b = 0" "blk_isTouched ?b = False" "blk_set ?b = blk_set (blks ts ! p)"
    "blk_way ?b = blk_way (blks ts ! p)" "blk_tag ?b = blk_tag (blks ts ! p)" "blk_lockList ?b = []"
    by (simp_all add: CacheBlk_invalidate_def isValid_def)
  have "blk_ok (geom ts) ?b" using tags_invD(6) [OF inv(1) p(1)] b by (simp add: blk_ok_def)
  then have ti: "tags_inv (place (home ts p) (remove1 p (sets ts ! home ts p) @ [p]) p ?b s ts)"
    using b by (intro tags_inv_back [OF inv(1) p(1)]) auto
  have "blks ts ! p \<in> set (blks ts)" using p by simp
  with inv(2) p(2) have own: "0 \<le> blk_srcMasterId (blks ts ! p)" "blk_srcMasterId (blks ts ! p) < int (maxMasters e)"
    "length (occupancies (stats ts)) = maxMasters e"
    unfolding counted_def by blast+
  have "counted e (place (home ts p) (remove1 p (sets ts ! home ts p) @ [p]) p ?b s ts)"
  proof (rule counted_place [OF inv(2) p(1)])
    have src: "nat (blk_srcMasterId (blks ts ! p)) = k \<longleftrightarrow> blk_srcMasterId (blks ts ! p) = int k" for k
      using own(1) by auto
    show "occupancies s ! k = occupancies (stats ts) ! k + (if owned (int k) ?b then 1 else 0) -
        (if owned (int k) (blks ts ! p) then 1 else 0)" if "k < maxMasters e" for k
      using that own p(2) b(1) src [of k] by (auto simp: s Let_def owned_def nth_list_update)
    show "length (occupancies s) = maxMasters e" using own(3) by (simp add: s Let_def)
    show "tagsInUse s = tagsInUse (stats ts) + (if isValid ?b then 1 else 0) - (if vld ts p then 1 else 0)"
      using b(1) p(2) s(1) by simp
    show "blk_isTouched ?b = isValid ?b" using b(1,3) by simp
    show "isValid ?b \<Longrightarrow> 0 \<le> blk_srcMasterId ?b \<and> blk_srcMasterId ?b < int (maxMasters e)" using b(1) by simp
  qed
  with op ti b show ?thesis by (intro exI [of _ ts1] exI [of _ ?b] exI [of _ s]) simp
qed

section \<open>Recency lists\<close>

text \<open>The lines of a set from the most to the least recently used.\<close>

definition lines :: "tag_store \<Rightarrow> nat \<Rightarrow> (u64 \<times> bool) list" where
  "lines ts i = map (line_at ts) (filter (vld ts) (sets ts ! i))"

lemma map_remove1:
  "inj_on f (insert x (set xs)) \<Longrightarrow> map f (remove1 x xs) = remove1 (f x) (map f xs)"
  by (induction xs) (auto simp: inj_on_def)

lemma line_inj:
  assumes "tags_inv ts" "i < length (sets ts)"
  shows "inj_on (line_at ts) (set (filter (vld ts) (sets ts ! i)))"
  using tags_invD(7) [OF assms(1)] set_okD(3) [OF tags_invD(5) [OF assms]] by (auto simp: inj_on_def)

lemma distinct_lines: "tags_inv ts \<Longrightarrow> i < length (sets ts) \<Longrightarrow> distinct (lines ts i)"
  using line_inj [of ts i] set_okD(1) [OF tags_invD(5), of ts i] by (simp add: lines_def distinct_map)

lemma lines_mem:
  assumes "tags_inv ts" "i < length (sets ts)"
  shows "k \<in> set (lines ts i) \<longleftrightarrow> (\<exists>p. holds ts k p \<and> home ts p = i)"
  using set_okD(3) [OF tags_invD(5) [OF assms]] home_facts(2) [OF assms(1)] by (auto simp: lines_def holds_def)

text \<open>Only the set of the block that is replaced changes.\<close>

lemma lines_other:
  assumes "tags_inv ts" "p < length (blks ts)" "j < length (sets ts)" "j \<noteq> home ts p"
  shows "lines (place (home ts p) ps p b s ts) j = lines ts j"
proof -
  have "p \<notin> set (sets ts ! j)"
    using assms set_okD(3) [OF tags_invD(5) [OF assms(1,3)], of p] home_facts(2) [OF assms(1,2)] by simp
  then have same: "(blks ts)[p := b] ! q = blks ts ! q" if "q \<in> set (sets ts ! j)" for q
    using that by (metis nth_list_update_neq)
  have "filter (\<lambda>q. isValid ((blks ts)[p := b] ! q)) (sets ts ! j) = filter (vld ts) (sets ts ! j)"
    by (rule filter_cong) (simp_all add: same)
  then show ?thesis
    unfolding lines_def using assms(4) same by simp
qed

lemma lines_place:
  assumes "p < length (blks ts)" "home ts p < length (sets ts)"
  shows "lines (place (home ts p) ps p b s ts) (home ts p) =
    map (\<lambda>q. if q = p then line (geom ts) b else line_at ts q) (filter (\<lambda>q. if q = p then isValid b else vld ts q) ps)"
proof -
  have *: "blks (place (home ts p) ps p b s ts) ! q = (if q = p then b else blks ts ! q)" for q
    using assms(1) by (cases "q = p") auto
  show ?thesis unfolding lines_def * using assms(2) by (auto intro!: map_cong filter_cong)
qed

lemma filter_map_others:
  "p \<notin> set ps \<Longrightarrow> map (\<lambda>q. if q = p then x else f q) (filter (\<lambda>q. if q = p then v else V q) ps) = map f (filter V ps)"
  by (induction ps) auto

lemma lines_access:
  assumes "tags_inv ts" "holds ts k p" "same_line (blks ts ! p) b" "j < length (sets ts)"
  shows "lines (place (home ts p) (p # remove1 p (sets ts ! home ts p)) p b s ts) j =
    (if j = home ts p then k # remove1 k (lines ts j) else lines ts j)"
proof (cases "j = home ts p")
  case True
  from assms(2) have p: "p < length (blks ts)" "vld ts p" "line_at ts p = k" by (simp_all add: holds_def)
  note h = home_facts [OF assms(1) p(1)] and ok = set_okD [OF tags_invD(5) [OF assms(1) home_facts(1) [OF assms(1) p(1)]]]
  have "p \<notin> set (remove1 p (sets ts ! home ts p))" using ok(1) by (simp add: set_remove1_eq)
  then have "lines (place (home ts p) (p # remove1 p (sets ts ! home ts p)) p b s ts) (home ts p) =
      k # map (line_at ts) (filter (vld ts) (remove1 p (sets ts ! home ts p)))"
    using p assms(3) same_lineD(1) [OF assms(3)]
    by (simp add: lines_place [OF p(1) h(1)] filter_map_others same_line_def)
  also have "map (line_at ts) (filter (vld ts) (remove1 p (sets ts ! home ts p))) = remove1 k (lines ts (home ts p))"
  proof -
    have "insert p (set (filter (vld ts) (sets ts ! home ts p))) = set (filter (vld ts) (sets ts ! home ts p))"
      using h(3) p(2) by auto
    with line_inj [OF assms(1) h(1)] show ?thesis
      using p(3) by (simp add: lines_def map_remove1 filter_remove1)
  qed
  finally show ?thesis using True by simp
next
  case False
  then show ?thesis using lines_other [OF assms(1) _ assms(4) False] assms(2) by (simp add: holds_def)
qed

lemma lines_invalidate:
  assumes "tags_inv ts" "holds ts k p" "\<not> isValid b" "j < length (sets ts)"
  shows "lines (place (home ts p) (remove1 p (sets ts ! home ts p) @ [p]) p b s ts) j =
    (if j = home ts p then remove1 k (lines ts j) else lines ts j)"
proof (cases "j = home ts p")
  case True
  from assms(2) have p: "p < length (blks ts)" "vld ts p" "line_at ts p = k" by (simp_all add: holds_def)
  note h = home_facts [OF assms(1) p(1)] and ok = set_okD [OF tags_invD(5) [OF assms(1) home_facts(1) [OF assms(1) p(1)]]]
  have "p \<notin> set (remove1 p (sets ts ! home ts p))" using ok(1) by (simp add: set_remove1_eq)
  then have "lines (place (home ts p) (remove1 p (sets ts ! home ts p) @ [p]) p b s ts) (home ts p) =
      map (line_at ts) (filter (vld ts) (remove1 p (sets ts ! home ts p)))"
    using assms(3) by (simp add: lines_place [OF p(1) h(1)] filter_map_others)
  also have "\<dots> = remove1 k (lines ts (home ts p))"
  proof -
    have "insert p (set (filter (vld ts) (sets ts ! home ts p))) = set (filter (vld ts) (sets ts ! home ts p))"
      using h(3) p(2) by auto
    with line_inj [OF assms(1) h(1)] show ?thesis
      using p(3) by (simp add: lines_def map_remove1 filter_remove1)
  qed
  finally show ?thesis using True by simp
next
  case False
  then show ?thesis using lines_other [OF assms(1) _ assms(4) False] assms(2) by (simp add: holds_def)
qed

text \<open>A fill of a full set drops its last line.\<close>

lemma victim_lines:
  assumes "tags_inv ts" "p = last (sets ts ! i)" "i < length (sets ts)"
  shows "if vld ts p then length (lines ts i) = unat (assoc (geom ts)) \<and> last (lines ts i) = line_at ts p \<and>
      map (line_at ts) (filter (vld ts) (remove1 p (sets ts ! i))) = butlast (lines ts i)
    else length (lines ts i) < unat (assoc (geom ts)) \<and>
      map (line_at ts) (filter (vld ts) (remove1 p (sets ts ! i))) = lines ts i"
proof -
  note ok = set_okD [OF tags_invD(5) [OF assms(1,3)]]
  have "sets ts ! i \<noteq> []" using ok(2) tags_invD(2) [OF assms(1)] by auto
  then have ps: "sets ts ! i = butlast (sets ts ! i) @ [p]" using assms(2) by simp
  with ok(1) have rm: "remove1 p (sets ts ! i) = butlast (sets ts ! i)"
    by (metis distinct.simps(2) distinct1_rotate in_set_remove1 rotate1.simps(2) remove1_append remove1.simps(2) append_Nil2)
  show ?thesis
  proof (cases "vld ts p")
    case True
    have "filter (\<lambda>q. \<not> vld ts q) (sets ts ! i) = []"
    proof (rule ccontr)
      assume ne: "filter (\<lambda>q. \<not> vld ts q) (sets ts ! i) \<noteq> []"
      then have "last (sets ts ! i) = last (filter (\<lambda>q. \<not> vld ts q) (sets ts ! i))" using ok(4) by (metis last_appendR)
      moreover have "last (filter (\<lambda>q. \<not> vld ts q) (sets ts ! i)) \<in> set (filter (\<lambda>q. \<not> vld ts q) (sets ts ! i))"
        using ne by (rule last_in_set)
      ultimately show False using True assms(2) by simp
    qed
    then have all: "filter (vld ts) (sets ts ! i) = sets ts ! i" using ok(4) by simp
    then have "filter (vld ts) (butlast (sets ts ! i)) = butlast (sets ts ! i)"
      by (metis filter_id_conv in_set_butlastD)
    with True all rm ok(2) ps assms(2) \<open>sets ts ! i \<noteq> []\<close> show ?thesis
      by (simp add: lines_def map_butlast last_map)
  next
    case False
    have f: "filter (vld ts) (sets ts ! i) = filter (vld ts) (butlast (sets ts ! i))"
      using False by (subst ps) simp
    have "length (filter (vld ts) (butlast (sets ts ! i))) \<le> length (butlast (sets ts ! i))" by (rule length_filter_le)
    also have "\<dots> < unat (assoc (geom ts))" using ok(2) tags_invD(2) [OF assms(1)] by simp
    finally show ?thesis using False f rm by (simp add: lines_def)
  qed
qed

lemma lines_fill:
  assumes "tags_inv ts" "p = last (sets ts ! i)" "i < length (sets ts)" "isValid b" "j < length (sets ts)"
  shows "lines (place i (p # remove1 p (sets ts ! i)) p b s ts) j =
    (if j = i then line (geom ts) b # (if length (lines ts i) < unat (assoc (geom ts)) then lines ts i else butlast (lines ts i))
     else lines ts j)"
proof -
  note ok = set_okD [OF tags_invD(5) [OF assms(1,3)]]
  have "sets ts ! i \<noteq> []" using ok(2) tags_invD(2) [OF assms(1)] by auto
  then have "p \<in> set (sets ts ! i)" using assms(2) by simp
  with ok(3) have p: "p < length (blks ts)" "home ts p = i" by (auto simp: home_def)
  show ?thesis
  proof (cases "j = i")
    case True
    have "p \<notin> set (remove1 p (sets ts ! i))" using ok(1) by (simp add: set_remove1_eq)
    then have "lines (place i (p # remove1 p (sets ts ! i)) p b s ts) i =
        line (geom ts) b # map (line_at ts) (filter (vld ts) (remove1 p (sets ts ! i)))"
      using lines_place [OF p(1), unfolded p(2), OF assms(3)] assms(4) by (simp add: filter_map_others)
    with victim_lines [OF assms(1-3)] True show ?thesis by (auto split: if_splits)
  next
    case False
    then show ?thesis using lines_other [OF assms(1) p(1) assms(5)] p(2) by simp
  qed
qed

section \<open>The cache as recency lists\<close>

datatype cache_op =
    Access u64 bool
  | Fill fill_packet
  | Invalidate u64 bool

datatype cache_obs =
    Hit bool
  | Evicts "(u64 \<times> bool) list"
  | Dropped bool

text \<open>
  The cache without outstanding misses: an access looks a line up and moves it to the front, a fill
  allocates a block for a line that is absent, an invalidation drops a line.
\<close>

fun cache_step :: "cache_cfg \<Rightarrow> cache_op \<Rightarrow> cache_state \<Rightarrow> (cache_obs \<times> cache_state) res" where
  "cache_step cfg (Access addr is_secure) c =
     bindE (LRU_accessBlock (cenv cfg) addr is_secure (ctags c)) (\<lambda>(blk, _, ts).
     Inr (Hit (blk \<noteq> None), c\<lparr>ctags := ts\<rparr>))"
| "cache_step cfg (Fill pkt) c =
     bindE (BaseSetAssoc_findBlock (pkt_addr pkt) (pkt_isSecure pkt) (ctags c)) (\<lambda>blk.
     bindE (handleFill cfg (\<lambda>_ _. None) (\<lambda>_ _. False) pkt (map_option InTags blk) [] True c) (\<lambda>(_, wbs, c).
     Inr (Evicts (map (\<lambda>w. (wb_addr w, wb_secure w)) wbs), c)))"
| "cache_step cfg (Invalidate addr is_secure) c =
     bindE (BaseSetAssoc_findBlock addr is_secure (ctags c)) (\<lambda>blk.
     case blk of
       None \<Rightarrow> Inr (Dropped False, c)
     | Some p \<Rightarrow> bindE (invalidateBlock cfg (InTags p) c) (\<lambda>c. Inr (Dropped True, c)))"

text \<open>The abstract cache: for every set the list of its lines, the most recently used first.\<close>

fun spec_step :: "tag_geom \<Rightarrow> cache_op \<Rightarrow> (nat \<Rightarrow> (u64 \<times> bool) list) \<Rightarrow> cache_obs \<times> (nat \<Rightarrow> (u64 \<times> bool) list)" where
  "spec_step G (Access addr is_secure) q =
     (let i = nat (extractSet G addr); k = (blkAlign G addr, is_secure) in
      if k \<in> set (q i) then (Hit True, q(i := k # remove1 k (q i))) else (Hit False, q))"
| "spec_step G (Fill pkt) q =
     (let i = nat (extractSet G (pkt_addr pkt)); k = (pkt_addr pkt, pkt_isSecure pkt) in
      if k \<in> set (q i) then (Evicts [], q)
      else if length (q i) < unat (assoc G) then (Evicts [], q(i := k # q i))
      else (Evicts [last (q i)], q(i := k # butlast (q i))))"
| "spec_step G (Invalidate addr is_secure) q =
     (let i = nat (extractSet G addr); k = (blkAlign G addr, is_secure) in
      (Dropped (k \<in> set (q i)), q(i := remove1 k (q i))))"

fun op_ok :: "cache_cfg \<Rightarrow> tag_geom \<Rightarrow> cache_op \<Rightarrow> bool" where
  "op_ok cfg G (Fill pkt) = fill_ok cfg G pkt"
| "op_ok cfg G _ = True"

definition represents :: "cache_state \<Rightarrow> (nat \<Rightarrow> (u64 \<times> bool) list) \<Rightarrow> bool" where
  "represents c q \<longleftrightarrow> (\<forall>i < length (sets (ctags c)). lines (ctags c) i = q i)"

lemma cfg_inv_simps: "cache_inv cfg c \<Longrightarrow> tags_inv (ctags c)" "cache_inv cfg c \<Longrightarrow> counted (cenv cfg) (ctags c)"
  by (simp_all add: cache_inv_def)

lemma represents_mem:
  assumes "tags_inv (ctags c)" "represents c q"
  shows "k \<in> set (q (set_of (ctags c) addr)) \<longleftrightarrow> (\<exists>p. holds (ctags c) k p \<and> home (ctags c) p = set_of (ctags c) addr)"
  using assms lines_mem [OF assms(1) set_of_facts(1) [OF assms(1)]] set_of_facts(1) [OF assms(1)]
  by (simp add: represents_def)

lemma step_access:
  assumes inv: "cache_inv cfg c" "represents c q" and clk: "clockPeriod (cenv cfg) \<noteq> 0"
  shows "\<exists>c'. cache_step cfg (Access addr is_secure) c = Inr (fst (spec_step (geom (ctags c)) (Access addr is_secure) q), c') \<and>
    cache_inv cfg c' \<and> geom (ctags c') = geom (ctags c) \<and> represents c' (snd (spec_step (geom (ctags c)) (Access addr is_secure) q))"
proof -
  let ?ts = "ctags c" and ?k = "(blkAlign (geom (ctags c)) addr, is_secure)"
  note ti = cfg_inv_simps [OF inv(1)]
  obtain r lat s where acc: "LRU_accessBlock (cenv cfg) addr is_secure ?ts = Inr (r, lat, case r of
        None \<Rightarrow> ?ts\<lparr>stats := s\<rparr>
      | Some p \<Rightarrow> place (home ?ts p) (p # remove1 p (sets ?ts ! home ?ts p)) p
          ((blks ?ts ! p)\<lparr>blk_refCount := blk_refCount (blks ?ts ! p) + 1\<rparr>) s ?ts)"
    and s: "tagsInUse s = tagsInUse (stats ?ts)" "occupancies s = occupancies (stats ?ts)"
    and r: "case r of None \<Rightarrow> \<forall>p. \<not> holds ?ts ?k p | Some p \<Rightarrow> holds ?ts ?k p \<and> home ?ts p = set_of ?ts addr"
    using access_effect [OF ti(1) clk] by blast
  show ?thesis
  proof (cases r)
    case None
    then have no: "?k \<notin> set (q (set_of ?ts addr))" using r represents_mem [OF ti(1) inv(2)] by simp
    have "tags_inv (?ts\<lparr>stats := s\<rparr>)" "counted (cenv cfg) (?ts\<lparr>stats := s\<rparr>)"
      using ti s by (simp_all add: tags_inv_def set_ok_def counted_def)
    moreover have "lines (?ts\<lparr>stats := s\<rparr>) i = lines ?ts i" for i by (simp add: lines_def)
    ultimately show ?thesis
      using acc None no inv by (simp add: cache_inv_def represents_def set_of_def Let_def)
  next
    case (Some p)
    let ?b = "(blks ?ts ! p)\<lparr>blk_refCount := blk_refCount (blks ?ts ! p) + 1\<rparr>"
    have p: "holds ?ts ?k p" "home ?ts p = set_of ?ts addr" using r Some by simp_all
    then have lt: "p < length (blks ?ts)" "vld ?ts p" by (simp_all add: holds_def)
    have yes: "?k \<in> set (q (set_of ?ts addr))" using p represents_mem [OF ti(1) inv(2)] by blast
    note same = same_line_changes(4) [of "blks ?ts ! p" "blk_refCount (blks ?ts ! p) + 1"]
    note keep = inv_access [OF ti(1) lt same, of s] counted_same [OF ti(2) lt(1) same s]
    have "represents (c\<lparr>ctags := place (home ?ts p) (p # remove1 p (sets ?ts ! home ?ts p)) p ?b s ?ts\<rparr>)
        (q(set_of ?ts addr := ?k # remove1 ?k (q (set_of ?ts addr))))"
      using inv(2) lines_access [OF ti(1) p(1) same] p(2) by (simp add: represents_def)
    with acc Some yes keep inv(1) show ?thesis by (simp add: cache_inv_def set_of_def Let_def)
  qed
qed

lemma step_invalidate:
  assumes inv: "cache_inv cfg c" "represents c q"
  shows "\<exists>c'. cache_step cfg (Invalidate addr is_secure) c = Inr (fst (spec_step (geom (ctags c)) (Invalidate addr is_secure) q), c') \<and>
    cache_inv cfg c' \<and> geom (ctags c') = geom (ctags c) \<and> represents c' (snd (spec_step (geom (ctags c)) (Invalidate addr is_secure) q))"
proof -
  let ?ts = "ctags c" and ?k = "(blkAlign (geom (ctags c)) addr, is_secure)"
  note ti = cfg_inv_simps [OF inv(1)]
  obtain r where find: "BaseSetAssoc_findBlock addr is_secure ?ts = Inr r"
    and r: "case r of None \<Rightarrow> \<forall>p. \<not> holds ?ts ?k p | Some p \<Rightarrow> holds ?ts ?k p \<and> home ?ts p = set_of ?ts addr"
    using findBlock_holds [OF ti(1)] by blast
  show ?thesis
  proof (cases r)
    case None
    then have "?k \<notin> set (q (set_of ?ts addr))" using r represents_mem [OF ti(1) inv(2)] by simp
    then show ?thesis using find None inv by (simp add: set_of_def Let_def remove1_idem fun_upd_idem)
  next
    case (Some p)
    have p: "holds ?ts ?k p" "home ?ts p = set_of ?ts addr" using r Some by simp_all
    then have lt: "p < length (blks ?ts)" "vld ?ts p" by (simp_all add: holds_def)
    have yes: "?k \<in> set (q (set_of ?ts addr))" using p represents_mem [OF ti(1) inv(2)] by blast
    obtain ts1 b s where iv: "LRU_invalidate (cenv cfg) (Some p) ?ts = Inr ts1"
      "upd_blk p CacheBlk_invalidate ts1 = place (home ?ts p) (remove1 p (sets ?ts ! home ?ts p) @ [p]) p b s ?ts"
      "tags_inv (upd_blk p CacheBlk_invalidate ts1)" "counted (cenv cfg) (upd_blk p CacheBlk_invalidate ts1)" "blk_status b = 0"
      using invalidate_keeps [OF ti lt] by blast
    have "\<not> isValid b" using iv(5) by (simp add: isValid_def)
    then have "represents (c\<lparr>ctags := place (home ?ts p) (remove1 p (sets ?ts ! home ?ts p) @ [p]) p b s ?ts\<rparr>)
        (q(set_of ?ts addr := remove1 ?k (q (set_of ?ts addr))))"
      using inv(2) lines_invalidate [OF ti(1) p(1)] p(2) by (simp add: represents_def)
    with find Some iv yes inv(1) show ?thesis
      by (simp add: cache_inv_def set_of_def Let_def invalidateBlock_def)
  qed
qed

end
