(* ===== verification/Cache_Guarantees.thy ===== *)
theory Cache_Guarantees
  imports Cache_Refinement
begin

text \<open>
  The guarantees of the cache: it starts in the invariant, it refines the recency lists in any sequence
  of operations, replacing a block loses no dirty data, and flushing writes all of it back.
\<close>

section \<open>Changes in place\<close>

lemma upd_blk_as_place:
  "upd_blk p f ts = place (home ts p) (sets ts ! home ts p) p (f (blks ts ! p)) (stats ts) ts"
  by (simp add: upd_blk_def place_def)

lemma same_line_keeps:
  assumes "tags_inv ts" "p < length (blks ts)" "same_line (blks ts ! p) (f (blks ts ! p))"
  shows "tags_inv (upd_blk p f ts)" "counted e ts \<Longrightarrow> counted e (upd_blk p f ts)"
    "i < length (sets ts) \<Longrightarrow> lines (upd_blk p f ts) i = lines ts i"
    "holds (upd_blk p f ts) k q = holds ts k q" "vld (upd_blk p f ts) q = vld ts q"
proof -
  note h = home_facts [OF assms(1,2)] and ok = set_okD [OF tags_invD(5) [OF assms(1) home_facts(1) [OF assms(1,2)]]]
  let ?b = "f (blks ts ! p)"
  have v: "isValid ?b = vld ts p" "blk_set ?b = blk_set (blks ts ! p)" using assms(3) by (simp_all add: same_line_def)
  have *: "blks (upd_blk p f ts) ! q = (if q = p then ?b else blks ts ! q)" "geom (upd_blk p f ts) = geom ts"
    "length (blks (upd_blk p f ts)) = length (blks ts)" "sets (upd_blk p f ts) = sets ts" for q
    using assms(2) by (auto simp: upd_blk_def nth_list_update)
  show "tags_inv (upd_blk p f ts)"
    unfolding upd_blk_as_place
  proof (rule tags_inv_place [OF assms(1,2) refl])
    show "sets ts ! home ts p = filter V (sets ts ! home ts p) @ filter (\<lambda>q. \<not> V q) (sets ts ! home ts p)"
      if "\<And>q. V q = (if q = p then isValid ?b else vld ts q)" for V
    proof -
      have "V = vld ts" by (rule ext) (simp add: that v(1))
      with ok(4) show ?thesis by simp
    qed
    show "line_at ts q \<noteq> line (geom ts) ?b" if "isValid ?b" "q < length (blks ts)" "q \<noteq> p" "vld ts q" for q
      using that tags_invD(7) [OF assms(1) that(2) assms(2)] v(1) same_lineD(1) [OF assms(3)] by metis
  qed (use ok(1) h(2) v(2) same_lineD(2) [OF assms(3)] tags_invD(6) [OF assms(1,2)] in auto)
  show "counted e ts \<Longrightarrow> counted e (upd_blk p f ts)"
    unfolding upd_blk_as_place by (rule counted_same [OF _ assms(2,3)]) simp_all
  show "holds (upd_blk p f ts) k q = holds ts k q" "vld (upd_blk p f ts) q = vld ts q"
    using v(1) same_lineD(1) [OF assms(3)] by (auto simp: holds_def *)
  have "vld (upd_blk p f ts) = vld ts" "line_at (upd_blk p f ts) = line_at ts"
    using v(1) same_lineD(1) [OF assms(3)] by (auto simp: *)
  then show "lines (upd_blk p f ts) i = lines ts i" by (simp add: lines_def *)
qed

lemma fill_present:
  assumes "p < length (blks (ctags c))" "holds (ctags c) (pkt_addr pkt, pkt_isSecure pkt) p"
    "tags_inv (ctags c)" "fill_ok cfg (geom (ctags c)) pkt" "\<not> wbuf (pkt_addr pkt) (pkt_isSecure pkt)"
  shows "handleFill cfg mshr wbuf pkt (Some (InTags p)) wbs allocate c = Inr (InTags p, wbs,
      c\<lparr>ctags := upd_blk p (fill_blk cfg pkt) (ctags c),
        cdata := (if pkt_isRead pkt then (cdata c)[p := pkt_data pkt] else cdata c)\<rparr>)"
    "same_line (blks (ctags c) ! p) (fill_blk cfg pkt (blks (ctags c) ! p))"
proof -
  let ?ts = "ctags c" and ?b = "blks (ctags c) ! p"
  have hl: "vld ?ts p" "line_at ?ts p = (pkt_addr pkt, pkt_isSecure pkt)" using assms(2) by (simp_all add: holds_def)
  then have tag: "blk_tag ?b = extractTag (geom ?ts) (pkt_addr pkt)"
    using tags_invD(6) [OF assms(3,1)] by (simp add: blk_ok_def)
  have sec: "isSecure ?b = pkt_isSecure pkt" using hl(2) by (simp add: line_def)
  have "blk_status ?b \<noteq> 0" using hl(1) by (auto simp: isValid_def)
  then show "same_line ?b (fill_blk cfg pkt ?b)"
    using hl(1) sec unfolding same_line_def fill_blk_def Let_def by (auto simp: status_simps)
  show "handleFill cfg mshr wbuf pkt (Some (InTags p)) wbs allocate c = Inr (InTags p, wbs,
      c\<lparr>ctags := upd_blk p (fill_blk cfg pkt) ?ts,
        cdata := (if pkt_isRead pkt then (cdata c)[p := pkt_data pkt] else cdata c)\<rparr>)"
    using assms(1,4,5) tag unfolding handleFill_def fill_blk_def fill_ok_def
    by (auto simp: Let_def upd_blk_def)
qed

section \<open>Refinement\<close>

lemma cache_invI:
  "\<lbrakk>tags_inv (ctags c); counted (cenv cfg) (ctags c); length (cdata c) = length (blks (ctags c))\<rbrakk> \<Longrightarrow> cache_inv cfg c"
  by (simp add: cache_inv_def)

lemma evicted_line: "map (\<lambda>w. (wb_addr w, wb_secure w)) (evicted cfg c p) = (if vld (ctags c) p then [line_at (ctags c) p] else [])"
  by (simp add: evicted_def Let_def)

lemma step_fill:
  assumes inv: "cache_inv cfg c" "represents c q" and cfg: "\<not> isReadOnly cfg \<or> writebackClean cfg"
    and pkt: "fill_ok cfg (geom (ctags c)) pkt"
  shows "\<exists>c'. cache_step cfg (Fill pkt) c = Inr (fst (spec_step (geom (ctags c)) (Fill pkt) q), c') \<and>
    cache_inv cfg c' \<and> geom (ctags c') = geom (ctags c) \<and> represents c' (snd (spec_step (geom (ctags c)) (Fill pkt) q))"
proof -
  let ?ts = "ctags c" and ?k = "(pkt_addr pkt, pkt_isSecure pkt)" and ?i = "set_of (ctags c) (pkt_addr pkt)"
  note ti = cfg_inv_simps [OF inv(1)]
  have al: "blkAlign (geom ?ts) (pkt_addr pkt) = pkt_addr pkt" using pkt by (simp add: fill_ok_def)
  obtain r where find: "BaseSetAssoc_findBlock (pkt_addr pkt) (pkt_isSecure pkt) ?ts = Inr r"
    and r: "case r of None \<Rightarrow> \<forall>p. \<not> holds ?ts ?k p | Some p \<Rightarrow> holds ?ts ?k p \<and> home ?ts p = ?i"
    using findBlock_holds [OF ti(1), of "pkt_addr pkt" "pkt_isSecure pkt"] unfolding al by blast
  show ?thesis
  proof (cases r)
    case None
    then have no: "?k \<notin> set (q ?i)" using r represents_mem [OF ti(1) inv(2)] by simp
    define p where "p = last (sets ?ts ! ?i)"
    note v = victim_last [OF ti(1), of "pkt_addr pkt", folded p_def] and i = set_of_facts(1) [OF ti(1), of "pkt_addr pkt"]
    obtain b s n u where fe: "handleFill cfg (\<lambda>_ _. None) (\<lambda>_ _. False) pkt None [] True c = Inr (InTags p, [] @ evicted cfg c p,
        c\<lparr>ctags := place (home ?ts p) (p # remove1 p (sets ?ts ! home ?ts p)) p b s ?ts,
          cdata := (if pkt_isRead pkt then (cdata c)[p := pkt_data pkt] else cdata c), writebackCount := n, unusedPrefetches := u\<rparr>)"
      and b: "filled (geom ?ts) pkt (blks ?ts ! p) b"
      and s: "tagsInUse s = tagsInUse (stats ?ts) + (if vld ?ts p then 0 else 1)"
        "occupancies s = moved_occ (int (unat (req_masterId (pkt_req pkt)))) (blks ?ts ! p) (occupancies (stats ?ts))"
      using fill_effect [OF inv(1) cfg pkt _ p_def, of "\<lambda>_ _. False" "\<lambda>_ _. None" "[]"] by auto
    note keep = fill_keeps [OF inv(1) cfg pkt p_def b s] and l = filled_line(1) [OF ti(1) v(2,3) b al [symmetric]]
    have miss: "\<forall>x. \<not> holds ?ts ?k x" using r None by simp
    have "isValid b" using b by (simp add: filled_def)
    note lf = lines_fill [OF ti(1) p_def i this] and vl = victim_lines [OF ti(1) p_def i]
    have qi: "q ?i = lines ?ts ?i" using inv(2) i by (simp add: represents_def)
    have full: "length (q ?i) < unat (assoc (geom ?ts)) \<longleftrightarrow> \<not> vld ?ts p" "vld ?ts p \<longrightarrow> last (q ?i) = line_at ?ts p"
      using vl unfolding qi by (auto split: if_splits)
    let ?c = "c\<lparr>ctags := place (home ?ts p) (p # remove1 p (sets ?ts ! home ?ts p)) p b s ?ts,
      cdata := (if pkt_isRead pkt then (cdata c)[p := pkt_data pkt] else cdata c), writebackCount := n, unusedPrefetches := u\<rparr>"
    let ?q = "q(?i := ?k # (if length (q ?i) < unat (assoc (geom ?ts)) then q ?i else butlast (q ?i)))"
    have "cache_step cfg (Fill pkt) c = Inr (Evicts (if vld ?ts p then [line_at ?ts p] else []), ?c)"
      unfolding cache_step.simps find bindE_simps None option.map fe prod.case append_Nil evicted_line ..
    moreover have "spec_step (geom ?ts) (Fill pkt) q = (Evicts (if vld ?ts p then [line_at ?ts p] else []), ?q)"
      unfolding spec_step.simps set_of_def [symmetric] Let_def using no full by (cases "vld ?ts p") simp_all
    moreover have "cache_inv cfg ?c"
    proof (rule cache_invI)
      show "tags_inv (ctags ?c)" using keep(1) [OF miss] by simp
      show "counted (cenv cfg) (ctags ?c)" using keep(2) [OF miss] by simp
      show "length (cdata ?c) = length (blks (ctags ?c))" using inv(1) by (simp add: cache_inv_def)
    qed
    moreover have "represents ?c ?q"
      unfolding represents_def
    proof (intro allI impI)
      fix j assume "j < length (sets (ctags ?c))"
      then have j: "j < length (sets ?ts)" by simp
      then have "lines ?ts j = q j" using inv(2) by (simp add: represents_def)
      with lf [OF j, of s] show "lines (ctags ?c) j = ?q j"
        by (simp add: v(3) l qi [symmetric])
    qed
    moreover have "geom (ctags ?c) = geom ?ts" by simp
    ultimately show ?thesis by (metis fst_conv snd_conv)
  next
    case (Some p)
    have p: "holds ?ts ?k p" "home ?ts p = ?i" using r Some by simp_all
    then have lt: "p < length (blks ?ts)" by (simp add: holds_def)
    have yes: "?k \<in> set (q ?i)" using p represents_mem [OF ti(1) inv(2)] by blast
    note fp = fill_present [OF lt p(1) ti(1) pkt, of "\<lambda>_ _. False"]
    note keep = same_line_keeps [OF ti(1) lt, of "fill_blk cfg pkt", OF fp(2)]
    have "geom (upd_blk p f ?ts) = geom ?ts" "sets (upd_blk p f ?ts) = sets ?ts"
      "length (blks (upd_blk p f ?ts)) = length (blks ?ts)" for f by (simp_all add: upd_blk_def)
    note sel = this
    let ?c = "c\<lparr>ctags := upd_blk p (fill_blk cfg pkt) ?ts,
      cdata := (if pkt_isRead pkt then (cdata c)[p := pkt_data pkt] else cdata c)\<rparr>"
    have "handleFill cfg (\<lambda>_ _. None) (\<lambda>_ _. False) pkt (Some (InTags p)) [] True c = Inr (InTags p, [], ?c)"
      by (rule fp(1)) simp
    then have "cache_step cfg (Fill pkt) c = Inr (Evicts [], ?c)"
      using find Some by simp
    moreover have "spec_step (geom ?ts) (Fill pkt) q = (Evicts [], q)"
      unfolding spec_step.simps set_of_def [symmetric] Let_def using yes by simp
    moreover have "cache_inv cfg ?c" using keep(1,2) ti(2) inv(1) sel by (simp add: cache_inv_def)
    moreover have "represents ?c q" using keep(3) inv(2) sel by (simp add: represents_def)
    ultimately show ?thesis using sel by simp
  qed
qed

fun run_cache :: "cache_cfg \<Rightarrow> cache_op list \<Rightarrow> cache_state \<Rightarrow> (cache_obs list \<times> cache_state) res" where
  "run_cache cfg [] c = Inr ([], c)"
| "run_cache cfg (x # xs) c =
     bindE (cache_step cfg x c) (\<lambda>(ob, c). bindE (run_cache cfg xs c) (\<lambda>(obs, c). Inr (ob # obs, c)))"

fun run_spec :: "tag_geom \<Rightarrow> cache_op list \<Rightarrow> (nat \<Rightarrow> (u64 \<times> bool) list) \<Rightarrow> cache_obs list \<times> (nat \<Rightarrow> (u64 \<times> bool) list)" where
  "run_spec G [] q = ([], q)"
| "run_spec G (x # xs) q = (let (ob, q) = spec_step G x q; (obs, q) = run_spec G xs q in (ob # obs, q))"

lemma run_refines:
  assumes "cache_inv cfg c" "represents c q" "clockPeriod (cenv cfg) \<noteq> 0" "\<not> isReadOnly cfg \<or> writebackClean cfg"
    "list_all (op_ok cfg (geom (ctags c))) xs"
  shows "\<exists>c'. run_cache cfg xs c = Inr (fst (run_spec (geom (ctags c)) xs q), c') \<and> cache_inv cfg c' \<and>
    geom (ctags c') = geom (ctags c) \<and> represents c' (snd (run_spec (geom (ctags c)) xs q))"
  using assms
proof (induction xs arbitrary: c q)
  case (Cons x xs)
  let ?G = "geom (ctags c)"
  have "\<exists>c'. cache_step cfg x c = Inr (fst (spec_step ?G x q), c') \<and> cache_inv cfg c' \<and> geom (ctags c') = ?G \<and>
      represents c' (snd (spec_step ?G x q))"
    using Cons.prems step_access step_invalidate step_fill by (cases x) auto
  then obtain c1 where s: "cache_step cfg x c = Inr (fst (spec_step ?G x q), c1)" "cache_inv cfg c1" "geom (ctags c1) = ?G"
    "represents c1 (snd (spec_step ?G x q))" by blast
  have "list_all (op_ok cfg (geom (ctags c1))) xs" using Cons.prems(5) s(3) by simp
  from Cons.IH [OF s(2,4) Cons.prems(3,4) this] s(1,3) show ?case
    by (auto simp: Let_def split: prod.splits)
qed simp

section \<open>The constructor\<close>

lemma concat_grid:
  "length (concat (map (\<lambda>i. map (f i) [0..<a]) [0..<n])) = n * a"
  "k < n * a \<Longrightarrow> concat (map (\<lambda>i. map (f i) [0..<a]) [0..<n]) ! k = f (k div a) (k mod a)"
proof (induction n)
  case (Suc n)
  { case 1 show ?case using Suc(1) by simp }
  { case 2
    show ?case
    proof (cases "k < n * a")
      case True
      with Suc show ?thesis by (simp add: nth_append)
    next
      case False
      define r where "r = k - n * a"
      with False 2 have k: "k = n * a + r" "r < a" by auto
      then have "k div a = n" "k mod a = r" by simp_all
      with k Suc(1) show ?thesis by (simp add: nth_append)
    qed }
qed simp_all

lemma constructor_inv:
  assumes "BaseSetAssoc_new prm e = Inr ts"
  shows "tags_inv ts" "counted e ts" "i < length (sets ts) \<Longrightarrow> lines ts i = []"
proof -
  define bsize a where "bsize = (of_int (p_block_size prm) :: u32)" and "a = (of_int (p_assoc prm) :: u32)"
  define n where "n = (ucast (p_size prm div of_int (sint (of_int (p_block_size prm * p_assoc prm) :: u32))) :: u32)"
  define A N where "A = unat a" and "N = unat n"
  note new = assms [unfolded BaseSetAssoc_new_def Let_def, folded bsize_def a_def, folded n_def]
  have ok: "isPowerOf2 bsize" "isPowerOf2 n" "a \<noteq> 0"
    using new by (auto split: if_splits)
  obtain b where b: "floorLog2_u32 bsize = Inr b" "bsize = 2 ^ b" "b < 32" "unat bsize = 2 ^ b" by (rule isPowerOf2_exp [OF ok(1)])
  obtain l where l: "floorLog2_u32 n = Inr l" "n = 2 ^ l" "l < 32" "unat n = 2 ^ l" by (rule isPowerOf2_exp [OF ok(2)])
  have A: "0 < A" using ok(3) by (simp add: A_def unat_gt_0)
  have ts: "geom ts = \<lparr>blkSize = bsize, assoc = a, numSets = n, setShift = b, tagShift = b + l,
      setMask = n - 1, blkMask = bsize - 1, lookupLatency = p_tag_latency prm, accessLatency = BaseTags_accessLatency prm,
      sequentialAccess = p_sequential_access prm, warmupBound = sint (n * a)\<rparr>" "allocAssoc ts = a"
    "sets ts = map (\<lambda>i. map (\<lambda>j. i * A + j) [0..<A]) [0..<N]"
    "blks ts = concat (map (\<lambda>i. map (linked_blk bsize a i) [0..<A]) [0..<N])" "stats ts = stats_new (maxMasters e)"
    using new b(1) l(1) unfolding A_def N_def by (auto split: if_splits)
  have blk: "blks ts ! p = linked_blk bsize a (p div A) (p mod A)" if "p < length (blks ts)" for p
    using that by (simp add: ts(4) concat_grid)
  have len: "length (blks ts) = N * A" "length (sets ts) = N" by (simp_all add: ts concat_grid)
  have lb: "blk_set (linked_blk bsize a i j) = int i" "blk_way (linked_blk bsize a i j) = int j"
    "\<not> isValid (linked_blk bsize a i j)" "blk_status (linked_blk bsize a i j) = 0" "\<not> blk_isTouched (linked_blk bsize a i j)"
    "blk_lockList (linked_blk bsize a i j) = []" for i j
    by (simp_all add: linked_blk_def CacheBlk_invalidate_def isValid_def)
  have inval: "\<not> vld ts p" if "p < length (blks ts)" for p using blk [OF that] lb(3) by simp
  have "set_ok ts i" if i: "i < N" for i
  proof -
    have mem: "p \<in> set (sets ts ! i) \<longleftrightarrow> p < length (blks ts) \<and> blk_set (blks ts ! p) = int i" for p
    proof -
      have "p \<in> set (sets ts ! i) \<longleftrightarrow> p div A = i"
      proof
        assume "p div A = i"
        then have "p = i * A + p mod A" by (metis mult.commute mult_div_mod_eq)
        moreover have "p mod A < A" using A by simp
        ultimately show "p \<in> set (sets ts ! i)" using i by (simp add: ts(3) image_iff)
      qed (use i A in \<open>auto simp: ts(3) mult.commute intro!: div_nat_eqI\<close>)
      moreover have "p div A = i \<longrightarrow> p < N * A" using i A by (metis div_less_iff_less_mult)
      ultimately show ?thesis using blk [of p] lb(1) len(1) by auto
    qed
    have "\<forall>p\<in>set (sets ts ! i). \<not> vld ts p" using mem inval by blast
    then have "filter (vld ts) (sets ts ! i) = []" "filter (\<lambda>p. \<not> vld ts p) (sets ts ! i) = sets ts ! i"
      by (simp_all add: filter_empty_conv filter_id_conv)
    moreover have "distinct (sets ts ! i)" "length (sets ts ! i) = A"
      using i by (simp_all add: ts(3) distinct_map inj_on_def)
    ultimately show ?thesis using mem by (simp add: set_ok_def ts(1) A_def)
  qed
  moreover have "blk_ok (geom ts) (blks ts ! p)" if p: "p < length (blks ts)" for p
  proof -
    have "p div A < N" using p A len(1) by (simp add: div_less_iff_less_mult)
    moreover have "(of_int (int (p mod A)) :: u32) < a"
    proof -
      have "p mod A < A" using A by simp
      moreover have "A < 2 ^ 32" unfolding A_def using unsigned_less [of a, where 'a = nat] by simp
      ultimately show ?thesis by (simp add: word_less_nat_alt unat_of_nat A_def)
    qed
    ultimately show ?thesis using blk [OF p] lb by (simp add: blk_ok_def ts(1) N_def [symmetric])
  qed
  moreover have "wf_geom (geom ts)"
    using b l by (simp add: wf_geom_def ts(1) mask_eq_exp_minus_1)
  ultimately show "tags_inv ts"
    using A inval by (auto simp: tags_inv_def ts(1,2) len(2) A_def N_def)
  have none: "\<forall>x\<in>set (blks ts). \<not> isValid x \<and> \<not> blk_isTouched x"
    using blk lb by (metis in_set_conv_nth)
  then have "filter isValid (blks ts) = []" "filter (owned m) (blks ts) = []" for m
    by (simp_all add: filter_empty_conv owned_def)
  with none show "counted e ts" by (simp add: counted_def ts(5) stats_new_def)
  show "i < length (sets ts) \<Longrightarrow> lines ts i = []"
    using inval \<open>\<And>i. i < N \<Longrightarrow> set_ok ts i\<close> [THEN set_okD(3)] len(2) by (auto simp: lines_def filter_empty_conv)
qed

section \<open>Contents\<close>

text \<open>The bytes the cache holds for a line and whether they are dirty.\<close>

definition cached :: "cache_state \<Rightarrow> u64 \<times> bool \<Rightarrow> (u8 list \<times> bool) option" where
  "cached c k = map_option (\<lambda>p. (cdata c ! p, isDirty (blks (ctags c) ! p)))
     (find (holds (ctags c) k) [0..<length (blks (ctags c))])"

lemma cached_holds:
  assumes "tags_inv (ctags c)" "holds (ctags c) k p"
  shows "cached c k = Some (cdata c ! p, isDirty (blks (ctags c) ! p))"
proof -
  obtain r where r: "find (holds (ctags c) k) [0..<length (blks (ctags c))] = Some r"
    using assms(2) by (cases "find (holds (ctags c) k) [0..<length (blks (ctags c))]") (auto simp: find_None_iff holds_def)
  then have "holds (ctags c) k r" by (auto simp: find_Some_iff)
  with assms have "r = p" using tags_invD(7) [OF assms(1), of r p] by (auto simp: holds_def)
  with r show ?thesis by (simp add: cached_def)
qed

lemma cached_None: "cached c k = None \<longleftrightarrow> (\<forall>p. \<not> holds (ctags c) k p)"
  by (auto simp: cached_def find_None_iff holds_def)

lemma cached_SomeE:
  assumes "cached c k = Some (d, dirty)"
  obtains p where "holds (ctags c) k p" "d = cdata c ! p" "dirty = isDirty (blks (ctags c) ! p)"
  using assms by (auto simp: cached_def find_Some_iff)

lemma fill_contents:
  assumes inv: "cache_inv cfg c" and pkt: "fill_ok cfg (geom (ctags c)) pkt" "pkt_isRead pkt"
    and p: "p = last (sets (ctags c) ! set_of (ctags c) (pkt_addr pkt))"
    and b: "filled (geom (ctags c)) pkt (blks (ctags c) ! p) b"
    and c': "ctags c' = place i ps p b s (ctags c)" "cdata c' = (cdata c)[p := pkt_data pkt]" "tags_inv (ctags c')"
    and miss: "cached c (pkt_addr pkt, pkt_isSecure pkt) = None" and k: "k \<noteq> (pkt_addr pkt, pkt_isSecure pkt)"
  shows "cached c' (pkt_addr pkt, pkt_isSecure pkt) = Some (pkt_data pkt, \<not> pkt_hasSharers pkt \<and> pkt_cacheResponding pkt)"
    "cached c' k = (if holds (ctags c) k p then None else cached c k)"
proof -
  let ?ts = "ctags c"
  note ti = cfg_inv_simps [OF inv]
  note v = victim_last [OF ti(1), of "pkt_addr pkt", folded p]
  have al: "pkt_addr pkt = blkAlign (geom ?ts) (pkt_addr pkt)" using pkt(1) by (simp add: fill_ok_def)
  note l = filled_line(1) [OF ti(1) v(2,3) b al]
  have bv: "isValid b" "isDirty b = (\<not> pkt_hasSharers pkt \<and> pkt_cacheResponding pkt)" using b by (simp_all add: filled_def)
  have len: "length (cdata c) = length (blks ?ts)" using inv by (simp add: cache_inv_def)
  have new: "holds (ctags c') (pkt_addr pkt, pkt_isSecure pkt) p" using v(2) l bv by (simp add: holds_def c'(1))
  from cached_holds [OF c'(3) this] bv v(2) len
  show "cached c' (pkt_addr pkt, pkt_isSecure pkt) = Some (pkt_data pkt, \<not> pkt_hasSharers pkt \<and> pkt_cacheResponding pkt)"
    by (simp add: c')
  have other: "holds (ctags c') k q \<longleftrightarrow> holds ?ts k q \<and> q \<noteq> p" for q
    using v(2) l k by (cases "q = p") (auto simp: holds_def c'(1))
  show "cached c' k = (if holds ?ts k p then None else cached c k)"
  proof (cases "\<exists>q. holds ?ts k q \<and> q \<noteq> p")
    case True
    then obtain q where q: "holds ?ts k q" "q \<noteq> p" by blast
    then have "\<not> holds ?ts k p" using tags_invD(7) [OF ti(1), of q p] by (auto simp: holds_def)
    moreover have "holds (ctags c') k q" using q other by blast
    ultimately show ?thesis
      using q cached_holds [OF ti(1) q(1)] cached_holds [OF c'(3), of k q] by (simp add: c'(1,2))
  next
    case False
    then have "cached c' k = None" "holds ?ts k p \<or> cached c k = None" unfolding cached_None using other by blast+
    then show ?thesis by auto
  qed
qed

section \<open>Flushing\<close>

definition clean :: "cache_blk \<Rightarrow> cache_blk" where
  "clean b = (if isDirty b then clear_status BlkDirty b else b)"

lemma clean_facts: "same_line b (clean b)" "\<not> isDirty (clean b)"
  using same_line_changes(1,5) [of b] by (auto simp: clean_def status_simps)

definition flushed :: "cache_state \<Rightarrow> nat \<Rightarrow> func_write" where
  "flushed c p = \<lparr>fw_addr = fst (line_at (ctags c) p), fw_secure = False, fw_taskId = blk_task_id (blks (ctags c) ! p),
     fw_data = cdata c ! p\<rparr>"

lemma dirty_valid: "tags_inv ts \<Longrightarrow> p < length (blks ts) \<Longrightarrow> isDirty (blks ts ! p) \<Longrightarrow> vld ts p"
  using tags_invD(6) [of ts p] by (auto simp: blk_ok_def isDirty_def split: if_splits)

lemma visit_writeback:
  assumes "cache_inv cfg c" "\<forall>p\<in>set ps. p < length (blks (ctags c))" "distinct ps"
  shows "\<exists>ts. visit writebackVisitor ps (sent, c) =
      Inr (sent @ map (flushed c) (filter (\<lambda>p. isDirty (blks (ctags c) ! p)) ps), c\<lparr>ctags := ts\<rparr>) \<and>
    cache_inv cfg (c\<lparr>ctags := ts\<rparr>) \<and> geom ts = geom (ctags c) \<and> length (blks ts) = length (blks (ctags c)) \<and>
    (\<forall>q. blks ts ! q = (if q \<in> set ps then clean (blks (ctags c) ! q) else blks (ctags c) ! q))"
  using assms
proof (induction ps arbitrary: c sent)
  case Nil
  then show ?case by (intro exI [of _ "ctags c"]) simp
next
  case (Cons p ps)
  let ?ts = "ctags c"
  define c1 where "c1 = c\<lparr>ctags := upd_blk p clean ?ts\<rparr>"
  note ti = cfg_inv_simps [OF Cons.prems(1)]
  have p: "p < length (blks ?ts)" "p \<notin> set ps" using Cons.prems by auto
  have nth: "blks (ctags c1) ! q = (if q = p then clean (blks ?ts ! p) else blks ?ts ! q)"
    "length (blks (ctags c1)) = length (blks ?ts)" "geom (ctags c1) = geom ?ts" "cdata c1 = cdata c" for q
    using p(1) by (auto simp: c1_def upd_blk_def nth_list_update)
  have inv1: "cache_inv cfg c1"
    using same_line_keeps(1,2) [where f = clean, OF ti(1) p(1) clean_facts(1)] ti(2) Cons.prems(1) nth
    by (simp add: cache_inv_def c1_def)
  have lt1: "\<forall>q\<in>set ps. q < length (blks (ctags c1))" using Cons.prems(2) nth(2) by simp
  define sent' where "sent' = sent @ (if isDirty (blks ?ts ! p) then [flushed c p] else [])"
  obtain ts where ih: "visit writebackVisitor ps (sent', c1) =
      Inr (sent' @ map (flushed c1) (filter (\<lambda>p. isDirty (blks (ctags c1) ! p)) ps), c1\<lparr>ctags := ts\<rparr>)"
    and ts: "cache_inv cfg (c1\<lparr>ctags := ts\<rparr>)" "geom ts = geom (ctags c1)" "length (blks ts) = length (blks (ctags c1))"
      "\<forall>q. blks ts ! q = (if q \<in> set ps then clean (blks (ctags c1) ! q) else blks (ctags c1) ! q)"
    using Cons.IH [OF inv1 lt1, of sent'] Cons.prems(3) by auto
  have same: "q \<in> set ps \<Longrightarrow> blks (ctags c1) ! q = blks ?ts ! q" for q using p(2) nth(1) by auto
  have step: "writebackVisitor p (sent, c) = Inr (sent', c1)"
  proof (cases "isDirty (blks ?ts ! p)")
    case True
    with dirty_valid [OF ti(1) p(1)] show ?thesis
      by (simp add: writebackVisitor_def sent'_def c1_def flushed_def blk_address_def line_def upd_blk_def clean_def Let_def)
  next
    case False
    then show ?thesis by (simp add: writebackVisitor_def sent'_def c1_def upd_blk_def clean_def Let_def)
  qed
  have "filter (\<lambda>p. isDirty (blks (ctags c1) ! p)) ps = filter (\<lambda>p. isDirty (blks ?ts ! p)) ps"
    by (rule filter_cong) (simp_all add: same)
  moreover have "map (flushed c1) (filter P ps) = map (flushed c) (filter P ps)" for P
    by (rule map_cong) (simp_all add: same flushed_def nth(3,4))
  ultimately have "visit writebackVisitor (p # ps) (sent, c) =
      Inr (sent @ map (flushed c) (filter (\<lambda>p. isDirty (blks ?ts ! p)) (p # ps)), c\<lparr>ctags := ts\<rparr>)"
    using step ih by (simp add: sent'_def c1_def)
  moreover have "c1\<lparr>ctags := ts\<rparr> = c\<lparr>ctags := ts\<rparr>" by (simp add: c1_def)
  moreover have "blks ts ! q = (if q \<in> set (p # ps) then clean (blks ?ts ! q) else blks ?ts ! q)" for q
    using ts(4) nth(1) [of q] p(2) by auto
  ultimately show ?case using ts(1-3) nth(2,3) by (intro exI [of _ ts]) simp
qed

lemma visit_invalidate:
  assumes "cache_inv cfg c" "\<forall>p\<in>set ps. p < length (blks (ctags c))" "distinct ps"
    "\<forall>p\<in>set ps. \<not> isDirty (blks (ctags c) ! p)"
  shows "\<exists>ts. visit (invalidateVisitor cfg) ps c = Inr (c\<lparr>ctags := ts\<rparr>) \<and> cache_inv cfg (c\<lparr>ctags := ts\<rparr>) \<and>
    geom ts = geom (ctags c) \<and> length (blks ts) = length (blks (ctags c)) \<and>
    (\<forall>q. q \<notin> set ps \<longrightarrow> blks ts ! q = blks (ctags c) ! q) \<and> (\<forall>q\<in>set ps. \<not> vld ts q)"
  using assms
proof (induction ps arbitrary: c)
  case Nil
  then show ?case by (intro exI [of _ "ctags c"]) simp
next
  case (Cons p ps)
  let ?ts = "ctags c"
  note ti = cfg_inv_simps [OF Cons.prems(1)]
  have p: "p < length (blks ?ts)" "p \<notin> set ps" "\<not> isDirty (blks ?ts ! p)" using Cons.prems by auto
  have "\<exists>ts1. invalidateVisitor cfg p c = Inr (c\<lparr>ctags := ts1\<rparr>) \<and> cache_inv cfg (c\<lparr>ctags := ts1\<rparr>) \<and> geom ts1 = geom ?ts \<and>
      length (blks ts1) = length (blks ?ts) \<and> (\<forall>q. q \<noteq> p \<longrightarrow> blks ts1 ! q = blks ?ts ! q) \<and> \<not> vld ts1 p"
  proof (cases "vld ?ts p")
    case True
    obtain ts1 b s where iv: "LRU_invalidate (cenv cfg) (Some p) ?ts = Inr ts1"
      "upd_blk p CacheBlk_invalidate ts1 = place (home ?ts p) (remove1 p (sets ?ts ! home ?ts p) @ [p]) p b s ?ts"
      "tags_inv (upd_blk p CacheBlk_invalidate ts1)" "counted (cenv cfg) (upd_blk p CacheBlk_invalidate ts1)" "blk_status b = 0"
      using invalidate_keeps [OF ti p(1) True] by blast
    with True p Cons.prems(1) show ?thesis
      by (intro exI [of _ "upd_blk p CacheBlk_invalidate ts1"])
        (simp add: invalidateVisitor_def cache_inv_def isValid_def Let_def)
  next
    case False
    then show ?thesis using Cons.prems(1) by (intro exI [of _ ?ts]) (simp add: invalidateVisitor_def Let_def)
  qed
  then obtain ts1 where s: "invalidateVisitor cfg p c = Inr (c\<lparr>ctags := ts1\<rparr>)" "cache_inv cfg (c\<lparr>ctags := ts1\<rparr>)"
    "geom ts1 = geom ?ts" "length (blks ts1) = length (blks ?ts)" "\<forall>q. q \<noteq> p \<longrightarrow> blks ts1 ! q = blks ?ts ! q" "\<not> vld ts1 p" by blast
  have same: "q \<in> set ps \<Longrightarrow> blks ts1 ! q = blks ?ts ! q" for q using s(5) p(2) by metis
  then have "\<forall>q\<in>set ps. q < length (blks (ctags (c\<lparr>ctags := ts1\<rparr>)))" "\<forall>q\<in>set ps. \<not> isDirty (blks (ctags (c\<lparr>ctags := ts1\<rparr>)) ! q)"
    using Cons.prems(2,4) s(4) by simp_all
  then obtain ts where ih: "visit (invalidateVisitor cfg) ps (c\<lparr>ctags := ts1\<rparr>) = Inr (c\<lparr>ctags := ts\<rparr>)" "cache_inv cfg (c\<lparr>ctags := ts\<rparr>)"
    "geom ts = geom ts1" "length (blks ts) = length (blks ts1)" "\<forall>q. q \<notin> set ps \<longrightarrow> blks ts ! q = blks ts1 ! q"
    "\<forall>q\<in>set ps. \<not> vld ts q"
    using Cons.IH [OF s(2)] Cons.prems(3) by auto
  have "\<forall>q. q \<notin> set (p # ps) \<longrightarrow> blks ts ! q = blks ?ts ! q" "\<forall>q\<in>set (p # ps). \<not> vld ts q"
    using ih(5,6) s(5,6) p(2) by auto
  with s(1,3,4) ih(1-4) show ?case by (intro exI [of _ ts]) simp
qed

end
