(* ===== verification/Cache_Claims.thy ===== *)
theory Cache_Claims
  imports Cache_Guarantees
begin

text \<open>
  The statements about caches: address round trip, refinement of recency lists, fills without loss of
  dirty data, and flushing, each with an instance on a cache of four sets with two ways.
\<close>

definition demo_env :: cache_env where
  "demo_env = \<lparr>curTick = 100, clockPeriod = 1, maxMasters = 2\<rparr>"

definition demo_params :: tag_params where
  "demo_params = \<lparr>p_size = 512, p_block_size = 64, p_assoc = 2, p_tag_latency = 2, p_data_latency = 2,
     p_sequential_access = False\<rparr>"

definition demo_geom :: tag_geom where
  "demo_geom = \<lparr>blkSize = 64, assoc = 2, numSets = 4, setShift = 6, tagShift = 8, setMask = 3, blkMask = 63,
     lookupLatency = 2, accessLatency = 2, sequentialAccess = False, warmupBound = 8\<rparr>"

lemma demo_new: "\<exists>ts. BaseSetAssoc_new demo_params demo_env = Inr ts \<and> geom ts = demo_geom \<and> length (blks ts) = 8"
proof -
  have l: "floorLog2_u32 64 = Inr 6" "floorLog2_u32 4 = Inr 2" by (code_simp, code_simp)
  have p: "isPowerOf2 (64 :: u32)" "isPowerOf2 (4 :: u32)" by (code_simp, code_simp)
  show ?thesis
    by (simp add: BaseSetAssoc_new_def demo_params_def demo_env_def l p Let_def demo_geom_def BaseTags_accessLatency_def
        concat_grid)
qed

definition demo_tags :: tag_store where
  "demo_tags = projr (BaseSetAssoc_new demo_params demo_env)"

lemma demo_tags:
  "BaseSetAssoc_new demo_params demo_env = Inr demo_tags" "geom demo_tags = demo_geom" "length (blks demo_tags) = 8"
  using demo_new by (auto simp: demo_tags_def)

definition demo_cfg :: cache_cfg where
  "demo_cfg = \<lparr>cenv = demo_env, writebackClean = False, isReadOnly = False, mostly_excl = False, clockEdge = 100,
     fillLatency = 1\<rparr>"

definition demo_cache :: cache_state where
  "demo_cache = \<lparr>ctags = demo_tags, cdata = replicate 8 (replicate 64 0), tempBlock = CacheBlk_new,
     tempData = replicate 64 0, writebackCount = 0, unusedPrefetches = 0\<rparr>"

definition demo_fill :: "u64 \<Rightarrow> fill_packet" where
  "demo_fill addr = \<lparr>pkt_req = Request_phys addr 64 0 1 0, pkt_addr = addr, pkt_isLLSC = False, pkt_isWrite = False,
     pkt_isSecure = False, pkt_isResponse = True, pkt_isWriteLine = False, pkt_isRead = True, pkt_hasData = True,
     pkt_hasSharers = False, pkt_cacheResponding = True, pkt_data = replicate 64 7, pkt_payloadDelay = 0\<rparr>"

lemma demo_fill_ok: "addr AND NOT 63 = addr \<Longrightarrow> fill_ok demo_cfg demo_geom (demo_fill addr)"
  by (simp add: fill_ok_def demo_fill_def demo_cfg_def demo_env_def demo_geom_def blkAlign_def Request_phys_def)

lemma demo_cache_inv: "cache_inv demo_cfg demo_cache"
  using constructor_inv [OF demo_tags(1)] demo_tags(3)
  by (simp add: cache_inv_def demo_cache_def demo_cfg_def)

section \<open>Addresses\<close>

lemma unat_align:
  assumes "wf_geom G"
  shows "unat (blkAlign G addr) = unat addr - unat addr mod unat (blkSize G)"
proof -
  have "blkAlign G addr = push_bit (setShift G) (drop_bit (setShift G) addr)"
    using assms by (intro bit_word_eqI) (auto simp: bit_simps blkAlign_def wf_geom_def ucast_mask)
  then have "unat (blkAlign G addr) = unat addr div 2 ^ setShift G * 2 ^ setShift G mod 2 ^ 64"
    by (simp only: unsigned_push_bit_eq) (simp add: unat_drop_bit push_bit_nat_def take_bit_nat_def)
  also have "\<dots> = unat addr div 2 ^ setShift G * 2 ^ setShift G"
    by (intro mod_less order_le_less_trans [OF div_times_less_eq_dividend])
      (use unsigned_less [of addr, where 'a = nat] in simp)
  finally show ?thesis using assms by (simp add: wf_geom_def minus_mod_eq_div_mult)
qed

lemma small_bits: "unat (w :: 'a::len word) < 2 ^ n \<Longrightarrow> bit w k \<Longrightarrow> k < n"
proof -
  assume "unat w < 2 ^ n" "bit w k"
  then have "take_bit n w = w" by (metis take_bit_nat_eq_self unsigned_take_bit_eq word_unat_eq_iff)
  with \<open>bit w k\<close> show ?thesis by (metis bit_take_bit_iff)
qed

lemma regenerate_fields:
  assumes wf: "wf_geom G" and "unat tag < 2 ^ (64 - tagShift G) \<and> unat st < unat (numSets G)"
  shows "extractTag G (regenerateBlkAddr G tag st) = tag \<and> extractSet G (regenerateBlkAddr G tag st) = int (unat st)"
proof
  note w = wf [unfolded wf_geom_def]
  have tag: "bit tag k \<Longrightarrow> k < 64 - tagShift G" for k using small_bits assms(2) by blast
  have st: "bit st k \<Longrightarrow> k < tagShift G - setShift G" for k using small_bits assms(2) w by metis
  show "extractTag G (regenerateBlkAddr G tag st) = tag"
    unfolding extractTag_def regenerateBlkAddr_def
    by (rule bit_word_eqI) (use w in \<open>auto simp: bit_simps dest: tag st\<close>)
  have "set_field G (regenerateBlkAddr G tag st) = ucast st"
    unfolding set_field_def regenerateBlkAddr_def
    by (rule bit_word_eqI) (use w in \<open>auto simp: bit_simps dest: tag st\<close>)
  moreover have "unat (ucast st :: u64) = unat st"
  proof -
    have "unat st < 2 ^ 64" using unsigned_less [of st, where 'a = nat] by simp
    then show ?thesis by (simp add: unsigned_ucast_eq take_bit_nat_eq_self)
  qed
  ultimately show "extractSet G (regenerateBlkAddr G tag st) = int (unat st)"
    unfolding extractSet_field(1) [OF wf] by simp
qed

text \<open>
  C19: in a tag store that the constructor accepts, the set index of an address is in range, and the tag
  and the set index of an address give back the address of its block; conversely a tag that fits and a
  set index that is in range are those of the address made from them. So the address under which a
  block is written back is that of the line it was filled with.
\<close>

theorem blk_address_roundtrip:
  assumes "BaseSetAssoc_new prm e = Inr ts"
  shows "0 \<le> extractSet (geom ts) addr \<and> extractSet (geom ts) addr < int (unat (numSets (geom ts))) \<and>
    regenerateBlkAddr (geom ts) (extractTag (geom ts) addr) (of_int (extractSet (geom ts) addr)) = blkAlign (geom ts) addr \<and>
    unat (blkAlign (geom ts) addr) = unat addr - unat addr mod unat (blkSize (geom ts)) \<and>
    (unat tag < 2 ^ (64 - tagShift (geom ts)) \<and> unat st < unat (numSets (geom ts)) \<longrightarrow>
      extractTag (geom ts) (regenerateBlkAddr (geom ts) tag st) = tag \<and>
      extractSet (geom ts) (regenerateBlkAddr (geom ts) tag st) = int (unat st))"
proof -
  have wf: "wf_geom (geom ts)" using constructor_inv(1) [OF assms] by (rule tags_invD(1))
  then show ?thesis
    using extractSet_field(2,3) [OF wf] regenerate_align [OF wf] unat_align [OF wf] regenerate_fields [OF wf] by blast
qed

theorem blk_address_roundtrip_witness:
  "regenerateBlkAddr demo_geom (extractTag demo_geom 0x1234) (of_int (extractSet demo_geom 0x1234)) = blkAlign demo_geom 0x1234 \<and>
   extractTag demo_geom (regenerateBlkAddr demo_geom 0x12 3) = 0x12"
  using blk_address_roundtrip [OF demo_tags(1), of "0x1234" "0x12" 3] unfolding demo_tags(2)
  by (simp add: demo_geom_def)

section \<open>Recency\<close>

text \<open>
  C6: from the state the constructor leaves, any sequence of accesses, fills and invalidations runs
  without a failed assertion and is answered as by one list of lines per set with the most recently
  used first: an access hits exactly the lines in the list of its set and moves the line to the front,
  a fill of an absent line puts it in front and evicts the last line of a full list only, under the
  address that line was filled with. At the end each set holds the lines of its list in that order,
  and the tags in use are as many as the valid blocks.
\<close>

theorem lru_refinement:
  assumes "BaseSetAssoc_new prm (cenv cfg) = Inr (ctags c)" "length (cdata c) = length (blks (ctags c))"
    and "clockPeriod (cenv cfg) \<noteq> 0" "\<not> isReadOnly cfg \<or> writebackClean cfg"
    and "list_all (op_ok cfg (geom (ctags c))) xs"
  shows "\<exists>c'. run_cache cfg xs c = Inr (fst (run_spec (geom (ctags c)) xs (\<lambda>_. [])), c') \<and>
    (\<forall>i < unat (numSets (geom (ctags c))). lines (ctags c') i = snd (run_spec (geom (ctags c)) xs (\<lambda>_. [])) i) \<and>
    tagsInUse (stats (ctags c')) = int (length (filter isValid (blks (ctags c'))))"
proof -
  note new = constructor_inv [OF assms(1)]
  have "cache_inv cfg c" using new assms(2) by (simp add: cache_inv_def)
  moreover have "represents c (\<lambda>_. [])" using new(3) by (simp add: represents_def)
  ultimately obtain c' where "run_cache cfg xs c = Inr (fst (run_spec (geom (ctags c)) xs (\<lambda>_. [])), c')"
    and c': "cache_inv cfg c'" "geom (ctags c') = geom (ctags c)" "represents c' (snd (run_spec (geom (ctags c)) xs (\<lambda>_. [])))"
    using run_refines assms(3-5) by blast
  moreover have "length (sets (ctags c')) = unat (numSets (geom (ctags c)))"
    using tags_invD(4) [OF cfg_inv_simps(1) [OF c'(1)]] c'(2) by simp
  moreover have "tagsInUse (stats (ctags c')) = int (length (filter isValid (blks (ctags c'))))"
    using cfg_inv_simps(2) [OF c'(1)] by (simp add: counted_def)
  ultimately show ?thesis using c'(3) unfolding represents_def by metis
qed

theorem lru_refinement_witness:
  "\<exists>c'. run_cache demo_cfg [Fill (demo_fill 0), Fill (demo_fill 0x100), Access 0x20 False, Fill (demo_fill 0x200)] demo_cache =
    Inr ([Evicts [], Evicts [], Hit True, Evicts [(0x100, False)]], c')"
proof -
  let ?xs = "[Fill (demo_fill 0), Fill (demo_fill 0x100), Access 0x20 False, Fill (demo_fill 0x200)]"
  have "\<exists>c'. run_cache demo_cfg ?xs demo_cache = Inr (fst (run_spec (geom (ctags demo_cache)) ?xs (\<lambda>_. [])), c') \<and>
    (\<forall>i < unat (numSets (geom (ctags demo_cache))). lines (ctags c') i =
      snd (run_spec (geom (ctags demo_cache)) ?xs (\<lambda>_. [])) i) \<and>
    tagsInUse (stats (ctags c')) = int (length (filter isValid (blks (ctags c'))))"
    by (rule lru_refinement [of demo_params])
      (simp_all add: demo_cache_def demo_cfg_def demo_env_def demo_tags demo_tags(1) [unfolded demo_env_def]
        demo_fill_ok [unfolded demo_cfg_def demo_env_def])
  moreover have "fst (run_spec demo_geom ?xs (\<lambda>_. [])) = [Evicts [], Evicts [], Hit True, Evicts [(0x100, False)]]"
    by (simp add: demo_fill_def demo_geom_def extractSet_def int_of_u64_def blkAlign_def Let_def)
  ultimately show ?thesis by (auto simp: demo_cache_def demo_tags(2))
qed

section \<open>Contents\<close>

lemma fill_result:
  assumes "cache_inv cfg c" "\<not> isReadOnly cfg \<or> writebackClean cfg"
    and "fill_ok cfg (geom (ctags c)) pkt" "pkt_isRead pkt" "\<not> wbuf (pkt_addr pkt) (pkt_isSecure pkt)"
    and "\<forall>a s. cached c (a, s) \<noteq> None \<longrightarrow> mshr a s = None"
    and "cached c (pkt_addr pkt, pkt_isSecure pkt) = None"
  shows "\<exists>bp wbs c'. handleFill cfg mshr wbuf pkt None [] True c = Inr (bp, wbs, c') \<and> cache_inv cfg c' \<and>
    cached c' (pkt_addr pkt, pkt_isSecure pkt) = Some (pkt_data pkt, \<not> pkt_hasSharers pkt \<and> pkt_cacheResponding pkt) \<and>
    (\<forall>k d dirty. k \<noteq> (pkt_addr pkt, pkt_isSecure pkt) \<longrightarrow> cached c k = Some (d, dirty) \<longrightarrow>
      cached c' k = Some (d, dirty) \<or>
      (cached c' k = None \<and> (\<exists>w\<in>set wbs. (wb_addr w, wb_secure w) = k \<and>
        (dirty \<longrightarrow> wb_cmd w = WritebackDirty \<and> wb_data w = Some d)))) \<and>
    (\<forall>k. k \<noteq> (pkt_addr pkt, pkt_isSecure pkt) \<longrightarrow> cached c k = None \<longrightarrow> cached c' k = None)"
proof -
  let ?ts = "ctags c"
  define p where "p = last (sets ?ts ! set_of ?ts (pkt_addr pkt))"
  note ti = cfg_inv_simps [OF assms(1)] and v = victim_last [OF cfg_inv_simps(1) [OF assms(1)], of "pkt_addr pkt", folded p_def]
  have "mshr (fst (line_at ?ts p)) (snd (line_at ?ts p)) = None" if "vld ?ts p"
  proof -
    have "cached c (line_at ?ts p) \<noteq> None" using that v(2) unfolding cached_None by (auto simp: holds_def)
    with assms(6) show ?thesis by (metis prod.collapse)
  qed
  note fe = fill_effect [where mshr = mshr and wbuf = wbuf and wbs = "[]", OF assms(1-3,5) p_def this]
  obtain b s n u where op: "handleFill cfg mshr wbuf pkt None [] True c = Inr (InTags p, evicted cfg c p,
      c\<lparr>ctags := place (home ?ts p) (p # remove1 p (sets ?ts ! home ?ts p)) p b s ?ts,
        cdata := (cdata c)[p := pkt_data pkt], writebackCount := n, unusedPrefetches := u\<rparr>)"
    and b: "filled (geom ?ts) pkt (blks ?ts ! p) b"
    and s: "tagsInUse s = tagsInUse (stats ?ts) + (if vld ?ts p then 0 else 1)"
      "occupancies s = moved_occ (int (unat (req_masterId (pkt_req pkt)))) (blks ?ts ! p) (occupancies (stats ?ts))"
    using fe assms(4) by (auto simp only: append_Nil if_True)
  define c' where "c' = c\<lparr>ctags := place (home ?ts p) (p # remove1 p (sets ?ts ! home ?ts p)) p b s ?ts,
        cdata := (cdata c)[p := pkt_data pkt], writebackCount := n, unusedPrefetches := u\<rparr>"
  have sel: "ctags c' = place (home ?ts p) (p # remove1 p (sets ?ts ! home ?ts p)) p b s ?ts"
    "cdata c' = (cdata c)[p := pkt_data pkt]" by (simp_all add: c'_def)
  have miss: "\<forall>q. \<not> holds ?ts (pkt_addr pkt, pkt_isSecure pkt) q" using assms(7) by (simp add: cached_None)
  note keep = fill_keeps [OF assms(1-3) p_def b s miss, folded sel(1)]
  have inv: "cache_inv cfg c'" using keep assms(1) by (intro cache_invI) (simp_all add: sel cache_inv_def)
  note con = fill_contents [OF assms(1,3,4) p_def b sel keep(1) assms(7)]
  have "cached c' k = Some (d, dirty) \<or> (cached c' k = None \<and> (\<exists>w\<in>set (evicted cfg c p). (wb_addr w, wb_secure w) = k \<and>
        (dirty \<longrightarrow> wb_cmd w = WritebackDirty \<and> wb_data w = Some d)))"
    if k: "k \<noteq> (pkt_addr pkt, pkt_isSecure pkt)" "cached c k = Some (d, dirty)" for k d dirty
  proof (cases "holds ?ts k p")
    case True
    with cached_holds [OF ti(1) True] k(2) have "vld ?ts p" "line_at ?ts p = k" "d = cdata c ! p" "dirty = isDirty (blks ?ts ! p)"
      by (simp_all add: holds_def)
    with True con(2) [OF k(1)] show ?thesis by (auto simp: evicted_def Let_def)
  qed (use con(2) [OF k(1)] k(2) in simp)
  moreover have "cached c' k = None" if "k \<noteq> (pkt_addr pkt, pkt_isSecure pkt)" "cached c k = None" for k
    using con(2) [OF that(1)] that(2) by simp
  moreover have "cached c' (pkt_addr pkt, pkt_isSecure pkt) =
      Some (pkt_data pkt, \<not> pkt_hasSharers pkt \<and> pkt_cacheResponding pkt)"
    by (rule con(1) [of "(pkt_addr pkt, \<not> pkt_isSecure pkt)"]) simp
  ultimately show ?thesis using op [folded c'_def] inv by blast
qed

lemma demo_none: "cached demo_cache k = None"
proof -
  note ti = constructor_inv(1) [OF demo_tags(1)]
  have "\<not> holds demo_tags k p" for p
  proof
    assume h: "holds demo_tags k p"
    then have "home demo_tags p < length (sets demo_tags)" using home_facts(1) [OF ti] by (simp add: holds_def)
    then have "k \<in> set (lines demo_tags (home demo_tags p))" "lines demo_tags (home demo_tags p) = []"
      using h lines_mem [OF ti] constructor_inv(3) [OF demo_tags(1)] by blast+
    then show False by simp
  qed
  then show ?thesis by (simp add: cached_None demo_cache_def)
qed

lemma demo_filling: "fill_ok demo_cfg (geom (ctags demo_cache)) (demo_fill 0x100)" "\<not> isReadOnly demo_cfg \<or> writebackClean demo_cfg"
  "pkt_isRead (demo_fill 0x100)" "cached demo_cache (pkt_addr (demo_fill 0x100), pkt_isSecure (demo_fill 0x100)) = None"
  "\<forall>a s. cached demo_cache (a, s) \<noteq> None \<longrightarrow> None = (None :: bool option)"
  using demo_fill_ok [of "0x100"] by (simp_all add: demo_cache_def demo_tags(2) demo_cfg_def demo_fill_def demo_none [unfolded demo_cache_def])

lemma demo_dirty: "\<exists>c. cache_inv demo_cfg c \<and> cached c (0x100, False) = Some (replicate 64 7, True)"
  using fill_result [where wbuf = "\<lambda>_ _. False" and mshr = "\<lambda>_ _. None", OF demo_cache_inv demo_filling(2,1,3) _ _ demo_filling(4)]
  by (auto simp: demo_fill_def)

text \<open>
  C8: when a line that is absent is filled and its victim has no outstanding miss, the line is cached
  with the bytes of the packet, clean unless the packet passes a dirty copy on. Every other line
  keeps its bytes and its status, but for the victim, which is sent to the next level under its address:
  if it was dirty, as a dirty writeback with its bytes.
\<close>

theorem fill_loses_nothing:
  assumes "cache_inv cfg c" "\<not> isReadOnly cfg \<or> writebackClean cfg"
    and "fill_ok cfg (geom (ctags c)) pkt" "pkt_isRead pkt" "\<not> wbuf (pkt_addr pkt) (pkt_isSecure pkt)"
    and "\<forall>a s. cached c (a, s) \<noteq> None \<longrightarrow> mshr a s = None"
    and "cached c (pkt_addr pkt, pkt_isSecure pkt) = None"
  shows "\<exists>bp wbs c'. handleFill cfg mshr wbuf pkt None [] True c = Inr (bp, wbs, c') \<and> cache_inv cfg c' \<and>
    cached c' (pkt_addr pkt, pkt_isSecure pkt) = Some (pkt_data pkt, \<not> pkt_hasSharers pkt \<and> pkt_cacheResponding pkt) \<and>
    (\<forall>k d dirty. k \<noteq> (pkt_addr pkt, pkt_isSecure pkt) \<longrightarrow> cached c k = Some (d, dirty) \<longrightarrow>
      cached c' k = Some (d, dirty) \<or>
      (cached c' k = None \<and> (\<exists>w\<in>set wbs. (wb_addr w, wb_secure w) = k \<and>
        (dirty \<longrightarrow> wb_cmd w = WritebackDirty \<and> wb_data w = Some d)))) \<and>
    (\<forall>k. k \<noteq> (pkt_addr pkt, pkt_isSecure pkt) \<longrightarrow> cached c k = None \<longrightarrow> cached c' k = None)"
  by (rule fill_result [where wbuf = wbuf and mshr = mshr, OF assms])

theorem fill_loses_nothing_witness:
  "\<exists>bp wbs c'. handleFill demo_cfg (\<lambda>_ _. None) (\<lambda>_ _. False) (demo_fill 0x100) None [] True demo_cache = Inr (bp, wbs, c') \<and>
    cached c' (0x100, False) = Some (replicate 64 7, True)"
proof -
  from fill_loses_nothing [where wbuf = "\<lambda>_ _. False" and mshr = "\<lambda>_ _. None",
      OF demo_cache_inv demo_filling(2,1,3) _ _ demo_filling(4)]
  show ?thesis by (auto simp: demo_fill_def)
qed

lemma dirty_scan_iff: "dirty_scan bs \<longleftrightarrow> (\<exists>b\<in>set bs. isDirty b)"
  by (induction bs) auto

text \<open>
  C16: writing back the whole cache for a checkpoint or a switch of memory mode sends, in the order of the
  blocks, the bytes of every dirty block to its address and nothing else; no line is lost or changed and
  none is dirty afterwards. Invalidating the whole cache then succeeds and leaves no line. The
  writes are sent as non-secure ones, also for a line of the secure memory space.
\<close>

theorem flush_complete:
  assumes "cache_inv cfg c"
  shows "\<exists>c1 c2. memWriteback c = Inr (map (\<lambda>p. \<lparr>fw_addr = fst (line_at (ctags c) p), fw_secure = False,
        fw_taskId = blk_task_id (blks (ctags c) ! p), fw_data = cdata c ! p\<rparr>)
      (filter (\<lambda>p. isDirty (blks (ctags c) ! p)) [0..<length (blks (ctags c))]), c1) \<and>
    (\<forall>k. cached c1 k = map_option (\<lambda>(d, _). (d, False)) (cached c k)) \<and> \<not> Cache_isDirty c1 \<and>
    memInvalidate cfg c1 = Inr c2 \<and> (\<forall>k. cached c2 k = None) \<and> tagsInUse (stats (ctags c2)) = 0"
proof -
  let ?ts = "ctags c"
  obtain ts where wb: "visit writebackVisitor [0..<length (blks ?ts)] ([], c) =
      Inr (map (flushed c) (filter (\<lambda>p. isDirty (blks ?ts ! p)) [0..<length (blks ?ts)]), c\<lparr>ctags := ts\<rparr>)"
    and ts: "cache_inv cfg (c\<lparr>ctags := ts\<rparr>)" "geom ts = geom ?ts" "length (blks ts) = length (blks ?ts)"
      "\<forall>q. blks ts ! q = (if q \<in> set [0..<length (blks ?ts)] then clean (blks ?ts ! q) else blks ?ts ! q)"
    using visit_writeback [OF assms, of "[0..<length (blks ?ts)]" "[]"] by auto
  have cl: "blks ts ! q = clean (blks ?ts ! q)" if "q < length (blks ?ts)" for q using ts(4) that by simp
  have nd: "\<not> isDirty (blks ts ! q)" if "q < length (blks ?ts)" for q using cl [OF that] clean_facts(2) by simp
  have hold: "holds ts k p = holds ?ts k p" for k p
    using cl clean_facts(1) same_lineD(1) [OF clean_facts(1)] ts(2,3) by (auto simp: holds_def same_line_def)
  have "cached (c\<lparr>ctags := ts\<rparr>) k = map_option (\<lambda>(d, _). (d, False)) (cached c k)" for k
  proof -
    have "find (holds ts k) xs = find (holds ?ts k) xs" for xs by (induction xs) (simp_all add: hold)
    moreover have "p < length (blks ?ts)" if "find (holds ?ts k) [0..<length (blks ?ts)] = Some p" for p
      using that by (auto simp: find_Some_iff)
    ultimately show ?thesis
      using nd ts(3) by (cases "find (holds ?ts k) [0..<length (blks ?ts)]") (auto simp: cached_def)
  qed
  moreover have "\<not> Cache_isDirty (c\<lparr>ctags := ts\<rparr>)"
    using nd ts(3) by (auto simp: Cache_isDirty_def dirty_scan_iff in_set_conv_nth)
  moreover obtain ts2 where iv: "visit (invalidateVisitor cfg) [0..<length (blks ts)] (c\<lparr>ctags := ts\<rparr>) = Inr (c\<lparr>ctags := ts2\<rparr>)"
    "cache_inv cfg (c\<lparr>ctags := ts2\<rparr>)" "length (blks ts2) = length (blks ts)" "\<forall>q\<in>set [0..<length (blks ts)]. \<not> vld ts2 q"
    using visit_invalidate [OF ts(1), of "[0..<length (blks ts)]"] nd ts(3) by auto
  moreover have "cached (c\<lparr>ctags := ts2\<rparr>) k = None" for k
    using iv(3,4) by (auto simp: cached_None holds_def)
  moreover have "tagsInUse (stats ts2) = 0"
  proof -
    have "filter isValid (blks ts2) = []" using iv(3,4) by (auto simp: filter_empty_conv in_set_conv_nth)
    then show ?thesis using cfg_inv_simps(2) [OF iv(2)] by (simp add: counted_def)
  qed
  ultimately show ?thesis
    using wb unfolding memWriteback_def memInvalidate_def flushed_def [abs_def]
    by (intro exI [of _ "c\<lparr>ctags := ts\<rparr>"] exI [of _ "c\<lparr>ctags := ts2\<rparr>"]) simp
qed

theorem flush_complete_witness:
  "\<exists>c sent c1 c2. cached c (0x100, False) = Some (replicate 64 7, True) \<and> memWriteback c = Inr (sent, c1) \<and>
    cached c1 (0x100, False) = Some (replicate 64 7, False) \<and> memInvalidate demo_cfg c1 = Inr c2 \<and> cached c2 (0x100, False) = None"
proof -
  obtain c where c: "cache_inv demo_cfg c" "cached c (0x100, False) = Some (replicate 64 7, True)" using demo_dirty by blast
  from flush_complete [OF c(1)] obtain c1 c2 sent where "memWriteback c = Inr (sent, c1)"
    "\<forall>k. cached c1 k = map_option (\<lambda>(d, _). (d, False)) (cached c k)" "memInvalidate demo_cfg c1 = Inr c2"
    "\<forall>k. cached c2 k = None" by blast
  with c(2) show ?thesis by (intro exI [of _ c] exI [of _ sent] exI [of _ c1] exI [of _ c2]) simp
qed

text \<open>
  C39: invalidating a cache that holds a dirty line fails an assertion, whatever the other lines; the
  lines are not dropped silently.
\<close>

theorem invalidate_dirty_asserts:
  assumes "cache_inv cfg c" "Cache_isDirty c"
  shows "memInvalidate cfg c = Inl AssertFail"
proof -
  let ?bs = "blks (ctags c)"
  obtain pre b post where split: "?bs = pre @ b # post" "isDirty b" "\<forall>y\<in>set pre. \<not> isDirty y"
    using split_list_first_prop [of ?bs isDirty] assms(2) by (auto simp: Cache_isDirty_def dirty_scan_iff)
  define p where "p = length pre"
  have p: "p < length ?bs" "isDirty (?bs ! p)" by (simp_all add: split p_def)
  have before: "\<not> isDirty (?bs ! i)" if "i < p" for i
    using that split(3) by (simp add: split(1) nth_append p_def)
  obtain ts where ts: "visit (invalidateVisitor cfg) [0..<p] c = Inr (c\<lparr>ctags := ts\<rparr>)"
    "\<forall>q. q \<notin> set [0..<p] \<longrightarrow> blks ts ! q = ?bs ! q"
    using visit_invalidate [OF assms(1), of "[0..<p]"] before p(1) by auto
  have "blks ts ! p = ?bs ! p" using ts(2) by simp
  then have "invalidateVisitor cfg p (c\<lparr>ctags := ts\<rparr>) = Inl AssertFail"
    using p(2) dirty_valid [OF cfg_inv_simps(1) [OF assms(1)] p] by (simp add: invalidateVisitor_def Let_def assertE_def)
  moreover have "[0..<length ?bs] = [0..<p] @ p # [Suc p..<length ?bs]"
    using p(1) upt_add_eq_append [of 0 p "length ?bs - p"] by (simp add: upt_conv_Cons)
  moreover have "visit f (xs @ ys) s = bindE (visit f xs s) (visit f ys)" for f :: "nat \<Rightarrow> cache_state \<Rightarrow> cache_state res" and xs ys s
    by (induction xs arbitrary: s) (auto simp: bindE_def split: sum.splits)
  ultimately show ?thesis using ts(1) by (simp add: memInvalidate_def)
qed

theorem invalidate_dirty_asserts_witness:
  "\<exists>c. cached c (0x100, False) = Some (replicate 64 7, True) \<and> memInvalidate demo_cfg c = Inl AssertFail"
proof -
  obtain c where c: "cache_inv demo_cfg c" "cached c (0x100, False) = Some (replicate 64 7, True)" using demo_dirty by blast
  then have "Cache_isDirty c"
    by (auto simp: Cache_isDirty_def holds_def dirty_scan_iff elim!: cached_SomeE intro!: bexI nth_mem)
  with c invalidate_dirty_asserts show ?thesis by blast
qed

end
