(* ===== verification/Random_Victim.thy ===== *)
theory Random_Victim
  imports Cache_Claims
begin

text \<open>
  The random replacement policy (\<open>mem/cache/tags/random_repl.cc\<close>): its search for a victim ends in every state
  a tag store can reach, and what happens when the allocation limit exceeds the associativity.
\<close>

section \<open>The remaining operations of the policy\<close>

definition RandomRepl_accessBlock ::
  "cache_env \<Rightarrow> u64 \<Rightarrow> bool \<Rightarrow> tag_store \<Rightarrow> (nat option \<times> u64 \<times> tag_store) res" where
  "RandomRepl_accessBlock e addr is_secure ts = BaseSetAssoc_accessBlock e addr is_secure ts"

definition RandomRepl_insertBlock :: "cache_env \<Rightarrow> packet \<Rightarrow> nat \<Rightarrow> tag_store \<Rightarrow> tag_store res" where
  "RandomRepl_insertBlock e pkt p ts = BaseSetAssoc_insertBlock e pkt p ts"

definition RandomRepl_invalidate :: "cache_env \<Rightarrow> nat option \<Rightarrow> tag_store \<Rightarrow> tag_store res" where
  "RandomRepl_invalidate e blk ts = BaseSetAssoc_invalidate e blk ts"

section \<open>Reachable stores\<close>

text \<open>
  The stores that arise from the constructor by the operations of the policy, by changes of the cache to a
  block that leave its way, and by limits within the associativity.
\<close>

inductive random_store :: "tag_params \<Rightarrow> tag_store \<Rightarrow> bool" for prm where
  Start: "BaseSetAssoc_new prm e = Inr ts \<Longrightarrow> random_store prm ts"
| Access: "\<lbrakk>random_store prm ts; RandomRepl_accessBlock e addr is_secure ts = Inr (r, lat, ts')\<rbrakk> \<Longrightarrow> random_store prm ts'"
| Insert: "\<lbrakk>random_store prm ts; RandomRepl_insertBlock e pkt p ts = Inr ts'\<rbrakk> \<Longrightarrow> random_store prm ts'"
| Invalidate: "\<lbrakk>random_store prm ts; RandomRepl_invalidate e blk ts = Inr ts'\<rbrakk> \<Longrightarrow> random_store prm ts'"
| Change: "\<lbrakk>random_store prm ts; \<And>b. blk_way (f b) = blk_way b\<rbrakk> \<Longrightarrow> random_store prm (upd_blk p f ts)"
| Limit: "\<lbrakk>random_store prm ts; setWayAllocationMax ways ts = Inr ts'; ways \<le> int (unat (assoc (geom ts)))\<rbrakk> \<Longrightarrow>
    random_store prm ts'"

definition ways_ok :: "tag_store \<Rightarrow> bool" where
  "ways_ok ts \<longleftrightarrow> wf_geom (geom ts) \<and> length (sets ts) = unat (numSets (geom ts)) \<and>
     0 < unat (allocAssoc ts) \<and> unat (allocAssoc ts) \<le> unat (assoc (geom ts)) \<and>
     (\<forall>i < length (sets ts). length (sets ts ! i) = unat (assoc (geom ts)) \<and>
        (\<forall>j < unat (assoc (geom ts)). blk_way (blks ts ! (sets ts ! i ! j)) = int j))"

definition same_ways :: "tag_store \<Rightarrow> tag_store \<Rightarrow> bool" where
  "same_ways ts ts' \<longleftrightarrow> geom ts' = geom ts \<and> allocAssoc ts' = allocAssoc ts \<and> sets ts' = sets ts \<and>
     (\<forall>q. blk_way (blks ts' ! q) = blk_way (blks ts ! q))"

lemma same_ways_ok: "same_ways ts ts' \<Longrightarrow> ways_ok ts \<Longrightarrow> ways_ok ts'"
  unfolding same_ways_def ways_ok_def by simp

lemma same_ways_trans [trans]: "\<lbrakk>same_ways a b; same_ways b c\<rbrakk> \<Longrightarrow> same_ways a c"
  by (simp add: same_ways_def)

lemma same_ways_upd:
  "same_ways ts ts" "same_ways ts (upd_stats g ts)"
  by (simp_all add: same_ways_def upd_stats_def)

lemma same_ways_upd_blk:
  assumes "\<And>b. blk_way (f b) = blk_way b"
  shows "same_ways ts (upd_blk p f ts)"
proof -
  have "blk_way ((blks ts)[p := f (blks ts ! p)] ! q) = blk_way (blks ts ! q)" for q
    by (cases "p < length (blks ts)") (auto simp: assms nth_list_update list_update_beyond)
  then show ?thesis by (simp add: same_ways_def upd_blk_def)
qed

lemma same_ways_occ: "change_occ m d ts = Inr ts' \<Longrightarrow> same_ways ts ts'"
  using same_ways_upd(2) by (auto simp: change_occ_def bindE_def split: sum.splits)

lemma same_ways_change:
  "same_ways ts (upd_blk p f ts') = same_ways ts ts'" if "\<And>b. blk_way (f b) = blk_way b"
  using same_ways_upd_blk [OF that, of ts' p] by (auto simp: same_ways_def)

lemma same_ways_stats [simp]: "same_ways ts (upd_stats g ts') = same_ways ts ts'"
  by (simp add: same_ways_def upd_stats_def)

lemma same_ways_touch: "same_ways ts (touch e p ts)"
  by (simp add: touch_def same_ways_upd(1) same_ways_change)

lemma same_ways_evict: "evict e p ts = Inr ts' \<Longrightarrow> same_ways ts ts'"
proof (cases "isValid (blks ts ! p)")
  case True
  assume op: "evict e p ts = Inr ts'"
  then obtain m g ts1 where "change_occ m (- 1) (upd_blk p (\<lambda>b. b\<lparr>blk_refCount := 0\<rparr>) (upd_stats g ts)) = Inr ts1"
    "ts' = upd_blk p CacheBlk_invalidate ts1"
    using True by (auto simp: evict_def Let_def assertE_def bindE_def split: sum.splits if_splits)
  moreover have "same_ways ts (upd_blk p (\<lambda>b. b\<lparr>blk_refCount := 0\<rparr>) (upd_stats g ts))"
    by (simp add: same_ways_change same_ways_upd(1))
  ultimately have "same_ways ts ts1" using same_ways_occ same_ways_trans by blast
  with \<open>ts' = upd_blk p CacheBlk_invalidate ts1\<close> show ?thesis by (simp add: same_ways_change CacheBlk_invalidate_def)
qed (simp add: evict_def same_ways_upd(1))

lemma random_access_ways:
  assumes "RandomRepl_accessBlock e addr is_secure ts = Inr (r, lat, ts')"
  shows "same_ways ts ts'"
  using assms same_ways_upd(1)
  by (auto simp: RandomRepl_accessBlock_def BaseSetAssoc_accessBlock_def Let_def bindE_def same_ways_change
      split: sum.splits option.splits if_splits)

lemma random_insert_ways:
  assumes "RandomRepl_insertBlock e pkt p ts = Inr ts'"
  shows "same_ways ts ts'"
proof -
  obtain ts1 f m ts2 g h where ev: "evict e p (touch e p ts) = Inr ts1"
    and occ: "change_occ m 1 (upd_blk p f ts1) = Inr ts2" and ts': "ts' = upd_stats g (upd_blk p h ts2)"
    and fh: "\<And>b. blk_way (f b) = blk_way b" "\<And>b. blk_way (h b) = blk_way b"
    using assms unfolding RandomRepl_insertBlock_def BaseSetAssoc_insertBlock_def
    by (auto simp: Let_def assertE_def bindE_def split: sum.splits if_splits)
  have "same_ways ts ts1" using same_ways_touch same_ways_evict [OF ev] by (rule same_ways_trans)
  then have "same_ways ts (upd_blk p f ts1)" by (simp add: same_ways_change fh)
  then have "same_ways ts ts2" using same_ways_occ [OF occ] by (rule same_ways_trans)
  then show ?thesis by (simp add: ts' same_ways_change fh)
qed

lemma random_invalidate_ways:
  assumes "RandomRepl_invalidate e blk ts = Inr ts'"
  shows "same_ways ts ts'"
proof -
  obtain p m g ts1 f where occ: "change_occ m (- 1) (upd_stats g ts) = Inr ts1" and ts': "ts' = upd_blk p f ts1"
    and f: "\<And>b. blk_way (f b) = blk_way b"
    using assms unfolding RandomRepl_invalidate_def BaseSetAssoc_invalidate_def
    by (auto simp: Let_def assertE_def bindE_def split: sum.splits if_splits option.splits)
  have "same_ways ts ts1" using same_ways_occ [OF occ] by (simp add: same_ways_def upd_stats_def)
  then show ?thesis by (simp add: ts' same_ways_change f)
qed

lemma constructor_ways:
  assumes "BaseSetAssoc_new prm e = Inr ts"
  shows "ways_ok ts"
proof -
  note inv = constructor_inv(1) [OF assms]
  define A where "A = unat (assoc (geom ts))"
  obtain bsize a N where sh: "sets ts = map (\<lambda>i. map (\<lambda>j. i * A + j) [0..<A]) [0..<N]"
    "blks ts = concat (map (\<lambda>i. map (linked_blk bsize a i) [0..<A]) [0..<N])"
    using assms unfolding BaseSetAssoc_new_def A_def
    by (auto simp: Let_def bindE_def split: if_splits sum.splits)
  have "blk_way (blks ts ! (sets ts ! i ! j)) = int j" if "i < N" "j < A" for i j
  proof -
    have "i * A + j < N * A"
      using that by (metis div_less_iff_less_mult div_mult_self3 div_less add_0_right gr_implies_not0 neq0_conv)
    with that show ?thesis by (simp add: sh concat_grid linked_blk_def)
  qed
  moreover have "length (sets ts) = N" by (simp add: sh(1))
  ultimately show ?thesis
    using tags_invD(1-4) [OF inv] by (auto simp: ways_ok_def A_def sh(1))
qed

lemma random_store_ways: "random_store prm ts \<Longrightarrow> ways_ok ts"
proof (induction rule: random_store.induct)
  case (Limit ts ways ts')
  then have ts': "1 \<le> ways" "ts' = ts\<lparr>allocAssoc := of_int ways\<rparr>" by (auto simp: setWayAllocationMax_def split: if_splits)
  have "unat (of_int ways :: u32) = nat ways"
  proof -
    have "ways < 2 ^ 32" using Limit.hyps(3) uint_lt2p [of "assoc (geom ts)"] by simp
    with ts'(1) show ?thesis by (simp add: unat_eq_nat_uint uint_word_of_int_eq take_bit_int_eq_self)
  qed
  moreover have "nat ways \<le> unat (assoc (geom ts))" using Limit.hyps(3) by linarith
  ultimately show ?case using Limit.IH ts' by (simp add: ways_ok_def)
next
  case (Change ts f p)
  then show ?case using same_ways_ok same_ways_upd_blk by metis
qed (simp_all add: constructor_ways same_ways_ok [OF random_access_ways] same_ways_ok [OF random_insert_ways]
    same_ways_ok [OF random_invalidate_ways])

section \<open>The search\<close>

lemma victim_scan_cases:
  assumes "i + n \<le> length ps"
  shows "(\<exists>j. i \<le> j \<and> j < i + n \<and> \<not> isValid (bs ! (ps ! j)) \<and> victim_scan bs ps i n b = Inr (Some (ps ! j))) \<or>
    ((\<forall>j. i \<le> j \<longrightarrow> j < i + n \<longrightarrow> isValid (bs ! (ps ! j))) \<and>
      victim_scan bs ps i n b = Inr (if n = 0 then b else Some (ps ! (i + n - 1))))"
  using assms
proof (induction n arbitrary: i b)
  case (Suc n)
  have rd: "rd ps (int i) = Inr (ps ! i)" using Suc.prems by (simp add: rd_def in_arr_def)
  show ?case
  proof (cases "isValid (bs ! (ps ! i))")
    case True
    then have scan: "victim_scan bs ps i (Suc n) b = victim_scan bs ps (Suc i) n (Some (ps ! i))" by (simp add: rd)
    have "Suc i + n \<le> length ps" using Suc.prems by simp
    from Suc.IH [OF this, of "Some (ps ! i)"] show ?thesis
    proof (elim disjE exE conjE)
      fix j assume "Suc i \<le> j" "j < Suc i + n" "\<not> isValid (bs ! (ps ! j))"
        "victim_scan bs ps (Suc i) n (Some (ps ! i)) = Inr (Some (ps ! j))"
      then show ?thesis unfolding scan by (intro disjI1 exI [of _ j]) simp
    next
      assume all: "\<forall>j. Suc i \<le> j \<longrightarrow> j < Suc i + n \<longrightarrow> isValid (bs ! (ps ! j))"
        and end_of: "victim_scan bs ps (Suc i) n (Some (ps ! i)) = Inr (if n = 0 then Some (ps ! i) else Some (ps ! (Suc i + n - 1)))"
      have "isValid (bs ! (ps ! j))" if "i \<le> j" "j < i + Suc n" for j
        using that all True by (cases "j = i") simp_all
      with end_of show ?thesis unfolding scan by simp
    qed
  next
    case False
    with rd show ?thesis by (intro disjI1 exI [of _ i]) simp
  qed
qed simp

lemma random_scan_ends:
  assumes "\<forall>j < unat a. blk_way (bs ! (ps ! j)) = int j" "0 < unat alloc" "unat alloc \<le> unat a" "idx < unat a"
  shows "random_scan bs a alloc ps idx = Some (if idx < unat alloc then (idx, ps ! idx) else (0, ps ! 0))"
  using assms(4)
proof (induction "unat a - idx" arbitrary: idx rule: less_induct)
  case less
  have le: "alloc \<le> of_int (blk_way (bs ! (ps ! j))) \<longleftrightarrow> unat alloc \<le> j" if "j < unat a" for j
  proof -
    have "j < 2 ^ 32" using that unsigned_less [of a, where 'a = nat] by simp
    then show ?thesis using assms(1) that by (simp add: word_le_nat_alt unat_of_nat)
  qed
  show ?case
  proof (cases "idx < unat alloc")
    case True
    with le [OF less.prems] show ?thesis by (simp add: random_scan.simps [of _ _ _ _ idx])
  next
    case False
    have step: "random_scan bs a alloc ps idx = random_scan bs a alloc ps ((idx + 1) mod unat a)"
      using le [OF less.prems] False by (simp add: random_scan.simps [of _ _ _ _ idx])
    show ?thesis
    proof (cases "idx + 1 < unat a")
      case True
      with less.hyps [of "idx + 1"] False step show ?thesis by simp
    next
      case last: False
      with less.prems have "idx + 1 = unat a" by simp
      with step have "random_scan bs a alloc ps idx = random_scan bs a alloc ps 0" by simp
      with le [of 0] assms(2,3) False show ?thesis by (simp add: random_scan.simps [of _ _ _ _ 0])
    qed
  qed
qed

definition way :: "tag_store \<Rightarrow> u64 \<Rightarrow> nat \<Rightarrow> nat" where
  "way ts addr j = sets ts ! nat (extractSet (geom ts) addr) ! j"

lemma ways_set:
  assumes "ways_ok ts"
  shows "rd (sets ts) (extractSet (geom ts) addr) = Inr (sets ts ! nat (extractSet (geom ts) addr))"
    "length (sets ts ! nat (extractSet (geom ts) addr)) = unat (assoc (geom ts))"
    "\<forall>j < unat (assoc (geom ts)). blk_way (blks ts ! (sets ts ! nat (extractSet (geom ts) addr) ! j)) = int j"
proof -
  have wf: "wf_geom (geom ts)" and len: "length (sets ts) = unat (numSets (geom ts))" using assms by (simp_all add: ways_ok_def)
  have s: "0 \<le> extractSet (geom ts) addr" "extractSet (geom ts) addr < int (length (sets ts))"
    using extractSet_field(2,3) [OF wf] len by simp_all
  then show "rd (sets ts) (extractSet (geom ts) addr) = Inr (sets ts ! nat (extractSet (geom ts) addr))"
    by (simp add: rd_def in_arr_def)
  from s have "nat (extractSet (geom ts) addr) < length (sets ts)" by simp
  with assms show "length (sets ts ! nat (extractSet (geom ts) addr)) = unat (assoc (geom ts))"
    "\<forall>j < unat (assoc (geom ts)). blk_way (blks ts ! (sets ts ! nat (extractSet (geom ts) addr) ! j)) = int j"
    by (simp_all add: ways_ok_def)
qed

lemma random_findVictim:
  assumes "ways_ok ts" "idx < unat (assoc (geom ts))"
  shows "\<exists>j < unat (allocAssoc ts). RandomRepl_findVictim idx addr ts = Inr (Some (way ts addr j)) \<and>
    (\<not> isValid (blks ts ! way ts addr j) \<or>
     (\<forall>k < unat (allocAssoc ts). isValid (blks ts ! way ts addr k)) \<and> j = (if idx < unat (allocAssoc ts) then idx else 0))"
proof -
  let ?ps = "sets ts ! nat (extractSet (geom ts) addr)" and ?n = "unat (allocAssoc ts)"
  note s = ways_set [OF assms(1), of addr]
  have n: "0 < ?n" "?n \<le> unat (assoc (geom ts))" using assms(1) by (simp_all add: ways_ok_def)
  note scan = victim_scan_cases [of 0 ?n ?ps "blks ts" None]
  show ?thesis
  proof (cases "\<forall>k < ?n. isValid (blks ts ! way ts addr k)")
    case True
    with scan s(2) n have base: "BaseSetAssoc_findVictim addr ts = Inr (Some (?ps ! (?n - 1)))"
      by (auto simp: BaseSetAssoc_findVictim_def s(1) way_def)
    let ?j = "if idx < ?n then idx else 0"
    have j: "?j < ?n" using n by simp
    have lt: "(of_int (blk_way (blks ts ! (?ps ! ?j))) :: u32) < allocAssoc ts"
    proof -
      have "?j < 2 ^ 32" using j unsigned_less [of "allocAssoc ts", where 'a = nat] by simp
      then show ?thesis using s(3) j n by (simp add: word_less_nat_alt unat_of_nat)
    qed
    have "int idx < int (length ?ps)" using assms(2) s(2) by linarith
    then have "rd ?ps (int idx) = Inr (?ps ! idx)" by (simp add: rd_def in_arr_def)
    moreover have "isValid (blks ts ! (?ps ! (?n - 1)))" using True n by (simp add: way_def)
    moreover have "?j < unat (assoc (geom ts))" using j n by linarith
    ultimately have "RandomRepl_findVictim idx addr ts = Inr (Some (?ps ! ?j))"
      using random_scan_ends [OF s(3) n assms(2)] lt
      by (simp add: RandomRepl_findVictim_def base s(1) assertE_def split: if_splits)
    with j True show ?thesis by (intro exI [of _ ?j]) (simp add: way_def)
  next
    case False
    with scan s(2) n obtain j where j: "j < ?n" "\<not> isValid (blks ts ! (?ps ! j))" "BaseSetAssoc_findVictim addr ts = Inr (Some (?ps ! j))"
      by (auto simp: BaseSetAssoc_findVictim_def s(1) way_def)
    then show ?thesis by (intro exI [of _ j]) (simp add: RandomRepl_findVictim_def way_def)
  qed
qed

lemma valid_scan_overruns:
  assumes "\<forall>j < length ps. isValid (bs ! (ps ! j))" "length ps < i + n" "i \<le> length ps"
  shows "victim_scan bs ps i n b = Inl OutOfBounds"
  using assms(2,3)
proof (induction n arbitrary: i b)
  case (Suc n)
  show ?case
  proof (cases "i = length ps")
    case False
    with Suc.prems assms(1) Suc.IH [of "Suc i" "Some (ps ! i)"] show ?thesis by (simp add: rd_def in_arr_def)
  qed (simp add: rd_def in_arr_def)
qed simp

section \<open>Statements\<close>



text \<open>
  C40: a limit above the associativity is accepted, and then the search for a victim in a set whose blocks
  are all valid reads beyond the blocks of the set.
\<close>

theorem way_limit_overruns:
  assumes "random_store prm ts" "int (unat (assoc (geom ts))) < ways" "ways < 2 ^ 32"
    and "\<forall>j < unat (assoc (geom ts)). isValid (blks ts ! way ts addr j)"
  shows "\<exists>ts'. setWayAllocationMax ways ts = Inr ts' \<and> RandomRepl_findVictim idx addr ts' = Inl OutOfBounds"
proof -
  note s = ways_set [OF random_store_ways [OF assms(1)], of addr]
  have w: "\<not> ways < 1" using assms(2) by linarith
  have "unat (of_int ways :: u32) = nat ways"
    using assms(3) w by (simp add: unat_eq_nat_uint uint_word_of_int_eq take_bit_int_eq_self)
  moreover have "unat (assoc (geom ts)) < nat ways" using assms(2) by linarith
  ultimately have "victim_scan (blks ts) (sets ts ! nat (extractSet (geom ts) addr)) 0 (unat (of_int ways :: u32)) None = Inl OutOfBounds"
    using assms(4) s(2) by (intro valid_scan_overruns) (simp_all add: way_def)
  then show ?thesis using w s(1)
    by (simp add: setWayAllocationMax_def RandomRepl_findVictim_def BaseSetAssoc_findVictim_def)
qed

definition demo_full :: tag_store where
  "demo_full = upd_blk (way demo_tags 0 1) (\<lambda>b. b\<lparr>blk_status := BlkValid\<rparr>)
     (upd_blk (way demo_tags 0 0) (\<lambda>b. b\<lparr>blk_status := BlkValid\<rparr>) demo_tags)"

theorem way_limit_overruns_witness:
  "\<exists>ts'. setWayAllocationMax 3 demo_full = Inr ts' \<and> RandomRepl_findVictim 0 0 ts' = Inl OutOfBounds"
proof -
  have r: "random_store demo_params demo_full" unfolding demo_full_def
    by (intro random_store.Change random_store.Start [OF demo_tags(1)]) simp_all
  note ok = constructor_inv(1) [OF demo_tags(1)]
  have same: "geom demo_full = demo_geom" "way demo_full 0 j = way demo_tags 0 j" for j
    by (simp_all add: demo_full_def way_def upd_blk_def demo_tags(2))
  have "way demo_tags 0 j < length (blks demo_tags)" if "j < 2" for j
  proof -
    have "extractSet demo_geom 0 = 0" by (simp add: demo_geom_def extractSet_def int_of_u64_def)
    moreover have "set_ok demo_tags 0" "length (sets demo_tags) = 4" using tags_invD(4,5) [OF ok] by (simp_all add: demo_tags(2) demo_geom_def)
    moreover from this have "length (sets demo_tags ! 0) = 2" using set_okD(2) by (simp add: demo_tags(2) demo_geom_def)
    ultimately show ?thesis using that set_okD(3) [of demo_tags 0 "sets demo_tags ! 0 ! j"] by (simp add: way_def demo_tags(2))
  qed
  then have "way demo_tags 0 0 < length (blks demo_tags)" "way demo_tags 0 1 < length (blks demo_tags)" by simp_all
  moreover have "isValid (b\<lparr>blk_status := BlkValid\<rparr>)" for b :: cache_blk by (simp add: isValid_def BlkValid_def)
  ultimately have "isValid (blks demo_full ! way demo_full 0 0)" "isValid (blks demo_full ! way demo_full 0 1)"
    unfolding same by (simp_all add: demo_full_def upd_blk_def nth_list_update)
  then have "isValid (blks demo_full ! way demo_full 0 j)" if "j < 2" for j
    using that by (cases "j = 0") (simp_all add: less_2_cases_iff)
  with way_limit_overruns [OF r, of 3 0] same(1) show ?thesis by (simp add: demo_geom_def)
qed

end
