(* ===== verification/Exclusive_Monitor.thy ===== *)
theory Exclusive_Monitor
  imports Cache_Block
begin

text \<open>
  What a monitor of load-linked and store-conditional accesses promises, as a locale, and the traces
  of accesses over it. The reservations of a cache block (\<open>mem/cache/blk.hh\<close>) are the first instance.
\<close>

section \<open>Traces of accesses\<close>

datatype mon_event =
    LoadLinked (ev_req: request)
  | StoreCond (ev_req: request)
  | Store (ev_req: request)

text \<open>The outcome of an access is whether it wrote.\<close>

fun run_monitor ::
  "(request \<Rightarrow> 'm \<Rightarrow> 'm res) \<Rightarrow> (bool \<Rightarrow> request \<Rightarrow> 'm \<Rightarrow> (bool \<times> 'm) res) \<Rightarrow>
   mon_event list \<Rightarrow> 'm \<Rightarrow> (bool list \<times> 'm) res" where
  "run_monitor ll st [] m = Inr ([], m)"
| "run_monitor ll st (e # es) m =
     bindE (case e of
         LoadLinked r \<Rightarrow> bindE (ll r m) (\<lambda>m. Inr (False, m))
       | StoreCond r \<Rightarrow> st True r m
       | Store r \<Rightarrow> st False r m) (\<lambda>(w, m).
     bindE (run_monitor ll st es m) (\<lambda>(ws, m). Inr (w # ws, m)))"

text \<open>The access is a write of another context to a byte of \<open>a\<close>.\<close>

definition disturbs :: "request \<Rightarrow> mon_event \<times> bool \<Rightarrow> bool" where
  "disturbs a ew \<longleftrightarrow> snd ew \<and> rctx (ev_req (fst ew)) \<noteq> rctx a \<and> overlap (ev_req (fst ew)) a"

text \<open>
  The access \<open>a\<close> is licensed by a trace when its context has load-linked it and no other context has
  written to it since.
\<close>

definition licensed :: "(request \<Rightarrow> request \<Rightarrow> bool) \<Rightarrow> request \<Rightarrow> (mon_event \<times> bool) list \<Rightarrow> bool" where
  "licensed linked a tr \<longleftrightarrow> (\<exists>pre b w post. tr = pre @ (LoadLinked b, w) # post \<and> rctx b = rctx a \<and>
     linked b a \<and> (\<forall>ew\<in>set post. \<not> disturbs a ew))"

lemma licensed_Cons: "licensed linked a tr \<Longrightarrow> licensed linked a (ew # tr)"
  unfolding licensed_def by (metis append_Cons)

lemma licensed_now:
  "rctx b = rctx a \<Longrightarrow> linked b a \<Longrightarrow> \<forall>ew\<in>set tr. \<not> disturbs a ew \<Longrightarrow> licensed linked a ((LoadLinked b, w) # tr)"
  unfolding licensed_def by (metis append_Nil)

lemma run_monitor_append:
  "run_monitor ll st (es @ fs) m =
     bindE (run_monitor ll st es m) (\<lambda>(ws, m). bindE (run_monitor ll st fs m) (\<lambda>(us, m). Inr (ws @ us, m)))"
proof (induction es arbitrary: m)
  case Nil
  then show ?case by (cases "run_monitor ll st fs m") auto
next
  case (Cons e es)
  show ?case
    by (auto simp: Cons bindE_def split: sum.splits prod.splits)
qed

lemma run_monitor_length: "run_monitor ll st es m = Inr (ws, m') \<Longrightarrow> length ws = length es"
  by (induction es arbitrary: m ws) (auto simp: bindE_Inr_iff)

section \<open>The contract\<close>

locale exclusive_monitor =
  fixes ok :: "request \<Rightarrow> bool"
    and ll :: "request \<Rightarrow> 'm \<Rightarrow> 'm res"
    and st :: "bool \<Rightarrow> request \<Rightarrow> 'm \<Rightarrow> (bool \<times> 'm) res"
    and resv :: "'m \<Rightarrow> request \<Rightarrow> bool"
    and linked :: "request \<Rightarrow> request \<Rightarrow> bool"
  assumes ll_resv: "\<lbrakk>ok a; ok b; ll b m = Inr m'; resv m' a\<rbrakk> \<Longrightarrow> resv m a \<or> rctx b = rctx a \<and> linked b a"
    and st_result: "\<lbrakk>ok b; st sc b m = Inr (w, m')\<rbrakk> \<Longrightarrow> w \<longleftrightarrow> (sc \<longrightarrow> resv m b)"
    and st_resv: "\<lbrakk>ok a; ok b; st sc b m = Inr (w, m'); resv m' a\<rbrakk> \<Longrightarrow>
      resv m a \<and> (w \<longrightarrow> rctx b \<noteq> rctx a \<longrightarrow> \<not> overlap b a)"
begin

lemma resv_licensed:
  assumes "run_monitor ll st es m = Inr (ws, m')" "resv m' a" "ok a" "\<forall>e\<in>set es. ok (ev_req e)"
  shows "resv m a \<and> (\<forall>ew\<in>set (zip es ws). \<not> disturbs a ew) \<or> licensed linked a (zip es ws)"
  using assms
proof (induction es arbitrary: m ws)
  case (Cons e es)
  from Cons.prems(1) obtain w m1 us where
    step: "(case e of LoadLinked r \<Rightarrow> bindE (ll r m) (\<lambda>m. Inr (False, m))
       | StoreCond r \<Rightarrow> st True r m | Store r \<Rightarrow> st False r m) = Inr (w, m1)"
    and run: "run_monitor ll st es m1 = Inr (us, m')" and ws: "ws = w # us"
    by (auto simp: bindE_Inr_iff)
  have "resv m1 a \<and> (\<forall>ew\<in>set (zip es us). \<not> disturbs a ew) \<or> licensed linked a (zip es us)"
    by (rule Cons.IH [OF run Cons.prems(2,3)]) (use Cons.prems(4) in simp)
  then show ?case
  proof
    assume "licensed linked a (zip es us)"
    with licensed_Cons show ?thesis by (simp add: ws)
  next
    assume rest: "resv m1 a \<and> (\<forall>ew\<in>set (zip es us). \<not> disturbs a ew)"
    have ok: "ok (ev_req e)" using Cons.prems(4) by simp
    have "resv m a \<and> \<not> disturbs a (e, w) \<or> (\<exists>b. e = LoadLinked b \<and> rctx b = rctx a \<and> linked b a)"
    proof (cases e)
      case (LoadLinked b)
      with step have "ll b m = Inr m1" "\<not> w" by (auto simp: bindE_Inr_iff)
      with ll_resv [OF Cons.prems(3), of b m m1] rest ok LoadLinked show ?thesis
        by (auto simp: disturbs_def)
    next
      case (StoreCond b)
      with step st_resv [OF Cons.prems(3), of b True m w m1] rest ok show ?thesis
        by (auto simp: disturbs_def)
    next
      case (Store b)
      with step st_resv [OF Cons.prems(3), of b False m w m1] rest ok show ?thesis
        by (auto simp: disturbs_def)
    qed
    with rest licensed_now show ?thesis by (auto simp: ws)
  qed
qed simp

lemma store_cond_licensed:
  assumes "run_monitor ll st (es @ [StoreCond a]) m = Inr (ws @ [True], m')" "\<not> resv m a"
    "ok a" "\<forall>e\<in>set es. ok (ev_req e)"
  shows "licensed linked a (zip es ws)"
proof -
  obtain m1 where run: "run_monitor ll st es m = Inr (ws, m1)" and last: "st True a m1 = Inr (True, m')"
    using assms(1) by (auto simp: run_monitor_append bindE_Inr_iff split: prod.splits)
  have "resv m1 a" using st_result [OF assms(3) last] by simp
  with resv_licensed [OF run _ assms(3,4)] assms(2) show ?thesis by simp
qed

end

text \<open>
  A monitor that also lets a store conditional through when nothing has come near its address since
  the load: \<open>held\<close> is the record a load leaves and \<open>far\<close> the accesses that keep it.
\<close>

locale live_monitor = exclusive_monitor ok ll st resv linked
  for ok :: "request \<Rightarrow> bool"
    and ll :: "request \<Rightarrow> 'm \<Rightarrow> 'm res"
    and st :: "bool \<Rightarrow> request \<Rightarrow> 'm \<Rightarrow> (bool \<times> 'm) res"
    and resv :: "'m \<Rightarrow> request \<Rightarrow> bool"
    and linked :: "request \<Rightarrow> request \<Rightarrow> bool" +
  fixes held :: "'m \<Rightarrow> request \<Rightarrow> bool"
    and far :: "request \<Rightarrow> mon_event \<Rightarrow> bool"
  assumes ll_total: "ok b \<Longrightarrow> \<exists>m'. ll b m = Inr m' \<and> held m' b"
    and st_total: "ok b \<Longrightarrow> \<exists>w m'. st sc b m = Inr (w, m')"
    and held_resv: "\<lbrakk>ok a; held m a\<rbrakk> \<Longrightarrow> resv m a"
    and held_ll: "\<lbrakk>ok a; ok b; ll b m = Inr m'; held m a; far a (LoadLinked b)\<rbrakk> \<Longrightarrow> held m' a"
    and held_sc: "\<lbrakk>ok a; ok b; st True b m = Inr (w, m'); held m a; far a (StoreCond b)\<rbrakk> \<Longrightarrow> held m' a"
    and held_st: "\<lbrakk>ok a; ok b; st False b m = Inr (w, m'); held m a; far a (Store b)\<rbrakk> \<Longrightarrow> held m' a"
begin

lemma run_total:
  "\<forall>e\<in>set es. ok (ev_req e) \<Longrightarrow> \<exists>ws m'. run_monitor ll st es m = Inr (ws, m')"
proof (induction es arbitrary: m)
  case (Cons e es)
  then have "ok (ev_req e)" by simp
  then have "\<exists>w m1. (case e of LoadLinked r \<Rightarrow> bindE (ll r m) (\<lambda>m. Inr (False, m))
       | StoreCond r \<Rightarrow> st True r m | Store r \<Rightarrow> st False r m) = Inr (w, m1)"
    using ll_total [of "ev_req e" m] st_total [of "ev_req e" _ m] by (cases e) auto
  then obtain w m1 where "(case e of LoadLinked r \<Rightarrow> bindE (ll r m) (\<lambda>m. Inr (False, m))
       | StoreCond r \<Rightarrow> st True r m | Store r \<Rightarrow> st False r m) = Inr (w, m1)" by blast
  moreover obtain ws m' where "run_monitor ll st es m1 = Inr (ws, m')" using Cons by fastforce
  ultimately show ?case by simp
qed simp

lemma held_run:
  assumes "run_monitor ll st es m = Inr (ws, m')" "held m a" "ok a" "\<forall>e\<in>set es. ok (ev_req e) \<and> far a e"
  shows "held m' a"
  using assms
proof (induction es arbitrary: m ws)
  case (Cons e es)
  from Cons.prems(1) obtain w m1 us where
    step: "(case e of LoadLinked r \<Rightarrow> bindE (ll r m) (\<lambda>m. Inr (False, m))
       | StoreCond r \<Rightarrow> st True r m | Store r \<Rightarrow> st False r m) = Inr (w, m1)"
    and run: "run_monitor ll st es m1 = Inr (us, m')"
    by (auto simp: bindE_Inr_iff)
  have far: "ok (ev_req e)" "far a e" using Cons.prems(4) by simp_all
  have "held m1 a"
    using step far Cons.prems(2) held_ll [OF Cons.prems(3)] held_sc [OF Cons.prems(3)]
      held_st [OF Cons.prems(3)]
    by (cases e) (auto simp: bindE_Inr_iff)
  then show ?case by (rule Cons.IH [OF run _ Cons.prems(3)]) (use Cons.prems(4) in simp)
qed simp

lemma store_cond_succeeds:
  assumes "ok a" "\<forall>e\<in>set es. ok (ev_req e) \<and> far a e"
  shows "\<exists>ws m'. run_monitor ll st (LoadLinked a # es @ [StoreCond a]) m = Inr (ws @ [True], m')"
proof -
  obtain m1 where ll: "ll a m = Inr m1" "held m1 a" using ll_total [OF assms(1)] by blast
  obtain ws m2 where run: "run_monitor ll st es m1 = Inr (ws, m2)" using run_total assms(2) by blast
  then have "resv m2 a" using held_resv held_run ll(2) assms by blast
  moreover obtain w m' where st: "st True a m2 = Inr (w, m')" using st_total [OF assms(1)] by blast
  ultimately have "w" using st_result [OF assms(1) st] by simp
  with ll run st have "run_monitor ll st (LoadLinked a # es @ [StoreCond a]) m = Inr ((False # ws) @ [True], m')"
    by (simp add: run_monitor_append)
  then show ?thesis by blast
qed

end

section \<open>The reservations of a cache block\<close>

definition blk_ll :: "request \<Rightarrow> cache_blk \<Rightarrow> cache_blk res" where
  "blk_ll r = trackLoadLocked \<lparr>pkt_req = r, pkt_addr = the (req_paddr r), pkt_isLLSC = True, pkt_isWrite = False\<rparr>"

definition blk_st :: "bool \<Rightarrow> request \<Rightarrow> cache_blk \<Rightarrow> (bool \<times> cache_blk) res" where
  "blk_st sc r b =
     bindE (checkWrite \<lparr>pkt_req = r, pkt_addr = the (req_paddr r), pkt_isLLSC = sc, pkt_isWrite = True\<rparr> b)
       (\<lambda>(w, _, b). Inr (w, b))"

definition blk_resv :: "cache_blk \<Rightarrow> request \<Rightarrow> bool" where
  "blk_resv b r \<longleftrightarrow> (\<exists>l\<in>set (blk_lockList b). lock_covers l r)"

text \<open>The bytes of the access are among the bytes that were load-linked.\<close>

definition within :: "request \<Rightarrow> request \<Rightarrow> bool" where
  "within b a \<longleftrightarrow> rlow b \<le> rlow a \<and> rend a \<le> rend b"

definition blk_held :: "cache_blk \<Rightarrow> request \<Rightarrow> bool" where
  "blk_held b a \<longleftrightarrow> lock_of a \<in> set (blk_lockList b)"

definition blk_far :: "request \<Rightarrow> mon_event \<Rightarrow> bool" where
  "blk_far a e \<longleftrightarrow> \<not> overlap (ev_req e) a \<or> (\<exists>r. e = Store r \<and> rctx r = rctx a)"

lemma blk_ll_eq:
  "in_range r \<Longrightarrow> blk_ll r b = Inr (b\<lparr>blk_lockList := lock_of r # filter (\<lambda>l. \<not> lock_hits l r) (blk_lockList b)\<rparr>)"
  by (simp add: blk_ll_def trackLoadLocked_def erase_intersecting_filter lock_in_range)

lemma blk_store_eq:
  "in_range r \<Longrightarrow> blk_st False r b =
     Inr (True, b\<lparr>blk_lockList := filter (\<lambda>l. \<not> (lock_hits l r \<and> lock_contextId l \<noteq> rctx r)) (blk_lockList b)\<rparr>)"
  by (simp add: blk_st_def checkWrite_def clearLoadLocks_def clear_locks_filter)

lemma blk_sc_eq:
  assumes "in_range r"
  shows "\<exists>ls. blk_st True r b = Inr (blk_resv b r, b\<lparr>blk_lockList :=
      filter (\<lambda>l. \<not> (lock_hits l r \<and> lock_contextId l \<noteq> rctx r)) ls\<rparr>) \<and>
    set ls \<subseteq> set (blk_lockList b) \<and> (\<forall>l\<in>set (blk_lockList b). \<not> lock_covers l r \<longrightarrow> l \<in> set ls)"
proof -
  have "\<exists>ls'. take_match r ls = Inr (\<exists>l\<in>set ls. lock_covers l r, ls') \<and> set ls' \<subseteq> set ls \<and>
      (\<forall>l\<in>set ls. \<not> lock_covers l r \<longrightarrow> l \<in> set ls')" for ls
    by (induction ls) (auto simp: lock_in_range assms)
  then obtain ls where "take_match r (blk_lockList b) = Inr (blk_resv b r, ls)"
    "set ls \<subseteq> set (blk_lockList b)" "\<forall>l\<in>set (blk_lockList b). \<not> lock_covers l r \<longrightarrow> l \<in> set ls"
    unfolding blk_resv_def by blast
  then show ?thesis
    by (intro exI [of _ ls])
      (simp add: blk_st_def checkWrite_def clearLoadLocks_def clear_locks_filter assms Let_def)
qed

lemma blk_st_locks:
  assumes "in_range r" "blk_st sc r b = Inr (w, b')" "l \<in> set (blk_lockList b')"
  shows "l \<in> set (blk_lockList b)" "\<not> lock_hits l r \<or> lock_contextId l = rctx r"
proof -
  have "l \<in> set (blk_lockList b) \<and> (\<not> lock_hits l r \<or> lock_contextId l = rctx r)"
    using assms blk_sc_eq [of r b] by (cases sc) (auto simp: blk_store_eq)
  then show "l \<in> set (blk_lockList b)" "\<not> lock_hits l r \<or> lock_contextId l = rctx r" by blast+
qed

lemma covers_hits: "lock_covers l a \<Longrightarrow> overlap r a \<Longrightarrow> lock_hits l r"
  by (auto simp: lock_covers_def lock_hits_def overlap_def)

lemma lock_of_covers: "in_range b \<Longrightarrow> lock_covers (lock_of b) a \<longleftrightarrow> rctx b = rctx a \<and> within b a"
  by (auto simp: lock_covers_def lock_of_range within_def)

lemma lock_of_hits: "in_range a \<Longrightarrow> lock_hits (lock_of a) r \<longleftrightarrow> overlap r a"
  by (auto simp: lock_hits_def lock_of_range overlap_def less_Suc_eq_le [symmetric])

lemma within_overlap: "in_range b \<Longrightarrow> within a b \<Longrightarrow> overlap b a"
  by (auto simp: within_def overlap_def in_range_def)

interpretation blk: live_monitor in_range blk_ll blk_st blk_resv within blk_held blk_far
proof unfold_locales
  fix a b :: request and m m' :: cache_blk
  assume "in_range a" "in_range b" "blk_ll b m = Inr m'" "blk_resv m' a"
  then show "blk_resv m a \<or> rctx b = rctx a \<and> within b a"
    by (auto simp: blk_ll_eq blk_resv_def lock_of_covers)
next
  fix b :: request and sc w and m m' :: cache_blk
  assume "in_range b" "blk_st sc b m = Inr (w, m')"
  then show "w \<longleftrightarrow> (sc \<longrightarrow> blk_resv m b)"
    using blk_sc_eq [of b m] by (cases sc) (auto simp: blk_store_eq)
next
  fix a b :: request and sc w and m m' :: cache_blk
  assume *: "in_range a" "in_range b" "blk_st sc b m = Inr (w, m')" "blk_resv m' a"
  obtain l where l': "l \<in> set (blk_lockList m')" and l: "lock_covers l a"
    using *(4) by (auto simp: blk_resv_def)
  note kept = blk_st_locks [OF *(2,3) l']
  moreover from l have "lock_contextId l = rctx a" by (simp add: lock_covers_def)
  ultimately show "blk_resv m a \<and> (w \<longrightarrow> rctx b \<noteq> rctx a \<longrightarrow> \<not> overlap b a)"
    using l covers_hits [OF l, of b] by (auto simp: blk_resv_def)
next
  fix b :: request and m :: cache_blk
  assume "in_range b"
  then show "\<exists>m'. blk_ll b m = Inr m' \<and> blk_held m' b" by (simp add: blk_ll_eq blk_held_def)
next
  fix b :: request and sc and m :: cache_blk
  assume "in_range b"
  then show "\<exists>w m'. blk_st sc b m = Inr (w, m')"
    using blk_sc_eq [of b m] by (cases sc) (auto simp: blk_store_eq)
next
  fix a :: request and m :: cache_blk
  assume "in_range a" "blk_held m a"
  then show "blk_resv m a" by (auto simp: blk_held_def blk_resv_def lock_of_covers within_def intro!: bexI [of _ "lock_of a"])
next
  fix a b :: request and m m' :: cache_blk
  assume "in_range a" "in_range b" "blk_ll b m = Inr m'" "blk_held m a" "blk_far a (LoadLinked b)"
  then show "blk_held m' a" by (auto simp: blk_ll_eq blk_held_def blk_far_def lock_of_hits)
next
  fix a b :: request and w and m m' :: cache_blk
  assume *: "in_range a" "in_range b" "blk_st True b m = Inr (w, m')" "blk_held m a" "blk_far a (StoreCond b)"
  then have far: "\<not> overlap b a" by (simp add: blk_far_def)
  with * have "\<not> lock_covers (lock_of a) b" using within_overlap by (auto simp: lock_of_covers)
  with * far show "blk_held m' a"
    using blk_sc_eq [of b m] by (auto simp: blk_held_def lock_of_hits)
next
  fix a b :: request and w and m m' :: cache_blk
  assume "in_range a" "in_range b" "blk_st False b m = Inr (w, m')" "blk_held m a" "blk_far a (Store b)"
  then show "blk_held m' a"
    by (auto simp: blk_store_eq blk_held_def blk_far_def lock_of_hits lock_of_range)
qed

end
