(* ===== verification/Memory_Locks.thy ===== *)
theory Memory_Locks
  imports Exclusive_Monitor
begin

text \<open>
  The reservations a memory without caches keeps (\<open>LockedAddr\<close> and \<open>AbstractMemory\<close> in
  \<open>mem/abstract_mem.hh\<close> and \<open>mem/abstract_mem.cc\<close>), the second instance of the monitor contract, and the
  guarantees of both monitors. Locked addresses have a granularity of 16 bytes.
\<close>

section \<open>Locked addresses\<close>

record locked_addr =
  la_addr :: u64
  la_contextId :: int

definition LockedAddr_mask :: "u64 \<Rightarrow> u64" where
  "LockedAddr_mask paddr = paddr AND NOT 0xf"

definition matchesContext :: "locked_addr \<Rightarrow> request \<Rightarrow> bool res" where
  "matchesContext l r = bindE (contextId r) (\<lambda>c. Inr (la_contextId l = c))"

definition LockedAddr_new :: "request \<Rightarrow> locked_addr res" where
  "LockedAddr_new r =
     bindE (getPaddr r) (\<lambda>p. bindE (contextId r) (\<lambda>c.
     Inr \<lparr>la_addr = LockedAddr_mask p, la_contextId = c\<rparr>))"

text \<open>The loop that moves the record the context has already, if any.\<close>

fun move_record :: "request \<Rightarrow> u64 \<Rightarrow> locked_addr list \<Rightarrow> (bool \<times> locked_addr list) res" where
  "move_record r paddr [] = Inr (False, [])"
| "move_record r paddr (l # ls) =
     bindE (matchesContext l r) (\<lambda>hit.
     if hit then Inr (True, l\<lparr>la_addr := paddr\<rparr> # ls)
     else bindE (move_record r paddr ls) (\<lambda>(found, ls'). Inr (found, l # ls')))"

definition AbstractMemory_trackLoadLocked :: "packet \<Rightarrow> locked_addr list \<Rightarrow> locked_addr list res" where
  "AbstractMemory_trackLoadLocked pkt ls =
     bindE (getPaddr (pkt_req pkt)) (\<lambda>p.
     bindE (move_record (pkt_req pkt) (LockedAddr_mask p) ls) (\<lambda>(found, ls).
     if found then Inr ls
     else bindE (LockedAddr_new (pkt_req pkt)) (\<lambda>l. Inr (l # ls))))"

fun find_record :: "request \<Rightarrow> u64 \<Rightarrow> locked_addr list \<Rightarrow> bool res" where
  "find_record r paddr [] = Inr False"
| "find_record r paddr (l # ls) =
     bindE (if la_addr l = paddr then matchesContext l r else Inr False) (\<lambda>hit.
     if hit then Inr True else find_record r paddr ls)"

text \<open>Erasing the records of an address; the contexts they belong to are woken.\<close>

fun erase_records :: "u64 \<Rightarrow> locked_addr list \<Rightarrow> int list \<times> locked_addr list" where
  "erase_records paddr [] = ([], [])"
| "erase_records paddr (l # ls) =
     (let (woken, ls') = erase_records paddr ls in
      if la_addr l = paddr then (la_contextId l # woken, ls') else (woken, l # ls'))"

definition checkLockedAddrList ::
  "packet \<Rightarrow> locked_addr list \<Rightarrow> (bool \<times> packet \<times> int list \<times> locked_addr list) res" where
  "checkLockedAddrList pkt ls =
     bindE (getPaddr (pkt_req pkt)) (\<lambda>p.
     let paddr = LockedAddr_mask p in
     bindE (if pkt_isLLSC pkt
       then bindE (find_record (pkt_req pkt) paddr ls) (\<lambda>found.
         Inr (found, pkt\<lparr>pkt_req := setExtraData (if found then 1 else 0) (pkt_req pkt)\<rparr>))
       else Inr (True, pkt)) (\<lambda>(allowStore, pkt).
     let (woken, ls') = if allowStore then erase_records paddr ls else ([], ls) in
     Inr (allowStore, pkt, woken, ls')))"

definition writeOK :: "packet \<Rightarrow> locked_addr list \<Rightarrow> (bool \<times> packet \<times> int list \<times> locked_addr list) res" where
  "writeOK pkt ls =
     (if ls = []
      then Inr (\<not> pkt_isLLSC pkt,
        if pkt_isLLSC pkt then pkt\<lparr>pkt_req := setExtraData 0 (pkt_req pkt)\<rparr> else pkt, [], ls)
      else checkLockedAddrList pkt ls)"

section \<open>The memory as a monitor\<close>

definition mem_ll :: "request \<Rightarrow> locked_addr list \<Rightarrow> locked_addr list res" where
  "mem_ll r = AbstractMemory_trackLoadLocked
     \<lparr>pkt_req = r, pkt_addr = the (req_paddr r), pkt_isLLSC = True, pkt_isWrite = False\<rparr>"

definition mem_st :: "bool \<Rightarrow> request \<Rightarrow> locked_addr list \<Rightarrow> (bool \<times> locked_addr list) res" where
  "mem_st sc r ls =
     bindE (writeOK \<lparr>pkt_req = r, pkt_addr = the (req_paddr r), pkt_isLLSC = sc, pkt_isWrite = True\<rparr> ls)
       (\<lambda>(w, _, _, ls). Inr (w, ls))"

definition granule :: "request \<Rightarrow> u64" where
  "granule r = LockedAddr_mask (the (req_paddr r))"

definition record_of :: "request \<Rightarrow> locked_addr" where
  "record_of r = \<lparr>la_addr = granule r, la_contextId = rctx r\<rparr>"

definition mem_resv :: "locked_addr list \<Rightarrow> request \<Rightarrow> bool" where
  "mem_resv ls r \<longleftrightarrow> record_of r \<in> set ls"

definition same_granule :: "request \<Rightarrow> request \<Rightarrow> bool" where
  "same_granule b a \<longleftrightarrow> granule b = granule a"

text \<open>All bytes of the request are in one granule.\<close>

definition in_granule :: "request \<Rightarrow> bool" where
  "in_granule r \<longleftrightarrow> in_range r \<and> rlow r div 16 = (rend r - 1) div 16"

definition mem_far :: "request \<Rightarrow> mon_event \<Rightarrow> bool" where
  "mem_far a e \<longleftrightarrow>
     (case e of LoadLinked r \<Rightarrow> rctx r \<noteq> rctx a \<or> same_granule r a | _ \<Rightarrow> \<not> same_granule (ev_req e) a)"

lemma unat_granule: "unat (granule r) = 16 * (rlow r div 16)"
proof -
  have "LockedAddr_mask p = push_bit 4 (drop_bit 4 p)" for p :: u64
  proof -
    have f: "(0xf :: u64) = mask 4" by (simp add: mask_eq_exp_minus_1)
    show ?thesis
      unfolding LockedAddr_mask_def f by (rule bit_word_eqI) (auto simp: bit_simps)
  qed
  then have "granule r = push_bit 4 (drop_bit 4 (the (req_paddr r)))" by (simp add: granule_def)
  moreover have "unat (drop_bit 4 p) * 16 < 2 ^ 64" for p :: u64
    using unsigned_less [of p, where 'a = nat] by (simp add: unat_drop_bit)
  ultimately show ?thesis
    by (simp add: push_bit_eq_mult unat_word_ariths unat_drop_bit rlow_def mult.commute)
qed

lemma same_granule_iff: "same_granule b a \<longleftrightarrow> rlow b div 16 = rlow a div 16"
proof -
  have "granule b = granule a \<longleftrightarrow> unat (granule b) = unat (granule a)" by (simp add: unsigned_word_eqI word_unat_eq_iff)
  then show ?thesis by (simp add: same_granule_def unat_granule)
qed

lemma overlap_granule:
  assumes "in_granule a" "in_granule b" "overlap b a"
  shows "same_granule b a"
proof -
  have "rlow b \<le> rend a - 1" "rlow a \<le> rend b - 1"
    using assms by (auto simp: overlap_def)
  then have "rlow b div 16 \<le> (rend a - 1) div 16" "rlow a div 16 \<le> (rend b - 1) div 16"
    by (auto intro: div_le_mono)
  with assms show ?thesis by (simp add: in_granule_def same_granule_iff)
qed

lemma mem_in_range:
  assumes "in_range r"
  shows "getPaddr r = Inr (the (req_paddr r))" "contextId r = Inr (rctx r)"
    "matchesContext l r = Inr (la_contextId l = rctx r)" "LockedAddr_new r = Inr (record_of r)"
  using lock_in_range(4) [OF assms] assms
  by (auto simp: in_range_def getPaddr_def valid_flag_def matchesContext_def LockedAddr_new_def
      record_of_def granule_def)

lemma move_record_sets:
  assumes "in_range r"
  shows "\<exists>ls'. move_record r (granule r) ls = Inr (\<exists>l\<in>set ls. la_contextId l = rctx r, ls') \<and>
    set ls' \<subseteq> insert (record_of r) (set ls) \<and> (\<forall>l\<in>set ls. la_contextId l \<noteq> rctx r \<or> l = record_of r \<longrightarrow> l \<in> set ls') \<and>
    ((\<exists>l\<in>set ls. la_contextId l = rctx r) \<longrightarrow> record_of r \<in> set ls')"
proof (induction ls)
  case (Cons l ls)
  then show ?case by (cases l) (auto simp: mem_in_range assms record_of_def)
qed simp

lemma mem_ll_sets:
  assumes "in_range r"
  shows "\<exists>ls'. mem_ll r ls = Inr ls' \<and> record_of r \<in> set ls' \<and> set ls' \<subseteq> insert (record_of r) (set ls) \<and>
    (\<forall>l\<in>set ls. la_contextId l \<noteq> rctx r \<or> l = record_of r \<longrightarrow> l \<in> set ls')"
proof -
  obtain ls' where "move_record r (granule r) ls = Inr (\<exists>l\<in>set ls. la_contextId l = rctx r, ls')"
    "set ls' \<subseteq> insert (record_of r) (set ls)" "\<forall>l\<in>set ls. la_contextId l \<noteq> rctx r \<or> l = record_of r \<longrightarrow> l \<in> set ls'"
    "(\<exists>l\<in>set ls. la_contextId l = rctx r) \<longrightarrow> record_of r \<in> set ls'"
    using move_record_sets [OF assms] by blast
  then show ?thesis
    by (auto simp: mem_ll_def AbstractMemory_trackLoadLocked_def mem_in_range assms granule_def)
qed

lemma find_record_iff: "in_range r \<Longrightarrow> find_record r (granule r) ls = Inr (mem_resv ls r)"
proof (induction ls)
  case (Cons l ls)
  then show ?case by (cases l) (auto simp: mem_in_range mem_resv_def record_of_def)
qed (simp add: mem_resv_def)

lemma erase_records_eq:
  "erase_records p ls = (map la_contextId (filter (\<lambda>l. la_addr l = p) ls), filter (\<lambda>l. la_addr l \<noteq> p) ls)"
  by (induction ls) auto

lemma mem_st_eq:
  assumes "in_range r"
  shows "mem_st sc r ls = Inr (let w = (sc \<longrightarrow> mem_resv ls r)
    in (w, if w then filter (\<lambda>l. la_addr l \<noteq> granule r) ls else ls))"
proof (cases "ls = []")
  case True
  then show ?thesis by (simp add: mem_st_def writeOK_def mem_resv_def Let_def)
next
  case False
  then show ?thesis
    by (cases sc) (simp_all add: mem_st_def writeOK_def checkLockedAddrList_def mem_in_range assms Let_def
        find_record_iff [OF assms, unfolded granule_def] erase_records_eq granule_def)
qed

interpretation mem: live_monitor in_granule mem_ll mem_st mem_resv same_granule mem_resv mem_far
proof unfold_locales
  fix a b :: request and m m' :: "locked_addr list"
  assume *: "in_granule a" "in_granule b" "mem_ll b m = Inr m'" "mem_resv m' a"
  then show "mem_resv m a \<or> rctx b = rctx a \<and> same_granule b a"
    using mem_ll_sets [of b m] by (auto simp: in_granule_def mem_resv_def record_of_def same_granule_def)
next
  fix b :: request and sc w and m m' :: "locked_addr list"
  assume "in_granule b" "mem_st sc b m = Inr (w, m')"
  then show "w \<longleftrightarrow> (sc \<longrightarrow> mem_resv m b)"
    by (auto simp: in_granule_def mem_st_eq Let_def)
next
  fix a b :: request and sc w and m m' :: "locked_addr list"
  assume *: "in_granule a" "in_granule b" "mem_st sc b m = Inr (w, m')" "mem_resv m' a"
  then have "mem_resv m a \<and> (w \<longrightarrow> \<not> same_granule b a)"
    by (auto simp: in_granule_def mem_st_eq Let_def mem_resv_def record_of_def same_granule_def split: if_splits)
  with overlap_granule [OF *(1,2)] show "mem_resv m a \<and> (w \<longrightarrow> rctx b \<noteq> rctx a \<longrightarrow> \<not> overlap b a)" by blast
next
  fix b :: request and m :: "locked_addr list"
  assume "in_granule b"
  then show "\<exists>m'. mem_ll b m = Inr m' \<and> mem_resv m' b"
    using mem_ll_sets [of b m] by (auto simp: in_granule_def mem_resv_def)
next
  fix b :: request and sc and m :: "locked_addr list"
  assume "in_granule b"
  then show "\<exists>w m'. mem_st sc b m = Inr (w, m')" by (simp add: in_granule_def mem_st_eq Let_def)
next
  fix a b :: request and m m' :: "locked_addr list"
  assume "in_granule a" "in_granule b" "mem_ll b m = Inr m'" "mem_resv m a" "mem_far a (LoadLinked b)"
  then show "mem_resv m' a"
    using mem_ll_sets [of b m]
    by (auto simp: in_granule_def mem_resv_def mem_far_def record_of_def same_granule_def)
next
  fix a b :: request and w and m m' :: "locked_addr list"
  assume "in_granule a" "in_granule b" "mem_st True b m = Inr (w, m')" "mem_resv m a" "mem_far a (StoreCond b)"
  then show "mem_resv m' a"
    by (auto simp: in_granule_def mem_st_eq Let_def mem_resv_def mem_far_def record_of_def same_granule_def)
next
  fix a b :: request and w and m m' :: "locked_addr list"
  assume "in_granule a" "in_granule b" "mem_st False b m = Inr (w, m')" "mem_resv m a" "mem_far a (Store b)"
  then show "mem_resv m' a"
    by (auto simp: in_granule_def mem_st_eq Let_def mem_resv_def mem_far_def record_of_def same_granule_def)
qed

section \<open>Guarantees\<close>

lemma licensed_bytes:
  assumes "licensed linked a (zip es ws)" "\<forall>e\<in>set es. in_range (ev_req e)" "in_range a"
  shows "\<exists>pre l w post. zip es ws = pre @ (LoadLinked l, w) # post \<and> rctx l = rctx a \<and> linked l a \<and>
    (\<forall>(e, wrote)\<in>set post. wrote \<longrightarrow> rctx (ev_req e) \<noteq> rctx a \<longrightarrow>
       {rlow (ev_req e)..<rend (ev_req e)} \<inter> {rlow a..<rend a} = {})"
proof -
  obtain pre l w post where tr: "zip es ws = pre @ (LoadLinked l, w) # post" "rctx l = rctx a" "linked l a"
    and calm: "\<forall>ew\<in>set post. \<not> disturbs a ew" using assms(1) unfolding licensed_def by blast
  have "in_range (ev_req e)" if "(e, x) \<in> set post" for e x
  proof -
    from that tr(1) have "(e, x) \<in> set (zip es ws)" by simp
    then have "e \<in> set es" by (rule set_zip_leftD)
    with assms(2) show ?thesis by simp
  qed
  with calm assms(3) have "\<forall>(e, wrote)\<in>set post. wrote \<longrightarrow> rctx (ev_req e) \<noteq> rctx a \<longrightarrow>
       {rlow (ev_req e)..<rend (ev_req e)} \<inter> {rlow a..<rend a} = {}"
    by (fastforce simp: disturbs_def overlap_iff_bytes)
  with tr show ?thesis by blast
qed

text \<open>
  C7: a store conditional on a cache block writes only when its context has load-linked all its bytes
  and no write of another context has touched one of them since, whatever the accesses of any number
  of contexts between.
\<close>

theorem block_store_cond_atomic:
  assumes "run_monitor blk_ll blk_st (es @ [StoreCond a]) (CacheBlk_invalidate b) = Inr (ws @ [True], b')"
    and "\<forall>e\<in>set (es @ [StoreCond a]). in_range (ev_req e)"
  shows "\<exists>pre l w post. zip es ws = pre @ (LoadLinked l, w) # post \<and> rctx l = rctx a \<and>
    {rlow a..<rend a} \<subseteq> {rlow l..<rend l} \<and>
    (\<forall>(e, wrote)\<in>set post. wrote \<longrightarrow> rctx (ev_req e) \<noteq> rctx a \<longrightarrow>
       {rlow (ev_req e)..<rend (ev_req e)} \<inter> {rlow a..<rend a} = {})"
proof -
  have "\<not> blk_resv (CacheBlk_invalidate b) a" by (simp add: blk_resv_def CacheBlk_invalidate_def)
  then have "licensed within a (zip es ws)"
    using blk.store_cond_licensed [OF assms(1)] assms(2) by simp
  moreover have "\<forall>e\<in>set es. in_range (ev_req e)" "in_range a" using assms(2) by simp_all
  moreover have "within l a \<longleftrightarrow> {rlow a..<rend a} \<subseteq> {rlow l..<rend l}" for l
    using \<open>in_range a\<close> by (auto simp: within_def in_range_def)
  ultimately show ?thesis using licensed_bytes [of within a es ws] by simp
qed

definition demo_req :: "u64 \<Rightarrow> u32 \<Rightarrow> int \<Rightarrow> request" where
  "demo_req p n c = Request_phys p n 0 0 c"

lemma demo_req_range:
  "0 < unat n \<Longrightarrow> unat p + unat n \<le> 2 ^ 64 \<Longrightarrow> in_range (demo_req p n c)"
  "rlow (demo_req p n c) = unat p" "rend (demo_req p n c) = unat p + unat n" "rctx (demo_req p n c) = c"
  by (simp_all add: demo_req_def Request_phys_def in_range_def rlow_def rend_def rctx_def)

definition demo_trace :: "mon_event list" where
  "demo_trace = [LoadLinked (demo_req 0x40 8 0), Store (demo_req 0x48 8 1), Store (demo_req 0x40 4 0)]"

theorem block_store_cond_atomic_witness:
  "(\<exists>b'. run_monitor blk_ll blk_st (demo_trace @ [StoreCond (demo_req 0x44 4 0)]) (CacheBlk_invalidate CacheBlk_new) =
      Inr ([False, True, True] @ [True], b')) \<and>
   (\<exists>pre l w post. zip demo_trace [False, True, True] = pre @ (LoadLinked l, w) # post \<and> rctx l = 0 \<and>
      {0x44..<0x48} \<subseteq> {rlow l..<rend l})"
proof -
  have r: "\<exists>b'. run_monitor blk_ll blk_st (demo_trace @ [StoreCond (demo_req 0x44 4 0)]) (CacheBlk_invalidate CacheBlk_new) =
      Inr ([False, True, True] @ [True], b')"
    by (simp add: demo_trace_def blk_ll_eq demo_req_range lock_of_hits overlap_def lock_of_range
        CacheBlk_invalidate_def blk_st_def checkWrite_def lock_in_range lock_of_covers within_def
        clearLoadLocks_def clear_locks_filter Let_def)
  then obtain b' where "run_monitor blk_ll blk_st (demo_trace @ [StoreCond (demo_req 0x44 4 0)])
      (CacheBlk_invalidate CacheBlk_new) = Inr ([False, True, True] @ [True], b')" by blast
  note run = this
  have ok: "\<forall>e\<in>set (demo_trace @ [StoreCond (demo_req 0x44 4 0)]). in_range (ev_req e)"
    by (simp add: demo_trace_def demo_req_range)
  have "\<exists>pre l w post. zip demo_trace [False, True, True] = pre @ (LoadLinked l, w) # post \<and> rctx l = 0 \<and>
      {0x44..<0x48} \<subseteq> {rlow l..<rend l}"
    using block_store_cond_atomic [OF run ok] unfolding demo_req_range by simp blast
  with r show ?thesis by (rule conjI)
qed



text \<open>
  C38: the granule of a memory reservation is that of the first byte of the access, so a write of
  another context that begins in the granule before and reaches into the reserved bytes does not end
  the reservation: the store conditional succeeds over it. No access in one granule can do this.
\<close>

theorem crossing_store_missed:
  assumes "in_range a" "in_range b" "rctx b \<noteq> rctx a" "overlap b a" "rlow b div 16 \<noteq> rlow a div 16"
  shows "run_monitor mem_ll mem_st [LoadLinked a, Store b, StoreCond a] [] = Inr ([False, True, True], []) \<and>
    \<not> (in_granule a \<and> in_granule b)"
proof
  have ll: "mem_ll a [] = Inr [record_of a]"
    by (simp add: mem_ll_def AbstractMemory_trackLoadLocked_def mem_in_range assms(1))
  have "granule a \<noteq> granule b" using assms(5) same_granule_iff [of b a] by (auto simp: same_granule_def)
  then show "run_monitor mem_ll mem_st [LoadLinked a, Store b, StoreCond a] [] = Inr ([False, True, True], [])"
    by (simp add: ll mem_st_eq assms(1,2) Let_def mem_resv_def record_of_def)
  show "\<not> (in_granule a \<and> in_granule b)"
    using overlap_granule [of a b] assms(4,5) by (auto simp: same_granule_iff)
qed

theorem crossing_store_missed_witness:
  "run_monitor mem_ll mem_st
     [LoadLinked (demo_req 0x10 4 0), Store (demo_req 0x0c 8 1), StoreCond (demo_req 0x10 4 0)] [] =
   Inr ([False, True, True], [])"
  by (rule crossing_store_missed [THEN conjunct1]) (simp_all add: demo_req_range overlap_def)

text \<open>
  C21: both monitors let a store conditional through that follows its load with nothing near between.
  A block reservation survives accesses to other bytes and the plain stores of its own context; a
  memory reservation survives the loads of other contexts and writes to other granules.
\<close>

theorem store_cond_succeeds_alone:
  "(in_range a \<and> (\<forall>e\<in>set es. in_range (ev_req e) \<and> blk_far a e) \<longrightarrow>
     (\<exists>ws b'. run_monitor blk_ll blk_st (LoadLinked a # es @ [StoreCond a]) b = Inr (ws @ [True], b'))) \<and>
   (in_granule a \<and> (\<forall>e\<in>set es. in_granule (ev_req e) \<and> mem_far a e) \<longrightarrow>
     (\<exists>ws ls'. run_monitor mem_ll mem_st (LoadLinked a # es @ [StoreCond a]) ls = Inr (ws @ [True], ls')))"
  using blk.store_cond_succeeds [of a es b] mem.store_cond_succeeds [of a es ls] by blast

theorem store_cond_succeeds_alone_witness:
  "(\<exists>ws b'. run_monitor blk_ll blk_st
      (LoadLinked (demo_req 0x40 8 0) # [LoadLinked (demo_req 0x48 8 1), Store (demo_req 0x44 4 0)] @
        [StoreCond (demo_req 0x40 8 0)]) CacheBlk_new = Inr (ws @ [True], b')) \<and>
   (\<exists>ws ls'. run_monitor mem_ll mem_st
      (LoadLinked (demo_req 0x40 8 0) # [LoadLinked (demo_req 0x48 8 1), Store (demo_req 0x50 4 1)] @
        [StoreCond (demo_req 0x40 8 0)]) [] = Inr (ws @ [True], ls'))"
proof
  show "\<exists>ws b'. run_monitor blk_ll blk_st
      (LoadLinked (demo_req 0x40 8 0) # [LoadLinked (demo_req 0x48 8 1), Store (demo_req 0x44 4 0)] @
        [StoreCond (demo_req 0x40 8 0)]) CacheBlk_new = Inr (ws @ [True], b')"
    by (rule store_cond_succeeds_alone [THEN conjunct1, rule_format]) (auto simp: demo_req_range blk_far_def overlap_def)
  show "\<exists>ws ls'. run_monitor mem_ll mem_st
      (LoadLinked (demo_req 0x40 8 0) # [LoadLinked (demo_req 0x48 8 1), Store (demo_req 0x50 4 1)] @
        [StoreCond (demo_req 0x40 8 0)]) [] = Inr (ws @ [True], ls')"
    by (rule store_cond_succeeds_alone [THEN conjunct2, rule_format])
      (auto simp: demo_req_range mem_far_def in_granule_def same_granule_iff)
qed

end
