(* ===== verification/Memory_Access.thy ===== *)
theory Memory_Access
  imports Memory_Locks Packet_Commands
begin

text \<open>
  Accesses to a memory (\<open>AbstractMemory::access\<close> and \<open>functionalAccess\<close> in \<open>mem/abstract_mem.cc\<close>,
  \<open>SimpleMemory::recvAtomic\<close> in \<open>mem/simple_mem.cc\<close>): the bytes of its address range, or none for a memory
  without storage, and the reservations. The atomic operation of a request is an argument that maps the
  bytes from an address on. Statistics are left out.
\<close>

record mem_cfg =
  range_start :: u64
  range_end :: u64

record mem_state =
  pmem :: "u8 list option"
  lockedAddrList :: "locked_addr list"
  wokenContexts :: "int list"

definition isSubset :: "u64 \<Rightarrow> u64 \<Rightarrow> mem_cfg \<Rightarrow> bool" where
  "isSubset lo hi cfg \<longleftrightarrow> range_start cfg \<le> lo \<and> hi \<le> range_end cfg"

definition hostAddr :: "mem_cfg \<Rightarrow> mem_packet \<Rightarrow> nat" where
  "hostAddr cfg p = unat (mp_addr p - range_start cfg)"

text \<open>A packet gets the bytes of the memory; without storage it keeps its own.\<close>

definition mem_to_packet :: "mem_cfg \<Rightarrow> mem_packet \<Rightarrow> mem_state \<Rightarrow> mem_packet res" where
  "mem_to_packet cfg p m = (case pmem m of None \<Rightarrow> Inr p | Some d \<Rightarrow> setData (hostAddr cfg p) d p)"

definition packet_to_mem :: "mem_cfg \<Rightarrow> mem_packet \<Rightarrow> mem_state \<Rightarrow> mem_state res" where
  "packet_to_mem cfg p m =
     (case pmem m of None \<Rightarrow> Inr m | Some d \<Rightarrow> bindE (writeData (hostAddr cfg p) p d) (\<lambda>d. Inr (m\<lparr>pmem := Some d\<rparr>)))"

text \<open>Whether a swap writes: always, or if the bytes are those of the request's extra data.\<close>

definition swap_matches :: "mem_packet \<Rightarrow> nat \<Rightarrow> u8 list \<Rightarrow> bool res" where
  "swap_matches p off d =
     (if isCondSwap (mp_req p)
      then if mp_size p = 8
           then bindE (bytes_read off 8 d) (\<lambda>xs. Inr (le_bytes 8 (getExtraData (mp_req p)) = xs))
           else if mp_size p = 4
           then bindE (bytes_read off 4 d) (\<lambda>xs. Inr (le_bytes 4 (getExtraData (mp_req p)) = xs))
           else Inl Panic
      else Inr True)"

definition AbstractMemory_swap ::
  "(u8 list \<Rightarrow> u8 list) \<Rightarrow> mem_cfg \<Rightarrow> mem_packet \<Rightarrow> mem_state \<Rightarrow> (mem_packet \<times> mem_state) res" where
  "AbstractMemory_swap atomicOp cfg p m =
     (let off = hostAddr cfg p in
      if isAtomic (mp_req p)
      then case pmem m of
             None \<Rightarrow> Inr (p, m)
           | Some d \<Rightarrow>
               bindE (setData off d p) (\<lambda>p.
               Inr (p, m\<lparr>pmem := Some (take off d @ atomicOp (drop off d))\<rparr>))
      else case pmem m of
             None \<Rightarrow> Inl Panic
           | Some d \<Rightarrow>
               bindE (setData off d p) (\<lambda>p'.
               bindE (swap_matches p off d) (\<lambda>overwrite_mem.
               bindE (if overwrite_mem then packet_to_mem cfg p m else Inr m) (\<lambda>m.
               bindE (assertE (\<not> isInstFetch (mp_req p))) (\<lambda>_. Inr (p', m))))))"

definition AbstractMemory_access ::
  "(u8 list \<Rightarrow> u8 list) \<Rightarrow> mem_cfg \<Rightarrow> mem_packet \<Rightarrow> mem_state \<Rightarrow> (mem_packet \<times> mem_state) res" where
  "AbstractMemory_access atomicOp cfg p m =
     (if mp_cacheResponding p then Inr (p, m)
      else if mp_cmd p = CleanEvict \<or> mp_cmd p = WritebackClean then Inr (p, m)
      else
        bindE (assertE (isSubset (mp_addr p) (mp_addr p + ucast (mp_size p - 1)) cfg)) (\<lambda>_.
        bindE (
          if mp_cmd p = SwapReq then AbstractMemory_swap atomicOp cfg p m
          else if isRead (mp_cmd p)
          then bindE (assertE (\<not> isWrite (mp_cmd p))) (\<lambda>_.
               bindE (if isLLSC (mp_cmd p)
                 then bindE (AbstractMemory_trackLoadLocked (lock_view p) (lockedAddrList m)) (\<lambda>ls.
                   Inr (m\<lparr>lockedAddrList := ls\<rparr>))
                 else Inr m) (\<lambda>m.
               bindE (mem_to_packet cfg p m) (\<lambda>p. Inr (p, m))))
          else if isInvalidate (mp_cmd p) then Inr (p, m)
          else if isWrite (mp_cmd p)
          then bindE (writeOK (lock_view p) (lockedAddrList m)) (\<lambda>(ok, v, woken, ls).
               let p = p\<lparr>mp_req := pkt_req v\<rparr>;
                   m = m\<lparr>lockedAddrList := ls, wokenContexts := wokenContexts m @ woken\<rparr> in
               if ok
               then bindE (packet_to_mem cfg p m) (\<lambda>m.
                    bindE (assertE (\<not> isInstFetch (mp_req p))) (\<lambda>_. Inr (p, m)))
               else Inr (p, m))
          else Inl Panic) (\<lambda>(p, m).
        if needsResponse (mp_cmd p) then bindE (makeResponse p) (\<lambda>p. Inr (p, m)) else Inr (p, m))))"

definition AbstractMemory_functionalAccess :: "mem_cfg \<Rightarrow> mem_packet \<Rightarrow> mem_state \<Rightarrow> (mem_packet \<times> mem_state) res" where
  "AbstractMemory_functionalAccess cfg p m =
     bindE (assertE (isSubset (mp_addr p) (mp_addr p + ucast (mp_size p) - 1) cfg)) (\<lambda>_.
     if isRead (mp_cmd p)
     then bindE (mem_to_packet cfg p m) (\<lambda>p. bindE (makeResponse p) (\<lambda>p. Inr (p, m)))
     else if isWrite (mp_cmd p)
     then bindE (packet_to_mem cfg p m) (\<lambda>m. bindE (makeResponse p) (\<lambda>p. Inr (p, m)))
     else if testCmdAttrib (mp_cmd p) IsPrint then Inr (p, m)
     else Inl Panic)"

text \<open>The latency of the memory varies at random and is an argument.\<close>

definition SimpleMemory_recvAtomic ::
  "(u8 list \<Rightarrow> u8 list) \<Rightarrow> mem_cfg \<Rightarrow> u64 \<Rightarrow> mem_packet \<Rightarrow> mem_state \<Rightarrow> (u64 \<times> mem_packet \<times> mem_state) res" where
  "SimpleMemory_recvAtomic atomicOp cfg latency p m =
     (if mp_cacheResponding p then Inl Panic
      else bindE (AbstractMemory_access atomicOp cfg p m) (\<lambda>(p, m). Inr (latency, p, m)))"

end
