(* ===== verification/Cache_Access.thy ===== *)
theory Cache_Access
  imports Cache_Fill Memory_Access
begin

text \<open>
  The requests a cache serves from its own blocks (\<open>cmpAndSwap\<close>, \<open>satisfyRequest\<close> and \<open>access\<close> in
  \<open>mem/cache/cache.cc\<close>). The miss queue and the write buffer are arguments, as what a search in them finds;
  what an eviction from above does to an entry of the write buffer is part of the result.
\<close>

section \<open>State\<close>

record req_stats =
  hits :: "mem_cmd \<Rightarrow> u16 \<Rightarrow> nat"
  misses :: "mem_cmd \<Rightarrow> u16 \<Rightarrow> nat"
  missCount :: u64
  maxMissReached :: bool

record cache_ctl =
  cst :: cache_state
  cstats :: req_stats

text \<open>
  \<open>mshrs\<close> tells whether a miss to a line is outstanding and needs a writable copy, \<open>wq\<close> the number of targets
  and the command of a queued write.
\<close>

record cache_queues =
  mshrs :: "u64 \<Rightarrow> bool \<Rightarrow> bool option"
  wq :: "u64 \<Rightarrow> bool \<Rightarrow> (nat \<times> mem_cmd) option"

datatype wq_effect = WqKeep | WqClearBlockCached | WqMarkInService

definition upd_cst :: "(cache_state \<Rightarrow> cache_state) \<Rightarrow> cache_ctl \<Rightarrow> cache_ctl" where
  "upd_cst f k = k\<lparr>cst := f (cst k)\<rparr>"

definition incHitCount :: "cache_env \<Rightarrow> mem_packet \<Rightarrow> cache_ctl \<Rightarrow> cache_ctl res" where
  "incHitCount e p k =
     (let m = req_masterId (mp_req p); s = cstats k in
      bindE (assertE (unat m < maxMasters e)) (\<lambda>_.
      Inr (k\<lparr>cstats := s\<lparr>hits := (hits s)(mp_cmd p := (hits s (mp_cmd p))(m := hits s (mp_cmd p) m + 1))\<rparr>\<rparr>)))"

definition incMissCount :: "cache_env \<Rightarrow> mem_packet \<Rightarrow> cache_ctl \<Rightarrow> cache_ctl res" where
  "incMissCount e p k =
     (let m = req_masterId (mp_req p); s = cstats k in
      bindE (assertE (unat m < maxMasters e)) (\<lambda>_.
      let s = s\<lparr>misses := (misses s)(mp_cmd p := (misses s (mp_cmd p))(m := misses s (mp_cmd p) m + 1))\<rparr>;
          s = (if missCount s \<noteq> 0
               then let s = s\<lparr>missCount := missCount s - 1\<rparr> in if missCount s = 0 then s\<lparr>maxMissReached := True\<rparr> else s
               else s)
      in Inr (k\<lparr>cstats := s\<rparr>)))"

text \<open>The fields of a packet that a fill reads.\<close>

definition fill_view :: "mem_packet \<Rightarrow> fill_packet" where
  "fill_view p = \<lparr>pkt_req = mp_req p, pkt_addr = mp_addr p, pkt_isLLSC = isLLSC (mp_cmd p), pkt_isWrite = isWrite (mp_cmd p),
     pkt_isSecure = mp_isSecure p, pkt_isResponse = isResponse (mp_cmd p), pkt_isWriteLine = (mp_cmd p = WriteLineReq),
     pkt_isRead = isRead (mp_cmd p), pkt_hasData = hasData (mp_cmd p), pkt_hasSharers = mp_hasSharers p,
     pkt_cacheResponding = mp_cacheResponding p, pkt_data = (case mp_data p of None \<Rightarrow> [] | Some d \<Rightarrow> d),
     pkt_payloadDelay = ucast (mp_payloadDelay p)\<rparr>"

section \<open>Serving a request from a block\<close>

definition cmpAndSwap :: "blk_ptr \<Rightarrow> mem_packet \<Rightarrow> cache_state \<Rightarrow> (mem_packet \<times> cache_state) res" where
  "cmpAndSwap bp p c =
     bindE (assertE (isRequest (mp_cmd p))) (\<lambda>_.
     let off = nat (extractBlkOffset (geom (ctags c)) (mp_addr p)); d = get_data bp c in
     bindE (assertE (unat (mp_size p) \<le> 8)) (\<lambda>_.
     bindE (setData off d p) (\<lambda>p'.
     bindE (swap_matches p off d) (\<lambda>overwrite_mem.
     if overwrite_mem
     then bindE (writeData off p d) (\<lambda>d. Inr (p', upd_cblk bp (set_status BlkDirty) (set_data bp d c)))
     else Inr (p', c)))))"

text \<open>What a read by a cache above does to the packet and to the block.\<close>

definition share_block ::
  "blk_ptr \<Rightarrow> bool \<Rightarrow> bool \<Rightarrow> mem_packet \<Rightarrow> cache_state \<Rightarrow> (mem_packet \<times> cache_state) res" where
  "share_block bp deferred_response pending_downgrade p c =
     bindE (assertE (mp_size p = blkSize (geom (ctags c)))) (\<lambda>_.
     let b = get_cblk bp c in
     bindE (packet_needsWritable p) (\<lambda>needs.
     if needs
     then bindE (assertE (mp_cmd p = ReadExReq \<or> mp_cmd p = SCUpgradeFailReq)) (\<lambda>_.
          bindE (assertE (\<not> mp_hasSharers p)) (\<lambda>_.
          if isDirty b
          then bindE (setCacheResponding p) (\<lambda>p. Inr (p, upd_cblk bp (clear_status BlkDirty) c))
          else Inr (p, c)))
     else if isWritable b \<and> \<not> pending_downgrade \<and> \<not> mp_hasSharers p \<and> mp_cmd p \<noteq> ReadCleanReq
     then if isDirty b
          then if \<not> deferred_response
               then bindE (setCacheResponding p) (\<lambda>p. Inr (p, upd_cblk bp (clear_status BlkDirty) c))
               else Inr (setHasSharers p, c)
          else Inr (p, c)
     else Inr (setHasSharers p, c)))"

definition satisfyRequest ::
  "cache_cfg \<Rightarrow> mem_packet \<Rightarrow> blk_ptr \<Rightarrow> bool \<Rightarrow> bool \<Rightarrow> cache_state \<Rightarrow> (mem_packet \<times> cache_state) res" where
  "satisfyRequest cfg p bp deferred_response pending_downgrade c =
     bindE (assertE (isRequest (mp_cmd p))) (\<lambda>_.
     bindE (assertE (isValid (get_cblk bp c))) (\<lambda>_.
     let bs = blkSize (geom (ctags c)) in
     bindE (assertE (packet_getOffset bs p + ucast (mp_size p) \<le> ucast bs)) (\<lambda>_.
     if mp_cmd p = SwapReq then cmpAndSwap bp p c
     else if isWrite (mp_cmd p)
     then bindE (assertE (isWritable (get_cblk bp c))) (\<lambda>_.
          bindE (checkWrite (lock_view p) (get_cblk bp c)) (\<lambda>(ok, v, b).
          let p = p\<lparr>mp_req := pkt_req v\<rparr>; c = upd_cblk bp (\<lambda>_. b) c in
          bindE (if ok then bindE (writeDataToBlock p (get_data bp c) bs) (\<lambda>d. Inr (set_data bp d c)) else Inr c) (\<lambda>c.
          Inr (p, upd_cblk bp (set_status BlkDirty) c))))
     else if isRead (mp_cmd p)
     then bindE (if isLLSC (mp_cmd p)
            then bindE (trackLoadLocked (lock_view p) (get_cblk bp c)) (\<lambda>b. Inr (upd_cblk bp (\<lambda>_. b) c))
            else Inr c) (\<lambda>c.
          bindE (assertE (hasRespData (mp_cmd p))) (\<lambda>_.
          bindE (setDataFromBlock (get_data bp c) bs p) (\<lambda>p.
          if fromCache (mp_cmd p) then share_block bp deferred_response pending_downgrade p c else Inr (p, c))))
     else if isUpgrade (mp_cmd p)
     then bindE (assertE (\<not> mp_hasSharers p)) (\<lambda>_.
          if isDirty (get_cblk bp c)
          then bindE (setCacheResponding p) (\<lambda>p. Inr (p, upd_cblk bp (clear_status BlkDirty) c))
          else Inr (p, c))
     else bindE (assertE (isInvalidate (mp_cmd p))) (\<lambda>_.
          bindE (invalidateBlock cfg bp c) (\<lambda>c. Inr (p, c))))))"

section \<open>Access\<close>

text \<open>An uncacheable request evicts the line first.\<close>

definition flush_line ::
  "cache_cfg \<Rightarrow> mem_packet \<Rightarrow> wb_packet list \<Rightarrow> cache_state \<Rightarrow> (wb_packet list \<times> cache_state) res" where
  "flush_line cfg p writebacks c =
     bindE (BaseSetAssoc_findBlock (mp_addr p) (mp_isSecure p) (ctags c)) (\<lambda>old.
     case old of
       None \<Rightarrow> Inr (writebacks, c)
     | Some q \<Rightarrow>
         let bp = InTags q; b = get_cblk bp c in
         if isValid b
         then bindE (if isDirty b \<or> writebackClean cfg then writebackBlk cfg bp c else cleanEvictBlk cfg bp c) (\<lambda>(w, c).
              bindE (LRU_invalidate (cenv cfg) (Some q) (ctags c)) (\<lambda>ts.
              Inr (writebacks @ [w], upd_cblk bp CacheBlk_invalidate (c\<lparr>ctags := ts\<rparr>))))
         else Inr (writebacks, c))"

text \<open>The data of a writeback from above enters the cache, in a new block if the line is absent.\<close>

definition take_writeback ::
  "cache_cfg \<Rightarrow> cache_queues \<Rightarrow> mem_packet \<Rightarrow> nat option \<Rightarrow> wb_packet list \<Rightarrow> cache_ctl \<Rightarrow>
   (bool \<times> nat option \<times> wb_packet list \<times> cache_ctl) res" where
  "take_writeback cfg q p blk writebacks k =
     bindE (assertE (blkSize (geom (ctags (cst k))) = mp_size p)) (\<lambda>_.
     if mp_cmd p = WritebackClean \<and> mshrs q (mp_addr p) (mp_isSecure p) \<noteq> None
     then Inr (True, blk, writebacks, k)
     else
       bindE (case blk of
           Some i \<Rightarrow> Inr (Some i, writebacks, k)
         | None \<Rightarrow>
             bindE (allocateBlock cfg (mshrs q) (mp_addr p) writebacks (cst k)) (\<lambda>(v, writebacks, c).
             case v of
               None \<Rightarrow> Inr (None, writebacks, k\<lparr>cst := c\<rparr>)
             | Some i \<Rightarrow>
                 bindE (LRU_insertBlock (cenv cfg) (lock_view p) i (ctags c)) (\<lambda>ts.
                 let c = c\<lparr>ctags := ts\<rparr>;
                     c = upd_cblk (InTags i) (\<lambda>b. b\<lparr>blk_status := BlkValid OR BlkReadable\<rparr>) c;
                     c = (if mp_isSecure p then upd_cblk (InTags i) (set_status BlkSecure) c else c)
                 in Inr (Some i, writebacks, k\<lparr>cst := c\<rparr>)))) (\<lambda>(v, writebacks, k).
       case v of
         None \<Rightarrow> bindE (incMissCount (cenv cfg) p k) (\<lambda>k. Inr (False, None, writebacks, k))
       | Some i \<Rightarrow>
           let k = (if mp_cmd p = WritebackDirty then upd_cst (upd_cblk (InTags i) (set_status BlkDirty)) k else k);
               k = (if \<not> mp_hasSharers p then upd_cst (upd_cblk (InTags i) (set_status BlkWritable)) k else k) in
           bindE (assertE (\<not> needsResponse (mp_cmd p))) (\<lambda>_.
           bindE (getPtr p) (\<lambda>src.
           bindE (bytes_read 0 (unat (blkSize (geom (ctags (cst k))))) src) (\<lambda>d.
           bindE (incHitCount (cenv cfg) p (upd_cst (set_data (InTags i) d) k)) (\<lambda>k.
           Inr (True, Some i, writebacks, k)))))))"

text \<open>What an eviction from above meets in the write buffer; the result tells whether it is dropped.\<close>

definition meet_write_queue :: "cache_queues \<Rightarrow> mem_packet \<Rightarrow> (bool \<times> wq_effect) res" where
  "meet_write_queue q p =
     (if isEviction (mp_cmd p)
      then case wq q (mp_addr p) (mp_isSecure p) of
             None \<Rightarrow> Inr (False, WqKeep)
           | Some (targets, cmd) \<Rightarrow>
               bindE (assertE (targets = 1)) (\<lambda>_.
               bindE (assertE (isWriteback cmd)) (\<lambda>_.
               if isCleanEviction (mp_cmd p) then Inr (True, WqClearBlockCached)
               else bindE (assertE (mp_cmd p = WritebackDirty)) (\<lambda>_. Inr (False, WqMarkInService))))
      else Inr (False, WqKeep))"

text \<open>
  The result is whether the request is satisfied, the block, the latency, the writebacks, the effect on the
  write buffer, the packet and the cache.
\<close>

definition Cache_access ::
  "cache_cfg \<Rightarrow> cache_queues \<Rightarrow> mem_packet \<Rightarrow> wb_packet list \<Rightarrow> cache_ctl \<Rightarrow>
   (bool \<times> nat option \<times> u64 \<times> wb_packet list \<times> wq_effect \<times> mem_packet \<times> cache_ctl) res" where
  "Cache_access cfg q p writebacks k =
     bindE (assertE (isRequest (mp_cmd p))) (\<lambda>_.
     bindE (assertE (\<not> (isReadOnly cfg \<and> isWrite (mp_cmd p)))) (\<lambda>_.
     if isUncacheable (mp_req p)
     then bindE (flush_line cfg p writebacks (cst k)) (\<lambda>(writebacks, c).
          Inr (False, None, lookupLatency (geom (ctags c)), writebacks, WqKeep, p, k\<lparr>cst := c\<rparr>))
     else
       bindE (LRU_accessBlock (cenv cfg) (mp_addr p) (mp_isSecure p) (ctags (cst k))) (\<lambda>(blk, lat, ts).
       let k = upd_cst (\<lambda>c. c\<lparr>ctags := ts\<rparr>) k in
       bindE (meet_write_queue q p) (\<lambda>(dropped, eff).
       if dropped then Inr (True, blk, lat, writebacks, eff, p, k)
       else if isWriteback (mp_cmd p)
       then bindE (take_writeback cfg q p blk writebacks k) (\<lambda>(ok, blk, writebacks, k).
            Inr (ok, blk, lat, writebacks, eff, p, k))
       else if mp_cmd p = CleanEvict then Inr (blk \<noteq> None, blk, lat, writebacks, eff, p, k)
       else
         bindE (packet_needsWritable p) (\<lambda>needs.
         case blk of
           Some i \<Rightarrow>
             let b = get_cblk (InTags i) (cst k) in
             if (if needs then isWritable b else isReadable b)
             then bindE (incHitCount (cenv cfg) p k) (\<lambda>k.
                  bindE (satisfyRequest cfg p (InTags i) False False (cst k)) (\<lambda>(p, c).
                  bindE (maintainClusivity cfg (fromCache (mp_cmd p)) (Some (InTags i)) c) (\<lambda>c.
                  Inr (True, Some i, lat, writebacks, eff, p, k\<lparr>cst := c\<rparr>))))
             else bindE (incMissCount (cenv cfg) p k) (\<lambda>k. Inr (False, Some i, lat, writebacks, eff, p, k))
         | None \<Rightarrow>
             bindE (incMissCount (cenv cfg) p k) (\<lambda>k.
             if isLLSC (mp_cmd p) \<and> isWrite (mp_cmd p)
             then Inr (True, None, lat, writebacks, eff, p\<lparr>mp_req := setExtraData 0 (mp_req p)\<rparr>, k)
             else Inr (False, None, lat, writebacks, eff, p, k)))))))"

end
