(* ===== verification/Cache_Atomic.thy ===== *)
theory Cache_Atomic
  imports Cache_Access
begin

text \<open>
  A cache in atomic mode (\<open>recvAtomic\<close> in \<open>mem/cache/cache.cc\<close>): a request is served, with the miss and the
  writebacks it causes, before the next one comes. The port to the level below is an argument, and so is
  the answer of the caches above to a snoop. In this mode no miss is outstanding and no write is
  buffered, as the comment of the source requires.
\<close>

section \<open>State\<close>

type_synonym 'm port = "mem_packet \<Rightarrow> 'm \<Rightarrow> (u64 \<times> mem_packet \<times> 'm) res"

record atomic_cfg =
  acache :: cache_cfg
  doFastWrites :: bool
  forwardSnoops :: bool
  bypassCaches :: bool

record 'm atomic_state =
  actl :: cache_ctl
  tempBlockWriteback :: "wb_packet option"
  below :: 'm

definition no_queues :: cache_queues where
  "no_queues = \<lparr>mshrs = \<lambda>_ _. None, wq = \<lambda>_ _. None\<rparr>"

definition wbMasterId :: u16 where
  "wbMasterId = 0"

text \<open>The packet of an eviction, from the request that is made for it.\<close>

definition evict_packet :: "u32 \<Rightarrow> wb_packet \<Rightarrow> mem_packet" where
  "evict_packet bs w =
     \<lparr>mp_cmd = wb_cmd w,
      mp_req = \<lparr>req_paddr = Some (wb_addr w), req_size = Some bs, req_contextId = None, req_masterId = wbMasterId,
        req_flags = (if wb_secure w then SECURE else 0), req_taskId = wb_taskId w, req_extraData = None\<rparr>,
      mp_addr = wb_addr w, mp_isSecure = wb_secure w, mp_size = bs, mp_data = wb_data w, mp_hasSharers = wb_hasSharers w,
      mp_cacheResponding = False, mp_responderHadWritable = False, mp_blockCached = False, mp_payloadDelay = 0\<rparr>"

section \<open>Writebacks\<close>

definition isCachedAbove :: "bool \<Rightarrow> (mem_packet \<Rightarrow> mem_packet) \<Rightarrow> mem_packet \<Rightarrow> bool \<times> mem_packet" where
  "isCachedAbove forward snoop p = (if \<not> forward then (False, p) else let p = snoop p in (mp_blockCached p, p))"

fun doWritebacksAtomic ::
  "'m port \<Rightarrow> (mem_packet \<Rightarrow> mem_packet) \<Rightarrow> bool \<Rightarrow> u32 \<Rightarrow> wb_packet list \<Rightarrow> 'm \<Rightarrow> 'm res" where
  "doWritebacksAtomic send snoop forward bs [] m = Inr m"
| "doWritebacksAtomic send snoop forward bs (w # ws) m =
     (let (above, p) = isCachedAbove forward snoop (evict_packet bs w) in
      bindE (if above \<and> mp_cmd p \<noteq> WritebackDirty then Inr m else bindE (send p m) (\<lambda>(_, _, m). Inr m)) (\<lambda>m.
      doWritebacksAtomic send snoop forward bs ws m))"

definition writebackTempBlockAtomic ::
  "atomic_cfg \<Rightarrow> 'm port \<Rightarrow> (mem_packet \<Rightarrow> mem_packet) \<Rightarrow> 'm atomic_state \<Rightarrow> 'm atomic_state res" where
  "writebackTempBlockAtomic cfg send snoop s =
     (case tempBlockWriteback s of
        None \<Rightarrow> Inl AssertFail
      | Some w \<Rightarrow>
          bindE (doWritebacksAtomic send snoop (forwardSnoops cfg) (blkSize (geom (ctags (cst (actl s))))) [w] (below s)) (\<lambda>m.
          Inr (s\<lparr>tempBlockWriteback := None, below := m\<rparr>)))"

section \<open>Misses\<close>

definition promoteWholeLineWrites :: "atomic_cfg \<Rightarrow> u32 \<Rightarrow> mem_packet \<Rightarrow> mem_packet" where
  "promoteWholeLineWrites cfg bs p =
     (if doFastWrites cfg \<and> mp_cmd p = WriteReq \<and> mp_size p = bs \<and> packet_getOffset bs p = 0
      then p\<lparr>mp_cmd := WriteLineReq\<rparr> else p)"

definition allocOnFill :: "cache_cfg \<Rightarrow> mem_cmd \<Rightarrow> bool" where
  "allocOnFill cfg cmd \<longleftrightarrow> \<not> mostly_excl cfg \<or> cmd = WriteLineReq \<or> cmd = ReadReq \<or> cmd = WriteReq \<or>
     isPrefetch cmd \<or> isLLSC cmd"

definition createMissPacket ::
  "cache_cfg \<Rightarrow> tag_geom \<Rightarrow> (nat \<Rightarrow> u8) \<Rightarrow> mem_packet \<Rightarrow> cache_blk option \<Rightarrow> bool \<Rightarrow> mem_packet option res" where
  "createMissPacket cfg G junk cpu_pkt blk needs =
     bindE (assertE (\<not> isEviction (mp_cmd cpu_pkt))) (\<lambda>_.
     let blkValid = (case blk of None \<Rightarrow> False | Some b \<Rightarrow> isValid b);
         blkWritable = (case blk of None \<Rightarrow> False | Some b \<Rightarrow> isWritable b);
         cpu_cmd = mp_cmd cpu_pkt in
     if isUncacheable (mp_req cpu_pkt) \<or> (\<not> blkValid \<and> isUpgrade cpu_cmd) \<or> cpu_cmd = InvalidateReq
     then Inr None
     else
       bindE (assertE (needsResponse cpu_cmd)) (\<lambda>_.
       bindE (
         if cpu_cmd = WriteLineReq
         then bindE (assertE (\<not> blkValid \<or> \<not> blkWritable)) (\<lambda>_. Inr InvalidateReq)
         else if blkValid
         then bindE (assertE needs) (\<lambda>_. bindE (assertE (\<not> blkWritable)) (\<lambda>_.
              Inr (if isLLSC cpu_cmd then SCUpgradeReq else UpgradeReq)))
         else if cpu_cmd = SCUpgradeFailReq \<or> cpu_cmd = StoreCondFailReq then Inr SCUpgradeFailReq
         else Inr (if needs then ReadExReq else if isReadOnly cfg then ReadCleanReq else ReadSharedReq)) (\<lambda>cmd.
       bindE (Packet_block (mp_req cpu_pkt) cmd (blkSize G)) (\<lambda>p.
       let p = (if mp_hasSharers cpu_pkt \<and> \<not> needs then setHasSharers p else p) in
       bindE (assertE (mp_addr p = blkAlign G (mp_addr p))) (\<lambda>_.
       bindE (allocate_data junk p) (\<lambda>p. Inr (Some p)))))))"

text \<open>
  The response of the level below: the block, the writebacks, whether the block is invalidated, the packet
  and the cache.
\<close>

definition atomic_response ::
  "cache_cfg \<Rightarrow> mem_packet \<Rightarrow> mem_packet \<Rightarrow> blk_ptr option \<Rightarrow> cache_state \<Rightarrow>
   (blk_ptr option \<times> wb_packet list \<times> bool \<times> mem_packet \<times> cache_state) res" where
  "atomic_response cfg p bus blk c =
     (let is_invalidate = isInvalidate (mp_cmd bus) in
      if needsResponse (mp_cmd p)
      then bindE (assertE (isResponse (mp_cmd bus))) (\<lambda>_.
        if isError (mp_cmd bus)
        then bindE (makeResponse p) (\<lambda>p. Inr (blk, [], is_invalidate, p\<lparr>mp_cmd := mp_cmd bus\<rparr>, c))
        else if mp_cmd p = WriteLineReq
        then bindE (handleFill cfg (mshrs no_queues) (\<lambda>_ _. False) (fill_view p) blk [] (allocOnFill cfg (mp_cmd p)) c)
               (\<lambda>(bp, wbs, c).
             bindE (satisfyRequest cfg p bp False False c) (\<lambda>(p, c). Inr (Some bp, wbs, False, p, c)))
        else if isRead (mp_cmd bus) \<or> mp_cmd bus = UpgradeResp
        then bindE (handleFill cfg (mshrs no_queues) (\<lambda>_ _. False) (fill_view bus) blk [] (allocOnFill cfg (mp_cmd p)) c)
               (\<lambda>(bp, wbs, c).
             bindE (satisfyRequest cfg p bp False False c) (\<lambda>(p, c).
             bindE (maintainClusivity cfg (fromCache (mp_cmd p)) (Some bp) c) (\<lambda>c.
             Inr (Some bp, wbs, is_invalidate, p, c))))
        else bindE (makeResponse p) (\<lambda>p. Inr (blk, [], is_invalidate, p, c)))
      else Inr (blk, [], is_invalidate, p, c))"

definition atomic_miss ::
  "atomic_cfg \<Rightarrow> 'm port \<Rightarrow> (nat \<Rightarrow> u8) \<Rightarrow> mem_packet \<Rightarrow> blk_ptr option \<Rightarrow> cache_state \<Rightarrow> 'm \<Rightarrow>
   (u64 \<times> blk_ptr option \<times> wb_packet list \<times> mem_packet \<times> cache_state \<times> 'm) res" where
  "atomic_miss cfg send junk p blk c m =
     (let ccfg = acache cfg in
      bindE (packet_needsWritable p) (\<lambda>needs.
      bindE (createMissPacket ccfg (geom (ctags c)) junk p (map_option (\<lambda>bp. get_cblk bp c) blk) needs) (\<lambda>bus.
      bindE (send (case bus of None \<Rightarrow> p | Some b \<Rightarrow> b) m) (\<lambda>(t, sent, m).
      bindE (ticksToCycles (cenv ccfg) t) (\<lambda>lat.
      bindE (case bus of
          None \<Rightarrow> Inr (blk, [], isInvalidate (mp_cmd sent), sent, c)
        | Some _ \<Rightarrow> atomic_response ccfg p sent blk c) (\<lambda>(blk, wbs, is_invalidate, p, c).
      bindE (case blk of
          None \<Rightarrow> Inr c
        | Some bp \<Rightarrow> if is_invalidate \<and> isValid (get_cblk bp c) then invalidateBlock ccfg bp c else Inr c) (\<lambda>c.
      Inr (lat, blk, wbs, p, c, m))))))))"

section \<open>Requests\<close>

text \<open>A temporary block is evicted after the response.\<close>

definition release_temp ::
  "atomic_cfg \<Rightarrow> 'm port \<Rightarrow> (mem_packet \<Rightarrow> mem_packet) \<Rightarrow> blk_ptr option \<Rightarrow> 'm atomic_state \<Rightarrow> 'm atomic_state res" where
  "release_temp cfg send snoop blk s =
     (if blk = Some TempBlk \<and> isValid (tempBlock (cst (actl s)))
      then
        bindE (if tempBlockWriteback s \<noteq> None then writebackTempBlockAtomic cfg send snoop s else Inr s) (\<lambda>s.
        let c = cst (actl s); b = tempBlock c in
        bindE (if isDirty b \<or> writebackClean (acache cfg) then writebackBlk (acache cfg) TempBlk c
               else cleanEvictBlk (acache cfg) TempBlk c) (\<lambda>(w, c).
        Inr (s\<lparr>tempBlockWriteback := Some w, actl := (actl s)\<lparr>cst := upd_cblk TempBlk CacheBlk_invalidate c\<rparr>\<rparr>)))
      else Inr s)"

text \<open>The part of \<open>recvAtomic\<close> after the response handling.\<close>

definition atomic_finish ::
  "atomic_cfg \<Rightarrow> 'm port \<Rightarrow> (mem_packet \<Rightarrow> mem_packet) \<Rightarrow> u64 \<Rightarrow> blk_ptr option \<Rightarrow> wb_packet list \<Rightarrow> mem_packet \<Rightarrow>
   'm atomic_state \<Rightarrow> (u64 \<times> mem_packet \<times> 'm atomic_state) res" where
  "atomic_finish cfg send snoop lat blk wbs p s =
     bindE (doWritebacksAtomic send snoop (forwardSnoops cfg) (blkSize (geom (ctags (cst (actl s))))) wbs (below s)) (\<lambda>m.
     bindE (release_temp cfg send snoop blk (s\<lparr>below := m\<rparr>)) (\<lambda>s.
     bindE (if needsResponse (mp_cmd p) then makeResponse p else Inr p) (\<lambda>p.
     Inr (lat * clockPeriod (cenv (acache cfg)), p, s))))"

definition recvAtomic ::
  "atomic_cfg \<Rightarrow> 'm port \<Rightarrow> (mem_packet \<Rightarrow> mem_packet) \<Rightarrow> (nat \<Rightarrow> u8) \<Rightarrow> mem_packet \<Rightarrow> 'm atomic_state \<Rightarrow>
   (u64 \<times> mem_packet \<times> 'm atomic_state) res" where
  "recvAtomic cfg send snoop junk p s =
     (let e = cenv (acache cfg); G = geom (ctags (cst (actl s))); lat = lookupLatency G in
      if bypassCaches cfg
      then bindE (send p (below s)) (\<lambda>(t, p, m). bindE (ticksToCycles e t) (\<lambda>c. Inr (c, p, s\<lparr>below := m\<rparr>)))
      else
        let p = promoteWholeLineWrites cfg (blkSize G) p in
        if mp_cacheResponding p
        then bindE (packet_needsWritable p) (\<lambda>needs.
             bindE (assertE (needs \<and> \<not> mp_responderHadWritable p)) (\<lambda>_.
             bindE (send p (below s)) (\<lambda>(t, p, m).
             bindE (ticksToCycles e t) (\<lambda>c. Inr ((lat + c) * clockPeriod e, p, s\<lparr>below := m\<rparr>)))))
        else
          bindE (Cache_access (acache cfg) no_queues p [] (actl s)) (\<lambda>(satisfied, blk, lat, wbs, _, p, k).
          bindE (doWritebacksAtomic send snoop (forwardSnoops cfg) (blkSize G) wbs (below s)) (\<lambda>m.
          let s = s\<lparr>actl := k, below := m\<rparr>; blk = map_option InTags blk in
          if satisfied then atomic_finish cfg send snoop lat blk [] p s
          else if isEviction (mp_cmd p) \<or> (isUncacheable (mp_req p) \<and> isWrite (mp_cmd p))
          then bindE (send p m) (\<lambda>(t, p, m).
               bindE (ticksToCycles e t) (\<lambda>c. Inr ((lat + c) * clockPeriod e, p, s\<lparr>below := m\<rparr>)))
          else
            bindE (atomic_miss cfg send junk p blk (cst k) m) (\<lambda>(c, blk, wbs, p, cs, m).
            atomic_finish cfg send snoop (lat + c) blk wbs p (s\<lparr>actl := k\<lparr>cst := cs\<rparr>, below := m\<rparr>)))))"

end
