(* ===== verification/Cache_Bytes.thy ===== *)
theory Cache_Bytes
  imports Cache_Atomic Cache_Claims
begin

text \<open>
  The bytes a cache and the memory below it hold together, as one function from addresses, and how this
  function changes with the data of a line.
\<close>

section \<open>Flat memory\<close>

definition bytes_at :: "(u64 \<Rightarrow> u8) \<Rightarrow> u64 \<Rightarrow> nat \<Rightarrow> u8 list" where
  "bytes_at M a n = map (\<lambda>i. M (a + of_nat i)) [0..<n]"

definition store :: "u64 \<Rightarrow> u8 list \<Rightarrow> (u64 \<Rightarrow> u8) \<Rightarrow> u64 \<Rightarrow> u8" where
  "store a d M x = (if unat (x - a) < length d then d ! unat (x - a) else M x)"

definition overlay :: "nat \<Rightarrow> u8 list \<Rightarrow> u8 list \<Rightarrow> u8 list" where
  "overlay off xs d = take off d @ xs @ drop (off + length xs) d"

lemma length_bytes_at [simp]: "length (bytes_at M a n) = n"
  by (simp add: bytes_at_def)

lemma bytes_at_nth [simp]: "i < n \<Longrightarrow> bytes_at M a n ! i = M (a + of_nat i)"
  by (simp add: bytes_at_def)

lemma length_overlay [simp]: "off + length xs \<le> length d \<Longrightarrow> length (overlay off xs d) = length d"
  by (simp add: overlay_def)

lemma overlay_nth:
  "off + length xs \<le> length d \<Longrightarrow> i < length d \<Longrightarrow>
    overlay off xs d ! i = (if off \<le> i \<and> i < off + length xs then xs ! (i - off) else d ! i)"
  by (auto simp: overlay_def nth_append)

lemma bytes_ops:
  "off + n \<le> length d \<Longrightarrow> bytes_read off n d = Inr (take n (drop off d))"
  "off + length xs \<le> length d \<Longrightarrow> bytes_write off xs d = Inr (overlay off xs d)"
  by (simp_all add: bytes_read_def bytes_write_def overlay_def)

section \<open>Lines\<close>

abbreviation bsz :: "tag_geom \<Rightarrow> nat" where
  "bsz G \<equiv> unat (blkSize G)"

lemma bsz_facts:
  assumes "wf_geom G"
  shows "bsz G = 2 ^ setShift G" "0 < bsz G" "bsz G \<le> 2 ^ 31" "bsz G dvd 2 ^ 64"
proof -
  show b: "bsz G = 2 ^ setShift G" using assms by (simp add: wf_geom_def)
  then show "0 < bsz G" by simp
  have "setShift G \<le> 31" using assms by (simp add: wf_geom_def)
  then show "bsz G \<le> 2 ^ 31" "bsz G dvd 2 ^ 64" unfolding b
    by (intro power_increasing le_imp_power_dvd; linarith)+
qed

lemma line_offset:
  assumes "wf_geom G"
  shows "unat (x - blkAlign G x) = unat x mod bsz G" "unat x = unat (blkAlign G x) + unat x mod bsz G"
proof -
  have le: "unat (blkAlign G x) \<le> unat x" "unat x - unat (blkAlign G x) = unat x mod bsz G"
    by (simp_all add: unat_align [OF assms])
  then show "unat x = unat (blkAlign G x) + unat x mod bsz G" by linarith
  from le show "unat (x - blkAlign G x) = unat x mod bsz G" by (simp add: unat_sub word_le_nat_alt)
qed

lemma offset_mod:
  assumes "wf_geom G"
  shows "unat ((x :: u64) AND ucast (blkSize G - 1)) = unat x mod bsz G"
proof -
  have s: "setShift G < 32" using assms by (simp add: wf_geom_def)
  moreover have "blkSize G = 2 ^ setShift G"
  proof -
    have "blkSize G = of_nat (bsz G)" by simp
    also have "\<dots> = 2 ^ setShift G" unfolding bsz_facts(1) [OF assms] by simp
    finally show ?thesis .
  qed
  ultimately have m: "(ucast (blkSize G - 1) :: u64) = mask (setShift G)"
    by (simp add: mask_eq_exp_minus_1 [symmetric] ucast_mask)
  have "x AND ucast (blkSize G - 1) = take_bit (setShift G) x" unfolding m by (simp add: take_bit_eq_mask)
  then show ?thesis using assms by (simp add: unsigned_take_bit_eq take_bit_nat_def wf_geom_def)
qed

lemma in_line:
  assumes "wf_geom G" "blkAlign G A = A"
  shows "blkAlign G x = A \<longleftrightarrow> unat (x - A) < bsz G"
proof
  assume "blkAlign G x = A"
  with line_offset(1) [OF assms(1), of x] bsz_facts(2) [OF assms(1)] show "unat (x - A) < bsz G" by simp
next
  assume lt: "unat (x - A) < bsz G"
  define r where "r = unat (x - A)"
  have a: "unat A mod bsz G = 0" using unat_align [OF assms(1), of A] assms(2) by (metis le_add_diff_inverse mod_less_eq_dividend add_cancel_left_right add.commute)
  have "unat A + bsz G \<le> 2 ^ 64"
  proof -
    obtain q where q: "unat A = bsz G * q" using a by (metis mod_0_imp_dvd dvdE)
    obtain t where t: "2 ^ 64 = bsz G * t" using bsz_facts(4) [OF assms(1)] by (rule dvdE)
    have "bsz G * q < bsz G * t" using q t unsigned_less [of A, where 'a = nat] by simp
    then have "q + 1 \<le> t" by simp
    then have "bsz G * (q + 1) \<le> bsz G * t" by (rule mult_le_mono2)
    then show ?thesis using q t by (simp add: algebra_simps)
  qed
  then have "unat A + r < 2 ^ 64" using lt by (simp add: r_def)
  moreover have "x = A + of_nat r" by (simp add: r_def)
  ultimately have x: "unat x = unat A + r" by (simp add: unat_word_ariths unat_of_nat take_bit_nat_def)
  have "unat x mod bsz G = r" using x a lt by (simp add: r_def mod_add_left_eq [symmetric])
  then have "unat (blkAlign G x) = unat A" using unat_align [OF assms(1), of x] x by simp
  then show "blkAlign G x = A" by (simp add: word_unat_eq_iff)
qed

lemma same_line_offset:
  assumes "wf_geom G" "unat addr mod bsz G + n \<le> bsz G" "i < n"
  shows "blkAlign G (addr + of_nat i) = blkAlign G addr"
    "unat (addr + of_nat i - blkAlign G addr) = unat addr mod bsz G + i"
proof -
  let ?off = "unat addr mod bsz G"
  note al = align_fields(3) [OF assms(1)] and lo = line_offset [OF assms(1), of addr]
  define w where "w = addr - blkAlign G addr"
  have sum: "addr + of_nat i - blkAlign G addr = w + of_nat i" by (simp add: w_def)
  have lt: "unat w + i < bsz G" using lo(1) assms(2,3) by (simp add: w_def)
  moreover have "bsz G < 2 ^ 64" using bsz_facts(3) [OF assms(1)] by simp
  ultimately have "unat (w + of_nat i) = unat w + i"
    by (simp add: unat_word_ariths unat_of_nat take_bit_nat_def)
  then show off: "unat (addr + of_nat i - blkAlign G addr) = ?off + i" unfolding sum using lo(1) by (simp add: w_def)
  then show "blkAlign G (addr + of_nat i) = blkAlign G addr"
    using lt lo(1) by (simp add: in_line [OF assms(1) al] w_def)
qed

section \<open>The view\<close>

text \<open>The bytes of a line: those of the cache if it holds the line, else those of the memory.\<close>

definition line_bytes :: "tag_geom \<Rightarrow> bool \<Rightarrow> cache_state \<Rightarrow> (u64 \<Rightarrow> u8) \<Rightarrow> u64 \<Rightarrow> u8 list" where
  "line_bytes G sec c M A = (case cached c (A, sec) of None \<Rightarrow> bytes_at M A (bsz G) | Some (d, _) \<Rightarrow> d)"

definition view :: "tag_geom \<Rightarrow> bool \<Rightarrow> cache_state \<Rightarrow> (u64 \<Rightarrow> u8) \<Rightarrow> u64 \<Rightarrow> u8" where
  "view G sec c M x = line_bytes G sec c M (blkAlign G x) ! unat (x - blkAlign G x)"

lemma view_read:
  assumes "wf_geom G" "length (line_bytes G sec c M (blkAlign G addr)) = bsz G" "unat addr mod bsz G + n \<le> bsz G"
  shows "bytes_at (view G sec c M) addr n = take n (drop (unat addr mod bsz G) (line_bytes G sec c M (blkAlign G addr)))"
proof (rule nth_equalityI)
  fix i assume i: "i < length (bytes_at (view G sec c M) addr n)"
  with same_line_offset [OF assms(1,3), of i] assms(2,3) show "bytes_at (view G sec c M) addr n ! i =
      take n (drop (unat addr mod bsz G) (line_bytes G sec c M (blkAlign G addr))) ! i"
    by (simp add: view_def)
qed (use assms in simp)

lemma view_write:
  assumes "wf_geom G" "length (line_bytes G sec c M (blkAlign G addr)) = bsz G"
    and "unat addr mod bsz G + length xs \<le> bsz G"
    and "\<And>A. blkAlign G A = A \<Longrightarrow> line_bytes G sec c' M' A =
      (if A = blkAlign G addr then overlay (unat addr mod bsz G) xs (line_bytes G sec c M A) else line_bytes G sec c M A)"
  shows "view G sec c' M' = store addr xs (view G sec c M)"
proof
  fix x
  let ?A = "blkAlign G addr" and ?off = "unat addr mod bsz G" and ?d = "line_bytes G sec c M (blkAlign G addr)"
  note al = align_fields(3) [OF assms(1)]
  show "view G sec c' M' x = store addr xs (view G sec c M) x"
  proof (cases "unat (x - addr) < length xs")
    case True
    define i where "i = unat (x - addr)"
    have x: "x = addr + of_nat i" by (simp add: i_def)
    note o = same_line_offset [OF assms(1,3) True [folded i_def]]
    then have "view G sec c' M' x = overlay ?off xs ?d ! (?off + i)"
      unfolding x by (simp add: view_def assms(4) [OF al])
    also have "\<dots> = xs ! i" using True assms(2,3) by (simp add: overlay_nth i_def)
    finally show ?thesis using True by (simp add: store_def i_def)
  next
    case False
    show ?thesis
    proof (cases "blkAlign G x = ?A")
      case True
      define r where "r = unat (x - ?A)"
      have r: "r < bsz G" using True in_line [OF assms(1) al] by (simp add: r_def)
      have "\<not> (?off \<le> r \<and> r < ?off + length xs)"
      proof
        assume h: "?off \<le> r \<and> r < ?off + length xs"
        define u v where "u = x - ?A" and "v = addr - ?A"
        have "unat u = r" "unat v = ?off" using line_offset(1) [OF assms(1), of addr] by (simp_all add: u_def v_def r_def)
        with h have "unat (u - v) = r - ?off" by (simp add: unat_sub word_le_nat_alt)
        moreover have "x - addr = u - v" by (simp add: u_def v_def)
        ultimately show False using h False by simp linarith
      qed
      then have "overlay ?off xs ?d ! r = ?d ! r" using r assms(2,3) by (subst overlay_nth) auto
      then show ?thesis using True False by (simp add: view_def store_def r_def assms(4) [OF al])
    next
      case ne: False
      then show ?thesis using False by (simp add: view_def store_def assms(4) [OF al])
    qed
  qed
qed

lemma view_same:
  assumes "wf_geom G" "\<And>A. blkAlign G A = A \<Longrightarrow> line_bytes G sec c' M' A = line_bytes G sec c M A"
  shows "view G sec c' M' = view G sec c M"
  by (rule ext) (simp add: view_def assms(2) [OF align_fields(3) [OF assms(1)]])

lemma bytes_store:
  assumes "wf_geom G" "blkAlign G A = A" "blkAlign G B = B" "length d = bsz G"
  shows "bytes_at (store A d M) B (bsz G) = (if A = B then d else bytes_at M B (bsz G))"
proof (rule nth_equalityI)
  fix i assume "i < length (bytes_at (store A d M) B (bsz G))"
  then have i: "i < bsz G" by simp
  have "unat B mod bsz G = 0" using line_offset(2) [OF assms(1), of B] assms(3) by simp
  then have o: "blkAlign G (B + of_nat i) = B" "unat (B + of_nat i - B) = i"
    using same_line_offset [OF assms(1), of B "bsz G" i] i assms(3) by simp_all
  show "bytes_at (store A d M) B (bsz G) ! i = (if A = B then d else bytes_at M B (bsz G)) ! i"
  proof (cases "A = B")
    case True
    with o i assms(4) show ?thesis by (simp add: store_def)
  next
    case False
    then have "\<not> unat (B + of_nat i - A) < bsz G" using o(1) in_line [OF assms(1,2), of "B + of_nat i"] by auto
    with False i assms(4) show ?thesis by (simp add: store_def)
  qed
qed (simp add: assms(4))

end
