(* ===== verification/Cache_Serve.thy ===== *)
theory Cache_Serve
  imports Cache_Bytes
begin

text \<open>
  What serving a request of a processor from a block does to the packet, to the block and to its bytes,
  for reads, writes, load-linked and store-conditional accesses and swaps.
\<close>

section \<open>Requests of a processor\<close>

definition cpu_cmd :: "mem_cmd \<Rightarrow> bool" where
  "cpu_cmd c \<longleftrightarrow> c \<in> set [ReadReq, LoadLockedReq, WriteReq, WriteLineReq, StoreCondReq, SwapReq]"

text \<open>
  A cacheable request of one line that no other cache answers or shares, in the memory space \<open>sec\<close>, with
  the bytes it writes or the room for those it reads. A swap has the sizes that the code accepts.
\<close>

definition cpu_ok :: "cache_cfg \<Rightarrow> tag_geom \<Rightarrow> bool \<Rightarrow> mem_packet \<Rightarrow> bool" where
  "cpu_ok cfg G sec p \<longleftrightarrow> cpu_cmd (mp_cmd p) \<and> mp_isSecure p = sec \<and> isSecure_req (mp_req p) = sec \<and>
     \<not> isUncacheable (mp_req p) \<and> \<not> mp_cacheResponding p \<and> \<not> mp_hasSharers p \<and>
     req_paddr (mp_req p) = Some (mp_addr p) \<and> req_size (mp_req p) = Some (mp_size p) \<and> req_contextId (mp_req p) \<noteq> None \<and>
     unat (mp_addr p) mod bsz G + unat (mp_size p) \<le> bsz G \<and>
     map_option length (mp_data p) = Some (unat (mp_size p)) \<and>
     unat (req_masterId (mp_req p)) < maxMasters (cenv cfg) \<and> (isReadOnly cfg \<longrightarrow> \<not> isWrite (mp_cmd p)) \<and>
     (mp_cmd p = WriteLineReq \<longrightarrow> mp_size p = blkSize G \<and> blkAlign G (mp_addr p) = mp_addr p) \<and>
     (mp_cmd p = SwapReq \<longrightarrow> unat (mp_size p) \<le> 8 \<and> (isCondSwap (mp_req p) \<longrightarrow> mp_size p = 8 \<or> mp_size p = 4))"

lemma cpu_okD:
  assumes "cpu_ok cfg G sec p"
  shows "cpu_cmd (mp_cmd p)" "mp_isSecure p = sec" "isSecure_req (mp_req p) = sec" "\<not> isUncacheable (mp_req p)"
    "\<not> mp_cacheResponding p" "\<not> mp_hasSharers p" "req_paddr (mp_req p) = Some (mp_addr p)"
    "req_size (mp_req p) = Some (mp_size p)" "req_contextId (mp_req p) \<noteq> None"
    "unat (mp_addr p) mod bsz G + unat (mp_size p) \<le> bsz G" "map_option length (mp_data p) = Some (unat (mp_size p))"
    "unat (req_masterId (mp_req p)) < maxMasters (cenv cfg)" "\<not> (isReadOnly cfg \<and> isWrite (mp_cmd p))"
    "mp_cmd p = WriteLineReq \<Longrightarrow> mp_size p = blkSize G" "mp_cmd p = WriteLineReq \<Longrightarrow> blkAlign G (mp_addr p) = mp_addr p"
    "mp_cmd p = SwapReq \<Longrightarrow> unat (mp_size p) \<le> 8"
    "mp_cmd p = SwapReq \<Longrightarrow> isCondSwap (mp_req p) \<Longrightarrow> mp_size p = 8 \<or> mp_size p = 4"
  using assms unfolding cpu_ok_def by auto

text \<open>The attributes of these commands.\<close>

lemma cpu_cmd_facts:
  assumes "cpu_cmd c"
  shows "isRequest c" "needsResponse c" "\<not> isEviction c" "\<not> isWriteback c" "\<not> isUpgrade c" "\<not> fromCache c"
    "c \<noteq> CleanEvict" "c \<noteq> InvalidateReq" "c \<noteq> SCUpgradeFailReq" "c \<noteq> StoreCondFailReq"
    "isWrite c \<or> isRead c" "needsWritable c = isWrite c" "isRead c \<Longrightarrow> hasRespData c" "isWrite c \<and> isRead c \<longleftrightarrow> c = SwapReq"
    "isLLSC c \<and> isWrite c \<longleftrightarrow> c = StoreCondReq"
  using assms by (auto simp: cpu_cmd_def cmd_tests)

section \<open>Lock lists\<close>

definition located :: "request \<Rightarrow> bool" where
  "located r \<longleftrightarrow> req_paddr r \<noteq> None \<and> req_size r \<noteq> None \<and> req_contextId r \<noteq> None"

lemma located_ops:
  assumes "located r"
  shows "\<exists>x. Lock_matches l r = Inr x" "\<exists>x. Lock_intersects l r = Inr x" "\<exists>x. Lock_new r = Inr x" "\<exists>x. contextId r = Inr x"
  using assms by (auto simp: located_def Lock_matches_def Lock_intersects_def Lock_new_def getPaddr_def getSize_def
      contextId_def valid_flag_def Let_def)

lemma located_extra [simp]: "located (setExtraData x r) = located r"
  by (simp add: located_def setExtraData_def)

lemma locks_total:
  assumes "located r"
  shows "\<exists>ls'. erase_intersecting r ls = Inr ls'" "\<exists>ls'. clear_locks r ls = Inr ls'" "\<exists>x. take_match r ls = Inr x"
proof -
  show "\<exists>ls'. erase_intersecting r ls = Inr ls'"
  proof (induction ls)
    case (Cons l ls)
    then show ?case using located_ops(2) [OF assms, of l] by auto
  qed simp
  show "\<exists>ls'. clear_locks r ls = Inr ls'"
  proof (induction ls)
    case (Cons l ls)
    then show ?case using located_ops(2) [OF assms, of l] located_ops(4) [OF assms] by auto
  qed simp
  show "\<exists>x. take_match r ls = Inr x"
  proof (induction ls)
    case (Cons l ls)
    obtain hit where "Lock_matches l r = Inr hit" using located_ops(1) [OF assms] by blast
    with Cons show ?case by (cases hit) (auto split: prod.splits)
  qed (auto intro: exI [of _ "(False, [])"] simp only: take_match.simps)
qed

lemma checkWrite_total:
  assumes "located (mp_req p)" "isWrite (mp_cmd p)"
  shows "\<exists>ok ls r. checkWrite (lock_view p) b = Inr (ok, (lock_view p)\<lparr>pkt_req := r\<rparr>, b\<lparr>blk_lockList := ls\<rparr>) \<and>
    (if isLLSC (mp_cmd p) then r = setExtraData (if ok then 1 else 0) (mp_req p) else ok \<and> r = mp_req p)"
proof (cases "isLLSC (mp_cmd p)")
  case True
  obtain ok ls where tm: "take_match (mp_req p) (blk_lockList b) = Inr (ok, ls)" using locks_total(3) [OF assms(1)] by force
  let ?r = "setExtraData (if ok then 1 else 0) (mp_req p)"
  obtain ls' where "clear_locks ?r ls = Inr ls'" using locks_total(2) [of ?r ls] assms(1) by auto
  with True tm assms(2) show ?thesis
    by (intro exI [of _ ok] exI [of _ ls'] exI [of _ ?r]) (simp add: checkWrite_def lock_view_def clearLoadLocks_def Let_def)
next
  case False
  obtain ls where "clear_locks (mp_req p) (blk_lockList b) = Inr ls" using locks_total(2) [OF assms(1)] by blast
  with False assms(2) show ?thesis
    by (intro exI [of _ True] exI [of _ ls] exI [of _ "mp_req p"])
      (cases b, auto simp: checkWrite_def lock_view_def clearLoadLocks_def)
qed

lemma trackLoadLocked_total:
  assumes "located (mp_req p)" "isLLSC (mp_cmd p)"
  shows "\<exists>ls. trackLoadLocked (lock_view p) b = Inr (b\<lparr>blk_lockList := ls\<rparr>)"
proof -
  obtain ls l where "erase_intersecting (mp_req p) (blk_lockList b) = Inr ls" "Lock_new (mp_req p) = Inr l"
    using locks_total(1) [OF assms(1)] located_ops(3) [OF assms(1)] by blast
  with assms(2) show ?thesis by (intro exI [of _ "l # ls"]) (simp add: trackLoadLocked_def lock_view_def)
qed

section \<open>Serving\<close>

text \<open>Whether a swap finds the bytes it expects.\<close>

definition swap_hits :: "mem_packet \<Rightarrow> u8 list \<Rightarrow> bool" where
  "swap_hits p old \<longleftrightarrow> (isCondSwap (mp_req p) \<longrightarrow> old = le_bytes (unat (mp_size p)) (getExtraData (mp_req p)))"

text \<open>Whether a request with response \<open>r\<close> writes, where \<open>old\<close> are the bytes at its address.\<close>

definition cpu_writes :: "mem_packet \<Rightarrow> mem_packet \<Rightarrow> u8 list \<Rightarrow> bool" where
  "cpu_writes p r old \<longleftrightarrow> isWrite (mp_cmd p) \<and> (isLLSC (mp_cmd p) \<longrightarrow> getExtraData (mp_req r) = 1) \<and>
     (mp_cmd p = SwapReq \<longrightarrow> swap_hits p old)"

lemma swap_matches_eq:
  assumes "off + unat (mp_size p) \<le> length d" "isCondSwap (mp_req p) \<Longrightarrow> mp_size p = 8 \<or> mp_size p = 4"
  shows "swap_matches p off d = Inr (swap_hits p (take (unat (mp_size p)) (drop off d)))"
  using assms by (auto simp: swap_matches_def swap_hits_def bytes_ops)

lemma same_line_locks:
  assumes "isValid b"
  shows "same_line b (b\<lparr>blk_lockList := ls\<rparr>)" "same_line b (set_status BlkDirty b)"
    "isWritable (b\<lparr>blk_lockList := ls\<rparr>) = isWritable b" "isReadable (b\<lparr>blk_lockList := ls\<rparr>) = isReadable b"
    "isWritable (set_status BlkDirty b) = isWritable b" "isReadable (set_status BlkDirty b) = isReadable b"
    "isDirty (set_status BlkDirty b)" "isDirty (b\<lparr>blk_lockList := ls\<rparr>) = isDirty b" "isValid (b\<lparr>blk_lockList := ls\<rparr>)"
  using assms by (auto simp: same_line_def status_bit status_bit2 bit_status_change bit_flags)

lemma unat_up: "unat (ucast (x :: u32) :: u64) = unat x"
proof -
  have "unat x < 2 ^ 64" using unsigned_less [of x, where 'a = nat] by simp
  then show ?thesis by (simp add: unsigned_ucast_eq take_bit_nat_eq_self)
qed

lemma offset_facts:
  assumes "wf_geom G" "unat (mp_addr p) mod bsz G + unat (mp_size p) \<le> bsz G"
  shows "unat (packet_getOffset (blkSize G) p) = unat (mp_addr p) mod bsz G"
    "nat (extractBlkOffset G (mp_addr p)) = unat (mp_addr p) mod bsz G"
    "packet_getOffset (blkSize G) p + ucast (mp_size p) \<le> ucast (blkSize G)"
proof -
  show off: "unat (packet_getOffset (blkSize G) p) = unat (mp_addr p) mod bsz G"
    unfolding packet_getOffset_def by (rule offset_mod [OF assms(1)])
  have lt: "unat (mp_addr p) mod bsz G < bsz G" using bsz_facts(2) [OF assms(1)] by simp
  show "nat (extractBlkOffset G (mp_addr p)) = unat (mp_addr p) mod bsz G"
    using offset_mod [OF assms(1), of "mp_addr p"] lt bsz_facts(3) [OF assms(1)] int_of_u64_small [of "mp_addr p AND ucast (blkSize G - 1)"]
    by (simp add: extractBlkOffset_def)
  have "bsz G < 2 ^ 32" using bsz_facts(3) [OF assms(1)] by simp
  then show "packet_getOffset (blkSize G) p + ucast (mp_size p) \<le> ucast (blkSize G)"
    using assms(2) off by (simp add: word_le_nat_alt unat_word_ariths unat_up)
qed

text \<open>The packet after it has been served, and the data and status of the block.\<close>

definition served_packet :: "mem_packet \<Rightarrow> u8 list \<Rightarrow> mem_packet \<Rightarrow> bool" where
  "served_packet p old r \<longleftrightarrow> r = p\<lparr>mp_req := mp_req r, mp_data := mp_data r\<rparr> \<and>
     (isRead (mp_cmd p) \<longrightarrow> mp_data r = Some old) \<and>
     (if mp_cmd p = StoreCondReq then \<exists>ok. mp_req r = setExtraData (if ok then 1 else 0) (mp_req p) else mp_req r = mp_req p)"

definition served_data :: "mem_packet \<Rightarrow> mem_packet \<Rightarrow> nat \<Rightarrow> u8 list \<Rightarrow> u8 list" where
  "served_data p r off d =
     (if cpu_writes p r (take (unat (mp_size p)) (drop off d)) then overlay off (the (mp_data p)) d else d)"

definition served_blk :: "cache_blk \<Rightarrow> bool \<Rightarrow> cache_blk \<Rightarrow> bool" where
  "served_blk b wrote b' \<longleftrightarrow> same_line b b' \<and> isWritable b' = isWritable b \<and> isReadable b' = isReadable b \<and>
     (wrote \<or> isDirty b \<longrightarrow> isDirty b')"

lemma upd_blk_id: "upd_blk i (\<lambda>_. blks ts ! i) ts = ts"
  by (simp add: upd_blk_def)

lemma copy_ops:
  assumes "mp_data p = Some xs" "length xs = unat (mp_size p)" "off + unat (mp_size p) \<le> length d"
  shows "setData off d p = Inr (p\<lparr>mp_data := Some (take (unat (mp_size p)) (drop off d))\<rparr>)"
    "writeData off p d = Inr (overlay off xs d)"
  using assms by (simp_all add: setData_def writeData_def getPtr_def valid_flag_def bytes_ops overlay_def)

lemma satisfy_cpu:
  assumes inv: "wf_geom (geom (ctags c))" "i < length (blks (ctags c))" "length (cdata c) = length (blks (ctags c))"
    and b: "isValid (blks (ctags c) ! i)" "isWritable (blks (ctags c) ! i)" "length (cdata c ! i) = bsz (geom (ctags c))"
    and p: "cpu_ok cfg (geom (ctags c)) sec p"
  shows "\<exists>r b'. satisfyRequest cfg p (InTags i) False False c = Inr (r, c\<lparr>ctags := upd_blk i (\<lambda>_. b') (ctags c),
      cdata := (cdata c)[i := served_data p r (unat (mp_addr p) mod bsz (geom (ctags c))) (cdata c ! i)]\<rparr>) \<and>
    served_packet p (take (unat (mp_size p)) (drop (unat (mp_addr p) mod bsz (geom (ctags c))) (cdata c ! i))) r \<and>
    served_blk (blks (ctags c) ! i)
      (cpu_writes p r (take (unat (mp_size p)) (drop (unat (mp_addr p) mod bsz (geom (ctags c))) (cdata c ! i)))) b'"
proof -
  let ?G = "geom (ctags c)" and ?b = "blks (ctags c) ! i" and ?d = "cdata c ! i"
  define off n where "off = unat (mp_addr p) mod bsz ?G" and "n = unat (mp_size p)"
  note ok = cpu_okD [OF p] and cmd = cpu_cmd_facts [OF cpu_okD(1) [OF p]] and o = offset_facts [OF inv(1) cpu_okD(10) [OF p]]
  obtain xs where xs: "mp_data p = Some xs" "length xs = n" using ok(11) by (auto simp: n_def)
  have fits: "off + n \<le> length ?d" using ok(10) b(3) by (simp add: off_def n_def)
  note cp = copy_ops [OF xs(1) xs(2) [unfolded n_def] fits [unfolded n_def], folded n_def]
  have loc: "located (mp_req p)" using ok(7-9) by (simp add: located_def)
  have start: "satisfyRequest cfg p (InTags i) False False c =
     (if mp_cmd p = SwapReq then cmpAndSwap (InTags i) p c
     else if isWrite (mp_cmd p)
     then bindE (checkWrite (lock_view p) ?b) (\<lambda>(ok, v, b).
          let p = p\<lparr>mp_req := pkt_req v\<rparr>; c = upd_cblk (InTags i) (\<lambda>_. b) c in
          bindE (if ok then bindE (writeDataToBlock p (get_data (InTags i) c) (blkSize ?G)) (\<lambda>d. Inr (set_data (InTags i) d c))
            else Inr c) (\<lambda>c. Inr (p, upd_cblk (InTags i) (set_status BlkDirty) c)))
     else bindE (if isLLSC (mp_cmd p)
            then bindE (trackLoadLocked (lock_view p) ?b) (\<lambda>b. Inr (upd_cblk (InTags i) (\<lambda>_. b) c))
            else Inr c) (\<lambda>c. bindE (setDataFromBlock (get_data (InTags i) c) (blkSize ?G) p) (\<lambda>p. Inr (p, c))))"
    using cmd b o(3) by (auto simp: satisfyRequest_def Let_def setDataFromBlock_def setData_def bindE_def split: sum.splits)
  let ?old = "take n (drop off ?d)"
  show ?thesis
  proof (cases "mp_cmd p = SwapReq")
    case True
    let ?r = "p\<lparr>mp_data := Some ?old\<rparr>" and ?b' = "if swap_hits p ?old then set_status BlkDirty ?b else ?b"
    have "swap_matches p off ?d = Inr (swap_hits p ?old)"
      unfolding n_def by (rule swap_matches_eq) (use fits ok(17) [OF True] in \<open>simp_all add: n_def\<close>)
    moreover have "nat (extractBlkOffset ?G (mp_addr p)) = off" using o(2) by (simp add: off_def)
    ultimately have "satisfyRequest cfg p (InTags i) False False c = Inr (?r, c\<lparr>ctags := upd_blk i (\<lambda>_. ?b') (ctags c),
        cdata := (cdata c)[i := served_data p ?r off ?d]\<rparr>)"
      unfolding start using True ok(16) [OF True] cmd(1) inv(2,3) cp
      by (simp add: cmpAndSwap_def served_data_def cpu_writes_def cmd_tests n_def [symmetric] xs upd_blk_id)
        (simp add: upd_blk_def Let_def)
    moreover have "served_packet p ?old ?r" using True by (simp add: served_packet_def)
    moreover have "served_blk ?b (cpu_writes p ?r ?old) ?b'"
      using True same_line_locks [OF b(1)] same_line_changes(5) by (simp add: served_blk_def cpu_writes_def)
    ultimately show ?thesis unfolding off_def n_def by blast
  next
    case ns: False
    show ?thesis
    proof (cases "isWrite (mp_cmd p)")
      case True
      obtain w ls r where cw: "checkWrite (lock_view p) ?b = Inr (w, (lock_view p)\<lparr>pkt_req := r\<rparr>, ?b\<lparr>blk_lockList := ls\<rparr>)"
        and r: "if isLLSC (mp_cmd p) then r = setExtraData (if w then 1 else 0) (mp_req p) else w \<and> r = mp_req p"
        using checkWrite_total [OF loc True] by blast
      let ?r = "p\<lparr>mp_req := r\<rparr>" and ?b' = "set_status BlkDirty (?b\<lparr>blk_lockList := ls\<rparr>)"
      have sc: "isLLSC (mp_cmd p) \<longleftrightarrow> mp_cmd p = StoreCondReq" using cmd(15) True by blast
      have wr: "cpu_writes p ?r ?old = w"
        using True ns r by (auto simp: cpu_writes_def getExtraData_def setExtraData_def split: if_splits)
      have "writeDataToBlock ?r ?d (blkSize ?G) = Inr (overlay off xs ?d)"
        using cp(2) o(1) by (simp add: writeDataToBlock_def writeData_def getPtr_def packet_getOffset_def off_def)
      then have "satisfyRequest cfg p (InTags i) False False c = Inr (?r, c\<lparr>ctags := upd_blk i (\<lambda>_. ?b') (ctags c),
          cdata := (cdata c)[i := served_data p ?r off ?d]\<rparr>)"
        unfolding start using True ns cw inv(2,3) wr
        by (simp add: served_data_def n_def [symmetric] xs lock_view_def) (simp add: upd_blk_def)
      moreover have "served_packet p ?old ?r" using r sc cmd(14) True ns by (auto simp: served_packet_def)
      moreover have "served_blk ?b (cpu_writes p ?r ?old) ?b'"
        using same_line_locks [OF b(1)] same_line_locks [of "?b\<lparr>blk_lockList := ls\<rparr>"]
        by (auto simp: served_blk_def intro: same_line_trans)
      ultimately show ?thesis unfolding off_def n_def by blast
    next
      case False
      let ?r = "p\<lparr>mp_data := Some ?old\<rparr>"
      obtain ls where ls: "(if isLLSC (mp_cmd p)
            then bindE (trackLoadLocked (lock_view p) ?b) (\<lambda>b. Inr (upd_cblk (InTags i) (\<lambda>_. b) c))
            else Inr c) = Inr (upd_cblk (InTags i) (\<lambda>_. ?b\<lparr>blk_lockList := ls\<rparr>) c)"
      proof (cases "isLLSC (mp_cmd p)")
        case True
        with trackLoadLocked_total [OF loc True, of ?b] that show ?thesis by auto
      next
        case False
        with that [of "blk_lockList ?b"] show ?thesis by (simp add: upd_blk_id)
      qed
      have "setDataFromBlock ?d (blkSize ?G) p = Inr ?r"
        using cp(1) o(1) by (simp add: setDataFromBlock_def off_def)
      then have "satisfyRequest cfg p (InTags i) False False c = Inr (?r, c\<lparr>ctags := upd_blk i (\<lambda>_. ?b\<lparr>blk_lockList := ls\<rparr>) (ctags c),
          cdata := (cdata c)[i := served_data p ?r off ?d]\<rparr>)"
        unfolding start ls using False ns by (simp add: served_data_def cpu_writes_def)
      moreover have "mp_cmd p \<noteq> StoreCondReq" using False cmd(15) by blast
      then have "served_packet p ?old ?r" by (simp add: served_packet_def)
      moreover have "served_blk ?b (cpu_writes p ?r ?old) (?b\<lparr>blk_lockList := ls\<rparr>)"
        using False same_line_locks [OF b(1)] by (simp add: served_blk_def cpu_writes_def)
      ultimately show ?thesis unfolding off_def n_def by blast
    qed
  qed
qed

end
