(* ===== verification/Cache_System.thy ===== *)
theory Cache_System
  imports Cache_Serve
begin

text \<open>
  A cache over a memory that holds no other copies: the relation of their contents, and what a lookup, a fill
  with the eviction it causes, and serving a request do to the bytes both hold together.
\<close>

section \<open>The relation\<close>

text \<open>
  A valid block can be read and written, it is of the memory space \<open>sec\<close> and within the memory, and if it is
  clean it has the bytes of the memory.
\<close>

definition line_ok :: "tag_geom \<Rightarrow> bool \<Rightarrow> (u64 \<Rightarrow> bool) \<Rightarrow> (u64 \<Rightarrow> u8) \<Rightarrow> cache_blk \<Rightarrow> u8 list \<Rightarrow> bool" where
  "line_ok G sec inside M b d \<longleftrightarrow> length d = bsz G \<and>
     (isValid b \<longrightarrow> isWritable b \<and> isReadable b \<and> isSecure b = sec \<and> inside (fst (line G b)) \<and>
       (\<not> isDirty b \<longrightarrow> d = bytes_at M (fst (line G b)) (bsz G)))"

definition sys_ok :: "cache_cfg \<Rightarrow> tag_geom \<Rightarrow> bool \<Rightarrow> (u64 \<Rightarrow> bool) \<Rightarrow> cache_state \<Rightarrow> (u64 \<Rightarrow> u8) \<Rightarrow> bool" where
  "sys_ok cfg G sec inside c M \<longleftrightarrow> cache_inv cfg c \<and> geom (ctags c) = G \<and>
     (\<forall>i < length (blks (ctags c)). line_ok G sec inside M (blks (ctags c) ! i) (cdata c ! i))"

lemma sys_okD:
  assumes "sys_ok cfg G sec inside c M"
  shows "cache_inv cfg c" "tags_inv (ctags c)" "counted (cenv cfg) (ctags c)" "geom (ctags c) = G" "wf_geom G"
    "length (cdata c) = length (blks (ctags c))"
    "i < length (blks (ctags c)) \<Longrightarrow> line_ok G sec inside M (blks (ctags c) ! i) (cdata c ! i)"
  using assms tags_invD(1) by (auto simp: sys_ok_def cache_inv_def)

lemma line_is_aligned:
  assumes "tags_inv ts" "i < length (blks ts)" "vld ts i"
  shows "blkAlign (geom ts) (fst (line_at ts i)) = fst (line_at ts i)"
proof -
  have "extractTag (geom ts) (fst (line_at ts i)) = blk_tag (blks ts ! i)"
    "extractSet (geom ts) (fst (line_at ts i)) = blk_set (blks ts ! i)"
    using tags_invD(6) [OF assms(1,2)] assms(3) by (simp_all add: blk_ok_def)
  with regenerate_align [OF tags_invD(1) [OF assms(1)], of "fst (line_at ts i)"] show ?thesis by (simp add: line_def)
qed

lemma sys_line:
  assumes "sys_ok cfg G sec inside c M"
  shows "holds (ctags c) (A, sec) i \<Longrightarrow> line_bytes G sec c M A = cdata c ! i"
    "\<forall>i. \<not> holds (ctags c) (A, sec) i \<Longrightarrow> line_bytes G sec c M A = bytes_at M A (bsz G)"
    "length (line_bytes G sec c M A) = bsz G"
proof -
  show held: "holds (ctags c) (A, sec) i \<Longrightarrow> line_bytes G sec c M A = cdata c ! i" for i
    using cached_holds [OF sys_okD(2) [OF assms]] by (simp add: line_bytes_def)
  show none: "\<forall>i. \<not> holds (ctags c) (A, sec) i \<Longrightarrow> line_bytes G sec c M A = bytes_at M A (bsz G)"
    by (simp add: line_bytes_def cached_None [THEN iffD2])
  show "length (line_bytes G sec c M A) = bsz G"
  proof (cases "\<exists>i. holds (ctags c) (A, sec) i")
    case True
    then obtain i where i: "holds (ctags c) (A, sec) i" ..
    then have "i < length (blks (ctags c))" by (simp add: holds_def)
    from sys_okD(7) [OF assms this] held [OF i] show ?thesis by (simp add: line_ok_def)
  qed (use none in simp)
qed

section \<open>Changing one block\<close>

text \<open>
  Block \<open>i\<close> now holds line \<open>A\<close> with the bytes \<open>d\<close>, and the memory has those of the line the block held before, if
  this was another one.
\<close>

lemma sys_put:
  assumes sys: "sys_ok cfg G sec inside c M" and i: "i < length (blks (ctags c))"
    and c': "cache_inv cfg c'" "geom (ctags c') = G" "blks (ctags c') = (blks (ctags c))[i := b]" "cdata c' = (cdata c)[i := d]"
    and b: "line_ok G sec inside M' b d" "isValid b" "line G b = (A, sec)"
    and mem: "\<And>B. blkAlign G B = B \<Longrightarrow> B \<noteq> A \<Longrightarrow>
      bytes_at M' B (bsz G) = (if holds (ctags c) (B, sec) i then cdata c ! i else bytes_at M B (bsz G))"
  shows "sys_ok cfg G sec inside c' M'"
    "blkAlign G B = B \<Longrightarrow> line_bytes G sec c' M' B = (if B = A then d else line_bytes G sec c M B)"
proof -
  let ?ts = "ctags c" and ?ts' = "ctags c'"
  note s = sys_okD [OF sys]
  have ti': "tags_inv ?ts'" using c'(1) by (simp add: cache_inv_def)
  have nth: "blks ?ts' ! j = (if j = i then b else blks ?ts ! j)" "cdata c' ! j = (if j = i then d else cdata c ! j)"
    "length (blks ?ts') = length (blks ?ts)" for j
    using i s(6) by (auto simp: c' nth_list_update)
  have new: "holds ?ts' (A, sec) i" using i b by (simp add: holds_def nth c'(2))
  have other: "holds ?ts' (B, sec) j \<longleftrightarrow> holds ?ts (B, sec) j \<and> j \<noteq> i" if "B \<noteq> A" for B j
    using that b(3) by (auto simp: holds_def nth c'(2) s(4))
  have "line_ok G sec inside M' (blks ?ts' ! j) (cdata c' ! j)" if j: "j < length (blks ?ts')" for j
  proof (cases "j = i")
    case True
    with b(1) show ?thesis by (simp add: nth)
  next
    case False
    let ?B = "fst (line_at ?ts j)"
    note ok = s(7) [OF j [unfolded nth(3)]]
    have "bytes_at M' ?B (bsz G) = bytes_at M ?B (bsz G)" if v: "vld ?ts j"
    proof -
      have "line_at ?ts j = (?B, sec)" using v ok by (simp add: line_ok_def line_def s(4))
      then have h: "holds ?ts (?B, sec) j" "holds ?ts' (?B, sec) j" using v j False by (simp_all add: holds_def nth s(4) c'(2))
      have "?B \<noteq> A" using new h(2) False tags_invD(7) [OF ti', of i j] by (auto simp: holds_def)
      moreover have "\<not> holds ?ts (?B, sec) i" using h(1) False tags_invD(7) [OF s(2), of i j] by (auto simp: holds_def)
      moreover have "blkAlign G ?B = ?B" using line_is_aligned [OF s(2)] h(1) s(4) by (simp add: holds_def)
      ultimately show ?thesis using mem by simp
    qed
    with ok False show ?thesis by (auto simp: line_ok_def nth s(4))
  qed
  then show sys': "sys_ok cfg G sec inside c' M'" using c'(1,2) by (simp add: sys_ok_def)
  show "line_bytes G sec c' M' B = (if B = A then d else line_bytes G sec c M B)" if al: "blkAlign G B = B"
  proof (cases "B = A")
    case True
    with sys_line(1) [OF sys' new] show ?thesis by (simp add: nth)
  next
    case False
    note m = mem [OF al False] and o = other [OF False]
    show ?thesis
    proof (cases "\<exists>j. holds ?ts (B, sec) j")
      case True
      then obtain j where j: "holds ?ts (B, sec) j" ..
      show ?thesis
      proof (cases "j = i")
        case True
        then have "\<forall>k. \<not> holds ?ts' (B, sec) k" using o j tags_invD(7) [OF s(2)] by (auto simp: holds_def)
        with sys_line(2) [OF sys'] sys_line(1) [OF sys j] m j True False show ?thesis by simp
      next
        case ne: False
        then have "holds ?ts' (B, sec) j" using o j by simp
        with sys_line(1) [OF sys'] sys_line(1) [OF sys j] ne False show ?thesis by (simp add: nth)
      qed
    next
      case none: False
      then have "\<forall>k. \<not> holds ?ts' (B, sec) k" using o by blast
      with sys_line(2) [OF sys'] sys_line(2) [OF sys] m none False show ?thesis by simp
    qed
  qed
qed

lemma holds_line:
  assumes "sys_ok cfg G sec inside c M" "holds (ctags c) (A, sec) i"
  shows "i < length (blks (ctags c))" "vld (ctags c) i" "line G (blks (ctags c) ! i) = (A, sec)"
    "line_ok G sec inside M (blks (ctags c) ! i) (cdata c ! i)"
    "\<And>B. B \<noteq> A \<Longrightarrow> \<not> holds (ctags c) (B, sec) i"
  using assms sys_okD(7) [OF assms(1)] sys_okD(4) [OF assms(1)] by (auto simp: holds_def)

section \<open>Lookup\<close>

lemma access_sys:
  assumes sys: "sys_ok cfg G sec inside c M" and clk: "clockPeriod (cenv cfg) \<noteq> 0"
  shows "\<exists>r lat ts. LRU_accessBlock (cenv cfg) addr sec (ctags c) = Inr (r, lat, ts) \<and>
    sys_ok cfg G sec inside (c\<lparr>ctags := ts\<rparr>) M \<and>
    (\<forall>B. blkAlign G B = B \<longrightarrow> line_bytes G sec (c\<lparr>ctags := ts\<rparr>) M B = line_bytes G sec c M B) \<and>
    (case r of None \<Rightarrow> \<forall>i. \<not> holds ts (blkAlign G addr, sec) i | Some i \<Rightarrow> holds ts (blkAlign G addr, sec) i)"
proof -
  let ?ts = "ctags c" and ?k = "(blkAlign G addr, sec)"
  note s = sys_okD [OF sys]
  obtain r lat st where acc: "LRU_accessBlock (cenv cfg) addr sec ?ts = Inr (r, lat, case r of
        None \<Rightarrow> ?ts\<lparr>stats := st\<rparr>
      | Some p \<Rightarrow> place (home ?ts p) (p # remove1 p (sets ?ts ! home ?ts p)) p
          ((blks ?ts ! p)\<lparr>blk_refCount := blk_refCount (blks ?ts ! p) + 1\<rparr>) st ?ts)"
    and st: "tagsInUse st = tagsInUse (stats ?ts)" "occupancies st = occupancies (stats ?ts)"
    and r: "case r of None \<Rightarrow> \<forall>p. \<not> holds ?ts ?k p | Some p \<Rightarrow> holds ?ts ?k p \<and> home ?ts p = set_of ?ts addr"
    using access_effect [OF s(2) clk] s(4) by blast
  show ?thesis
  proof (cases r)
    case None
    have "cache_inv cfg (c\<lparr>ctags := ?ts\<lparr>stats := st\<rparr>\<rparr>)"
      using s(2,3,6) st by (simp add: cache_inv_def tags_inv_def set_ok_def counted_def)
    moreover have "holds (?ts\<lparr>stats := st\<rparr>) k i = holds ?ts k i" for k i by (simp add: holds_def)
    moreover from this have "cached (c\<lparr>ctags := ?ts\<lparr>stats := st\<rparr>\<rparr>) k = cached c k" for k
      by (simp add: cached_def cong: find_cong)
    ultimately show ?thesis using acc None r s(4,7)
      by (intro exI [of _ None] exI [of _ lat] exI [of _ "?ts\<lparr>stats := st\<rparr>"]) (simp add: sys_ok_def line_bytes_def)
  next
    case (Some i)
    let ?b = "(blks ?ts ! i)\<lparr>blk_refCount := blk_refCount (blks ?ts ! i) + 1\<rparr>"
    let ?c = "c\<lparr>ctags := place (home ?ts i) (i # remove1 i (sets ?ts ! home ?ts i)) i ?b st ?ts\<rparr>"
    have h: "holds ?ts ?k i" using r Some by simp
    note l = holds_line [OF sys h] and same = same_line_changes(4) [of "blks ?ts ! i" "blk_refCount (blks ?ts ! i) + 1"]
    have inv: "cache_inv cfg ?c"
      using inv_access [OF s(2) l(1,2) same] counted_same [OF s(3) l(1) same st] s(6) by (simp add: cache_inv_def)
    have ln: "line G ?b = ?k" using same_lineD(1) [OF same] l(3) by simp
    have "line_ok G sec inside M ?b (cdata c ! i)" "isValid ?b"
      using l(2,4) unfolding line_ok_def ln l(3) by (simp_all add: status_bit status_bit2)
    note put = sys_put [OF sys l(1) inv _ _ _ this ln]
    have "sys_ok cfg G sec inside ?c M" "\<And>B. blkAlign G B = B \<Longrightarrow> line_bytes G sec ?c M B = line_bytes G sec c M B"
      using put l(5) s(4) sys_line(1) [OF sys h] by auto
    moreover have "holds (place (home ?ts i) (i # remove1 i (sets ?ts ! home ?ts i)) i ?b st ?ts) ?k i"
      using l(1) \<open>isValid ?b\<close> ln s(4) by (simp add: holds_def)
    ultimately show ?thesis using acc Some by auto
  qed
qed

section \<open>Serving\<close>

text \<open>A write of a whole line does not depend on the bytes the block has.\<close>

lemma satisfy_over:
  assumes inv: "wf_geom (geom (ctags c))" "i < length (blks (ctags c))" "length (cdata c) = length (blks (ctags c))"
    and b: "isValid (blks (ctags c) ! i)" "isWritable (blks (ctags c) ! i)" "length (cdata c ! i) = bsz (geom (ctags c))"
    and p: "cpu_ok cfg (geom (ctags c)) sec p"
    and D: "length (D ! i) = bsz (geom (ctags c))" "\<And>x. D[i := x] = (cdata c)[i := x]" "D = cdata c \<or> mp_cmd p = WriteLineReq"
  shows "\<exists>r b'. satisfyRequest cfg p (InTags i) False False (c\<lparr>cdata := D\<rparr>) = Inr (r, c\<lparr>ctags := upd_blk i (\<lambda>_. b') (ctags c),
      cdata := (cdata c)[i := served_data p r (unat (mp_addr p) mod bsz (geom (ctags c))) (cdata c ! i)]\<rparr>) \<and>
    served_packet p (take (unat (mp_size p)) (drop (unat (mp_addr p) mod bsz (geom (ctags c))) (cdata c ! i))) r \<and>
    served_blk (blks (ctags c) ! i)
      (cpu_writes p r (take (unat (mp_size p)) (drop (unat (mp_addr p) mod bsz (geom (ctags c))) (cdata c ! i)))) b'"
proof (cases "D = cdata c")
  case True
  then have "c\<lparr>cdata := D\<rparr> = c" by simp
  with satisfy_cpu [OF inv b p] show ?thesis by simp
next
  case False
  with D(3) have wl: "mp_cmd p = WriteLineReq" by simp
  let ?G = "geom (ctags c)"
  obtain xs where xs: "mp_data p = Some xs" "length xs = bsz ?G" using cpu_okD(11,14) [OF p] wl by auto
  have off: "unat (mp_addr p) mod bsz ?G = 0"
    using line_offset(2) [OF inv(1), of "mp_addr p"] cpu_okD(15) [OF p wl] by simp
  have len: "length D = length (blks (ctags c))" using D(2) [of "[]"] inv(3) by (metis length_list_update)
  have w: "cpu_writes p r old" for r old using wl by (simp add: cpu_writes_def cmd_tests)
  have d: "served_data p r 0 d = xs" if "length d = bsz ?G" for r d
    using that xs by (simp add: served_data_def w overlay_def)
  have pk: "served_packet p old r = served_packet p old' r" for old old' r
    using wl by (simp add: served_packet_def cmd_tests)
  from satisfy_cpu [of "c\<lparr>cdata := D\<rparr>" i cfg sec p] inv b(1,2) p D(1,2) len show ?thesis
    by (simp add: off d b(3) w) (metis pk)
qed

lemma serve_sys:
  assumes sys: "sys_ok cfg G sec inside c M" and h: "holds (ctags c) (blkAlign G (mp_addr p), sec) i" and p: "cpu_ok cfg G sec p"
    and D: "length (D ! i) = bsz G" "\<And>x. D[i := x] = (cdata c)[i := x]" "D = cdata c \<or> mp_cmd p = WriteLineReq"
  shows "\<exists>r c'. satisfyRequest cfg p (InTags i) False False (c\<lparr>cdata := D\<rparr>) = Inr (r, c') \<and>
      served_packet p (bytes_at (view G sec c M) (mp_addr p) (unat (mp_size p))) r \<and>
      sys_ok cfg G sec inside c' M \<and> view G sec c' M =
         (if cpu_writes p r (bytes_at (view G sec c M) (mp_addr p) (unat (mp_size p)))
          then store (mp_addr p) (the (mp_data p)) (view G sec c M) else view G sec c M)"
proof -
  let ?ts = "ctags c" and ?A = "blkAlign G (mp_addr p)" and ?off = "unat (mp_addr p) mod bsz G" and ?n = "unat (mp_size p)"
  note s = sys_okD [OF sys] and l = holds_line [OF sys h] and ok = cpu_okD [OF p]
  define old where "old = take ?n (drop ?off (cdata c ! i))"
  have d: "length (cdata c ! i) = bsz G" "isWritable (blks ?ts ! i)" "isReadable (blks ?ts ! i)"
    using l(2,4) by (simp_all add: line_ok_def)
  have lb: "line_bytes G sec c M ?A = cdata c ! i" by (rule sys_line(1) [OF sys h])
  have old: "bytes_at (view G sec c M) (mp_addr p) ?n = old"
    using view_read [OF s(5) sys_line(3) [OF sys] ok(10)] lb by (simp add: old_def)
  obtain r b where run: "satisfyRequest cfg p (InTags i) False False (c\<lparr>cdata := D\<rparr>) = Inr (r, c\<lparr>ctags := upd_blk i (\<lambda>_. b) ?ts,
      cdata := (cdata c)[i := served_data p r ?off (cdata c ! i)]\<rparr>)"
    and r: "served_packet p old r" and b: "served_blk (blks ?ts ! i) (cpu_writes p r old) b"
    using satisfy_over [of c i cfg sec p D] s(4-6) l(1,2) d p D unfolding old_def by auto
  let ?d = "served_data p r ?off (cdata c ! i)"
  let ?c = "c\<lparr>ctags := upd_blk i (\<lambda>_. b) ?ts, cdata := (cdata c)[i := ?d]\<rparr>"
  have sl: "same_line (blks ?ts ! i) b" using b by (simp add: served_blk_def)
  note keep = same_line_keeps [OF s(2) l(1), of "\<lambda>_. b", OF sl]
  have inv: "cache_inv cfg ?c" using keep(1,2) s(3,6) by (simp add: cache_inv_def upd_blk_def)
  have ln: "line G b = (?A, sec)" using same_lineD(1) [OF sl] l(3) by simp
  obtain xs where xs: "mp_data p = Some xs" "length xs = ?n" using ok(11) by auto
  have len: "length ?d = bsz G" using d(1) ok(10) xs by (simp add: served_data_def)
  have v: "isValid b" "isSecure b = sec" using sl l(2,4) by (simp_all add: same_line_def line_ok_def)
  have "line_ok G sec inside M b ?d"
    using b l(2,4) d len v unfolding line_ok_def ln l(3) by (auto simp: served_blk_def served_data_def old_def)
  note put = sys_put [OF sys l(1) inv _ _ _ this v(1) ln]
  have sys': "sys_ok cfg G sec inside ?c M" and lines: "blkAlign G B = B \<Longrightarrow>
      line_bytes G sec ?c M B = (if B = ?A then ?d else line_bytes G sec c M B)" for B
    using put l(5) s(4) by (auto simp: upd_blk_def)
  have "view G sec ?c M = (if cpu_writes p r old then store (mp_addr p) xs (view G sec c M) else view G sec c M)"
  proof (cases "cpu_writes p r old")
    case True
    then have "?d = overlay ?off xs (cdata c ! i)" by (simp add: served_data_def old_def xs)
    then show ?thesis using True view_write [OF s(5) sys_line(3) [OF sys], of "mp_addr p" xs ?c M] lines ok(10) xs(2) lb by auto
  next
    case False
    then have "?d = cdata c ! i" by (simp add: served_data_def old_def)
    then show ?thesis using False view_same [OF s(5), of sec ?c M c M] lines lb by auto
  qed
  with run r sys' xs(1) show ?thesis unfolding old by (intro exI [of _ r] exI [of _ ?c]) simp
qed

section \<open>Evictions\<close>

text \<open>What an eviction does to the memory, and the evictions the cache sends.\<close>

definition wb_store :: "wb_packet \<Rightarrow> (u64 \<Rightarrow> u8) \<Rightarrow> u64 \<Rightarrow> u8" where
  "wb_store w M = (if wb_cmd w = WritebackDirty then store (wb_addr w) (the (wb_data w)) M else M)"

definition wb_ok :: "tag_geom \<Rightarrow> (u64 \<Rightarrow> bool) \<Rightarrow> wb_packet \<Rightarrow> bool" where
  "wb_ok G inside w \<longleftrightarrow> inside (wb_addr w) \<and> wb_cmd w \<in> {WritebackDirty, WritebackClean, CleanEvict} \<and>
     (wb_cmd w = WritebackDirty \<longrightarrow> map_option length (wb_data w) = Some (bsz G))"

lemma evicted_sys:
  assumes sys: "sys_ok cfg G sec inside c M" and i: "i < length (blks (ctags c))"
  shows "list_all (wb_ok G inside) (evicted cfg c i)"
    "blkAlign G B = B \<Longrightarrow> bytes_at (fold wb_store (evicted cfg c i) M) B (bsz G) =
      (if holds (ctags c) (B, sec) i then cdata c ! i else bytes_at M B (bsz G))"
proof -
  let ?b = "blks (ctags c) ! i"
  note s = sys_okD [OF sys] and ok = sys_okD(7) [OF sys i]
  show "list_all (wb_ok G inside) (evicted cfg c i)"
    using ok s(4) by (auto simp: evicted_def wb_ok_def line_ok_def Let_def)
  assume al: "blkAlign G B = B"
  show "bytes_at (fold wb_store (evicted cfg c i) M) B (bsz G) =
      (if holds (ctags c) (B, sec) i then cdata c ! i else bytes_at M B (bsz G))"
  proof (cases "isValid ?b")
    case True
    define V where "V = fst (line G ?b)"
    have V: "line G ?b = (V, sec)" using True ok by (simp add: V_def line_ok_def line_def)
    have h: "holds (ctags c) (B, sec) i \<longleftrightarrow> B = V" using True i V s(4) by (auto simp: holds_def)
    have "blkAlign G V = V" using line_is_aligned [OF s(2) i True] s(4) by (simp add: V_def)
    note bs = bytes_store [OF s(5) this al, of "cdata c ! i" M]
    show ?thesis using True ok bs V unfolding h
      by (auto simp: evicted_def Let_def wb_store_def s(4) line_ok_def)
  next
    case False
    then show ?thesis by (simp add: evicted_def holds_def)
  qed
qed

section \<open>Filling\<close>

text \<open>
  A line that is absent enters the cache with the bytes of the memory. A write of a whole line enters without
  them, and the cache differs from the one with the bytes in the data of this block only.
\<close>

lemma fill_sys:
  assumes sys: "sys_ok cfg G sec inside c M" and cfg: "\<not> isReadOnly cfg \<or> writebackClean cfg"
    and pkt: "fill_ok cfg G pkt" "pkt_isSecure pkt = sec" "\<not> pkt_hasSharers pkt" "\<not> pkt_cacheResponding pkt" "inside (pkt_addr pkt)"
      "pkt_isRead pkt \<Longrightarrow> pkt_data pkt = bytes_at M (pkt_addr pkt) (bsz G)"
    and miss: "\<forall>i. \<not> holds (ctags c) (pkt_addr pkt, sec) i"
  shows "\<exists>i wbs c'. handleFill cfg (\<lambda>_ _. None) (\<lambda>_ _. False) pkt None [] True c =
      Inr (InTags i, wbs, c'\<lparr>cdata := if pkt_isRead pkt then cdata c' else cdata c\<rparr>) \<and>
    cdata c' = (cdata c)[i := bytes_at M (pkt_addr pkt) (bsz G)] \<and> holds (ctags c') (pkt_addr pkt, sec) i \<and>
    list_all (wb_ok G inside) wbs \<and> sys_ok cfg G sec inside c' (fold wb_store wbs M) \<and>
    (\<forall>B. blkAlign G B = B \<longrightarrow> line_bytes G sec c' (fold wb_store wbs M) B = line_bytes G sec c M B)"
proof -
  let ?ts = "ctags c" and ?A = "pkt_addr pkt" and ?d = "bytes_at M (pkt_addr pkt) (bsz G)"
  note s = sys_okD [OF sys]
  define i where "i = last (sets ?ts ! set_of ?ts ?A)"
  let ?wbs = "evicted cfg c i" and ?M = "fold wb_store (evicted cfg c i) M"
  note v = victim_last [OF s(2), of ?A, folded i_def] and pk = pkt(1) [folded s(4)]
  have al: "blkAlign G ?A = ?A" using pkt(1) by (simp add: fill_ok_def)
  obtain b st n u where fe: "handleFill cfg (\<lambda>_ _. None) (\<lambda>_ _. False) pkt None [] True c = Inr (InTags i, [] @ ?wbs,
      c\<lparr>ctags := place (home ?ts i) (i # remove1 i (sets ?ts ! home ?ts i)) i b st ?ts,
        cdata := (if pkt_isRead pkt then (cdata c)[i := pkt_data pkt] else cdata c), writebackCount := n, unusedPrefetches := u\<rparr>)"
    and b: "filled (geom ?ts) pkt (blks ?ts ! i) b"
    and st: "tagsInUse st = tagsInUse (stats ?ts) + (if vld ?ts i then 0 else 1)"
      "occupancies st = moved_occ (int (unat (req_masterId (pkt_req pkt)))) (blks ?ts ! i) (occupancies (stats ?ts))"
    using fill_effect [OF s(1) cfg pk _ i_def, of "\<lambda>_ _. False" "\<lambda>_ _. None" "[]"] by auto
  define c' where "c' = c\<lparr>ctags := place (home ?ts i) (i # remove1 i (sets ?ts ! home ?ts i)) i b st ?ts,
        cdata := (cdata c)[i := ?d], writebackCount := n, unusedPrefetches := u\<rparr>"
  have run: "handleFill cfg (\<lambda>_ _. None) (\<lambda>_ _. False) pkt None [] True c =
      Inr (InTags i, ?wbs, c'\<lparr>cdata := if pkt_isRead pkt then cdata c' else cdata c\<rparr>)"
    unfolding fe c'_def using pkt(6) by auto
  have "\<forall>q. \<not> holds ?ts (?A, pkt_isSecure pkt) q" using miss pkt(2) by simp
  from fill_keeps [OF s(1) cfg pk i_def b st this] s(6) have inv: "cache_inv cfg c'" by (simp add: c'_def cache_inv_def)
  have ln: "line G b = (?A, sec)" using filled_line(1) [OF s(2) v(2,3) b] al s(4) pkt(2) by simp
  note ev = evicted_sys [OF sys v(2)]
  have "bytes_at ?M ?A (bsz G) = ?d" using ev(2) [OF al] miss by simp
  then have ok: "line_ok G sec inside ?M b ?d" "isValid b"
    using b pkt(2-5) by (simp_all add: line_ok_def filled_def ln)
  note put = sys_put [OF sys v(2) inv _ _ _ ok ln]
  have sys': "sys_ok cfg G sec inside c' ?M" and lines: "\<And>B. blkAlign G B = B \<Longrightarrow>
      line_bytes G sec c' ?M B = (if B = ?A then ?d else line_bytes G sec c M B)"
    using put ev(2) s(4) by (auto simp: c'_def)
  have "holds (ctags c') (?A, sec) i" using v(2) ok(2) ln s(4) by (simp add: holds_def c'_def)
  moreover have "line_bytes G sec c M ?A = ?d" by (rule sys_line(2) [OF sys miss])
  ultimately show ?thesis using run sys' lines ev(1)
    by (intro exI [of _ i] exI [of _ ?wbs] exI [of _ c']) (auto simp: c'_def)
qed

lemma fill_serve:
  assumes sys: "sys_ok cfg G sec inside c M" and cfg: "\<not> isReadOnly cfg \<or> writebackClean cfg"
    and pkt: "fill_ok cfg G pkt" "pkt_isSecure pkt = sec" "\<not> pkt_hasSharers pkt" "\<not> pkt_cacheResponding pkt"
      "pkt_addr pkt = blkAlign G (mp_addr p)" "inside (blkAlign G (mp_addr p))"
      "if pkt_isRead pkt then pkt_data pkt = bytes_at M (pkt_addr pkt) (bsz G) else mp_cmd p = WriteLineReq"
    and miss: "\<forall>i. \<not> holds (ctags c) (blkAlign G (mp_addr p), sec) i" and p: "cpu_ok cfg G sec p"
  shows "\<exists>i wbs c1 r c'. handleFill cfg (\<lambda>_ _. None) (\<lambda>_ _. False) pkt None [] True c = Inr (InTags i, wbs, c1) \<and>
    satisfyRequest cfg p (InTags i) False False c1 = Inr (r, c') \<and> list_all (wb_ok G inside) wbs \<and>
    sys_ok cfg G sec inside c' (fold wb_store wbs M) \<and>
    served_packet p (bytes_at (view G sec c M) (mp_addr p) (unat (mp_size p))) r \<and>
    view G sec c' (fold wb_store wbs M) = (if cpu_writes p r (bytes_at (view G sec c M) (mp_addr p) (unat (mp_size p)))
      then store (mp_addr p) (the (mp_data p)) (view G sec c M) else view G sec c M)"
proof -
  note s = sys_okD [OF sys]
  have side: "inside (pkt_addr pkt)" "pkt_isRead pkt \<Longrightarrow> pkt_data pkt = bytes_at M (pkt_addr pkt) (bsz G)"
    "\<forall>i. \<not> holds (ctags c) (pkt_addr pkt, sec) i"
    using pkt(5-7) miss by (simp_all split: if_splits)
  obtain i wbs c2 where f: "handleFill cfg (\<lambda>_ _. None) (\<lambda>_ _. False) pkt None [] True c =
      Inr (InTags i, wbs, c2\<lparr>cdata := if pkt_isRead pkt then cdata c2 else cdata c\<rparr>)"
    and c2: "cdata c2 = (cdata c)[i := bytes_at M (pkt_addr pkt) (bsz G)]" "holds (ctags c2) (pkt_addr pkt, sec) i"
      "sys_ok cfg G sec inside c2 (fold wb_store wbs M)"
      "\<And>B. blkAlign G B = B \<Longrightarrow> line_bytes G sec c2 (fold wb_store wbs M) B = line_bytes G sec c M B"
    and wbs: "list_all (wb_ok G inside) wbs"
    using fill_sys [OF sys cfg pkt(1-4) side] by blast
  let ?D = "if pkt_isRead pkt then cdata c2 else cdata c"
  have V: "view G sec c2 (fold wb_store wbs M) = view G sec c M" by (rule view_same [OF s(5) c2(4)])
  have lt: "i < length (cdata c)" using holds_line(1) [OF c2(3,2)] sys_okD(6) [OF c2(3)] c2(1) by simp
  then have "length (?D ! i) = bsz G" using s(6,7) by (simp add: c2(1) line_ok_def)
  moreover have "?D[i := x] = (cdata c2)[i := x]" for x by (simp add: c2(1))
  moreover have "?D = cdata c2 \<or> mp_cmd p = WriteLineReq" using pkt(7) by auto
  ultimately show ?thesis
    using f wbs serve_sys [OF c2(3) c2(2) [unfolded pkt(5)] p, of ?D] unfolding V by blast
qed

end
