(* ===== verification/Cache_Transparent.thy ===== *)
theory Cache_Transparent
  imports Cache_System
begin

text \<open>
  A cache in atomic mode serves the requests of a processor as the memory below it would. What it relies on
  is the contract of the level below, a locale that is interpreted on the memory of
  \<open>mem/simple_mem.cc\<close>.
\<close>

section \<open>Misses\<close>

lemma blkSize_mask:
  assumes "wf_geom G"
  shows "blkSize G - 1 = mask (setShift G)" "(scast (blkSize G - 1) :: u64) = ucast (blkMask G)"
proof -
  note w = assms [unfolded wf_geom_def]
  have "blkSize G = of_nat (bsz G)" by simp
  also have "\<dots> = 2 ^ setShift G" unfolding bsz_facts(1) [OF assms] by simp
  finally show m: "blkSize G - 1 = mask (setShift G)" by (simp add: mask_eq_exp_minus_1)
  have "blkMask G = mask (setShift G)" "setShift G < 32" using w by simp_all
  then show "(scast (blkSize G - 1) :: u64) = ucast (blkMask G)"
    unfolding m by (intro bit_word_eqI) (auto simp: bit_simps)
qed

lemma block_align: "wf_geom G \<Longrightarrow> a AND NOT (scast (blkSize G - 1)) = blkAlign G a"
  by (simp add: blkSize_mask(2) blkAlign_def)

definition line_read :: "tag_geom \<Rightarrow> (u64 \<Rightarrow> bool) \<Rightarrow> mem_packet \<Rightarrow> bool" where
  "line_read G inside p \<longleftrightarrow> mp_cmd p \<in> {ReadExReq, ReadSharedReq, ReadCleanReq} \<and> inside (mp_addr p) \<and>
     mp_size p = blkSize G \<and> map_option length (mp_data p) = Some (bsz G) \<and> \<not> mp_cacheResponding p"

definition line_invalidate :: "tag_geom \<Rightarrow> (u64 \<Rightarrow> bool) \<Rightarrow> mem_packet \<Rightarrow> bool" where
  "line_invalidate G inside p \<longleftrightarrow> mp_cmd p = InvalidateReq \<and> inside (mp_addr p) \<and> mp_size p = blkSize G \<and> \<not> mp_cacheResponding p"

lemma miss_packet:
  assumes "wf_geom G" "cpu_ok cfg G sec p" "inside (blkAlign G (mp_addr p))"
  shows "\<exists>bus. createMissPacket cfg G junk p None (needsWritable (mp_cmd p)) = Inr (Some bus) \<and>
    (if mp_cmd p = WriteLineReq then line_invalidate G inside bus else line_read G inside bus) \<and>
    mp_addr bus = blkAlign G (mp_addr p) \<and> mp_isSecure bus = sec \<and> mp_req bus = mp_req p \<and> \<not> mp_hasSharers bus"
proof -
  note ok = cpu_okD [OF assms(2)] and cmd = cpu_cmd_facts [OF cpu_okD(1) [OF assms(2)]]
  have al: "blkAlign G (blkAlign G a) = blkAlign G a" for a by (rule align_fields(3) [OF assms(1)])
  define c where "c = (if mp_cmd p = WriteLineReq then InvalidateReq
     else if needsWritable (mp_cmd p) then ReadExReq else if isReadOnly cfg then ReadCleanReq else ReadSharedReq)"
  define bus where "bus = \<lparr>mp_cmd = c, mp_req = mp_req p, mp_addr = blkAlign G (mp_addr p), mp_isSecure = sec,
     mp_size = blkSize G, mp_data = (if mp_cmd p = WriteLineReq then None else Some (map junk [0..<bsz G])),
     mp_hasSharers = False, mp_cacheResponding = False, mp_responderHadWritable = False, mp_blockCached = False, mp_payloadDelay = 0\<rparr>"
  have c: "hasData c \<or> hasRespData c \<longleftrightarrow> mp_cmd p \<noteq> WriteLineReq"
    "if mp_cmd p = WriteLineReq then c = InvalidateReq else c \<in> {ReadExReq, ReadSharedReq, ReadCleanReq}"
    by (auto simp: c_def cmd_tests)
  have "createMissPacket cfg G junk p None (needsWritable (mp_cmd p)) =
      bindE (Packet_block (mp_req p) c (blkSize G)) (\<lambda>p. bindE (assertE (mp_addr p = blkAlign G (mp_addr p))) (\<lambda>_.
      bindE (allocate_data junk p) (\<lambda>p. Inr (Some p))))"
    using cmd ok(4,6) by (simp add: createMissPacket_def c_def Let_def)
  also have "\<dots> = Inr (Some bus)"
    using ok(3,7) c(1) by (simp add: Packet_block_def getPaddr_def valid_flag_def block_align [OF assms(1)] al
        allocate_data_def bus_def)
  finally have "createMissPacket cfg G junk p None (needsWritable (mp_cmd p)) = Inr (Some bus)" .
  then show ?thesis using c(2) assms(3)
    by (intro exI [of _ bus]) (auto simp: bus_def line_read_def line_invalidate_def)
qed

lemma fill_of_read:
  assumes "wf_geom G" "cpu_ok cfg G sec p" "line_read G inside bus" "mp_addr bus = blkAlign G (mp_addr p)" "mp_req bus = mp_req p"
    "mp_isSecure bus = sec" "\<not> mp_hasSharers bus" "length d = bsz G"
    and v: "v = fill_view (bus\<lparr>mp_cmd := responseCommand (mp_cmd bus), mp_data := Some d\<rparr>)"
  shows "fill_ok cfg G v" "pkt_isRead v" "pkt_isSecure v = sec" "\<not> pkt_hasSharers v" "\<not> pkt_cacheResponding v"
    "pkt_addr v = blkAlign G (mp_addr p)" "pkt_data v = d"
  using assms(3-8) cpu_okD(12) [OF assms(2)] align_fields(3) [OF assms(1)] unfolding v
  by (auto simp: fill_ok_def fill_view_def line_read_def cmd_tests)

lemma fill_of_write:
  assumes "wf_geom G" "cpu_ok cfg G sec p" "mp_cmd p = WriteLineReq"
  shows "fill_ok cfg G (fill_view p)" "\<not> pkt_isRead (fill_view p)" "pkt_isSecure (fill_view p) = sec"
    "\<not> pkt_hasSharers (fill_view p)" "\<not> pkt_cacheResponding (fill_view p)" "pkt_addr (fill_view p) = blkAlign G (mp_addr p)"
  using assms(3) cpu_okD(2,5,6,12,15) [OF assms(2)] by (auto simp: fill_ok_def fill_view_def cmd_tests)

section \<open>The flat memory\<close>

text \<open>
  What a request of a processor does to a memory of bytes: a store conditional writes if its response says so,
  a swap if it finds the bytes it expects.
\<close>

definition flat_effect :: "mem_packet \<Rightarrow> mem_packet \<Rightarrow> (u64 \<Rightarrow> u8) \<Rightarrow> u64 \<Rightarrow> u8" where
  "flat_effect p r V =
     (if cpu_writes p r (bytes_at V (mp_addr p) (unat (mp_size p))) then store (mp_addr p) (the (mp_data p)) V else V)"

definition flat_answer :: "mem_packet \<Rightarrow> mem_packet \<Rightarrow> (u64 \<Rightarrow> u8) \<Rightarrow> bool" where
  "flat_answer p r V \<longleftrightarrow> mp_cmd r = responseCommand (mp_cmd p) \<and> mp_addr r = mp_addr p \<and> mp_size r = mp_size p \<and>
     (isRead (mp_cmd p) \<longrightarrow> mp_data r = Some (bytes_at V (mp_addr p) (unat (mp_size p)))) \<and>
     (if mp_cmd p = StoreCondReq then \<exists>ok. mp_req r = setExtraData (if ok then 1 else 0) (mp_req p) else mp_req r = mp_req p)"

lemma served_answer:
  assumes "cpu_cmd (mp_cmd p)" "served_packet p (bytes_at V (mp_addr p) (unat (mp_size p))) r"
  shows "makeResponse r = Inr (r\<lparr>mp_cmd := responseCommand (mp_cmd p)\<rparr>)"
    "flat_answer p (r\<lparr>mp_cmd := responseCommand (mp_cmd p)\<rparr>) V"
    "flat_effect p (r\<lparr>mp_cmd := responseCommand (mp_cmd p)\<rparr>) V = flat_effect p r V" "mp_cmd r = mp_cmd p"
proof -
  have r: "r = p\<lparr>mp_req := mp_req r, mp_data := mp_data r\<rparr>" using assms(2) by (simp add: served_packet_def)
  then have f: "mp_cmd r = mp_cmd p" "mp_addr r = mp_addr p" "mp_size r = mp_size p" by (metis mem_packet.select_convs mem_packet.surjective mem_packet.update_convs)+
  then show "mp_cmd r = mp_cmd p" "makeResponse r = Inr (r\<lparr>mp_cmd := responseCommand (mp_cmd p)\<rparr>)"
    using cpu_cmd_facts(1,2) [OF assms(1)] by (simp_all add: makeResponse_def)
  show "flat_answer p (r\<lparr>mp_cmd := responseCommand (mp_cmd p)\<rparr>) V"
    using assms(2) f by (simp add: flat_answer_def served_packet_def)
  show "flat_effect p (r\<lparr>mp_cmd := responseCommand (mp_cmd p)\<rparr>) V = flat_effect p r V"
    by (simp add: flat_effect_def cpu_writes_def)
qed

section \<open>Hits\<close>

lemma count_total:
  assumes "unat (req_masterId (mp_req p)) < maxMasters e"
  shows "\<exists>st. incHitCount e p k = Inr (k\<lparr>cstats := st\<rparr>)" "\<exists>st. incMissCount e p k = Inr (k\<lparr>cstats := st\<rparr>)"
  using assms by (auto simp: incHitCount_def incMissCount_def Let_def)

lemma access_cpu:
  assumes sys: "sys_ok cfg G sec inside (cst k) M" and clk: "clockPeriod (cenv cfg) \<noteq> 0" and p: "cpu_ok cfg G sec p"
  shows "\<exists>sat blk lat r k'. Cache_access cfg no_queues p [] k = Inr (sat, blk, lat, [], WqKeep, r, k') \<and>
    sys_ok cfg G sec inside (cst k') M \<and>
    (if sat then served_packet p (bytes_at (view G sec (cst k) M) (mp_addr p) (unat (mp_size p))) r \<and>
        view G sec (cst k') M = flat_effect p r (view G sec (cst k) M)
     else blk = None \<and> r = p \<and> (\<forall>i. \<not> holds (ctags (cst k')) (blkAlign G (mp_addr p), sec) i) \<and>
       view G sec (cst k') M = view G sec (cst k) M)"
proof -
  let ?e = "cenv cfg" and ?V = "view G sec (cst k) M"
  note ok = cpu_okD [OF p] and cmd = cpu_cmd_facts [OF cpu_okD(1) [OF p]] and wf = sys_okD(5) [OF sys]
  obtain blk lat ts where acc: "LRU_accessBlock ?e (mp_addr p) sec (ctags (cst k)) = Inr (blk, lat, ts)"
    and ts: "sys_ok cfg G sec inside ((cst k)\<lparr>ctags := ts\<rparr>) M"
      "\<And>B. blkAlign G B = B \<Longrightarrow> line_bytes G sec ((cst k)\<lparr>ctags := ts\<rparr>) M B = line_bytes G sec (cst k) M B"
      "case blk of None \<Rightarrow> \<forall>i. \<not> holds ts (blkAlign G (mp_addr p), sec) i | Some i \<Rightarrow> holds ts (blkAlign G (mp_addr p), sec) i"
    using access_sys [OF sys clk, of "mp_addr p"] by blast
  let ?c = "(cst k)\<lparr>ctags := ts\<rparr>"
  let ?k = "k\<lparr>cst := ?c\<rparr>"
  have V: "view G sec ?c M = ?V" by (rule view_same [OF wf ts(2)])
  have start: "Cache_access cfg no_queues p [] k = (case blk of
         Some i \<Rightarrow> if (if isWrite (mp_cmd p) then isWritable (blks ts ! i) else isReadable (blks ts ! i))
             then bindE (incHitCount ?e p ?k) (\<lambda>k.
                  bindE (satisfyRequest cfg p (InTags i) False False (cst k)) (\<lambda>(p, c).
                  bindE (maintainClusivity cfg (fromCache (mp_cmd p)) (Some (InTags i)) c) (\<lambda>c.
                  Inr (True, Some i, lat, [], WqKeep, p, k\<lparr>cst := c\<rparr>))))
             else bindE (incMissCount ?e p ?k) (\<lambda>k. Inr (False, Some i, lat, [], WqKeep, p, k))
       | None \<Rightarrow> bindE (incMissCount ?e p ?k) (\<lambda>k.
             if isLLSC (mp_cmd p) \<and> isWrite (mp_cmd p)
             then Inr (True, None, lat, [], WqKeep, p\<lparr>mp_req := setExtraData 0 (mp_req p)\<rparr>, k)
             else Inr (False, None, lat, [], WqKeep, p, k)))"
    using cmd ok(2,4,13) acc
    by (simp add: Cache_access_def meet_write_queue_def packet_needsWritable_def upd_cst_def Let_def split: option.split)
  show ?thesis
  proof (cases blk)
    case None
    obtain st where st: "incMissCount ?e p ?k = Inr (?k\<lparr>cstats := st\<rparr>)" using count_total(2) [OF ok(12)] by blast
    show ?thesis
    proof (cases "mp_cmd p = StoreCondReq")
      case True
      let ?r = "p\<lparr>mp_req := setExtraData 0 (mp_req p)\<rparr>"
      have "served_packet p (bytes_at ?V (mp_addr p) (unat (mp_size p))) ?r"
        using True by (auto simp: served_packet_def cmd_tests intro: exI [of _ False])
      moreover have "flat_effect p ?r ?V = ?V"
        using True by (simp add: flat_effect_def cpu_writes_def cmd_tests getExtraData_def setExtraData_def)
      ultimately show ?thesis using None start st cmd(15) True ts(1) V by auto
    next
      case False
      then show ?thesis using None start st cmd(15) ts V by auto
    qed
  next
    case (Some i)
    have h: "holds (ctags ?c) (blkAlign G (mp_addr p), sec) i" using ts(3) Some by simp
    obtain st where st: "incHitCount ?e p ?k = Inr (?k\<lparr>cstats := st\<rparr>)" using count_total(1) [OF ok(12)] by blast
    obtain r c' where run: "satisfyRequest cfg p (InTags i) False False ?c = Inr (r, c')"
      and r: "served_packet p (bytes_at ?V (mp_addr p) (unat (mp_size p))) r" "sys_ok cfg G sec inside c' M"
        "view G sec c' M = flat_effect p r ?V"
      using serve_sys [OF ts(1) h p, of "cdata ?c"] holds_line(4) [OF ts(1) h]
      unfolding V flat_effect_def by (auto simp: line_ok_def)
    have "isWritable (blks ts ! i)" "isReadable (blks ts ! i)"
      using holds_line(2,4) [OF ts(1) h] by (simp_all add: line_ok_def)
    moreover have "maintainClusivity cfg (fromCache (mp_cmd r)) (Some (InTags i)) c' = Inr c'"
      using served_answer(4) [OF ok(1) r(1)] cmd(6) by (simp add: maintainClusivity_def)
    ultimately show ?thesis using Some start st run r by (intro exI [of _ True]) simp
  qed
qed

section \<open>Sequences\<close>

definition req_ok :: "atomic_cfg \<Rightarrow> tag_geom \<Rightarrow> bool \<Rightarrow> (u64 \<Rightarrow> bool) \<Rightarrow> mem_packet \<Rightarrow> bool" where
  "req_ok cfg G sec inside p \<longleftrightarrow> cpu_ok (acache cfg) G sec p \<and> allocOnFill (acache cfg) (mp_cmd p) \<and> inside (blkAlign G (mp_addr p))"

definition cfg_ok :: "atomic_cfg \<Rightarrow> bool" where
  "cfg_ok cfg \<longleftrightarrow> \<not> bypassCaches cfg \<and> clockPeriod (cenv (acache cfg)) \<noteq> 0 \<and>
     (isReadOnly (acache cfg) \<longrightarrow> writebackClean (acache cfg))"

fun run_atomic ::
  "atomic_cfg \<Rightarrow> 'm port \<Rightarrow> (mem_packet \<Rightarrow> mem_packet) \<Rightarrow> (nat \<Rightarrow> u8) \<Rightarrow> mem_packet list \<Rightarrow> 'm atomic_state \<Rightarrow>
   (mem_packet list \<times> 'm atomic_state) res" where
  "run_atomic cfg send snoop junk [] s = Inr ([], s)"
| "run_atomic cfg send snoop junk (p # ps) s =
     bindE (recvAtomic cfg send snoop junk p s) (\<lambda>(_, r, s).
     bindE (run_atomic cfg send snoop junk ps s) (\<lambda>(rs, s). Inr (r # rs, s)))"

fun flat_served :: "mem_packet list \<Rightarrow> mem_packet list \<Rightarrow> (u64 \<Rightarrow> u8) \<Rightarrow> bool" where
  "flat_served [] [] V = True"
| "flat_served (p # ps) (r # rs) V = (flat_answer p r V \<and> flat_served ps rs (flat_effect p r V))"
| "flat_served _ _ V = False"

fun flat_after :: "mem_packet list \<Rightarrow> mem_packet list \<Rightarrow> (u64 \<Rightarrow> u8) \<Rightarrow> u64 \<Rightarrow> u8" where
  "flat_after (p # ps) (r # rs) V = flat_after ps rs (flat_effect p r V)"
| "flat_after _ _ V = V"

lemma promote_req:
  assumes "wf_geom G" "req_ok cfg G sec inside p" "q = promoteWholeLineWrites cfg (blkSize G) p"
  shows "req_ok cfg G sec inside q" "flat_answer q r V = flat_answer p r V" "flat_effect q r V = flat_effect p r V"
proof -
  have "q = p \<or> (q = p\<lparr>mp_cmd := WriteLineReq\<rparr> \<and> mp_cmd p = WriteReq \<and> mp_size p = blkSize G \<and> packet_getOffset (blkSize G) p = 0)"
    by (simp add: assms(3) promoteWholeLineWrites_def)
  moreover have "req_ok cfg G sec inside q \<and> flat_answer q r V = flat_answer p r V \<and> flat_effect q r V = flat_effect p r V"
    if q: "q = p\<lparr>mp_cmd := WriteLineReq\<rparr>" "mp_cmd p = WriteReq" "mp_size p = blkSize G" "packet_getOffset (blkSize G) p = 0"
  proof (intro conjI)
    have "unat (mp_addr p) mod bsz G = 0" using offset_mod [OF assms(1), of "mp_addr p"] q(4) by (simp add: packet_getOffset_def)
    then have "blkAlign G (mp_addr p) = mp_addr p" using line_offset(2) [OF assms(1), of "mp_addr p"] by (simp add: word_unat_eq_iff)
    then show "req_ok cfg G sec inside q"
      using assms(2) q by (auto simp: req_ok_def cpu_ok_def cpu_cmd_def allocOnFill_def cmd_tests)
  qed (use q in \<open>simp_all add: flat_answer_def flat_effect_def cpu_writes_def cmd_tests\<close>)
  ultimately show "req_ok cfg G sec inside q" "flat_answer q r V = flat_answer p r V" "flat_effect q r V = flat_effect p r V"
    using assms(2) by auto
qed

section \<open>The level below\<close>

text \<open>
  The contract of the level below: \<open>mem\<close> is what its bytes are. It answers a read of a line with the bytes of the
  line, acknowledges that a line will be overwritten, and takes evictions, of which only those of a dirty
  line change its bytes. It reports no other copies.
\<close>

locale backing =
  fixes send :: "'m port" and mem :: "'m \<Rightarrow> u64 \<Rightarrow> u8" and ready :: "'m \<Rightarrow> bool" and G :: tag_geom and inside :: "u64 \<Rightarrow> bool"
  assumes read: "\<lbrakk>ready m; line_read G inside p\<rbrakk> \<Longrightarrow> \<exists>t m'. send p m = Inr (t, p\<lparr>mp_cmd := responseCommand (mp_cmd p),
      mp_data := Some (bytes_at (mem m) (mp_addr p) (bsz G))\<rparr>, m') \<and> ready m' \<and> mem m' = mem m"
    and invalidate: "\<lbrakk>ready m; line_invalidate G inside p\<rbrakk> \<Longrightarrow>
      \<exists>t m'. send p m = Inr (t, p\<lparr>mp_cmd := InvalidateResp\<rparr>, m') \<and> ready m' \<and> mem m' = mem m"
    and eviction: "\<lbrakk>ready m; wb_ok G inside w\<rbrakk> \<Longrightarrow>
      \<exists>t p m'. send (evict_packet (blkSize G) w) m = Inr (t, p, m') \<and> ready m' \<and> mem m' = wb_store w (mem m)"
begin

lemma writebacks:
  assumes "ready m" "list_all (wb_ok G inside) ws" "\<And>p. snoop p = p"
  shows "\<exists>m'. doWritebacksAtomic send snoop forward (blkSize G) ws m = Inr m' \<and> ready m' \<and> mem m' = fold wb_store ws (mem m)"
  using assms(1,2)
proof (induction ws arbitrary: m)
  case (Cons w ws)
  obtain t p m1 where s: "send (evict_packet (blkSize G) w) m = Inr (t, p, m1)" "ready m1" "mem m1 = wb_store w (mem m)"
    using eviction [of m w] Cons.prems by auto
  have "isCachedAbove forward snoop (evict_packet (blkSize G) w) = (False, evict_packet (blkSize G) w)"
    by (simp add: isCachedAbove_def assms(3) evict_packet_def)
  with s Cons.IH [OF s(2)] Cons.prems(2) show ?case by simp
qed simp

lemma miss_served:
  assumes sys: "sys_ok (acache cfg) G sec inside c (mem m)" and clk: "clockPeriod (cenv (acache cfg)) \<noteq> 0"
    and cfg: "\<not> isReadOnly (acache cfg) \<or> writebackClean (acache cfg)"
    and p: "cpu_ok (acache cfg) G sec p" "inside (blkAlign G (mp_addr p))"
    and miss: "\<forall>i. \<not> holds (ctags c) (blkAlign G (mp_addr p), sec) i"
    and bus: "createMissPacket (acache cfg) G junk p None (needsWritable (mp_cmd p)) = Inr (Some bus)"
    and snd: "send bus m = Inr (t, sent, m')" "ready m'" "mem m' = mem m"
    and pkt: "fill_ok (acache cfg) G pkt" "pkt_isSecure pkt = sec" "\<not> pkt_hasSharers pkt" "\<not> pkt_cacheResponding pkt"
      "pkt_addr pkt = blkAlign G (mp_addr p)"
      "if pkt_isRead pkt then pkt_data pkt = bytes_at (mem m) (pkt_addr pkt) (bsz G) else mp_cmd p = WriteLineReq"
    and resp: "\<And>i wbs c1 r c'. \<lbrakk>handleFill (acache cfg) (\<lambda>_ _. None) (\<lambda>_ _. False) pkt None [] True c = Inr (InTags i, wbs, c1);
        satisfyRequest (acache cfg) p (InTags i) False False c1 = Inr (r, c'); mp_cmd r = mp_cmd p\<rbrakk> \<Longrightarrow>
        atomic_response (acache cfg) p sent None c = Inr (Some (InTags i), wbs, False, r, c')"
  shows "\<exists>lat i wbs r c' m'. atomic_miss cfg send junk p None c m = Inr (lat, Some (InTags i), wbs, r, c', m') \<and>
    ready m' \<and> mem m' = mem m \<and> list_all (wb_ok G inside) wbs \<and>
    sys_ok (acache cfg) G sec inside c' (fold wb_store wbs (mem m)) \<and>
    served_packet p (bytes_at (view G sec c (mem m)) (mp_addr p) (unat (mp_size p))) r \<and>
    view G sec c' (fold wb_store wbs (mem m)) = flat_effect p r (view G sec c (mem m))"
proof -
  let ?cc = "acache cfg" and ?M = "mem m"
  note s = sys_okD [OF sys] and ok = cpu_okD [OF p(1)]
  have start: "atomic_miss cfg send junk p None c m =
      bindE (send bus m) (\<lambda>(t, sent, m). bindE (ticksToCycles (cenv ?cc) t) (\<lambda>lat.
      bindE (atomic_response ?cc p sent None c) (\<lambda>(blk, wbs, is_invalidate, p, c).
      bindE (case blk of None \<Rightarrow> Inr c
        | Some bp \<Rightarrow> if is_invalidate \<and> isValid (get_cblk bp c) then invalidateBlock ?cc bp c else Inr c) (\<lambda>c.
      Inr (lat, blk, wbs, p, c, m)))))"
    using cpu_cmd_facts(1) [OF ok(1)] bus s(4) by (simp add: atomic_miss_def packet_needsWritable_def Let_def)
  obtain l where lat: "ticksToCycles (cenv ?cc) t = Inr l" using clk by (simp add: ticksToCycles_def divCeil_def)
  obtain i wbs c1 r c' where run: "handleFill ?cc (\<lambda>_ _. None) (\<lambda>_ _. False) pkt None [] True c = Inr (InTags i, wbs, c1)"
    "satisfyRequest ?cc p (InTags i) False False c1 = Inr (r, c')"
    and r: "list_all (wb_ok G inside) wbs" "sys_ok ?cc G sec inside c' (fold wb_store wbs ?M)"
      "served_packet p (bytes_at (view G sec c ?M) (mp_addr p) (unat (mp_size p))) r"
      "view G sec c' (fold wb_store wbs ?M) = flat_effect p r (view G sec c ?M)"
    using fill_serve [OF sys cfg pkt(1-5) p(2) pkt(6) miss p(1)] unfolding flat_effect_def by blast
  from resp [OF run served_answer(4) [OF ok(1) r(3)]] snd lat r show ?thesis unfolding start by simp
qed

lemma miss:
  assumes sys: "sys_ok (acache cfg) G sec inside c (mem m)" and rd: "ready m" and clk: "clockPeriod (cenv (acache cfg)) \<noteq> 0"
    and cfg: "\<not> isReadOnly (acache cfg) \<or> writebackClean (acache cfg)"
    and p: "cpu_ok (acache cfg) G sec p" "allocOnFill (acache cfg) (mp_cmd p)" "inside (blkAlign G (mp_addr p))"
    and miss: "\<forall>i. \<not> holds (ctags c) (blkAlign G (mp_addr p), sec) i"
  shows "\<exists>lat i wbs r c' m'. atomic_miss cfg send junk p None c m = Inr (lat, Some (InTags i), wbs, r, c', m') \<and>
    ready m' \<and> mem m' = mem m \<and> list_all (wb_ok G inside) wbs \<and>
    sys_ok (acache cfg) G sec inside c' (fold wb_store wbs (mem m)) \<and>
    served_packet p (bytes_at (view G sec c (mem m)) (mp_addr p) (unat (mp_size p))) r \<and>
    view G sec c' (fold wb_store wbs (mem m)) = flat_effect p r (view G sec c (mem m))"
proof -
  let ?cc = "acache cfg" and ?M = "mem m" and ?A = "blkAlign G (mp_addr p)"
  note s = sys_okD [OF sys] and ok = cpu_okD [OF p(1)] and cmd = cpu_cmd_facts [OF cpu_okD(1) [OF p(1)]]
  obtain bus where bus: "createMissPacket ?cc G junk p None (needsWritable (mp_cmd p)) = Inr (Some bus)"
    "if mp_cmd p = WriteLineReq then line_invalidate G inside bus else line_read G inside bus"
    "mp_addr bus = ?A" "mp_isSecure bus = sec" "mp_req bus = mp_req p" "\<not> mp_hasSharers bus"
    using miss_packet [where inside = inside, OF s(5) p(1,3)] by blast
  show ?thesis
  proof (cases "mp_cmd p = WriteLineReq")
    case True
    with bus(2) have li: "line_invalidate G inside bus" by simp
    obtain t m' where snd: "send bus m = Inr (t, bus\<lparr>mp_cmd := InvalidateResp\<rparr>, m')" "ready m'" "mem m' = ?M"
      using invalidate [OF rd li] by blast
    note fw = fill_of_write [OF s(5) p(1) True]
    show ?thesis
    proof (rule miss_served [OF sys clk cfg p(1,3) miss bus(1) snd fw(1,3-6)])
      show "atomic_response ?cc p (bus\<lparr>mp_cmd := InvalidateResp\<rparr>) None c = Inr (Some (InTags i), wbs, False, r, c')"
        if "handleFill ?cc (\<lambda>_ _. None) (\<lambda>_ _. False) (fill_view p) None [] True c = Inr (InTags i, wbs, c1)"
          "satisfyRequest ?cc p (InTags i) False False c1 = Inr (r, c')" for i wbs c1 r c'
        using that True p(2) by (simp add: atomic_response_def no_queues_def cmd_tests)
    qed (use True fw(2) in auto)
  next
    case False
    with bus(2) have lr: "line_read G inside bus" by simp
    let ?sent = "bus\<lparr>mp_cmd := responseCommand (mp_cmd bus), mp_data := Some (bytes_at ?M (mp_addr bus) (bsz G))\<rparr>"
    obtain t m' where snd: "send bus m = Inr (t, ?sent, m')" "ready m'" "mem m' = ?M" using read [OF rd lr] by blast
    note fr = fill_of_read [where inside = inside, OF s(5) p(1) lr bus(3,5,4,6) length_bytes_at refl, of ?M "mp_addr bus"]
    have resp: "isResponse (mp_cmd ?sent)" "\<not> isError (mp_cmd ?sent)" "isRead (mp_cmd ?sent)" "\<not> isInvalidate (mp_cmd ?sent)"
      using lr by (auto simp: line_read_def cmd_tests)
    show ?thesis
    proof (rule miss_served [OF sys clk cfg p(1,3) miss bus(1) snd fr(1,3-6)])
      show "atomic_response ?cc p ?sent None c = Inr (Some (InTags i), wbs, False, r, c')"
        if "handleFill ?cc (\<lambda>_ _. None) (\<lambda>_ _. False) (fill_view ?sent) None [] True c = Inr (InTags i, wbs, c1)"
          "satisfyRequest ?cc p (InTags i) False False c1 = Inr (r, c')" "mp_cmd r = mp_cmd p" for i wbs c1 r c'
        using that False p(2) resp cmd(2,6) by (simp add: atomic_response_def no_queues_def maintainClusivity_def)
    qed (use fr(2,6,7) bus(3) in auto)
  qed
qed

lemma finish:
  assumes "ready (below s)" "list_all (wb_ok G inside) wbs" "\<And>p. snoop p = p" "blk \<noteq> Some TempBlk"
    "geom (ctags (cst (actl s))) = G" "cpu_cmd (mp_cmd p)" "served_packet p (bytes_at V (mp_addr p) (unat (mp_size p))) r"
  shows "\<exists>t m. atomic_finish cfg send snoop lat blk wbs r s =
      Inr (t, r\<lparr>mp_cmd := responseCommand (mp_cmd p)\<rparr>, s\<lparr>below := m\<rparr>) \<and>
    ready m \<and> mem m = fold wb_store wbs (mem (below s))"
proof -
  obtain m where "doWritebacksAtomic send snoop (forwardSnoops cfg) (blkSize G) wbs (below s) = Inr m" "ready m"
    "mem m = fold wb_store wbs (mem (below s))"
    using writebacks [OF assms(1-3)] by blast
  then show ?thesis
    using assms(4,5) served_answer(1,4) [OF assms(6,7)] cpu_cmd_facts(2) [OF assms(6)]
    by (intro exI [of _ "lat * clockPeriod (cenv (acache cfg))"] exI [of _ m]) (simp add: atomic_finish_def release_temp_def)
qed

lemma step:
  assumes sys: "sys_ok (acache cfg) G sec inside (cst (actl s)) (mem (below s))" "ready (below s)"
    and cfg: "cfg_ok cfg" and sn: "\<And>p. snoop p = p" and p: "req_ok cfg G sec inside p"
  shows "\<exists>t r s'. recvAtomic cfg send snoop junk p s = Inr (t, r, s') \<and>
    sys_ok (acache cfg) G sec inside (cst (actl s')) (mem (below s')) \<and> ready (below s') \<and>
    flat_answer p r (view G sec (cst (actl s)) (mem (below s))) \<and>
    view G sec (cst (actl s')) (mem (below s')) = flat_effect p r (view G sec (cst (actl s)) (mem (below s)))"
proof -
  let ?M = "mem (below s)" and ?V = "view G sec (cst (actl s)) (mem (below s))"
  have wf: "wf_geom G" "geom (ctags (cst (actl s))) = G" using sys_okD(4,5) [OF sys(1)] by blast+
  define q where "q = promoteWholeLineWrites cfg (blkSize G) p"
  note pq = promote_req [OF wf(1) p q_def]
  have q: "cpu_ok (acache cfg) G sec q" "allocOnFill (acache cfg) (mp_cmd q)" "inside (blkAlign G (mp_addr q))"
    using pq(1) by (simp_all add: req_ok_def)
  note ok = cpu_okD [OF q(1)] and cmd = cpu_cmd_facts [OF cpu_okD(1) [OF q(1)]]
  have cf: "\<not> bypassCaches cfg" "clockPeriod (cenv (acache cfg)) \<noteq> 0" "\<not> isReadOnly (acache cfg) \<or> writebackClean (acache cfg)"
    using cfg by (auto simp: cfg_ok_def)
  obtain sat blk lat r k where acc: "Cache_access (acache cfg) no_queues q [] (actl s) = Inr (sat, blk, lat, [], WqKeep, r, k)"
    and k: "sys_ok (acache cfg) G sec inside (cst k) ?M"
    and res: "if sat then served_packet q (bytes_at ?V (mp_addr q) (unat (mp_size q))) r \<and> view G sec (cst k) ?M = flat_effect q r ?V
      else blk = None \<and> r = q \<and> (\<forall>i. \<not> holds (ctags (cst k)) (blkAlign G (mp_addr q), sec) i) \<and> view G sec (cst k) ?M = ?V"
    using access_cpu [OF sys(1) cf(2) q(1)] by blast
  let ?s = "s\<lparr>actl := k, below := below s\<rparr>"
  have start: "recvAtomic cfg send snoop junk p s = (if sat then atomic_finish cfg send snoop lat (map_option InTags blk) [] r ?s
    else bindE (atomic_miss cfg send junk r (map_option InTags blk) (cst k) (below s)) (\<lambda>(c, blk, wbs, p, cs, m).
      atomic_finish cfg send snoop (lat + c) blk wbs p (?s\<lparr>actl := k\<lparr>cst := cs\<rparr>, below := m\<rparr>)))"
    using cf(1) ok(4,5) cmd(3) res acc wf(2) by (simp add: recvAtomic_def q_def [symmetric] Let_def)
  show ?thesis
  proof (cases sat)
    case True
    then have r: "served_packet q (bytes_at ?V (mp_addr q) (unat (mp_size q))) r" "view G sec (cst k) ?M = flat_effect q r ?V"
      using res by simp_all
    obtain t m where "atomic_finish cfg send snoop lat (map_option InTags blk) [] r ?s =
        Inr (t, r\<lparr>mp_cmd := responseCommand (mp_cmd q)\<rparr>, ?s\<lparr>below := m\<rparr>)" "ready m" "mem m = ?M"
      using finish [of ?s "[]" snoop "map_option InTags blk" q ?V r cfg lat] sys(2) sn sys_okD(4) [OF k] ok(1) r(1) by auto
    with True start k r served_answer [OF ok(1) r(1)] pq(2,3) show ?thesis by auto
  next
    case False
    then have r: "blk = None" "r = q" "\<forall>i. \<not> holds (ctags (cst k)) (blkAlign G (mp_addr q), sec) i" "view G sec (cst k) ?M = ?V"
      using res by simp_all
    obtain l i wbs r' c' m' where ms: "atomic_miss cfg send junk q None (cst k) (below s) = Inr (l, Some (InTags i), wbs, r', c', m')"
      and m': "ready m'" "mem m' = ?M" "list_all (wb_ok G inside) wbs" "sys_ok (acache cfg) G sec inside c' (fold wb_store wbs ?M)"
        "served_packet q (bytes_at ?V (mp_addr q) (unat (mp_size q))) r'" "view G sec c' (fold wb_store wbs ?M) = flat_effect q r' ?V"
      using miss [OF k sys(2) cf(2,3) q r(3)] unfolding r(4) by blast
    let ?s' = "?s\<lparr>actl := k\<lparr>cst := c'\<rparr>, below := m'\<rparr>"
    obtain t m where "atomic_finish cfg send snoop (lat + l) (Some (InTags i)) wbs r' ?s' =
        Inr (t, r'\<lparr>mp_cmd := responseCommand (mp_cmd q)\<rparr>, ?s'\<lparr>below := m\<rparr>)" "ready m" "mem m = fold wb_store wbs ?M"
      using finish [of ?s' wbs snoop "Some (InTags i)" q ?V r' cfg "lat + l"] m' sn sys_okD(4) [OF m'(4)] ok(1) by auto
    with False start r(1,2) ms m' served_answer [OF ok(1) m'(5)] pq(2,3) show ?thesis by auto
  qed
qed

lemma run:
  assumes "sys_ok (acache cfg) G sec inside (cst (actl s)) (mem (below s))" "ready (below s)" "cfg_ok cfg" "\<And>p. snoop p = p"
    "list_all (req_ok cfg G sec inside) ps"
  shows "\<exists>rs s'. run_atomic cfg send snoop junk ps s = Inr (rs, s') \<and>
    sys_ok (acache cfg) G sec inside (cst (actl s')) (mem (below s')) \<and> ready (below s') \<and>
    flat_served ps rs (view G sec (cst (actl s)) (mem (below s))) \<and>
    view G sec (cst (actl s')) (mem (below s')) = flat_after ps rs (view G sec (cst (actl s)) (mem (below s)))"
  using assms(1,2,5)
proof (induction ps arbitrary: s)
  case Nil
  then show ?case by (intro exI [of _ "[]"] exI [of _ s]) simp
next
  case (Cons p ps)
  obtain t r s1 where one: "recvAtomic cfg send snoop junk p s = Inr (t, r, s1)"
    and s1: "sys_ok (acache cfg) G sec inside (cst (actl s1)) (mem (below s1))" "ready (below s1)"
      "flat_answer p r (view G sec (cst (actl s)) (mem (below s)))"
      "view G sec (cst (actl s1)) (mem (below s1)) = flat_effect p r (view G sec (cst (actl s)) (mem (below s)))"
    using step [OF Cons.prems(1,2) assms(3,4), of p junk] Cons.prems(3) by auto
  obtain rs s' where "run_atomic cfg send snoop junk ps s1 = Inr (rs, s')"
    "sys_ok (acache cfg) G sec inside (cst (actl s')) (mem (below s'))" "ready (below s')"
    "flat_served ps rs (view G sec (cst (actl s1)) (mem (below s1)))"
    "view G sec (cst (actl s')) (mem (below s')) = flat_after ps rs (view G sec (cst (actl s1)) (mem (below s1)))"
    using Cons.IH [OF s1(1,2)] Cons.prems(3) by auto
  with one s1(3,4) show ?case by (intro exI [of _ "r # rs"] exI [of _ s']) simp
qed

end

end
