(* ===== verification/Cache_Memory.thy ===== *)
theory Cache_Memory
  imports Cache_Transparent
begin

text \<open>
  A cache over a memory: the memory of \<open>mem/simple_mem.cc\<close> keeps the contract of the level below, and with it any
  sequence of requests of a processor is answered as by a flat memory, which flushing the cache leaves
  behind.
\<close>

section \<open>The memory\<close>

definition mem_bytes :: "mem_cfg \<Rightarrow> mem_state \<Rightarrow> u64 \<Rightarrow> u8" where
  "mem_bytes cfg m x = (case pmem m of None \<Rightarrow> 0
     | Some d \<Rightarrow> if unat (x - range_start cfg) < length d then d ! unat (x - range_start cfg) else 0)"

text \<open>A memory with storage for its range and no reservations.\<close>

definition mem_ready :: "mem_cfg \<Rightarrow> mem_state \<Rightarrow> bool" where
  "mem_ready cfg m \<longleftrightarrow> map_option length (pmem m) = Some (unat (range_end cfg - range_start cfg) + 1) \<and> lockedAddrList m = []"

definition mem_inside :: "mem_cfg \<Rightarrow> tag_geom \<Rightarrow> u64 \<Rightarrow> bool" where
  "mem_inside cfg G A \<longleftrightarrow> 0 < bsz G \<and> range_start cfg \<le> A \<and> unat A + bsz G \<le> unat (range_end cfg) + 1"

lemma inside_facts:
  assumes "mem_inside cfg G A"
  shows "unat (A - range_start cfg) + bsz G \<le> unat (range_end cfg - range_start cfg) + 1"
    "isSubset A (A + ucast (blkSize G - 1)) cfg" "isSubset A (A + ucast (blkSize G) - 1) cfg"
proof -
  have b: "0 < bsz G" "unat (range_start cfg) \<le> unat A" "unat A + bsz G \<le> unat (range_end cfg) + 1"
    using assms by (simp_all add: mem_inside_def word_le_nat_alt)
  then have se: "unat (range_end cfg - range_start cfg) = unat (range_end cfg) - unat (range_start cfg)"
    "unat (A - range_start cfg) = unat A - unat (range_start cfg)"
    by (simp_all add: unat_sub word_le_nat_alt)
  show "unat (A - range_start cfg) + bsz G \<le> unat (range_end cfg - range_start cfg) + 1" unfolding se using b by linarith
  have one: "unat (ucast (blkSize G - 1) :: u64) = bsz G - 1"
    using b(1) by (simp add: unat_up unat_minus_one unat_gt_0)
  have "unat (range_end cfg) < 2 ^ 64" using unsigned_less [of "range_end cfg", where 'a = nat] by simp
  then have "unat A + (bsz G - 1) < 2 ^ 64" using b by linarith
  then have hi: "unat (A + ucast (blkSize G - 1)) = unat A + (bsz G - 1)" by (simp add: unat_word_ariths one)
  show *: "isSubset A (A + ucast (blkSize G - 1)) cfg"
    unfolding isSubset_def word_le_nat_alt hi using b by linarith
  have "(ucast (blkSize G) :: u64) \<noteq> 0" using b(1) unat_up [of "blkSize G"] by auto
  then have "unat (ucast (blkSize G) - 1 :: u64) = bsz G - 1" by (simp add: unat_minus_one unat_up)
  with one have "(ucast (blkSize G - 1) :: u64) = ucast (blkSize G) - 1" by (simp add: word_unat_eq_iff)
  then have "A + ucast (blkSize G - 1) = A + ucast (blkSize G) - 1" by simp
  with * show "isSubset A (A + ucast (blkSize G) - 1) cfg" by simp
qed

lemma mem_read_bytes:
  assumes "pmem m = Some d" "unat (A - range_start cfg) + n \<le> length d" "length d \<le> 2 ^ 64"
  shows "bytes_at (mem_bytes cfg m) A n = take n (drop (unat (A - range_start cfg)) d)"
proof (rule nth_equalityI)
  fix i assume "i < length (bytes_at (mem_bytes cfg m) A n)"
  then have i: "i < n" by simp
  define h where "h = A - range_start cfg"
  have "unat h + i < 2 ^ 64" using assms(2,3) i by (simp add: h_def)
  then have "unat (h + of_nat i) = unat h + i" by (simp add: unat_word_ariths unat_of_nat take_bit_nat_def)
  moreover have "A + of_nat i - range_start cfg = h + of_nat i" by (simp add: h_def)
  ultimately have "unat (A + of_nat i - range_start cfg) = unat h + i" by metis
  with i assms(1,2) show "bytes_at (mem_bytes cfg m) A n ! i = take n (drop (unat (A - range_start cfg)) d) ! i"
    by (simp add: mem_bytes_def h_def)
qed (use assms in simp)

lemma mem_write_bytes:
  assumes "pmem m = Some d" "unat (A - range_start cfg) + length xs \<le> length d" "length d \<le> 2 ^ 64"
    and "pmem m' = Some (overlay (unat (A - range_start cfg)) xs d)"
  shows "mem_bytes cfg m' = store A xs (mem_bytes cfg m)"
proof
  fix x
  define h y where "h = A - range_start cfg" and "y = x - range_start cfg"
  have xa: "x - A = y - h" by (simp add: h_def y_def)
  have sub: "unat (y - h) = (if unat h \<le> unat y then unat y - unat h else unat y + 2 ^ 64 - unat h)"
    by (simp add: unat_sub_if' word_le_nat_alt)
  have "unat (y - h) < length xs \<longleftrightarrow> unat h \<le> unat y \<and> unat y < unat h + length xs"
    unfolding sub using assms(2,3) by (auto simp: h_def [symmetric])
  then show "mem_bytes cfg m' x = store A xs (mem_bytes cfg m) x"
    using assms(1,2,4) sub by (auto simp: mem_bytes_def store_def xa h_def [symmetric] y_def [symmetric] overlay_nth)
qed

lemma ready_storage:
  assumes "mem_ready cfg m" "mem_inside cfg G A"
  obtains d where "pmem m = Some d" "length d = unat (range_end cfg - range_start cfg) + 1" "length d \<le> 2 ^ 64"
    "unat (A - range_start cfg) + bsz G \<le> length d" "lockedAddrList m = []"
proof -
  obtain d where d: "pmem m = Some d" "length d = unat (range_end cfg - range_start cfg) + 1" "lockedAddrList m = []"
    using assms(1) by (auto simp: mem_ready_def)
  moreover have "length d \<le> 2 ^ 64" using unsigned_less [of "range_end cfg - range_start cfg", where 'a = nat] d(2) by simp
  ultimately show thesis using that inside_facts(1) [OF assms(2)] by metis
qed

text \<open>The bytes of a packet reach the memory, and those of the memory the packet.\<close>

lemma mem_copies:
  assumes "mem_ready cfg m" "mem_inside cfg G (mp_addr p)" "mp_size p = blkSize G" "mp_data p = Some xs" "length xs = bsz G"
  shows "mem_to_packet cfg p m = Inr (p\<lparr>mp_data := Some (bytes_at (mem_bytes cfg m) (mp_addr p) (bsz G))\<rparr>)"
    "\<exists>d. packet_to_mem cfg p m = Inr (m\<lparr>pmem := Some d\<rparr>) \<and> mem_ready cfg (m\<lparr>pmem := Some d\<rparr>) \<and>
      mem_bytes cfg (m\<lparr>pmem := Some d\<rparr>) = store (mp_addr p) xs (mem_bytes cfg m)"
proof -
  obtain d where d: "pmem m = Some d" "length d = unat (range_end cfg - range_start cfg) + 1" "length d \<le> 2 ^ 64"
    "unat (mp_addr p - range_start cfg) + bsz G \<le> length d" "lockedAddrList m = []"
    by (rule ready_storage [OF assms(1,2)])
  note cp = copy_ops [of p xs "hostAddr cfg p" d, unfolded hostAddr_def assms(3), OF assms(4,5) d(4)]
  show "mem_to_packet cfg p m = Inr (p\<lparr>mp_data := Some (bytes_at (mem_bytes cfg m) (mp_addr p) (bsz G))\<rparr>)"
    using cp(1) mem_read_bytes [OF d(1,4,3)] by (simp add: mem_to_packet_def d(1) hostAddr_def)
  let ?d = "overlay (unat (mp_addr p - range_start cfg)) xs d"
  have "mem_bytes cfg (m\<lparr>pmem := Some ?d\<rparr>) = store (mp_addr p) xs (mem_bytes cfg m)"
    by (rule mem_write_bytes [OF d(1) _ d(3)]) (use d(4) assms(5) in simp_all)
  moreover have "mem_ready cfg (m\<lparr>pmem := Some ?d\<rparr>)" using d(2,4,5) assms(5) by (simp add: mem_ready_def)
  ultimately show "\<exists>d. packet_to_mem cfg p m = Inr (m\<lparr>pmem := Some d\<rparr>) \<and> mem_ready cfg (m\<lparr>pmem := Some d\<rparr>) \<and>
      mem_bytes cfg (m\<lparr>pmem := Some d\<rparr>) = store (mp_addr p) xs (mem_bytes cfg m)"
    using cp(2) by (intro exI [of _ ?d]) (simp add: packet_to_mem_def d(1) hostAddr_def)
qed

interpretation sm: backing "SimpleMemory_recvAtomic atomicOp mcfg latency" "mem_bytes mcfg" "mem_ready mcfg" G "mem_inside mcfg G"
proof unfold_locales
  fix m and p :: mem_packet
  assume m: "mem_ready mcfg m" and p: "line_read G (mem_inside mcfg G) p"
  then obtain xs where "mp_data p = Some xs" "length xs = bsz G" by (auto simp: line_read_def)
  with m p have "mem_to_packet mcfg p m = Inr (p\<lparr>mp_data := Some (bytes_at (mem_bytes mcfg m) (mp_addr p) (bsz G))\<rparr>)"
    by (intro mem_copies(1)) (simp_all add: line_read_def)
  moreover have "isSubset (mp_addr p) (mp_addr p + ucast (mp_size p - 1)) mcfg"
    using p inside_facts(2) [of mcfg G "mp_addr p"] by (simp add: line_read_def)
  moreover have "mp_cmd p \<notin> {CleanEvict, WritebackClean, SwapReq}" "isRead (mp_cmd p)" "\<not> isWrite (mp_cmd p)" "\<not> isLLSC (mp_cmd p)"
    "needsResponse (mp_cmd p)" "isRequest (mp_cmd p)" "\<not> mp_cacheResponding p"
    using p by (auto simp: line_read_def cmd_tests)
  ultimately show "\<exists>t m'. SimpleMemory_recvAtomic atomicOp mcfg latency p m = Inr (t, p\<lparr>mp_cmd := responseCommand (mp_cmd p),
      mp_data := Some (bytes_at (mem_bytes mcfg m) (mp_addr p) (bsz G))\<rparr>, m') \<and> mem_ready mcfg m' \<and> mem_bytes mcfg m' = mem_bytes mcfg m"
    using m by (simp add: SimpleMemory_recvAtomic_def AbstractMemory_access_def makeResponse_def)
next
  fix m and p :: mem_packet
  assume m: "mem_ready mcfg m" and p: "line_invalidate G (mem_inside mcfg G) p"
  have "isSubset (mp_addr p) (mp_addr p + ucast (mp_size p - 1)) mcfg"
    using p inside_facts(2) [of mcfg G "mp_addr p"] by (simp add: line_invalidate_def)
  with m p show "\<exists>t m'. SimpleMemory_recvAtomic atomicOp mcfg latency p m = Inr (t, p\<lparr>mp_cmd := InvalidateResp\<rparr>, m') \<and>
      mem_ready mcfg m' \<and> mem_bytes mcfg m' = mem_bytes mcfg m"
    by (simp add: SimpleMemory_recvAtomic_def AbstractMemory_access_def makeResponse_def line_invalidate_def cmd_tests)
next
  fix m w
  assume m: "mem_ready mcfg m" and w: "wb_ok G (mem_inside mcfg G) w"
  let ?p = "evict_packet (blkSize G) w"
  show "\<exists>t p m'. SimpleMemory_recvAtomic atomicOp mcfg latency ?p m = Inr (t, p, m') \<and> mem_ready mcfg m' \<and>
      mem_bytes mcfg m' = wb_store w (mem_bytes mcfg m)"
  proof (cases "wb_cmd w = WritebackDirty")
    case True
    obtain xs where xs: "wb_data w = Some xs" "length xs = bsz G" using w True by (auto simp: wb_ok_def)
    have f: "mp_cmd ?p = WritebackDirty" "mp_addr ?p = wb_addr w" "mp_size ?p = blkSize G" "mp_data ?p = Some xs"
      "\<not> mp_cacheResponding ?p" "\<not> isInstFetch (mp_req ?p)"
      by (simp_all add: evict_packet_def True xs isInstFetch_def flag_set_def)
    have lk: "lockedAddrList m = []" using m by (simp add: mem_ready_def)
    have m1: "m\<lparr>lockedAddrList := []\<rparr> = m" using lk by (cases m) simp
    obtain d where d: "packet_to_mem mcfg ?p m = Inr (m\<lparr>pmem := Some d\<rparr>)" "mem_ready mcfg (m\<lparr>pmem := Some d\<rparr>)"
      "mem_bytes mcfg (m\<lparr>pmem := Some d\<rparr>) = store (wb_addr w) xs (mem_bytes mcfg m)"
      using mem_copies(2) [OF m, of G ?p xs] f w xs by (auto simp: wb_ok_def)
    have sub: "isSubset (wb_addr w) (wb_addr w + ucast (blkSize G - 1)) mcfg"
      using inside_facts(2) [of mcfg G "wb_addr w"] w by (simp add: wb_ok_def)
    have ok: "writeOK (lock_view ?p) [] = Inr (True, lock_view ?p, [], [])"
      using f(1) by (simp add: writeOK_def lock_view_def cmd_tests)
    have "pkt_req (lock_view ?p) = mp_req ?p" by (simp add: lock_view_def)
    then have "SimpleMemory_recvAtomic atomicOp mcfg latency ?p m = Inr (latency, ?p, m\<lparr>pmem := Some d\<rparr>)"
      using f sub lk ok d(1)
      by (simp add: SimpleMemory_recvAtomic_def AbstractMemory_access_def Let_def cmd_tests m1)
    then show ?thesis using d True xs by (simp add: wb_store_def)
  next
    case False
    then have "mp_cmd ?p = CleanEvict \<or> mp_cmd ?p = WritebackClean" "\<not> mp_cacheResponding ?p"
      using w by (auto simp: wb_ok_def evict_packet_def)
    then show ?thesis using False m by (simp add: SimpleMemory_recvAtomic_def AbstractMemory_access_def wb_store_def)
  qed
qed

section \<open>Flushing into the memory\<close>

text \<open>The packet of a functional write; the memory has no responses queued in atomic mode.\<close>

definition func_packet :: "u32 \<Rightarrow> func_write \<Rightarrow> mem_packet" where
  "func_packet bs w =
     \<lparr>mp_cmd = WriteReq,
      mp_req = \<lparr>req_paddr = Some (fw_addr w), req_size = Some bs, req_contextId = None, req_masterId = 1,
        req_flags = (if fw_secure w then SECURE else 0), req_taskId = fw_taskId w, req_extraData = None\<rparr>,
      mp_addr = fw_addr w, mp_isSecure = fw_secure w, mp_size = bs, mp_data = Some (fw_data w), mp_hasSharers = False,
      mp_cacheResponding = False, mp_responderHadWritable = False, mp_blockCached = False, mp_payloadDelay = 0\<rparr>"

fun func_writes :: "mem_cfg \<Rightarrow> u32 \<Rightarrow> func_write list \<Rightarrow> mem_state \<Rightarrow> mem_state res" where
  "func_writes cfg bs [] m = Inr m"
| "func_writes cfg bs (w # ws) m = bindE (AbstractMemory_functionalAccess cfg (func_packet bs w) m) (\<lambda>(_, m). func_writes cfg bs ws m)"

lemma func_writes_store:
  assumes "mem_ready cfg m" "\<forall>w\<in>set ws. mem_inside cfg G (fw_addr w) \<and> length (fw_data w) = bsz G"
  shows "\<exists>m'. func_writes cfg (blkSize G) ws m = Inr m' \<and> mem_bytes cfg m' = fold (\<lambda>w. store (fw_addr w) (fw_data w)) ws (mem_bytes cfg m)"
  using assms
proof (induction ws arbitrary: m)
  case (Cons w ws)
  let ?p = "func_packet (blkSize G) w"
  have f: "mp_addr ?p = fw_addr w" "mp_size ?p = blkSize G" "mp_data ?p = Some (fw_data w)" "mp_cmd ?p = WriteReq"
    by (simp_all add: func_packet_def)
  obtain d where d: "packet_to_mem cfg ?p m = Inr (m\<lparr>pmem := Some d\<rparr>)" "mem_ready cfg (m\<lparr>pmem := Some d\<rparr>)"
    "mem_bytes cfg (m\<lparr>pmem := Some d\<rparr>) = store (fw_addr w) (fw_data w) (mem_bytes cfg m)"
    using mem_copies(2) [OF Cons.prems(1), of G ?p "fw_data w"] f Cons.prems(2) by auto
  have "isSubset (fw_addr w) (fw_addr w + ucast (blkSize G) - 1) cfg" using inside_facts(3) Cons.prems(2) by simp
  with d(1) f have "\<exists>r. AbstractMemory_functionalAccess cfg ?p m = Inr (r, m\<lparr>pmem := Some d\<rparr>)"
    by (simp add: AbstractMemory_functionalAccess_def makeResponse_def cmd_tests)
  with Cons.IH [OF d(2)] Cons.prems(2) d(3) show ?case by auto
qed simp

lemma stores_bytes:
  assumes "sys_ok cfg G sec inside c M" "\<forall>i\<in>set ps. i < length (blks (ctags c)) \<and> vld (ctags c) i" "distinct ps" "blkAlign G B = B"
  shows "bytes_at (fold (\<lambda>w. store (fw_addr w) (fw_data w)) (map (flushed c) ps) M) B (bsz G) =
    (if \<exists>i\<in>set ps. holds (ctags c) (B, sec) i then line_bytes G sec c M B else bytes_at M B (bsz G))"
  using assms(2,3)
proof (induction ps rule: rev_induct)
  case (snoc i ps)
  let ?ts = "ctags c" and ?N = "fold (\<lambda>w. store (fw_addr w) (fw_data w)) (map (flushed c) ps) M"
  note s = sys_okD [OF assms(1)]
  have i: "i < length (blks ?ts)" "vld ?ts i" using snoc.prems by auto
  define V where "V = fst (line_at ?ts i)"
  have l: "line_at ?ts i = (V, sec)" "length (cdata c ! i) = bsz G"
    using s(7) [OF i(1)] i(2) s(4) by (simp_all add: V_def line_ok_def line_def)
  have h: "holds ?ts (V, sec) i" using i l by (simp add: holds_def)
  have al: "blkAlign G V = V" using line_is_aligned [OF s(2) i] s(4) by (simp add: V_def)
  have "flushed c i = \<lparr>fw_addr = V, fw_secure = False, fw_taskId = blk_task_id (blks ?ts ! i), fw_data = cdata c ! i\<rparr>"
    by (simp add: flushed_def V_def)
  then have "bytes_at (fold (\<lambda>w. store (fw_addr w) (fw_data w)) (map (flushed c) (ps @ [i])) M) B (bsz G) =
      (if V = B then cdata c ! i else bytes_at ?N B (bsz G))"
    using bytes_store [OF s(5) al assms(4) l(2), of ?N] by simp
  moreover have "holds ?ts (B, sec) i \<longleftrightarrow> V = B" using i l by (auto simp: holds_def)
  moreover have "line_bytes G sec c M V = cdata c ! i" by (rule sys_line(1) [OF assms(1) h])
  ultimately show ?case using snoc.IH snoc.prems by auto
qed simp

lemma flush_view:
  assumes sys: "sys_ok cfg G sec inside c M"
  shows "\<exists>ws c'. memWriteback c = Inr (ws, c') \<and> (\<forall>w\<in>set ws. inside (fw_addr w) \<and> length (fw_data w) = bsz G) \<and>
    fold (\<lambda>w. store (fw_addr w) (fw_data w)) ws M = view G sec c M"
proof -
  let ?ts = "ctags c"
  note s = sys_okD [OF sys]
  define ps where "ps = filter (\<lambda>i. isDirty (blks ?ts ! i)) [0..<length (blks ?ts)]"
  have ps: "\<forall>i\<in>set ps. i < length (blks ?ts) \<and> vld ?ts i" "distinct ps" using dirty_valid [OF s(2)] by (auto simp: ps_def)
  let ?N = "fold (\<lambda>w. store (fw_addr w) (fw_data w)) (map (flushed c) ps) M"
  obtain ts where "visit writebackVisitor [0..<length (blks ?ts)] ([], c) = Inr ([] @ map (flushed c) ps, c\<lparr>ctags := ts\<rparr>)"
    using visit_writeback [OF s(1), of "[0..<length (blks ?ts)]" "[]"] unfolding ps_def by auto
  then have "memWriteback c = Inr (map (flushed c) ps, c\<lparr>ctags := ts\<rparr>)" by (simp add: memWriteback_def)
  moreover have "\<forall>w\<in>set (map (flushed c) ps). inside (fw_addr w) \<and> length (fw_data w) = bsz G"
    using ps(1) s(4,7) by (auto simp: flushed_def line_ok_def)
  moreover have "?N = view G sec c M"
  proof
    fix x
    let ?A = "blkAlign G x"
    note al = align_fields(3) [OF s(5), of x]
    have lb: "bytes_at ?N ?A (bsz G) = line_bytes G sec c M ?A"
    proof (cases "\<exists>i. holds ?ts (?A, sec) i")
      case True
      then obtain i where i: "holds ?ts (?A, sec) i" ..
      note l = holds_line [OF sys i]
      have "line_bytes G sec c M ?A = bytes_at M ?A (bsz G)" if "i \<notin> set ps"
        using that l sys_line(1) [OF sys i] by (auto simp: ps_def line_ok_def)
      with stores_bytes [OF sys ps al] i show ?thesis by auto
    next
      case False
      with stores_bytes [OF sys ps al] sys_line(2) [OF sys] show ?thesis by auto
    qed
    have "unat (x - ?A) < bsz G" using in_line [OF s(5) al, of x] by simp
    then have "?N x = bytes_at ?N ?A (bsz G) ! unat (x - ?A)" by simp
    then show "?N x = view G sec c M x" by (simp add: view_def lb)
  qed
  ultimately show ?thesis by blast
qed

section \<open>The empty cache\<close>

lemma empty_sys:
  assumes "BaseSetAssoc_new prm (cenv cfg) = Inr (ctags c)" "length (cdata c) = length (blks (ctags c))"
    and "\<forall>d\<in>set (cdata c). length d = bsz (geom (ctags c))"
  shows "sys_ok cfg (geom (ctags c)) sec inside c M" "view (geom (ctags c)) sec c M = M"
proof -
  let ?G = "geom (ctags c)"
  note new = constructor_inv [OF assms(1)]
  have none: "\<not> holds (ctags c) k i" for k i
  proof
    assume h: "holds (ctags c) k i"
    then have "home (ctags c) i < length (sets (ctags c))" using home_facts(1) [OF new(1)] by (simp add: holds_def)
    with lines_mem [OF new(1)] new(3) h show False by fastforce
  qed
  then have "\<not> vld (ctags c) i" if "i < length (blks (ctags c))" for i
    using that none [of "line_at (ctags c) i" i] by (simp add: holds_def)
  then show sys: "sys_ok cfg ?G sec inside c M" using new(1,2) assms(2,3) by (simp add: sys_ok_def cache_inv_def line_ok_def)
  show "view ?G sec c M = M"
  proof
    fix x
    note wf = sys_okD(5) [OF sys]
    have "unat (x - blkAlign ?G x) < bsz ?G" using in_line [OF wf align_fields(3) [OF wf, of x], of x] by simp
    then show "view ?G sec c M x = M x" using sys_line(2) [OF sys] none by (simp add: view_def)
  qed
qed

section \<open>Transparency\<close>

text \<open>An empty cache over a memory with storage.\<close>

definition fresh :: "tag_params \<Rightarrow> atomic_cfg \<Rightarrow> mem_cfg \<Rightarrow> mem_state atomic_state \<Rightarrow> bool" where
  "fresh prm cfg mcfg s \<longleftrightarrow> (let c = cst (actl s) in
     BaseSetAssoc_new prm (cenv (acache cfg)) = Inr (ctags c) \<and> length (cdata c) = length (blks (ctags c)) \<and>
     (\<forall>d\<in>set (cdata c). length d = bsz (geom (ctags c))) \<and> mem_ready mcfg (below s))"

lemma fresh_run:
  assumes "fresh prm cfg mcfg s" "cfg_ok cfg" "\<forall>p. snoop p = p"
    "list_all (req_ok cfg (geom (ctags (cst (actl s)))) sec (mem_inside mcfg (geom (ctags (cst (actl s)))))) ps"
  shows "\<exists>rs s'. run_atomic cfg (SimpleMemory_recvAtomic atomicOp mcfg latency) snoop junk ps s = Inr (rs, s') \<and>
    flat_served ps rs (mem_bytes mcfg (below s)) \<and>
    (\<exists>ws c' m. memWriteback (cst (actl s')) = Inr (ws, c') \<and>
      func_writes mcfg (blkSize (geom (ctags (cst (actl s))))) ws (below s') = Inr m \<and>
      mem_bytes mcfg m = flat_after ps rs (mem_bytes mcfg (below s)))"
proof -
  let ?G = "geom (ctags (cst (actl s)))" and ?M = "mem_bytes mcfg (below s)" and ?in = "mem_inside mcfg (geom (ctags (cst (actl s))))"
  have new: "BaseSetAssoc_new prm (cenv (acache cfg)) = Inr (ctags (cst (actl s)))"
    "length (cdata (cst (actl s))) = length (blks (ctags (cst (actl s))))" "\<forall>d\<in>set (cdata (cst (actl s))). length d = bsz ?G"
    "mem_ready mcfg (below s)"
    using assms(1) by (simp_all add: fresh_def Let_def)
  note e = empty_sys(1) [where inside = ?in and sec = sec and M = ?M, OF new(1-3)] empty_sys(2) [where sec = sec and M = ?M, OF new(1-3)]
  obtain rs s' where run: "run_atomic cfg (SimpleMemory_recvAtomic atomicOp mcfg latency) snoop junk ps s = Inr (rs, s')"
    and s': "sys_ok (acache cfg) ?G sec ?in (cst (actl s')) (mem_bytes mcfg (below s'))" "mem_ready mcfg (below s')"
    and flat: "flat_served ps rs ?M" "view ?G sec (cst (actl s')) (mem_bytes mcfg (below s')) = flat_after ps rs ?M"
    using sm.run [OF e(1) new(4) assms(2) _ assms(4), of snoop atomicOp latency junk] assms(3) unfolding e(2) by blast
  obtain ws c' where fl: "memWriteback (cst (actl s')) = Inr (ws, c')"
    "\<forall>w\<in>set ws. ?in (fw_addr w) \<and> length (fw_data w) = bsz ?G"
    "fold (\<lambda>w. store (fw_addr w) (fw_data w)) ws (mem_bytes mcfg (below s')) = flat_after ps rs ?M"
    using flush_view [OF s'(1)] flat(2) by auto
  obtain m where "func_writes mcfg (blkSize ?G) ws (below s') = Inr m" "mem_bytes mcfg m = flat_after ps rs ?M"
    using func_writes_store [OF s'(2) fl(2)] fl(3) by auto
  with run flat(1) fl(1) show ?thesis by blast
qed

definition demo_acfg :: atomic_cfg where
  "demo_acfg = \<lparr>acache = demo_cfg, doFastWrites = True, forwardSnoops = False, bypassCaches = False\<rparr>"

definition demo_mcfg :: mem_cfg where
  "demo_mcfg = \<lparr>range_start = 0, range_end = 0xFFF\<rparr>"

definition demo_system :: "mem_state atomic_state" where
  "demo_system = \<lparr>actl = \<lparr>cst = demo_cache, cstats = \<lparr>hits = \<lambda>_ _. 0, misses = \<lambda>_ _. 0, missCount = 0, maxMissReached = False\<rparr>\<rparr>,
     tempBlockWriteback = None, below = \<lparr>pmem = Some (replicate 4096 7), lockedAddrList = [], wokenContexts = []\<rparr>\<rparr>"

definition demo_req :: "mem_cmd \<Rightarrow> u64 \<Rightarrow> u8 list \<Rightarrow> mem_packet" where
  "demo_req cmd addr d = \<lparr>mp_cmd = cmd, mp_req = Request_phys addr (of_nat (length d)) 0 1 0, mp_addr = addr, mp_isSecure = False,
     mp_size = of_nat (length d), mp_data = Some d, mp_hasSharers = False, mp_cacheResponding = False,
     mp_responderHadWritable = False, mp_blockCached = False, mp_payloadDelay = 0\<rparr>"

text \<open>The writes and reads replace the line that was written first.\<close>

definition demo_reqs :: "mem_packet list" where
  "demo_reqs = [demo_req WriteReq 0x104 [1, 2, 3, 4], demo_req ReadReq 0x200 [0, 0], demo_req ReadReq 0x300 [0, 0],
     demo_req ReadReq 0x100 (replicate 8 0)]"

lemma demo_fresh: "fresh demo_params demo_acfg demo_mcfg demo_system" "cfg_ok demo_acfg"
  using demo_tags
  by (simp_all add: fresh_def cfg_ok_def demo_acfg_def demo_system_def demo_cache_def demo_cfg_def demo_env_def mem_ready_def
      demo_mcfg_def demo_geom_def)

lemma demo_reqs_ok: "list_all (req_ok demo_acfg demo_geom False (mem_inside demo_mcfg demo_geom)) demo_reqs"
  by (simp add: demo_reqs_def demo_req_def req_ok_def cpu_ok_def cpu_cmd_def allocOnFill_def demo_acfg_def demo_cfg_def demo_env_def
      demo_geom_def demo_mcfg_def mem_inside_def blkAlign_def Request_phys_def isSecure_req_def isUncacheable_def flag_set_def cmd_tests)

lemma flat_served_iff:
  "flat_served (p # ps) rs V \<longleftrightarrow> (\<exists>r rs'. rs = r # rs' \<and> flat_answer p r V \<and> flat_served ps rs' (flat_effect p r V))"
  "flat_served [] rs V \<longleftrightarrow> rs = []"
  by (cases rs; simp)+

lemma demo_effects:
  "flat_effect (demo_req WriteReq a d) r V = store a d V" "flat_effect (demo_req ReadReq a d) r V = V"
  by (simp_all add: flat_effect_def cpu_writes_def demo_req_def cmd_tests)

lemma demo_bytes:
  "bytes_at (store 0x104 [1, 2, 3, 4] (mem_bytes demo_mcfg (below demo_system))) 0x100 8 = [7, 7, 7, 7, 1, 2, 3, 4]"
  by (simp add: bytes_at_def upt_rec store_def mem_bytes_def demo_mcfg_def demo_system_def unsigned_minus_1_eq_mask
      mask_eq_exp_minus_1)

lemma demo_flat:
  assumes "flat_served demo_reqs rs (mem_bytes demo_mcfg (below demo_system))"
  shows "\<exists>r1 r2 r3 r4. rs = [r1, r2, r3, r4] \<and> mp_data r4 = Some [7, 7, 7, 7, 1, 2, 3, 4]"
proof -
  obtain r1 r2 r3 r4 where "rs = [r1, r2, r3, r4]"
    "flat_answer (demo_req ReadReq 0x100 (replicate 8 0)) r4 (store 0x104 [1, 2, 3, 4] (mem_bytes demo_mcfg (below demo_system)))"
    using assms unfolding demo_reqs_def flat_served_iff demo_effects by blast
  then show ?thesis by (simp add: flat_answer_def demo_req_def cmd_tests demo_bytes)
qed

text \<open>
  C50: an empty cache in atomic mode over a memory answers any sequence of reads, writes, load-linked and
  store-conditional accesses and swaps of one memory space as a flat memory with the initial bytes would:
  no request fails an assertion, each response has the command, address and size the request asks for, a read
  gets the bytes that the writes before it have left, whatever has been filled, replaced and written back in
  between. A store conditional writes exactly when its response says so, a compare-and-swap when the bytes are
  those it expects. Writing the cache back afterwards leaves exactly the bytes of the flat memory in the
  memory.
\<close>

theorem cache_transparent:
  assumes "fresh prm cfg mcfg s" "cfg_ok cfg" "\<forall>p. snoop p = p"
    "list_all (req_ok cfg (geom (ctags (cst (actl s)))) sec (mem_inside mcfg (geom (ctags (cst (actl s)))))) ps"
  shows "\<exists>rs s'. run_atomic cfg (SimpleMemory_recvAtomic atomicOp mcfg latency) snoop junk ps s = Inr (rs, s') \<and>
    flat_served ps rs (mem_bytes mcfg (below s)) \<and>
    (\<exists>ws c' m. memWriteback (cst (actl s')) = Inr (ws, c') \<and>
      func_writes mcfg (blkSize (geom (ctags (cst (actl s))))) ws (below s') = Inr m \<and>
      mem_bytes mcfg m = flat_after ps rs (mem_bytes mcfg (below s)))"
  by (rule fresh_run [OF assms])

theorem cache_transparent_witness:
  "\<exists>r1 r2 r3 r4 s' ws c' m. run_atomic demo_acfg (SimpleMemory_recvAtomic id demo_mcfg 10) id (\<lambda>_. 0) demo_reqs demo_system =
      Inr ([r1, r2, r3, r4], s') \<and> mp_data r4 = Some [7, 7, 7, 7, 1, 2, 3, 4] \<and>
    memWriteback (cst (actl s')) = Inr (ws, c') \<and> func_writes demo_mcfg 64 ws (below s') = Inr m \<and>
    bytes_at (mem_bytes demo_mcfg m) 0x100 8 = [7, 7, 7, 7, 1, 2, 3, 4]"
proof -
  have G: "geom (ctags (cst (actl demo_system))) = demo_geom" "blkSize demo_geom = 64"
    by (simp_all add: demo_system_def demo_cache_def demo_tags(2) demo_geom_def)
  from cache_transparent [OF demo_fresh, of id False demo_reqs id 10 "\<lambda>_. 0"] demo_reqs_ok
  obtain rs s' ws c' m where run: "run_atomic demo_acfg (SimpleMemory_recvAtomic id demo_mcfg 10) id (\<lambda>_. 0) demo_reqs demo_system = Inr (rs, s')"
    and "flat_served demo_reqs rs (mem_bytes demo_mcfg (below demo_system))"
    and m: "memWriteback (cst (actl s')) = Inr (ws, c')" "func_writes demo_mcfg 64 ws (below s') = Inr m"
      "mem_bytes demo_mcfg m = flat_after demo_reqs rs (mem_bytes demo_mcfg (below demo_system))" unfolding G by auto
  then obtain r1 r2 r3 r4 where rs: "rs = [r1, r2, r3, r4]" "mp_data r4 = Some [7, 7, 7, 7, 1, 2, 3, 4]" using demo_flat by blast
  then have "mem_bytes demo_mcfg m = store 0x104 [1, 2, 3, 4] (mem_bytes demo_mcfg (below demo_system))"
    using m(3) by (simp add: demo_reqs_def demo_effects)
  with run m(1,2) rs demo_bytes show ?thesis by metis
qed

end
