(* ===== verification/Spec2Isabelle.thy ===== *)
theory Spec2Isabelle
  imports Guardian_Kernels Sanitizer Shadow_Stack Bit_Counting Bloom_Hashed Speculation Branch_Targets Arch_Registers Random_Victim Cache_Memory
begin

text \<open>
  A verification library for the Guardian Council simulator: a gem5 tree (\<open>gem5-guardian\<close>) whose main
  core logs committed instructions into hardware queues that small cores read, the kernels those
  cores run (\<open>guardian_kernels\<close>), and a benchmark (\<open>bitcount\<close>).

  \<^bold>\<open>The program.\<close> At commit the out-of-order core (\<open>cpu/o3/commit_impl.hh\<close>) builds log entries for memory
  accesses, calls, indirect branches and returns and gives them to the filter in
  \<open>mem/cache/securelogentry.hh\<close>. The filter passes accepted entries to the mapper, which puts them into
  the queue of one of twelve cores as \<open>secmap.ini\<close> says. A queue that fills up pauses the writer, a queue
  that runs empty pauses its reader. Pseudo instructions (\<open>sim/pseudo_inst.cc\<close>) let a kernel pop entries,
  send messages and read configuration. Around this path the library models parts of the core that runs
  it: register renaming, branch prediction and the return address stack, the caches with their replacement
  policies, the reservations behind load-linked and store-conditional instructions, the address filters
  of Ruby and the integer arithmetic they use.

  \<^bold>\<open>Conventions.\<close> \<open>Guardian_Prelude\<close> has the machine types (\<open>uint64_t\<close> is \<open>64 word\<close>, and so on), the faults a
  statement can end in and sequencing: a fallible operation returns \<open>fault + 'a\<close>, and a failed assertion,
  an access outside an array, an undefined shift, a division by zero, a call of \<open>panic\<close> or \<open>fatal\<close> and a
  loop that never ends are values of \<open>fault\<close>. State is a record that an operation takes and returns. Loops
  are structural recursion, recursion with a measure, or \<open>partial_function (option)\<close> where the loop of the
  source may not end; no fuel is used anywhere. Definitions bear the names of the source, with the class
  as a prefix where two classes share a name. Code that is an argument of a definition (the program
  counter type of the instruction set, the flattening of register numbers, the contents of uninitialised
  memory, the pointer an allocator returns) is named in the theory that has it.

  \<^bold>\<open>The log.\<close> \<open>Delay_Histogram\<close> models \<open>histoEntry\<close>, \<open>addToHisto\<close> and \<open>printHisto\<close>, and shows that any recorded
  delays give the reference histogram and when an index leaves the array. \<open>Secure_Log\<close> has the static
  members of \<open>securelogentry\<close> as one record and its operations: the rings, pausing, the filter, both
  mappers, \<open>getNextCore\<close>, the message operations. \<open>Queue_Interface\<close> states what a bounded queue promises as a
  locale; \<open>Log_Pausing\<close> interprets it on the rings and proves what every operation keeps of the pausing
  discipline. \<open>Secmap_Config\<close> models the loader of \<open>secmap.ini\<close>: printing and loading a configuration is the
  identity, and an unterminated file makes it loop. \<open>Log_Mapping\<close> shows the invariant of all reachable log
  states by rule induction, the choice of \<open>getNextCore\<close>, and that a paused main core runs again once its
  queue has been popped. \<open>Log_Delivery\<close> proves that commits and pops in any interleaving refine one
  unbounded queue per core. \<open>Guardian_Commit\<close> models the hooks of the commit stage, the loop that decides
  whether an instruction commits, the pseudo instructions and the final report.

  \<^bold>\<open>The kernels.\<close> \<open>Shadow_Stack\<close> models the parallel shadow stack: the combining core is confluent, nested calls
  stay local to a filtering core, and its messages lose their type. \<open>Guardian_Kernels\<close> models the
  control-flow, performance counter and rowhammer kernels; \<open>Sanitizer\<close> the shadow memory that the checking
  allocator marks and the checker kernel reads. \<open>Bit_Counting\<close> models the eight counters of the benchmark and
  compares them with the number of set bits.

  \<^bold>\<open>The core.\<close> \<open>Register_File\<close> models the physical registers, free lists and scoreboard, \<open>Rename_Map\<close> the rename
  maps, the renaming, undoing and retiring of mappings, the commit map, the initial mapping and
  architectural register access. \<open>Rename_History\<close> and \<open>Renaming\<close> show what each operation does to the
  registers that free lists and threads hold together. \<open>Rename_Pipeline\<close> is the step relation of renaming,
  commit, retirement, squash and writeback over any number of threads with its invariant. \<open>Precise_State\<close>
  and \<open>Arch_Registers\<close> state the guarantees for all states reachable from the constructor. \<open>Branch_Pred\<close> models
  the saturating counters and three direction predictors, \<open>Speculation\<close> the contract of a predictor with
  speculative history, as a locale interpreted on the bi-mode and the tournament predictor, and
  \<open>Branch_Targets\<close> the return address stack and the branch target buffer.

  \<^bold>\<open>The memory system.\<close> \<open>Cache_Block\<close> models a block of a cache with its status bits and its list of load-linked
  ranges (\<open>mem/cache/blk.hh\<close>), and the fields of requests and packets it reads. \<open>Exclusive_Monitor\<close> is the
  contract of a reservation as a locale with its guarantee for any sequence of accesses of any number of
  contexts, interpreted on cache blocks; \<open>Memory_Locks\<close> models the reservations of a memory without caches
  (\<open>mem/abstract_mem\<close>), interprets the contract on them and has the statements of both. \<open>Cache_Tags\<close> models the
  sets in recency order, the set-associative tag store and the two replacement policies
  (\<open>mem/cache/tags\<close>), \<open>Cache_Geometry\<close> the fields of an address, \<open>Cache_Fill\<close> the allocation, fill,
  eviction, invalidation and flush of a cache (\<open>mem/cache/cache.cc\<close>) with outstanding misses and write
  buffer as arguments. \<open>Cache_Invariant\<close> has the invariant of a tag store (a block belongs to one set, a line
  is in one block, empty blocks come last) and the effect of each operation, \<open>Cache_Correct\<close> that of a fill,
  \<open>Cache_Refinement\<close> and \<open>Cache_Guarantees\<close> the simulation by one recency list per set and the contents of a
  cache, \<open>Cache_Claims\<close> the statements. \<open>Random_Victim\<close> shows that the search of random replacement ends.

  \<^bold>\<open>Requests.\<close> \<open>Packet_Commands\<close> has the commands of \<open>mem/packet\<close> with the table of their attributes, and packets
  with their constructors and data copies. \<open>Memory_Access\<close> models the accesses to a memory
  (\<open>mem/abstract_mem.cc\<close>, \<open>mem/simple_mem.cc\<close>), \<open>Cache_Access\<close> the requests a cache serves from its blocks and
  \<open>Cache_Atomic\<close> its \<open>recvAtomic\<close> with the misses, fills and writebacks a request causes; the level below is an
  argument, and so are the caches above. \<open>Cache_Bytes\<close> has the bytes that a cache and the memory below hold
  together, as one function of the address.

  \<^bold>\<open>Filters and arithmetic.\<close> \<open>Int_Math\<close> models \<open>base/intmath.hh\<close>, \<open>Ruby_Address\<close> the bit fields of addresses,
  \<open>Bloom_Base\<close> the loops the filters share and the locale of a filter without false negatives,
  \<open>Bloom_Filters\<close> and \<open>Bloom_Hashed\<close> the seven filter classes, with the locale interpreted on each that
  keeps its promise.

  \<^bold>\<open>Not modelled.\<close> The rest of gem5 is the machine the modelled code runs on and is unchanged by the Guardian
  work: fetch, decode, issue and the load-store queue, other processors and instruction sets, a cache in
  timing mode with its queues and snoops (the atomic mode is modelled), the fully associative tag store, coherence protocols, memory
  controllers, devices, the event queue, the Python layer. Its behaviour is spread over events and ports,
  so a model of a part needs the order in which the event queue runs all others.
  \<open>mem/cache/loadstorelogentry\<close> is not used by any compiled code. The allocator under the checking wrappers
  is a third-party allocator of which the model uses the returned pointer only. Printing, timing and debug
  output are left out, as are the scripts and plots.
\<close>

end
